(* ===== verification/Prelude.thy ===== *)
theory Prelude
  imports Complex_Main "HOL-Library.Word"
begin

text \<open>
  Shared base of the development: the ways a C function can fail to return, the result
  type that carries them, bounds-checked array accesses, the C integer limits, and the
  generic lemmas on lists, powers of two and words that the component theories use.
\<close>

unbundle bit_operations_syntax

named_theorems c_mem \<open>results of array reads and writes that are in range\<close>
named_theorems pow2_mask \<open>masking with a power of two minus one\<close>

section \<open>Results of C functions\<close>

text \<open>
  \<open>OutOfBounds\<close>: an access outside an array or block; \<open>NullDeref\<close>: a null pointer is
  followed; \<open>SignedOverflow\<close>: a signed operation leaves its type; \<open>ShiftTooWide\<close>: a shift
  count not below the width; \<open>AssertionFailed\<close>: a failing \<open>assert\<close>; \<open>Exit n\<close>: the process
  calls \<open>exit(n)\<close>; \<open>NoReturn\<close>: a loop that never ends; \<open>BadCast\<close>: a \<open>void *\<close> is used as
  a pointer to another struct than the one it points to; \<open>Uninitialised\<close>: a field is used that was never set.
\<close>

datatype c_error =
    OutOfBounds
  | NullDeref
  | SignedOverflow
  | ShiftTooWide
  | AssertionFailed
  | Exit int
  | NoReturn
  | BadCast
  | Uninitialised

type_synonym 'a c_res = "c_error + 'a"

type_synonym byte = "8 word"

definition c_bind :: "'a c_res \<Rightarrow> ('a \<Rightarrow> 'b c_res) \<Rightarrow> 'b c_res" where
  "c_bind m f = (case m of Inl e \<Rightarrow> Inl e | Inr a \<Rightarrow> f a)"

lemma c_bind_simps [simp]:
  "c_bind (Inl e) f = Inl e"
  "c_bind (Inr a) f = f a"
  by (simp_all add: c_bind_def)

lemma c_bind_eq_Inr_iff [simp]:
  "c_bind m f = Inr b \<longleftrightarrow> (\<exists>a. m = Inr a \<and> f a = Inr b)"
  by (cases m) simp_all

lemma c_bind_cong [fundef_cong]:
  assumes "m = m'" and "\<And>a. m' = Inr a \<Longrightarrow> f a = f' a"
  shows "c_bind m f = c_bind m' f'"
  using assms by (cases m') simp_all

section \<open>Arrays\<close>

definition c_read :: "'a list \<Rightarrow> int \<Rightarrow> 'a c_res" where
  "c_read xs i = (if 0 \<le> i \<and> i < int (length xs) then Inr (xs ! nat i) else Inl OutOfBounds)"

definition c_write :: "'a list \<Rightarrow> int \<Rightarrow> 'a \<Rightarrow> 'a list c_res" where
  "c_write xs i x =
     (if 0 \<le> i \<and> i < int (length xs) then Inr (xs[nat i := x]) else Inl OutOfBounds)"

lemma c_read_in [c_mem]: "0 \<le> i \<Longrightarrow> i < int (length xs) \<Longrightarrow> c_read xs i = Inr (xs ! nat i)"
  by (simp add: c_read_def)

lemma c_write_in [c_mem]:
  "0 \<le> i \<Longrightarrow> i < int (length xs) \<Longrightarrow> c_write xs i x = Inr (xs[nat i := x])"
  by (simp add: c_write_def)

lemma c_read_Inr_iff:
  "c_read xs i = Inr x \<longleftrightarrow> 0 \<le> i \<and> i < int (length xs) \<and> x = xs ! nat i"
  by (auto simp: c_read_def)

lemma c_write_Inr_iff:
  "c_write xs i x = Inr ys \<longleftrightarrow> 0 \<le> i \<and> i < int (length xs) \<and> ys = xs[nat i := x]"
  by (auto simp: c_write_def)

section \<open>Counting loops\<close>

text \<open>\<^verbatim>\<open>for (i = 0; i < n; i++) body\<close>, the loop state threaded through the body.\<close>

primrec c_for :: "(nat \<Rightarrow> 's \<Rightarrow> 's c_res) \<Rightarrow> nat \<Rightarrow> 's \<Rightarrow> 's c_res" where
  "c_for body 0 s = Inr s"
| "c_for body (Suc n) s = c_bind (c_for body n s) (body n)"

lemma c_for_cong [fundef_cong]:
  assumes "n = n'" and "s = s'" and "\<And>i t. i < n' \<Longrightarrow> b i t = b' i t"
  shows "c_for b n s = c_for b' n' s'"
proof -
  have "m \<le> n' \<Longrightarrow> c_for b m s' = c_for b' m s'" for m
    using assms(3) by (induction m) (auto simp: c_bind_def split: sum.split)
  with assms(1,2) show ?thesis by simp
qed

text \<open>A loop whose states are known in closed form, and one that keeps a predicate.\<close>

lemma c_for_closed:
  assumes "\<And>k. k < n \<Longrightarrow> body k (F k) = Inr (F (Suc k))"
  shows "c_for body n (F 0) = Inr (F n)"
proof -
  have "m \<le> n \<Longrightarrow> c_for body m (F 0) = Inr (F m)" for m
    using assms by (induction m) auto
  then show ?thesis by simp
qed

lemma c_for_inv:
  assumes "P 0 s" and "\<And>k s. k < n \<Longrightarrow> P k s \<Longrightarrow> \<exists>s'. body k s = Inr s' \<and> P (Suc k) s'"
  shows "\<exists>s'. c_for body n s = Inr s' \<and> P n s'"
proof -
  have "m \<le> n \<Longrightarrow> \<exists>s'. c_for body m s = Inr s' \<and> P m s'" for m
    using assms by (induction m) fastforce+
  then show ?thesis by simp
qed

lemma c_for_preserves:
  assumes "c_for body n s = Inr s'" and "P s" and "\<And>k s s'. body k s = Inr s' \<Longrightarrow> P s \<Longrightarrow> P s'"
  shows "P s'"
  using assms(1,2) by (induction n arbitrary: s') (auto dest: assms(3))

text \<open>A list of which the first \<open>k\<close> elements are replaced, the state of an array loop after \<open>k\<close> rounds.\<close>

definition pre_upd :: "nat \<Rightarrow> (nat \<Rightarrow> 'a \<Rightarrow> 'a) \<Rightarrow> 'a list \<Rightarrow> 'a list" where
  "pre_upd k f xs = map (\<lambda>i. if i < k then f i (xs ! i) else xs ! i) [0..<length xs]"

lemma pre_upd_simps [simp]:
  "length (pre_upd k f xs) = length xs"
  "pre_upd 0 f xs = xs"
  "i < length xs \<Longrightarrow> pre_upd k f xs ! i = (if i < k then f i (xs ! i) else xs ! i)"
  by (simp_all add: pre_upd_def map_nth)

lemma pre_upd_Suc: "k < length xs \<Longrightarrow> (pre_upd k f xs)[k := f k (xs ! k)] = pre_upd (Suc k) f xs"
  by (rule nth_equalityI) (auto simp: nth_list_update)

lemma pre_upd_inverse:
  "(\<And>i. i < length xs \<Longrightarrow> i < k \<Longrightarrow> g i (f i (xs ! i)) = xs ! i) \<Longrightarrow> pre_upd k g (pre_upd k f xs) = xs"
  by (rule nth_equalityI) auto

section \<open>C integers\<close>

definition INT_MAX :: int where "INT_MAX = 2147483647"

definition INT_MIN :: int where "INT_MIN = - 2147483648"

definition c_int_ok :: "int \<Rightarrow> bool" where
  "c_int_ok i \<longleftrightarrow> INT_MIN \<le> i \<and> i \<le> INT_MAX"

text \<open>The value of a signed expression, or the overflow.\<close>

definition c_int :: "int \<Rightarrow> int c_res" where
  "c_int i = (if c_int_ok i then Inr i else Inl SignedOverflow)"

lemmas c_int_defs = c_int_def c_int_ok_def INT_MAX_def INT_MIN_def

section \<open>Double precision arithmetic\<close>

text \<open>
  A finite \<open>double\<close> is a rational; an arithmetic operation yields the exact result rounded to
  the nearest rational with a 53-bit significand, ties to the even one.  Overflow to infinity
  and subnormal results do not occur in the code modelled here.
\<close>

fun nlog2 :: "nat \<Rightarrow> nat" where
  "nlog2 n = (if n < 2 then 0 else Suc (nlog2 (n div 2)))"

definition pow2 :: "int \<Rightarrow> rat" where
  "pow2 d = (if 0 \<le> d then 2 ^ nat d else 1 / 2 ^ nat (- d))"

definition ilog2 :: "rat \<Rightarrow> int" where
  "ilog2 q =
     (let (a, b) = quotient_of q; d = int (nlog2 (nat a)) - int (nlog2 (nat b))
      in if pow2 d \<le> q then d else d - 1)"

definition round_even :: "rat \<Rightarrow> int" where
  "round_even q =
     (let f = \<lfloor>q\<rfloor>; d = q - of_int f
      in if d < 1 / 2 then f else if 1 / 2 < d then f + 1 else if even f then f else f + 1)"

definition fl64 :: "rat \<Rightarrow> rat" where
  "fl64 q =
     (if q = 0 then 0
      else let u = pow2 (ilog2 \<bar>q\<bar> - 52) in sgn q * of_int (round_even (\<bar>q\<bar> / u)) * u)"

text \<open>Conversion of a \<open>double\<close> to an integer type drops the fraction.\<close>

definition trunc :: "rat \<Rightarrow> int" where
  "trunc q = (if 0 \<le> q then \<lfloor>q\<rfloor> else - \<lfloor>- q\<rfloor>)"

section \<open>Masks, powers of two and disjoint bits\<close>

lemma and_exp_minus_1 [pow2_mask]: "(i::int) AND (2 ^ k - 1) = i mod 2 ^ k"
  by (simp add: mask_eq_exp_minus_1 [symmetric] take_bit_eq_mask [symmetric] take_bit_int_def)

lemma take_bit_or_shifted:
  fixes val x :: "'w::len word"
  assumes "take_bit s val = val"
  shows "val OR push_bit s x = val + push_bit s x"
proof -
  have "\<not> bit val n \<or> \<not> bit (push_bit s x) n" for n
    using assms by (metis bit_push_bit_iff bit_take_bit_iff not_less)
  then show ?thesis
    by (simp add: disjunctive_add)
qed

section \<open>Lists\<close>

lemma find_cong_set:
  assumes "set xs = set ys"
    and "\<And>x y. x \<in> set xs \<Longrightarrow> y \<in> set xs \<Longrightarrow> P x \<Longrightarrow> P y \<Longrightarrow> x = y"
  shows "find P xs = find P ys"
proof (cases "find P xs")
  case None
  then show ?thesis using assms(1) by (metis find_None_iff)
next
  case (Some x)
  then have x: "x \<in> set xs" "P x" by (auto simp: find_Some_iff)
  then obtain y where y: "find P ys = Some y" using assms(1) by (metis find_None_iff not_None_eq)
  then have "y \<in> set ys" "P y" by (auto simp: find_Some_iff)
  with x y Some assms show ?thesis by (metis)
qed

lemma find_append:
  "find P (xs @ ys) = (case find P xs of None \<Rightarrow> find P ys | Some x \<Rightarrow> Some x)"
  by (induction xs) auto

lemma in_set_concat_nth: "e \<in> set (concat rows) \<longleftrightarrow> (\<exists>j < length rows. e \<in> set (rows ! j))"
  by (metis (no_types, lifting) UN_iff in_set_conv_nth set_concat)

lemma find_concat_row:
  assumes "i < length rows" and "\<And>j e. j < length rows \<Longrightarrow> j \<noteq> i \<Longrightarrow> e \<in> set (rows ! j) \<Longrightarrow> \<not> P e"
  shows "find P (concat rows) = find P (rows ! i)"
  using assms
proof (induction rows arbitrary: i)
  case (Cons r rows)
  show ?case
  proof (cases i)
    case 0
    have "find P (concat rows) = None"
      unfolding find_None_iff in_set_concat_nth using Cons.prems(2) [of "Suc _"] 0 by fastforce
    with 0 show ?thesis by (simp add: find_append split: option.split)
  next
    case (Suc i')
    have "find P r = None"
      using Cons.prems(2) [of 0] Suc by (auto simp: find_None_iff)
    moreover have "find P (concat rows) = find P (rows ! i')"
      using Cons.IH [of i'] Cons.prems(1) Cons.prems(2) [of "Suc _"] Suc by fastforce
    ultimately show ?thesis using Suc by (simp add: find_append)
  qed
qed simp

lemma sorted_wrt_concat:
  assumes "\<And>i. i < length rows \<Longrightarrow> sorted_wrt R (rows ! i)"
    and "\<And>i j x y. i < j \<Longrightarrow> j < length rows \<Longrightarrow> x \<in> set (rows ! i) \<Longrightarrow> y \<in> set (rows ! j) \<Longrightarrow> R x y"
  shows "sorted_wrt R (concat rows)"
  using assms
proof (induction rows)
  case (Cons r rows)
  have "sorted_wrt R (concat rows)"
    using Cons.IH Cons.prems(1) [of "Suc _"] Cons.prems(2) [of "Suc _" "Suc _"] by fastforce
  moreover have "R x y" if "x \<in> set r" "y \<in> set (concat rows)" for x y
  proof -
    from that(2) obtain j where "j < length rows" "y \<in> set (rows ! j)" by (auto simp: in_set_concat_nth simp del: set_concat)
    with Cons.prems(2) [of 0 "Suc j" x y] that(1) show ?thesis by simp
  qed
  ultimately show ?case using Cons.prems(1) [of 0] by (simp add: sorted_wrt_append)
qed simp

lemma length_concat_update:
  "i < length rows \<Longrightarrow>
   length (concat (rows[i := r])) + length (rows ! i) = length (concat rows) + length r"
  by (induction rows arbitrary: i) (auto split: nat.split)

text \<open>A list without one of its elements, to compare a list with its update.\<close>

definition but_nth :: "nat \<Rightarrow> 'a list \<Rightarrow> 'a list" where
  "but_nth i xs = take i xs @ drop (Suc i) xs"

lemma but_nth_update:
  fixes f :: "'a \<Rightarrow> 'b :: comm_monoid_add"
  assumes "i < length xs"
  shows "set (xs[i := v]) = insert v (set (but_nth i xs))" "set xs = insert (xs ! i) (set (but_nth i xs))"
    "sum_list (map f (xs[i := v])) = f v + sum_list (map f (but_nth i xs))"
    "sum_list (map f xs) = f (xs ! i) + sum_list (map f (but_nth i xs))"
proof -
  have u: "xs[i := v] = take i xs @ v # drop (Suc i) xs" for v using assms by (rule upd_conv_take_nth_drop)
  have x: "xs = take i xs @ xs ! i # drop (Suc i) xs" using u [of "xs ! i"] by simp
  show "set (xs[i := v]) = insert v (set (but_nth i xs))" "sum_list (map f (xs[i := v])) = f v + sum_list (map f (but_nth i xs))"
    by (simp_all add: u but_nth_def ac_simps)
  show "set xs = insert (xs ! i) (set (but_nth i xs))" by (subst x) (simp add: but_nth_def)
  show "sum_list (map f xs) = f (xs ! i) + sum_list (map f (but_nth i xs))" by (subst x) (simp add: but_nth_def ac_simps)
qed

end
