(* ===== verification/Leb128.thy ===== *)
theory Leb128
  imports Prelude
begin

text \<open>
  \<^verbatim>\<open>c-hacks/src/leb128.c\<close>: encoding and decoding of LEB128 integers.  A buffer is a list of
  bytes, \<open>p\<close> the offset of the C pointer in it; a write or read past its end is
  \<open>OutOfBounds\<close>.  The unsigned and the signed routines exist twice in the source, for
  \<open>long\<close> and \<open>long long\<close>; the loops are the same text, so they are one definition here,
  polymorphic in the word width, used at 64 bits (LP64).  Left shifts of signed values and
  right shifts of negative values are those of two's complement, as GCC documents them; a
  shift count of at least the width is \<open>ShiftTooWide\<close>.
\<close>

section \<open>The code\<close>

function encode_u_loop :: "'w::len word \<Rightarrow> byte list \<Rightarrow> nat \<Rightarrow> (nat \<times> byte list) c_res" where
  "encode_u_loop v buf p =
     (let b = ucast (v AND 0x7f);
          v' = drop_bit 7 v;
          b' = (if v' \<noteq> 0 then b OR 0x80 else b)
      in if p < length buf
         then if v' \<noteq> 0 then encode_u_loop v' (buf[p := b']) (p + 1)
              else Inr (p + 1, buf[p := b'])
         else Inl OutOfBounds)"
  by pat_completeness auto
termination
  by (relation "measure (\<lambda>(v, buf, p). length buf - p)") auto

definition leb128_encode_ul :: "byte list \<Rightarrow> 64 word \<Rightarrow> (nat \<times> byte list) c_res" where
  "leb128_encode_ul buf value = encode_u_loop value buf 0"

definition leb128_encode_ull :: "byte list \<Rightarrow> 64 word \<Rightarrow> (nat \<times> byte list) c_res" where
  "leb128_encode_ull buf value = encode_u_loop value buf 0"

function encode_s_loop :: "'w::len word \<Rightarrow> byte list \<Rightarrow> nat \<Rightarrow> (nat \<times> byte list) c_res" where
  "encode_s_loop v buf p =
     (let b = (ucast (v AND 0x7f) :: byte);
          v' = signed_drop_bit 7 v;
          stop = (v' = 0 \<and> b AND 0x40 \<noteq> 0x40) \<or> (v' = - 1 \<and> b AND 0x40 = 0x40);
          b' = (if stop then b else b OR 0x80)
      in if p < length buf
         then if stop then Inr (p + 1, buf[p := b'])
              else encode_s_loop v' (buf[p := b']) (p + 1)
         else Inl OutOfBounds)"
  by pat_completeness auto
termination
  by (relation "measure (\<lambda>(v, buf, p). length buf - p)") auto

definition leb128_encode_l :: "byte list \<Rightarrow> 64 word \<Rightarrow> (nat \<times> byte list) c_res" where
  "leb128_encode_l buf value = encode_s_loop value buf 0"

definition leb128_encode_ll :: "byte list \<Rightarrow> 64 word \<Rightarrow> (nat \<times> byte list) c_res" where
  "leb128_encode_ll buf value = encode_s_loop value buf 0"

function decode_u_loop :: "byte list \<Rightarrow> nat \<Rightarrow> nat \<Rightarrow> 'w::len word \<Rightarrow> ('w word \<times> nat) c_res" where
  "decode_u_loop buf p shift v =
     (if p < length buf then
        if LENGTH('w) \<le> shift then Inl ShiftTooWide
        else let b = ucast (buf ! p);
                 v' = v OR push_bit shift (b AND 0x7f)
             in if (buf ! p) AND 0x80 = 0 then Inr (v', p + 1)
                else decode_u_loop buf (p + 1) (shift + 7) v'
      else Inl OutOfBounds)"
  by pat_completeness auto
termination
  by (relation "measure (\<lambda>(buf, p, shift, v). length buf - p)") auto

definition leb128_decode_ul :: "byte list \<Rightarrow> (64 word \<times> nat) c_res" where
  "leb128_decode_ul buf = decode_u_loop buf 0 0 0"

definition leb128_decode_ull :: "byte list \<Rightarrow> (64 word \<times> nat) c_res" where
  "leb128_decode_ull buf = decode_u_loop buf 0 0 0"

function decode_s_loop ::
    "byte list \<Rightarrow> nat \<Rightarrow> nat \<Rightarrow> 'w::len word \<Rightarrow> ('w word \<times> nat \<times> byte \<times> nat) c_res" where
  "decode_s_loop buf p shift v =
     (if p < length buf then
        if LENGTH('w) \<le> shift then Inl ShiftTooWide
        else let b = ucast (buf ! p);
                 v' = v OR push_bit shift (b AND 0x7f)
             in if (buf ! p) AND 0x80 \<noteq> 0 then decode_s_loop buf (p + 1) (shift + 7) v'
                else Inr (v', shift + 7, buf ! p, p + 1)
      else Inl OutOfBounds)"
  by pat_completeness auto
termination
  by (relation "measure (\<lambda>(buf, p, shift, v). length buf - p)") auto

definition sign_extend :: "'w::len word \<Rightarrow> nat \<Rightarrow> byte \<Rightarrow> 'w word" where
  "sign_extend v shift b =
     (if shift < LENGTH('w) \<and> b AND 0x40 \<noteq> 0 then v OR - push_bit shift 1 else v)"

definition decode_s :: "byte list \<Rightarrow> ('w::len word \<times> nat) c_res" where
  "decode_s buf =
     c_bind (decode_s_loop buf 0 0 0) (\<lambda>(v, shift, b, p). Inr (sign_extend v shift b, p))"

definition leb128_decode_l :: "byte list \<Rightarrow> (64 word \<times> nat) c_res" where
  "leb128_decode_l buf = decode_s buf"

definition leb128_decode_ll :: "byte list \<Rightarrow> (64 word \<times> nat) c_res" where
  "leb128_decode_ll buf = decode_s buf"

declare encode_u_loop.simps [simp del] encode_s_loop.simps [simp del]
  decode_u_loop.simps [simp del] decode_s_loop.simps [simp del]

section \<open>The format\<close>

fun uleb :: "nat \<Rightarrow> byte list" where
  "uleb n = (if n < 128 then [word_of_nat n]
             else word_of_nat (n mod 128 + 128) # uleb (n div 128))"

function sleb :: "int \<Rightarrow> byte list" where
  "sleb i = (if - 64 \<le> i \<and> i < 64 then [word_of_nat (nat (i mod 128))]
             else word_of_nat (nat (i mod 128) + 128) # sleb (i div 128))"
  by pat_completeness auto
termination
  by (relation "measure (\<lambda>i. nat \<bar>i\<bar>)") auto

declare uleb.simps [simp del] sleb.simps [simp del]

section \<open>Bytes and groups of seven bits\<close>

lemma and_7f: "(v :: 'w::len word) AND 0x7f = take_bit 7 v"
proof -
  have "(0x7f :: 'w word) = mask 7" by (simp add: mask_eq_exp_minus_1)
  then show ?thesis by (simp add: take_bit_eq_mask)
qed

lemma take_bit_7_byte: "take_bit 7 (word_of_nat m :: byte) = word_of_nat (m mod 128)"
  by (simp add: take_bit_of_nat take_bit_nat_def)


lemma low_group_nat: "ucast ((v :: 'w::len word) AND 0x7f) = (word_of_nat (unat v mod 128) :: byte)"
proof -
  have "ucast (take_bit 7 v) = (take_bit 7 (ucast v) :: byte)"
    by (simp add: unsigned_take_bit_eq)
  also have "(ucast v :: byte) = word_of_nat (unat v)"
    by (metis of_nat_unat)
  finally show ?thesis by (simp only: and_7f take_bit_7_byte)
qed

lemma low_group_int:
  fixes v :: "'w::len word"
  assumes "7 \<le> LENGTH('w)"
  shows "ucast (v AND 0x7f) = (word_of_nat (nat (sint v mod 128)) :: byte)"
proof -
  have "take_bit 7 (sint v) = take_bit 7 (uint v)"
    using assms by (simp add: sint_uint take_bit_signed_take_bit)
  then have "sint v mod 128 = int (unat v mod 128)"
    by (simp add: take_bit_int_def zmod_int)
  then show ?thesis
    by (simp only: low_group_nat nat_int)
qed

lemma continue_byte: 
  assumes "m < 128" shows "(word_of_nat m :: byte) OR 0x80 = word_of_nat (m + 128)"
proof -
  have "take_bit 7 (word_of_nat m :: byte) = word_of_nat m"
    using assms by (simp add: take_bit_7_byte)
  from take_bit_or_shifted [OF this, of 1] show ?thesis
    by (simp add: push_bit_eq_mult)
qed

lemma continue_bit: "(b :: byte) AND 0x80 = 0 \<longleftrightarrow> \<not> bit b 7"
  using and_exp_eq_0_iff_not_bit [of b 7] by simp

lemma sign_bit:
  "(b :: byte) AND 0x40 = 0 \<longleftrightarrow> \<not> bit b 6"
  "(b :: byte) AND 0x40 = 0x40 \<longleftrightarrow> bit b 6"
proof -
  show z: "b AND 0x40 = 0 \<longleftrightarrow> \<not> bit b 6"
    using and_exp_eq_0_iff_not_bit [of b 6] by simp
  have "b AND 2 ^ 6 = 2 ^ 6 \<longleftrightarrow> bit b 6"
  proof
    assume "b AND 2 ^ 6 = 2 ^ 6"
    then have "bit (b AND 2 ^ 6) 6" by (simp only: bit_exp_iff) simp
    then show "bit b 6" by (simp add: bit_and_iff)
  next
    assume "bit b 6"
    then show "b AND 2 ^ 6 = 2 ^ 6"
      by (intro bit_eqI) (auto simp only: bit_and_iff bit_exp_iff)
  qed
  then show "b AND 0x40 = 0x40 \<longleftrightarrow> bit b 6"
    by simp
qed

lemma ucast_byte_7f: "ucast (b :: byte) AND 0x7f = (ucast (take_bit 7 b) :: 'w::len word)"
  by (simp add: and_7f unsigned_take_bit_eq)

lemma ucast_small:
  assumes "m < 128"
  shows "ucast (word_of_nat m :: byte) = (word_of_nat m :: 'w::len word)"
proof -
  have "take_bit 8 m = m" using assms by (simp add: take_bit_nat_eq_self)
  then show ?thesis by (simp add: unsigned_of_nat)
qed

lemma bit_byte_of_nat: "bit (word_of_nat m :: byte) n \<longleftrightarrow> n < 8 \<and> bit m n"
  using bit_word_of_int_iff [of "int m" n, where 'a = 8] by (simp add: bit_of_nat_iff_bit)

lemma byte_group:
  assumes "m < 128"
  shows "ucast (word_of_nat m :: byte) AND 0x7f = (word_of_nat m :: 'w::len word)"
    and "ucast (word_of_nat (m + 128) :: byte) AND 0x7f = (word_of_nat m :: 'w::len word)"
  unfolding ucast_byte_7f take_bit_7_byte using assms by (simp_all add: ucast_small)

lemma byte_bits:
  assumes "m < 128"
  shows "\<not> bit (word_of_nat m :: byte) 7"
    and "bit (word_of_nat (m + 128) :: byte) 7"
    and "bit (word_of_nat m :: byte) 6 \<longleftrightarrow> 64 \<le> m"
proof -
  have "\<not> bit m 7" and "bit (m + 128) 7"
    using assms by (simp_all add: bit_iff_odd div_add_self2 del: bit_numeral_rec)
  then show "\<not> bit (word_of_nat m :: byte) 7" and "bit (word_of_nat (m + 128) :: byte) 7"
    unfolding bit_byte_of_nat by simp_all
  have "m div 64 = (if 64 \<le> m then 1 else 0)"
    using assms by (simp add: div_nat_eqI)
  then have "bit m 6 \<longleftrightarrow> 64 \<le> m"
    by (simp add: bit_iff_odd del: bit_numeral_rec)
  then show "bit (word_of_nat m :: byte) 6 \<longleftrightarrow> 64 \<le> m"
    unfolding bit_byte_of_nat by simp
qed

lemma next_group:
  fixes v g :: "'w::len word"
  assumes "take_bit s v = v" and "take_bit 7 g = g"
  shows "v OR push_bit s g = v + g * 2 ^ s"
    and "take_bit (s + 7) (v OR push_bit s g) = v OR push_bit s g"
proof -
  show "v OR push_bit s g = v + g * 2 ^ s"
    using take_bit_or_shifted [OF assms(1), of g] by (simp add: push_bit_eq_mult)
  have "take_bit (s + 7) v = take_bit (s + 7) (take_bit s v)"
    by (simp only: assms(1))
  also have "\<dots> = v"
    unfolding take_bit_take_bit using assms(1) by (simp add: min_def)
  finally have "take_bit (s + 7) v = v" .
  moreover have "take_bit (s + 7) (push_bit s g) = push_bit s g"
    using assms(2) by (simp add: take_bit_push_bit)
  ultimately show "take_bit (s + 7) (v OR push_bit s g) = v OR push_bit s g"
    by simp
qed

lemma take_bit_7_small: "m < 128 \<Longrightarrow> take_bit 7 (word_of_nat m :: 'w::len word) = word_of_nat m"
  by (simp add: take_bit_of_nat take_bit_nat_eq_self)

lemma group_room:
  assumes "128 \<le> n" and "(n::nat) < 2 ^ e"
  shows "7 < e" and "n div 128 < 2 ^ (e - 7)"
proof -
  show e: "7 < e"
  proof (rule ccontr)
    assume "\<not> 7 < e"
    then have "(2::nat) ^ e \<le> 2 ^ 7" by (intro power_increasing) auto
    with assms show False by simp
  qed
  then have "(2::nat) ^ e = 2 ^ (e - 7) * 2 ^ 7" by (simp only: flip: power_add) simp
  with assms show "n div 128 < 2 ^ (e - 7)" by (simp add: less_mult_imp_div_less)
qed

lemma uleb_not_Nil [simp]: "uleb n \<noteq> []"
  by (subst uleb.simps) simp

lemma length_uleb: "n < 128 ^ Suc k \<Longrightarrow> length (uleb n) \<le> Suc k"
proof (induction k arbitrary: n)
  case 0
  then show ?case by (simp add: uleb.simps [of n])
next
  case (Suc k)
  then have "n div 128 < 128 ^ Suc k" by (simp add: less_mult_imp_div_less mult.commute)
  with Suc.IH show ?case by (simp add: uleb.simps [of n])
qed

section \<open>Encoding writes the format\<close>

lemma encode_u_loop_uleb:
  "p + length (uleb (unat v)) \<le> length buf \<Longrightarrow>
   encode_u_loop v buf p =
     Inr (p + length (uleb (unat v)),
          take p buf @ uleb (unat v) @ drop (p + length (uleb (unat v))) buf)"
proof (induction v buf p rule: encode_u_loop.induct)
  case (1 v buf p)
  let ?n = "unat v" and ?v' = "drop_bit 7 v"
  have n': "unat ?v' = ?n div 128" by (simp add: unat_drop_bit_eq drop_bit_nat_def)
  have more: "?v' \<noteq> 0 \<longleftrightarrow> 128 \<le> ?n"
    using n' by (metis div_eq_0_iff not_less unat_eq_zero zero_neq_numeral)
  have p: "p < length buf"
    using "1.prems" by (cases "uleb ?n") (auto)
  show ?case
  proof (cases "128 \<le> ?n")
    case True
    then have u: "uleb ?n = word_of_nat (?n mod 128 + 128) # uleb (?n div 128)"
      by (simp add: uleb.simps [of ?n])
    have "encode_u_loop v buf p = encode_u_loop ?v' (buf[p := word_of_nat (?n mod 128 + 128)]) (p + 1)"
      using True p more by (simp add: encode_u_loop.simps [of v] low_group_nat continue_byte Let_def)
    also have "\<dots> = Inr (p + 1 + length (uleb (?n div 128)),
          take (p + 1) (buf[p := word_of_nat (?n mod 128 + 128)]) @ uleb (?n div 128) @
            drop (p + 1 + length (uleb (?n div 128))) (buf[p := word_of_nat (?n mod 128 + 128)]))"
      using "1.IH" [OF refl refl refl p] "1.prems" True more u
      by (simp add: low_group_nat continue_byte n')
    finally show ?thesis
      using p u by (simp add: take_Suc_conv_app_nth)
  next
    case False
    then show ?thesis
      using p more by (simp add: encode_u_loop.simps [of v] uleb.simps [of ?n] low_group_nat Let_def upd_conv_take_nth_drop)
  qed
qed

lemma decode_u_loop_uleb:
  assumes "take_bit s v = v" and "s < LENGTH('w)" and "n < 2 ^ (LENGTH('w) - s)"
    and "drop p buf = uleb n @ rest"
  shows "decode_u_loop buf p s (v :: 'w::len word) = Inr (v + word_of_nat n * 2 ^ s, p + length (uleb n))"
  using assms
proof (induction n arbitrary: p s v rule: uleb.induct)
  case (1 n)
  have p: "p < length buf" and b: "buf ! p = hd (uleb n)"
    using "1.prems"(4) by (metis drop_all not_less uleb_not_Nil Nil_is_append_conv,
      metis drop_all hd_append2 hd_drop_conv_nth not_less uleb_not_Nil Nil_is_append_conv)
  let ?g = "word_of_nat (n mod 128) :: 'w word"
  note g = next_group [OF "1.prems"(1), of ?g, OF take_bit_7_small]
  show ?case
  proof (cases "n < 128")
    case True
    then have "buf ! p = word_of_nat n" and "length (uleb n) = 1"
      using b by (simp_all add: uleb.simps [of n])
    then show ?thesis
      using True p "1.prems"(2) g 
      by (simp add: decode_u_loop.simps [of _ p] byte_group byte_bits continue_bit del: of_nat_add push_bit_and)
  next
    case False
    then have u: "uleb n = word_of_nat (n mod 128 + 128) # uleb (n div 128)"
      by (simp add: uleb.simps [of n])
    have bound: "s + 7 < LENGTH('w)" "n div 128 < 2 ^ (LENGTH('w) - (s + 7))"
      using group_room [of n "LENGTH('w) - s"] False "1.prems"(3) by (simp_all add: less_diff_conv2)
    have rest: "drop (p + 1) buf = uleb (n div 128) @ rest"
      using "1.prems"(4) u by (metis append_Cons drop_Suc list.sel(3) tl_drop Suc_eq_plus1)
    have "decode_u_loop buf p s v = decode_u_loop buf (p + 1) (s + 7) (v OR push_bit s ?g)"
      using False p "1.prems"(2) b u byte_group(2) [of "n mod 128", where 'w = 'w] byte_bits(2) [of "n mod 128"]
      by (simp add: decode_u_loop.simps [of _ p] continue_bit del: of_nat_add push_bit_and)
    also have "\<dots> = Inr (v + ?g * 2 ^ s + word_of_nat (n div 128) * 2 ^ (s + 7), p + 1 + length (uleb (n div 128)))"
      using "1.IH" [OF False g(2) bound rest] g(1) by simp
    also have "v + ?g * 2 ^ s + word_of_nat (n div 128) * 2 ^ (s + 7) = v + word_of_nat n * 2 ^ s"
    proof -
      have "n mod 128 + n div 128 * 128 = n" by simp
      then have "(word_of_nat n :: 'w word) = ?g + word_of_nat (n div 128) * 128"
        by (metis of_nat_add of_nat_mult of_nat_numeral)
      then show ?thesis by (simp add: algebra_simps power_add)
    qed
    finally show ?thesis by (simp add: u)
  qed
qed

lemma sleb_not_Nil [simp]: "sleb i \<noteq> []"
  by (subst sleb.simps) simp

lemma encode_s_stop:
  fixes v :: "'w::len word"
  assumes "7 \<le> LENGTH('w)"
  defines "b \<equiv> (ucast (v AND 0x7f) :: byte)"
  shows "(signed_drop_bit 7 v = 0 \<and> b AND 0x40 \<noteq> 0x40) \<or> (signed_drop_bit 7 v = - 1 \<and> b AND 0x40 = 0x40)
     \<longleftrightarrow> - 64 \<le> sint v \<and> sint v < 64"
proof -
  have d: "sint (signed_drop_bit 7 v) = sint v div 128"
    by (simp add: sint_signed_drop_bit_eq drop_bit_int_def)
  have "signed_drop_bit 7 v = 0 \<longleftrightarrow> sint v div 128 = 0"
    by (metis d signed_0 signed_word_eqI)
  moreover have "signed_drop_bit 7 v = - 1 \<longleftrightarrow> sint v div 128 = - 1"
    by (metis d sint_n1 signed_word_eqI)
  moreover have "bit b 6 \<longleftrightarrow> 64 \<le> sint v mod 128"
    using byte_bits(3) [of "nat (sint v mod 128)"] assms by (simp add: b_def low_group_int nat_less_iff le_nat_iff)
  moreover have "sint v div 128 = 0 \<and> \<not> 64 \<le> sint v mod 128 \<or> sint v div 128 = - 1 \<and> 64 \<le> sint v mod 128 \<longleftrightarrow>
     - 64 \<le> sint v \<and> sint v < 64"
    by presburger
  ultimately show ?thesis by (simp add: sign_bit)
qed

lemma encode_s_loop_sleb:
  fixes v :: "'w::len word"
  assumes "7 \<le> LENGTH('w)"
  shows "p + length (sleb (sint v)) \<le> length buf \<Longrightarrow>
   encode_s_loop v buf p =
     Inr (p + length (sleb (sint v)),
          take p buf @ sleb (sint v) @ drop (p + length (sleb (sint v))) buf)"
proof (induction v buf p rule: encode_s_loop.induct)
  case (1 v buf p)
  let ?i = "sint v" and ?v' = "signed_drop_bit 7 v" and ?b = "word_of_nat (nat (sint v mod 128)) :: byte"
  have n': "sint ?v' = ?i div 128" by (simp add: sint_signed_drop_bit_eq drop_bit_int_def)
  note b = low_group_int [OF assms, of v]
  note stop = encode_s_stop [OF assms, of v, unfolded b]
  have c: "?b OR 0x80 = word_of_nat (nat (sint v mod 128) + 128)"
    by (rule continue_byte) (simp add: nat_less_iff)
  have p: "p < length buf"
    using "1.prems" by (cases "sleb ?i") auto
  show ?case
  proof (cases "- 64 \<le> ?i \<and> ?i < 64")
    case True
    then have "sleb ?i = [?b]" by (simp add: sleb.simps [of ?i])
    moreover have "encode_s_loop v buf p = Inr (p + 1, buf[p := ?b])"
      by (subst encode_s_loop.simps) (use True p in \<open>simp only: Let_def b stop if_True simp_thms\<close>)
    ultimately show ?thesis
      using p by (simp add: upd_conv_take_nth_drop)
  next
    case False
    let ?buf = "buf[p := word_of_nat (nat (sint v mod 128) + 128)]"
    from False have u: "sleb ?i = word_of_nat (nat (sint v mod 128) + 128) # sleb (?i div 128)"
      by (subst sleb.simps) simp
    have "encode_s_loop v buf p = encode_s_loop ?v' ?buf (p + 1)"
      by (subst encode_s_loop.simps) (use False p in \<open>simp only: Let_def b stop c if_True if_False simp_thms\<close>)
    also have "\<dots> = Inr (p + 1 + length (sleb (?i div 128)),
          take (p + 1) ?buf @ sleb (?i div 128) @ drop (p + 1 + length (sleb (?i div 128))) ?buf)"
      using "1.IH" [OF refl refl refl refl p, unfolded b stop c n'] "1.prems" False u 
      by (simp only: if_False simp_thms) simp
    finally show ?thesis
      using p u by (simp add: take_Suc_conv_app_nth)
  qed
qed

lemma sign_extend_last:
  fixes v :: "'w::len word"
  assumes v: "take_bit s v = v" and i: "- 64 \<le> i" "i < 64"
  defines "m \<equiv> nat (i mod 128)"
  shows "sign_extend (v OR push_bit s (word_of_nat m)) (s + 7) (word_of_nat m) = v + word_of_int i * 2 ^ s"
proof -
  have m: "m < 128" by (simp add: m_def nat_less_iff)
  note g = next_group [OF v take_bit_7_small [OF m, where 'w = 'w]]
  have neg: "bit (word_of_nat m :: byte) 6 \<longleftrightarrow> i < 0"
    using byte_bits(3) [OF m] i by (simp add: m_def le_nat_iff) presburger
  have "i mod 128 = (if i < 0 then i + 128 else i)" using i by presburger
  then have "int m = (if i < 0 then i + 128 else i)" using i by (simp add: m_def)
  then have im: "(word_of_nat m :: 'w word) = (if i < 0 then word_of_int i + 128 else word_of_int i)"
    by (metis of_int_add of_int_numeral of_int_of_nat_eq)
  have wide: "LENGTH('w) \<le> s + 7 \<Longrightarrow> (128 :: 'w word) * 2 ^ s = 0"
    using power_add [of "2 :: 'w word" 7 s] exp_eq_zero_iff [of "s + 7", where 'a = 'w]
    by (simp add: add.commute)
  show ?thesis
  proof (cases "s + 7 < LENGTH('w) \<and> i < 0")
    case True
    have "sign_extend (v OR push_bit s (word_of_nat m)) (s + 7) (word_of_nat m)
        = (v OR push_bit s (word_of_nat m)) OR push_bit (s + 7) (- 1)"
      using True neg by (simp add: sign_extend_def sign_bit push_bit_eq_mult)
    also have "\<dots> = v + word_of_nat m * 2 ^ s + push_bit (s + 7) (- 1)"
      by (simp only: take_bit_or_shifted [OF g(2)]) (simp only: g(1))
    also have "\<dots> = v + word_of_int i * 2 ^ s"
      using True im by (simp add: push_bit_eq_mult algebra_simps power_add)
    finally show ?thesis .
  next
    case False
    then show ?thesis
      using neg g(1) im wide by (auto simp: sign_extend_def sign_bit algebra_simps)
  qed
qed

lemma sgroup_room:
  assumes "\<not> (- 64 \<le> i \<and> i < 64)" and "- (2 ^ e) \<le> i" and "i < (2::int) ^ e"
  shows "6 < e" and "- (2 ^ (e - 7)) \<le> i div 128" and "i div 128 < 2 ^ (e - 7)"
proof -
  show e: "6 < e"
  proof (rule ccontr)
    assume "\<not> 6 < e"
    then have "(2::int) ^ e \<le> 2 ^ 6" by (intro power_increasing) auto
    with assms show False by auto
  qed
  then have "(2::int) ^ e = 2 ^ (e - 7) * 2 ^ 7" by (simp only: flip: power_add) simp
  with assms(2,3) show "- (2 ^ (e - 7)) \<le> i div 128" and "i div 128 < 2 ^ (e - 7)"
    by auto
qed

lemma decode_s_step:
  assumes "p < length buf" and "s < LENGTH('w)" and "ucast (buf ! p) AND 0x7f = (g :: 'w::len word)"
  shows "decode_s_loop buf p s v =
     (if bit (buf ! p) 7 then decode_s_loop buf (p + 1) (s + 7) (v OR push_bit s g)
      else Inr (v OR push_bit s g, s + 7, buf ! p, p + 1))"
  using assms by (subst decode_s_loop.simps) (simp add: continue_bit del: push_bit_and)

lemma decode_s_loop_sleb:
  assumes "take_bit s v = v" and "s < LENGTH('w)"
    and "- (2 ^ (LENGTH('w) - 1 - s)) \<le> i" and "i < 2 ^ (LENGTH('w) - 1 - s)"
    and "drop p buf = sleb i @ rest"
  shows "\<exists>v' shift b. decode_s_loop buf p s (v :: 'w::len word) = Inr (v', shift, b, p + length (sleb i)) \<and>
     sign_extend v' shift b = v + word_of_int i * 2 ^ s"
  using assms
proof (induction i arbitrary: p s v rule: sleb.induct)
  case (1 i)
  have p: "p < length buf" and b: "buf ! p = hd (sleb i)"
    using "1.prems"(5) by (metis drop_all not_less sleb_not_Nil Nil_is_append_conv,
      metis drop_all hd_append2 hd_drop_conv_nth not_less sleb_not_Nil Nil_is_append_conv)
  let ?m = "nat (i mod 128)"
  have m: "?m < 128" by (simp add: nat_less_iff)
  note g = next_group [OF "1.prems"(1) take_bit_7_small [OF m, where 'w = 'w]]
  show ?case
  proof (cases "- 64 \<le> i \<and> i < 64")
    case True
    then have "sleb i = [word_of_nat ?m]"
      by (simp only: sleb.simps [of i] if_True simp_thms)
    then have "decode_s_loop buf p s v =
        Inr (v OR push_bit s (word_of_nat ?m), s + 7, word_of_nat ?m, p + length (sleb i))"
      using decode_s_step [OF p "1.prems"(2), of "word_of_nat ?m" v] b
        byte_group(1) [OF m, where 'w = 'w] byte_bits(1) [OF m] by (simp only: list.sel) simp
    then show ?thesis
      using sign_extend_last [OF "1.prems"(1)] True by blast
  next
    case False
    then have u: "sleb i = word_of_nat (?m + 128) # sleb (i div 128)"
      by (simp only: sleb.simps [of i] if_False)
    have bound: "s + 7 < LENGTH('w)" "- (2 ^ (LENGTH('w) - 1 - (s + 7))) \<le> i div 128"
        "i div 128 < 2 ^ (LENGTH('w) - 1 - (s + 7))"
      using sgroup_room [OF False "1.prems"(3,4)] by (simp_all add: less_diff_conv2)
    have rest: "drop (p + 1) buf = sleb (i div 128) @ rest"
      using "1.prems"(5) u by (metis append_Cons drop_Suc list.sel(3) tl_drop Suc_eq_plus1)
    have step: "decode_s_loop buf p s v = decode_s_loop buf (p + 1) (s + 7) (v OR push_bit s (word_of_nat ?m))"
      using decode_s_step [OF p "1.prems"(2), of "word_of_nat ?m" v] b u
        byte_group(2) [OF m, where 'w = 'w] byte_bits(2) [OF m] by (simp only: list.sel) simp
    have "v + word_of_nat ?m * 2 ^ s + word_of_int (i div 128) * 2 ^ (s + 7) = v + word_of_int i * 2 ^ s"
    proof -
      have "int ?m + i div 128 * 128 = i" by simp
      then have "(word_of_int i :: 'w word) = word_of_nat ?m + word_of_int (i div 128) * 128"
        by (metis of_int_add of_int_mult of_int_numeral of_int_of_nat_eq)
      then show ?thesis by (simp add: algebra_simps power_add)
    qed
    then show ?thesis
      using "1.IH" [OF False g(2) bound rest] g(1) step u by (simp add: add.assoc)
  qed
qed

lemma length_sleb: "- (64 * 128 ^ k) \<le> i \<Longrightarrow> i < 64 * 128 ^ k \<Longrightarrow> length (sleb i) \<le> Suc k"
proof (induction k arbitrary: i)
  case 0
  then show ?case by (simp add: sleb.simps [of i])
next
  case (Suc k)
  then have "- (64 * 128 ^ k) \<le> i div 128" and "i div 128 < 64 * 128 ^ k" by auto
  with Suc.IH show ?case by (simp add: sleb.simps [of i])
qed

lemma length_uleb_64: "length (uleb (unat (v :: 64 word))) \<le> 10"
proof -
  have "unat v < 128 ^ Suc 9" by (rule less_le_trans [OF unsigned_less]) simp
  from length_uleb [OF this] show ?thesis by simp
qed

lemma length_sleb_64: "length (sleb (sint (v :: 64 word))) \<le> 10"
proof -
  have "- (64 * 128 ^ 9) \<le> sint v" and "sint v < 64 * 128 ^ 9"
    using sint_range_size [of v] by (simp_all add: word_size)
  from length_sleb [OF this] show ?thesis by simp
qed

lemma decode_u_overlong:
  assumes "10 < length buf" and "\<And>i. i < 10 \<Longrightarrow> bit (buf ! i) 7" and "p \<le> 10"
  shows "decode_u_loop buf p (7 * p) (v :: 64 word) = Inl ShiftTooWide"
  using assms(3)
proof (induction "10 - p" arbitrary: p v)
  case 0
  then have "p = 10" by simp
  then show ?case using assms(1) by (simp add: decode_u_loop.simps [of _ 10])
next
  case (Suc k)
  then have p: "p < 10" and k: "k = 10 - (p + 1)" by simp_all
  let ?v' = "v OR push_bit (7 * p) (ucast (buf ! p) AND 0x7f)"
  have "decode_u_loop buf p (7 * p) v = decode_u_loop buf (p + 1) (7 * p + 7) ?v'"
    using p assms(1,2) by (simp add: decode_u_loop.simps [of _ p] continue_bit Let_def del: push_bit_and)
  then show ?case using Suc.hyps(1) [OF k, of ?v'] p by (simp add: add.commute)
qed

section \<open>Properties\<close>

text \<open>
  C9. Encoding any 64-bit unsigned value into a buffer of at least ten bytes succeeds, writes
  exactly the unsigned LEB128 form of the value (at most ten bytes) and nothing beyond it;
  decoding the buffer returns the value and stops right after the encoding.  The \<open>ul\<close> and
  \<open>ull\<close> routines agree.
\<close>

theorem leb128_unsigned_roundtrip:
  assumes "10 \<le> length buf"
  shows "\<exists>n buf'. leb128_encode_ul buf v = Inr (n, buf') \<and> leb128_encode_ull buf v = Inr (n, buf') \<and>
     n \<le> 10 \<and> leb128_decode_ul buf' = Inr (v, n) \<and> leb128_decode_ull buf' = Inr (v, n) \<and>
     take n buf' = uleb (unat v) \<and> drop n buf' = drop n buf \<and> length buf' = length buf"
proof -
  let ?u = "uleb (unat v)"
  have len: "length ?u \<le> length buf" using length_uleb_64 [of v] assms by simp
  have "encode_u_loop v buf 0 = Inr (length ?u, ?u @ drop (length ?u) buf)"
    using encode_u_loop_uleb [of 0 v buf] len by simp
  moreover have "decode_u_loop (?u @ drop (length ?u) buf) 0 0 0 = Inr (v, length ?u)"
    using decode_u_loop_uleb [of 0 "0 :: 64 word" "unat v" 0 _ "drop (length ?u) buf"]
      unsigned_less [of v, where 'a = nat] by simp
  ultimately show ?thesis using len length_uleb_64 [of v]
    by (simp add: leb128_encode_ul_def leb128_encode_ull_def leb128_decode_ul_def leb128_decode_ull_def)
qed

theorem leb128_unsigned_roundtrip_witness:
  "\<exists>n buf'. leb128_encode_ul (replicate 10 0) 624485 = Inr (n, buf') \<and> leb128_decode_ul buf' = Inr (624485, n) \<and>
     take n buf' = [0xE5, 0x8E, 0x26]"
proof -
  have "uleb 624485 = [0xE5, 0x8E, 0x26]" by (simp add: uleb.simps)
  then show ?thesis
    using leb128_unsigned_roundtrip [of "replicate 10 0" 624485] by auto
qed

text \<open>
  C10. The same for signed values: encoding any 64-bit signed value into ten bytes or more
  succeeds and writes its signed LEB128 form, and decoding returns the value, negative
  values and the extreme ones included.
\<close>

theorem leb128_signed_roundtrip:
  assumes "10 \<le> length buf"
  shows "\<exists>n buf'. leb128_encode_l buf v = Inr (n, buf') \<and> leb128_encode_ll buf v = Inr (n, buf') \<and>
     n \<le> 10 \<and> leb128_decode_l buf' = Inr (v, n) \<and> leb128_decode_ll buf' = Inr (v, n) \<and>
     take n buf' = sleb (sint v) \<and> drop n buf' = drop n buf \<and> length buf' = length buf"
proof -
  let ?u = "sleb (sint v)"
  have len: "length ?u \<le> length buf" using length_sleb_64 [of v] assms by simp
  have "encode_s_loop v buf 0 = Inr (length ?u, ?u @ drop (length ?u) buf)"
    using encode_s_loop_sleb [of 0 v buf] len by simp
  moreover have "decode_s (?u @ drop (length ?u) buf) = Inr (v, length ?u)"
    using decode_s_loop_sleb [of 0 "0 :: 64 word" "sint v" 0 _ "drop (length ?u) buf"]
      sint_range_size [of v]
    by (fastforce simp: decode_s_def word_size)
  ultimately show ?thesis using len length_sleb_64 [of v]
    by (simp add: leb128_encode_l_def leb128_encode_ll_def leb128_decode_l_def leb128_decode_ll_def)
qed

theorem leb128_signed_roundtrip_witness:
  "\<exists>n buf'. leb128_encode_l (replicate 12 0) (- 624485) = Inr (n, buf') \<and>
     leb128_decode_l buf' = Inr (- 624485, n) \<and> take n buf' = [0x9b, 0xf1, 0x59]"
proof -
  have "sleb (- 624485) = [0x9b, 0xf1, 0x59]" by (simp add: sleb.simps)
  moreover have "sint (- 624485 :: 64 word) = - 624485" by simp
  ultimately show ?thesis
    using leb128_signed_roundtrip [of "replicate 12 0" "- 624485"] by auto
qed

text \<open>
  The decoder has no bound on the length of its input: ten continuation bytes followed
  by any further byte make it shift a 64-bit value by 70, which C leaves undefined.
\<close>

theorem leb128_decode_overlong:
  assumes "10 < length buf" and "\<forall>i < 10. bit (buf ! i) 7"
  shows "leb128_decode_ul buf = Inl ShiftTooWide"
  using decode_u_overlong [OF assms(1), of 0 0] assms(2) by (simp add: leb128_decode_ul_def)

theorem leb128_decode_overlong_witness:
  "leb128_decode_ul (replicate 10 0xff @ [0]) = Inl ShiftTooWide"
proof -
  have "bit (0xff :: byte) 7" by simp
  then show ?thesis
    using leb128_decode_overlong [of "replicate 10 0xff @ [0]"] by (simp add: nth_append)
qed

end
