(* ===== verification/Hash_Funcs.thy ===== *)
theory Hash_Funcs
  imports Prelude
begin

text \<open>
  \<^verbatim>\<open>c-hacks/include/c-hacks/hashtbl-funcs.h\<close>: the stock hash and equality functions, and the
  contract between a hash function and its equality that both tables rely on.  A \<open>char *\<close>
  key is the list of bytes it points to; a C string ends at its first zero byte, and reading
  a string is reading \<open>c_str s @ [0]\<close>.  A null pointer is \<open>None\<close>.
\<close>

section \<open>The code\<close>

definition c_str :: "byte list \<Rightarrow> byte list" where
  "c_str s = takeWhile (\<lambda>c. c \<noteq> 0) s"

text \<open>
  The loop of \<open>hashtbl_string_hash\<close>: the condition reads the current byte and advances the
  pointer, the body mixes in the byte after it.  The second equation is never reached on a
  zero-terminated string.
\<close>

fun string_hash_loop :: "byte list \<Rightarrow> 32 word \<Rightarrow> 32 word" where
  "string_hash_loop (c # d # cs) hash =
     (if c \<noteq> 0 then string_hash_loop (d # cs) ((33 * hash) XOR ucast d) else hash)"
| "string_hash_loop _ hash = hash"

definition hashtbl_string_hash :: "byte list option \<Rightarrow> 32 word" where
  "hashtbl_string_hash k =
     (case k of None \<Rightarrow> 5381 | Some str \<Rightarrow> string_hash_loop (c_str str @ [0]) 5381)"

definition hashtbl_string_equals :: "byte list \<Rightarrow> byte list \<Rightarrow> bool" where
  "hashtbl_string_equals a b \<longleftrightarrow> c_str a = c_str b"

definition hashtbl_int_hash :: "32 word \<Rightarrow> 32 word" where
  "hashtbl_int_hash k = k"

definition hashtbl_int_equals :: "32 word \<Rightarrow> 32 word \<Rightarrow> bool" where
  "hashtbl_int_equals a b \<longleftrightarrow> a = b"

definition hashtbl_int64_hash :: "64 word \<Rightarrow> 32 word" where
  "hashtbl_int64_hash k = ucast k"

definition hashtbl_int64_equals :: "64 word \<Rightarrow> 64 word \<Rightarrow> bool" where
  "hashtbl_int64_equals a b \<longleftrightarrow> a = b"

definition hashtbl_direct_hash :: "64 word \<Rightarrow> 32 word" where
  "hashtbl_direct_hash k =
     (let h = ucast k;
          h = h XOR (drop_bit 20 h XOR drop_bit 12 h)
      in h XOR drop_bit 7 h XOR drop_bit 4 h)"

definition hashtbl_direct_equals :: "64 word \<Rightarrow> 64 word \<Rightarrow> bool" where
  "hashtbl_direct_equals a b \<longleftrightarrow> a = b"

section \<open>The contract of a hash function and its equality\<close>

locale key_fns =
  fixes hash :: "'k \<Rightarrow> 32 word"
    and equals :: "'k \<Rightarrow> 'k \<Rightarrow> bool"
  assumes equals_refl: "equals a a"
    and equals_sym: "equals a b \<Longrightarrow> equals b a"
    and equals_trans: "equals a b \<Longrightarrow> equals b c \<Longrightarrow> equals a c"
    and hash_equals: "equals a b \<Longrightarrow> hash a = hash b"
begin

text \<open>Equal keys are interchangeable on either side of a comparison.\<close>

lemma equals_left: "equals a b \<Longrightarrow> equals a c = equals b c"
  using equals_sym equals_trans by blast

lemma equals_right: "equals a b \<Longrightarrow> equals c a = equals c b"
  using equals_sym equals_trans by blast

end

interpretation str_key: key_fns "\<lambda>k. hashtbl_string_hash (Some k)" hashtbl_string_equals
  by unfold_locales (auto simp: hashtbl_string_equals_def hashtbl_string_hash_def)

interpretation int_key: key_fns hashtbl_int_hash hashtbl_int_equals
  by unfold_locales (auto simp: hashtbl_int_equals_def)

interpretation int64_key: key_fns hashtbl_int64_hash hashtbl_int64_equals
  by unfold_locales (auto simp: hashtbl_int64_equals_def)

interpretation direct_key: key_fns hashtbl_direct_hash hashtbl_direct_equals
  by unfold_locales (auto simp: hashtbl_direct_equals_def)

section \<open>Mixing by right shifts is injective\<close>

text \<open>
  Bit \<open>n\<close> of \<open>h XOR (h >> i) XOR (h >> j)\<close> is bit \<open>n\<close> of \<open>h\<close> mixed with two higher bits, so
  the bits of \<open>h\<close> can be recovered from the top down.
\<close>

lemma xor_shift_inject:
  fixes a b :: "'w::len word"
  assumes eq: "a XOR drop_bit i a XOR drop_bit j a = b XOR drop_bit i b XOR drop_bit j b"
    and pos: "0 < i" "0 < j"
  shows "a = b"
proof (rule bit_word_eqI)
  fix n :: nat
  show "bit a n \<longleftrightarrow> bit b n"
  proof (induction "LENGTH('w) - n" arbitrary: n rule: less_induct)
    case less
    show ?case
    proof (cases "n < LENGTH('w)")
      case True
      have "bit a (n + i) = bit b (n + i)" and "bit a (n + j) = bit b (n + j)"
        using less [of "n + i"] less [of "n + j"] True pos by simp_all
      moreover have "bit (a XOR drop_bit i a XOR drop_bit j a) n = bit (b XOR drop_bit i b XOR drop_bit j b) n"
        using eq by simp
      ultimately show ?thesis
        by (auto simp: bit_xor_iff bit_drop_bit_eq add.commute)
    next
      case False
      then show ?thesis by (simp add: impossible_bit)
    qed
  qed
qed

section \<open>Properties\<close>

text \<open>
  Every stock hash function respects its equality function: equal strings (as C strings),
  ints, 64-bit ints and pointers have equal hashes.  This is what the tables need of their
  key functions.
\<close>

theorem stock_hash_respects_equals:
  "(hashtbl_string_equals s t \<longrightarrow> hashtbl_string_hash (Some s) = hashtbl_string_hash (Some t)) \<and>
   (hashtbl_int_equals i j \<longrightarrow> hashtbl_int_hash i = hashtbl_int_hash j) \<and>
   (hashtbl_int64_equals x y \<longrightarrow> hashtbl_int64_hash x = hashtbl_int64_hash y) \<and>
   (hashtbl_direct_equals p q \<longrightarrow> hashtbl_direct_hash p = hashtbl_direct_hash q)"
  using str_key.hash_equals int_key.hash_equals int64_key.hash_equals direct_key.hash_equals by blast

theorem stock_hash_respects_equals_witness:
  "hashtbl_string_equals [104, 105, 0, 7] [104, 105] \<and>
   hashtbl_string_hash (Some [104, 105, 0, 7]) = hashtbl_string_hash (Some [104, 105]) \<and>
   hashtbl_int64_hash 7 = hashtbl_int64_hash 7"
  using stock_hash_respects_equals [of "[104, 105, 0, 7]" "[104, 105]" 1 1 7 7 9 9]
  by (simp add: hashtbl_string_equals_def c_str_def hashtbl_int64_equals_def)

text \<open>
  The string hash never looks at the first character: strings that differ only there
  always collide.
\<close>

theorem string_hash_ignores_first_char:
  assumes "c \<noteq> 0" and "d \<noteq> 0"
  shows "hashtbl_string_hash (Some (c # s)) = hashtbl_string_hash (Some (d # s))"
  using assms by (cases "c_str s") (simp_all add: hashtbl_string_hash_def c_str_def)

theorem string_hash_ignores_first_char_witness:
  "hashtbl_string_hash (Some [0x61, 0x78]) = hashtbl_string_hash (Some [0x62, 0x78])"
  by (rule string_hash_ignores_first_char) simp_all

text \<open>
  The pointer hash is injective on the low 32 bits of the pointer: two pointers collide
  in the full hash only if they agree there.
\<close>

theorem direct_hash_injective:
  "hashtbl_direct_hash p = hashtbl_direct_hash q \<longleftrightarrow> (ucast p :: 32 word) = ucast q"
proof
  assume eq: "hashtbl_direct_hash p = hashtbl_direct_hash q"
  let ?f = "\<lambda>h :: 32 word. h XOR drop_bit 20 h XOR drop_bit 12 h"
  have "?f (ucast p) = ?f (ucast q)"
    by (rule xor_shift_inject [of _ 7 4])
      (use eq in \<open>simp_all add: hashtbl_direct_hash_def Let_def xor.assoc\<close>)
  then show "(ucast p :: 32 word) = ucast q"
    by (rule xor_shift_inject) simp_all
qed (simp add: hashtbl_direct_hash_def)

end
