(* ===== verification/Hashtbl.thy ===== *)
theory Hashtbl
  imports Hash_Funcs
begin

text \<open>
  \<^verbatim>\<open>c-hacks/src/hashtbl.c\<close>: a hash table with external chaining.  The bucket array is a list of
  chains, a chain the list of its entries from the head on, so an entry's \<open>next\<close> is the rest
  of its chain and a pointer to an entry is its slot and its place in the chain.  A null
  \<open>table\<close> is the empty array.  Values are pointers, \<open>None\<close> for null.  Callbacks (allocation,
  release of keys, values and memory) transform an environment of their own, so their calls
  and the order of their calls are visible; hash and equality functions are pure.
\<close>

section \<open>The data\<close>

record ('k, 'v) hashtbl_entry =
  key :: 'k
  val :: "'v option"
  hash :: "32 word"

text \<open>What is handed to \<open>free_fn\<close>: an entry, a bucket array or the table itself.\<close>

datatype ('k, 'v) block =
    EntryBlock "('k, 'v) hashtbl_entry"
  | TableBlock nat
  | StructBlock

record ('k, 'v, 'e) hashtbl =
  max_load_factor :: rat
  hash_fn :: "'k \<Rightarrow> 32 word"
  equals_fn :: "'k \<Rightarrow> 'k \<Rightarrow> bool"
  nentries :: "64 word"
  table_size :: int
  resize_threshold :: int
  auto_resize :: bool
  key_free_fn :: "('k \<Rightarrow> 'e \<Rightarrow> 'e) option"
  val_free_fn :: "('v option \<Rightarrow> 'e \<Rightarrow> 'e) option"
  malloc_fn :: "nat \<Rightarrow> 'e \<Rightarrow> bool \<times> 'e"
  free_fn :: "('k, 'v) block \<Rightarrow> 'e \<Rightarrow> 'e"
  "table" :: "('k, 'v) hashtbl_entry list list"

record ('k, 'v) hashtbl_iter =
  iter_key :: "'k option"
  iter_val :: "'v option"
  pos :: int
  entry :: "('k, 'v) hashtbl_entry list"

definition HASHTBL_MAX_TABLE_SIZE :: int where "HASHTBL_MAX_TABLE_SIZE = 2 ^ 30"

definition sizeof_entry :: nat where "sizeof_entry = 32"

definition sizeof_pointer :: nat where "sizeof_pointer = 8"

definition sizeof_hashtbl :: nat where "sizeof_hashtbl = 88"

section \<open>Internal operations\<close>

text \<open>\<open>None\<close> if the shift overflows \<open>int\<close> or the loop does not end.\<close>

partial_function (option) roundup_loop :: "int \<Rightarrow> int \<Rightarrow> int option" where
  "roundup_loop x n =
     (if n < x then (if c_int_ok (2 * n) then roundup_loop x (2 * n) else None) else Some n)"

definition roundup_to_next_power_of_2 :: "int \<Rightarrow> int option" where
  "roundup_to_next_power_of_2 x = roundup_loop x 1"

definition is_power_of_2 :: "int \<Rightarrow> bool" where
  "is_power_of_2 x \<longleftrightarrow> x AND (x - 1) = 0"

definition tbl_index :: "('k, 'v, 'e) hashtbl \<Rightarrow> 32 word \<Rightarrow> int" where
  "tbl_index h hashval = sint hashval AND (table_size h - 1)"

definition tbl_entry :: "('k, 'v, 'e) hashtbl \<Rightarrow> 32 word \<Rightarrow> ('k, 'v) hashtbl_entry list c_res" where
  "tbl_entry h hashval = c_read (table h) (tbl_index h hashval)"

definition tbl_entry_ref :: "('k, 'v, 'e) hashtbl \<Rightarrow> 32 word \<Rightarrow> ('k, 'v) hashtbl_entry list
    \<Rightarrow> ('k, 'v, 'e) hashtbl c_res" where
  "tbl_entry_ref h hashval chain =
     c_bind (c_write (table h) (tbl_index h hashval) chain) (\<lambda>t. Inr (h\<lparr>table := t\<rparr>))"

definition resize_threshold_of :: "int \<Rightarrow> rat \<Rightarrow> int" where
  "resize_threshold_of capacity mlf = trunc (fl64 (fl64 (of_int capacity * mlf) + 1 / 2))"

definition link_entry :: "('k, 'v, 'e) hashtbl \<Rightarrow> ('k, 'v) hashtbl_entry \<Rightarrow> ('k, 'v, 'e) hashtbl c_res" where
  "link_entry h e =
     c_bind (tbl_entry h (hash e)) (\<lambda>chain.
     c_bind (tbl_entry_ref h (hash e) (e # chain)) (\<lambda>h.
     Inr (h\<lparr>nentries := nentries h + 1\<rparr>)))"

fun find_in_chain :: "(('k, 'v) hashtbl_entry \<Rightarrow> bool) \<Rightarrow> ('k, 'v) hashtbl_entry list \<Rightarrow> nat \<Rightarrow> nat option" where
  "find_in_chain p [] j = None"
| "find_in_chain p (e # es) j = (if p e then Some j else find_in_chain p es (Suc j))"

definition entry_matches :: "('k, 'v, 'e) hashtbl \<Rightarrow> 32 word \<Rightarrow> 'k \<Rightarrow> ('k, 'v) hashtbl_entry \<Rightarrow> bool" where
  "entry_matches h hv k e \<longleftrightarrow> hash e = hv \<and> equals_fn h (key e) k"

definition find_entry :: "('k, 'v, 'e) hashtbl \<Rightarrow> 32 word \<Rightarrow> 'k \<Rightarrow> nat option c_res" where
  "find_entry h hv k =
     c_bind (tbl_entry h hv) (\<lambda>chain. Inr (find_in_chain (entry_matches h hv k) chain 0))"

text \<open>The walk of \<open>remove_key\<close>: the entry taken out, if any, and the chain without it.\<close>

fun unlink_from_chain :: "(('k, 'v) hashtbl_entry \<Rightarrow> bool) \<Rightarrow> ('k, 'v) hashtbl_entry list
    \<Rightarrow> ('k, 'v) hashtbl_entry option \<times> ('k, 'v) hashtbl_entry list" where
  "unlink_from_chain p [] = (None, [])"
| "unlink_from_chain p (e # es) =
     (if p e then (Some e, es) else (let (r, es') = unlink_from_chain p es in (r, e # es')))"

definition remove_key :: "('k, 'v, 'e) hashtbl \<Rightarrow> 'k
    \<Rightarrow> (('k, 'v) hashtbl_entry option \<times> ('k, 'v, 'e) hashtbl) c_res" where
  "remove_key h k =
     (let hv = hash_fn h k in
      c_bind (tbl_entry h hv) (\<lambda>chain.
      case unlink_from_chain (entry_matches h hv k) chain of
        (None, _) \<Rightarrow> Inr (None, h)
      | (Some e, chain') \<Rightarrow>
          c_bind (tbl_entry_ref h hv chain') (\<lambda>h.
          Inr (Some e, h\<lparr>nentries := nentries h - 1\<rparr>))))"

definition hashtbl_entry_new :: "('k, 'v, 'e) hashtbl \<Rightarrow> 32 word \<Rightarrow> 'k \<Rightarrow> 'v option \<Rightarrow> 'e
    \<Rightarrow> ('k, 'v) hashtbl_entry option \<times> 'e" where
  "hashtbl_entry_new h hv k v env =
     (case malloc_fn h sizeof_entry env of
        (False, env) \<Rightarrow> (None, env)
      | (True, env) \<Rightarrow> (Some \<lparr>key = k, val = v, hash = hv\<rparr>, env))"

section \<open>Operations\<close>

text \<open>
  The capacity \<open>hashtbl_resize\<close> rounds to.  Where the rounding has no defined result the
  call has none either.
\<close>

definition resize_capacity :: "int \<Rightarrow> int c_res" where
  "resize_capacity capacity =
     (if capacity < 1 then Inr 1
      else if HASHTBL_MAX_TABLE_SIZE \<le> capacity then Inr HASHTBL_MAX_TABLE_SIZE
      else if \<not> is_power_of_2 capacity
           then (case roundup_to_next_power_of_2 capacity of None \<Rightarrow> Inl SignedOverflow | Some c \<Rightarrow> Inr c)
      else Inr capacity)"

text \<open>
  Moving every entry of the old chains, in slot order and head first, into the new table.
  The old table and its counter are dead after the move: the caller overwrites both.
\<close>

fun transfer :: "('k, 'v) hashtbl_entry list \<Rightarrow> ('k, 'v, 'e) hashtbl \<Rightarrow> ('k, 'v, 'e) hashtbl c_res" where
  "transfer [] tmp_h = Inr tmp_h"
| "transfer (e # es) tmp_h = c_bind (link_entry tmp_h e) (transfer es)"

definition all_slots :: "('k, 'v, 'e) hashtbl \<Rightarrow> ('k, 'v) hashtbl_entry list list c_res" where
  "all_slots h = (if length (table h) < nat (table_size h) then Inl OutOfBounds
                  else Inr (take (nat (table_size h)) (table h)))"

definition hashtbl_resize :: "('k, 'v, 'e) hashtbl \<Rightarrow> int \<Rightarrow> 'e \<Rightarrow> (int \<times> ('k, 'v, 'e) hashtbl \<times> 'e) c_res" where
  "hashtbl_resize h capacity env =
     c_bind (resize_capacity capacity) (\<lambda>capacity.
     if capacity < table_size h \<or> capacity = table_size h then Inr (0, h, env)
     else case malloc_fn h (nat capacity * sizeof_pointer) env of
       (False, env) \<Rightarrow> Inr (1, h, env)
     | (True, env) \<Rightarrow>
         c_bind (all_slots h) (\<lambda>slots.
         c_bind (transfer (concat slots)
                   (h\<lparr>table := replicate (nat capacity) [], nentries := 0, table_size := capacity\<rparr>))
           (\<lambda>tmp_h.
         let env = (if table h \<noteq> [] then free_fn h (TableBlock (length (table h))) env else env)
         in Inr (0, h\<lparr>table := table tmp_h, table_size := table_size tmp_h, nentries := nentries tmp_h,
                       resize_threshold := resize_threshold_of capacity (max_load_factor h)\<rparr>, env))))"

definition hashtbl_insert :: "('k, 'v, 'e) hashtbl \<Rightarrow> 'k \<Rightarrow> 'v option \<Rightarrow> 'e
    \<Rightarrow> (int \<times> ('k, 'v, 'e) hashtbl \<times> 'e) c_res" where
  "hashtbl_insert h k v env =
     (let hv = hash_fn h k in
      c_bind (find_entry h hv k) (\<lambda>r.
      case r of
        Some j \<Rightarrow>
          c_bind (tbl_entry h hv) (\<lambda>chain.
          let env = (case val_free_fn h of None \<Rightarrow> env | Some f \<Rightarrow> f (val (chain ! j)) env) in
          c_bind (tbl_entry_ref h hv (chain[j := (chain ! j)\<lparr>val := v\<rparr>])) (\<lambda>h.
          Inr (0, h, env)))
      | None \<Rightarrow>
          c_bind
            (if auto_resize h \<and> ucast (word_of_int (resize_threshold h) :: 32 word) \<le> nentries h
             then c_bind (c_int (2 * table_size h)) (\<lambda>c.
                  c_bind (hashtbl_resize h c env) (\<lambda>(_, h, env). Inr (h, env)))
             else Inr (h, env))
            (\<lambda>(h, env).
          case hashtbl_entry_new h hv k v env of
            (None, env) \<Rightarrow> Inr (1, h, env)
          | (Some e, env) \<Rightarrow> c_bind (link_entry h e) (\<lambda>h. Inr (0, h, env)))))"

definition hashtbl_lookup :: "('k, 'v, 'e) hashtbl \<Rightarrow> 'k \<Rightarrow> 'v option c_res" where
  "hashtbl_lookup h k =
     (let hv = hash_fn h k in
      c_bind (find_entry h hv k) (\<lambda>r.
      c_bind (tbl_entry h hv) (\<lambda>chain.
      Inr (case r of None \<Rightarrow> None | Some j \<Rightarrow> val (chain ! j)))))"

definition hashtbl_remove :: "('k, 'v, 'e) hashtbl \<Rightarrow> 'k \<Rightarrow> 'e \<Rightarrow> (int \<times> ('k, 'v, 'e) hashtbl \<times> 'e) c_res" where
  "hashtbl_remove h k env =
     c_bind (remove_key h k) (\<lambda>(r, h).
     case r of
       None \<Rightarrow> Inr (1, h, env)
     | Some e \<Rightarrow>
         let env = (case key_free_fn h of None \<Rightarrow> env | Some f \<Rightarrow> f (key e) env);
             env = (case val_free_fn h of None \<Rightarrow> env
                    | Some f \<Rightarrow> if val e \<noteq> None then f (val e) env else env);
             env = free_fn h (EntryBlock e) env
         in Inr (0, h, env))"

fun clear_chain :: "('k, 'v) hashtbl_entry list \<Rightarrow> ('k, 'v, 'e) hashtbl \<Rightarrow> 'e \<Rightarrow> ('k, 'v, 'e) hashtbl \<times> 'e" where
  "clear_chain [] h env = (h, env)"
| "clear_chain (e # es) h env =
     (let env = (case key_free_fn h of None \<Rightarrow> env | Some f \<Rightarrow> f (key e) env);
          env = (case val_free_fn h of None \<Rightarrow> env | Some f \<Rightarrow> f (val e) env);
          env = free_fn h (EntryBlock e) env
      in clear_chain es (h\<lparr>nentries := nentries h - 1\<rparr>) env)"

text \<open>The loop over the slots, \<open>i\<close> running over the given indices.\<close>

fun clear_slots :: "nat list \<Rightarrow> ('k, 'v, 'e) hashtbl \<Rightarrow> 'e \<Rightarrow> (('k, 'v, 'e) hashtbl \<times> 'e) c_res" where
  "clear_slots [] h env = Inr (h, env)"
| "clear_slots (i # is) h env =
     c_bind (c_read (table h) (int i)) (\<lambda>chain.
     let (h, env) = clear_chain chain h env in
     c_bind (c_write (table h) (int i) []) (\<lambda>t.
     clear_slots is (h\<lparr>table := t\<rparr>) env))"

definition hashtbl_clear :: "('k, 'v, 'e) hashtbl \<Rightarrow> 'e \<Rightarrow> (('k, 'v, 'e) hashtbl \<times> 'e) c_res" where
  "hashtbl_clear h env = clear_slots [0..<nat (table_size h)] h env"

definition hashtbl_delete :: "('k, 'v, 'e) hashtbl \<Rightarrow> 'e \<Rightarrow> 'e c_res" where
  "hashtbl_delete h env =
     c_bind (hashtbl_clear h env) (\<lambda>(h, env).
     Inr (free_fn h StructBlock (free_fn h (TableBlock (length (table h))) env)))"

definition hashtbl_count :: "('k, 'v, 'e) hashtbl \<Rightarrow> 64 word" where
  "hashtbl_count h = nentries h"

definition hashtbl_capacity :: "('k, 'v, 'e) hashtbl \<Rightarrow> int" where
  "hashtbl_capacity h = table_size h"

text \<open>
  Creation.  A null callback stands for the library's default: \<open>malloc\<close>, \<open>free\<close> (the
  parameters \<open>libc_malloc\<close> and \<open>libc_free\<close>) and the pointer hash and equality of
  \<^verbatim>\<open>hashtbl-funcs.h\<close>, where \<open>addr\<close> gives the address a key pointer holds.
\<close>

definition hashtbl_create :: "('k \<Rightarrow> 64 word) \<Rightarrow> (nat \<Rightarrow> 'e \<Rightarrow> bool \<times> 'e) \<Rightarrow> (('k, 'v) block \<Rightarrow> 'e \<Rightarrow> 'e)
    \<Rightarrow> int \<Rightarrow> rat \<Rightarrow> bool \<Rightarrow> ('k \<Rightarrow> 32 word) option \<Rightarrow> ('k \<Rightarrow> 'k \<Rightarrow> bool) option
    \<Rightarrow> ('k \<Rightarrow> 'e \<Rightarrow> 'e) option \<Rightarrow> ('v option \<Rightarrow> 'e \<Rightarrow> 'e) option
    \<Rightarrow> (nat \<Rightarrow> 'e \<Rightarrow> bool \<times> 'e) option \<Rightarrow> (('k, 'v) block \<Rightarrow> 'e \<Rightarrow> 'e) option
    \<Rightarrow> 'e \<Rightarrow> (('k, 'v, 'e) hashtbl option \<times> 'e) c_res" where
  "hashtbl_create addr libc_malloc libc_free capacity mlf auto hash_f equals_f key_free val_free mallocf freef env =
     (let mallocf = (case mallocf of None \<Rightarrow> libc_malloc | Some f \<Rightarrow> f);
          freef = (case freef of None \<Rightarrow> libc_free | Some f \<Rightarrow> f);
          hash_f = (case hash_f of None \<Rightarrow> (\<lambda>k. hashtbl_direct_hash (addr k)) | Some f \<Rightarrow> f);
          equals_f = (case equals_f of None \<Rightarrow> (\<lambda>a b. hashtbl_direct_equals (addr a) (addr b)) | Some f \<Rightarrow> f)
      in case mallocf sizeof_hashtbl env of
           (False, env) \<Rightarrow> Inr (None, env)
         | (True, env) \<Rightarrow>
             let mlf = (if mlf < 0 then 3 / 4 else if 1 < mlf then 1 else mlf);
                 h = \<lparr>max_load_factor = mlf, hash_fn = hash_f, equals_fn = equals_f, nentries = 0,
                      table_size = 0, resize_threshold = 0, auto_resize = auto,
                      key_free_fn = key_free, val_free_fn = val_free, malloc_fn = mallocf,
                      free_fn = freef, table = []\<rparr>
             in c_bind (hashtbl_resize h capacity env) (\<lambda>(r, h, env).
                if r \<noteq> 0 then Inr (None, freef StructBlock env) else Inr (Some h, env)))"

text \<open>The callback of \<open>hashtbl_apply\<close> returns whether to go on.\<close>

fun apply_chain :: "('k \<Rightarrow> 'v option \<Rightarrow> 'e \<Rightarrow> bool \<times> 'e) \<Rightarrow> ('k, 'v) hashtbl_entry list
    \<Rightarrow> 64 word \<Rightarrow> 'e \<Rightarrow> 64 word \<times> 'e" where
  "apply_chain f [] n env = (n, env)"
| "apply_chain f (e # es) n env =
     (case f (key e) (val e) env of
        (False, env) \<Rightarrow> (n + 1, env)
      | (True, env) \<Rightarrow> apply_chain f es (n + 1) env)"

definition hashtbl_apply :: "('k, 'v, 'e) hashtbl \<Rightarrow> ('k \<Rightarrow> 'v option \<Rightarrow> 'e \<Rightarrow> bool \<times> 'e) \<Rightarrow> 'e
    \<Rightarrow> (64 word \<times> 'e) c_res" where
  "hashtbl_apply h f env = c_bind (all_slots h) (\<lambda>slots. Inr (apply_chain f (concat slots) 0 env))"

definition hashtbl_iter_init :: "('k, 'v, 'e) hashtbl \<Rightarrow> ('k, 'v) hashtbl_iter" where
  "hashtbl_iter_init h = \<lparr>iter_key = None, iter_val = None, pos = 0, entry = []\<rparr>"

text \<open>The iterator's \<open>entry\<close> pointer is the rest of the chain from that entry on.\<close>

definition iter_yield :: "('k, 'v) hashtbl_iter \<Rightarrow> ('k, 'v) hashtbl_entry list \<Rightarrow> ('k, 'v) hashtbl_iter" where
  "iter_yield it es = it\<lparr>entry := es, iter_key := Some (key (hd es)), iter_val := val (hd es)\<rparr>"

function iter_scan :: "('k, 'v, 'e) hashtbl \<Rightarrow> int \<Rightarrow> ('k, 'v) hashtbl_iter \<Rightarrow> (int \<times> ('k, 'v) hashtbl_iter) c_res" where
  "iter_scan h i it =
     (if i < table_size h then
        c_bind (c_read (table h) i) (\<lambda>chain.
        let it = it\<lparr>entry := chain, pos := i\<rparr> in
        if chain \<noteq> [] then Inr (1, iter_yield it chain) else iter_scan h (i + 1) it)
      else Inr (0, it))"
  by pat_completeness auto
termination
  by (relation "measure (\<lambda>(h, i, it). nat (table_size h - i))") auto

definition hashtbl_iter_next :: "('k, 'v, 'e) hashtbl \<Rightarrow> ('k, 'v) hashtbl_iter \<Rightarrow> (int \<times> ('k, 'v) hashtbl_iter) c_res" where
  "hashtbl_iter_next h it =
     (if entry it \<noteq> [] then
        let it = it\<lparr>entry := tl (entry it)\<rparr> in
        if entry it \<noteq> [] then Inr (1, iter_yield it (entry it))
        else let it = it\<lparr>pos := pos it + 1\<rparr> in iter_scan h (pos it) it
      else iter_scan h (pos it) it)"

definition hashtbl_load_factor :: "('k, 'v, 'e) hashtbl \<Rightarrow> rat" where
  "hashtbl_load_factor h = fl64 (fl64 (of_nat (unat (nentries h))) / of_int (table_size h))"

declare iter_scan.simps [simp del]

end
