(* ===== verification/Linked_Hashtbl.thy ===== *)
theory Linked_Hashtbl
  imports Hashtbl
begin

text \<open>
  \<^verbatim>\<open>c-hacks/src/linked-hashtbl.c\<close>: a hash table with external chaining whose entries also form a
  circular doubly linked list, in the order of insertion or of access.  The entries are cells of
  an explicit heap: a pointer is an index into \<open>cells\<close>, a freed cell is \<open>None\<close>, addresses are not
  reused, and following a pointer to a freed cell is an error.  The list node of an entry has the
  address of the entry; address 0 is \<open>all_entries\<close>, the head of the list.  Callbacks act on an
  environment of their own; the evictor sees the number of entries.
\<close>

section \<open>The data\<close>

type_synonym ptr = nat

record ('k, 'v) l_hashtbl_entry =
  list_next :: ptr
  list_prev :: ptr
  slot_next :: "ptr option"
  l_key :: 'k
  l_val :: "'v option"
  l_hash :: "32 word"

datatype ('k, 'v) l_block = LEntry ptr "('k, 'v) l_hashtbl_entry" | LTable nat | LStruct

record ('k, 'v, 'e) l_hashtbl =
  head_next :: ptr
  head_prev :: ptr
  l_max_load_factor :: rat
  l_hash_fn :: "'k \<Rightarrow> 32 word"
  l_equals_fn :: "'k \<Rightarrow> 'k \<Rightarrow> bool"
  l_nentries :: "64 word"
  l_table_size :: int
  l_resize_threshold :: int
  l_auto_resize :: bool
  access_order :: bool
  l_key_free_fn :: "('k \<Rightarrow> 'e \<Rightarrow> 'e) option"
  l_val_free_fn :: "('v option \<Rightarrow> 'e \<Rightarrow> 'e) option"
  l_malloc_fn :: "nat \<Rightarrow> 'e \<Rightarrow> bool \<times> 'e"
  l_free_fn :: "('k, 'v) l_block \<Rightarrow> 'e \<Rightarrow> 'e"
  evictor_fn :: "64 word \<Rightarrow> 'e \<Rightarrow> bool \<times> 'e"
  l_table :: "ptr option list"
  cells :: "('k, 'v) l_hashtbl_entry option list"

record ('k, 'v) l_hashtbl_iter =
  l_iter_key :: "'k option"
  l_iter_val :: "'v option"
  direction :: int
  iter_pos :: ptr
  iter_end :: ptr

definition LINKED_HASHTBL_MAX_TABLE_SIZE :: int where "LINKED_HASHTBL_MAX_TABLE_SIZE = 2 ^ 30"

definition sizeof_l_entry :: nat where "sizeof_l_entry = 48"

definition sizeof_l_hashtbl :: nat where "sizeof_l_hashtbl = 112"

section \<open>Memory\<close>

definition get_cell :: "('k, 'v, 'e) l_hashtbl \<Rightarrow> ptr \<Rightarrow> ('k, 'v) l_hashtbl_entry c_res" where
  "get_cell h a = (if a < length (cells h) then (case cells h ! a of None \<Rightarrow> Inl OutOfBounds | Some e \<Rightarrow> Inr e) else Inl OutOfBounds)"

definition set_cell :: "('k, 'v, 'e) l_hashtbl \<Rightarrow> ptr \<Rightarrow> (('k, 'v) l_hashtbl_entry \<Rightarrow> ('k, 'v) l_hashtbl_entry) \<Rightarrow> ('k, 'v, 'e) l_hashtbl c_res" where
  "set_cell h a f = c_bind (get_cell h a) (\<lambda>e. Inr (h\<lparr>cells := (cells h)[a := Some (f e)]\<rparr>))"

definition get_next :: "('k, 'v, 'e) l_hashtbl \<Rightarrow> ptr \<Rightarrow> ptr c_res" where
  "get_next h a = (if a = 0 then Inr (head_next h) else c_bind (get_cell h a) (\<lambda>e. Inr (list_next e)))"

definition get_prev :: "('k, 'v, 'e) l_hashtbl \<Rightarrow> ptr \<Rightarrow> ptr c_res" where
  "get_prev h a = (if a = 0 then Inr (head_prev h) else c_bind (get_cell h a) (\<lambda>e. Inr (list_prev e)))"

definition set_next :: "('k, 'v, 'e) l_hashtbl \<Rightarrow> ptr \<Rightarrow> ptr \<Rightarrow> ('k, 'v, 'e) l_hashtbl c_res" where
  "set_next h a b = (if a = 0 then Inr (h\<lparr>head_next := b\<rparr>) else set_cell h a (\<lambda>e. e\<lparr>list_next := b\<rparr>))"

definition set_prev :: "('k, 'v, 'e) l_hashtbl \<Rightarrow> ptr \<Rightarrow> ptr \<Rightarrow> ('k, 'v, 'e) l_hashtbl c_res" where
  "set_prev h a b = (if a = 0 then Inr (h\<lparr>head_prev := b\<rparr>) else set_cell h a (\<lambda>e. e\<lparr>list_prev := b\<rparr>))"

section \<open>The list of all entries\<close>

definition list_init :: "('k, 'v, 'e) l_hashtbl \<Rightarrow> ('k, 'v, 'e) l_hashtbl" where
  "list_init h = h\<lparr>head_next := 0, head_prev := 0\<rparr>"

definition list_add_before :: "('k, 'v, 'e) l_hashtbl \<Rightarrow> ptr \<Rightarrow> ptr \<Rightarrow> ('k, 'v, 'e) l_hashtbl c_res" where
  "list_add_before h node head =
     (let prev = head in
      c_bind (get_next h head) (\<lambda>next.
      c_bind (set_next h node next) (\<lambda>h.
      c_bind (set_prev h node prev) (\<lambda>h.
      c_bind (set_next h prev node) (\<lambda>h.
      set_prev h next node)))))"

definition list_remove :: "('k, 'v, 'e) l_hashtbl \<Rightarrow> ptr \<Rightarrow> ('k, 'v, 'e) l_hashtbl c_res" where
  "list_remove h node =
     c_bind (get_prev h node) (\<lambda>p.
     c_bind (get_next h node) (\<lambda>n.
     c_bind (set_next h p n) (\<lambda>h.
     c_bind (get_next h node) (\<lambda>n.
     c_bind (get_prev h node) (\<lambda>p.
     set_prev h n p)))))"

section \<open>Internal operations\<close>

definition l_resize_threshold_of :: "int \<Rightarrow> rat \<Rightarrow> int" where
  "l_resize_threshold_of capacity mlf = trunc (fl64 (fl64 (of_int capacity * mlf) + 1 / 2))"

text \<open>\<open>None\<close> if the shift overflows \<open>int\<close> or the loop does not end.\<close>

partial_function (option) l_roundup_loop :: "int \<Rightarrow> int \<Rightarrow> int option" where
  "l_roundup_loop x n =
     (if n < x then (if c_int_ok (2 * n) then l_roundup_loop x (2 * n) else None) else Some n)"

definition l_roundup_to_next_power_of_2 :: "int \<Rightarrow> int option" where
  "l_roundup_to_next_power_of_2 x = l_roundup_loop x 1"

definition l_is_power_of_2 :: "int \<Rightarrow> bool" where
  "l_is_power_of_2 x \<longleftrightarrow> x AND (x - 1) = 0"

definition record_access :: "('k, 'v, 'e) l_hashtbl \<Rightarrow> ptr \<Rightarrow> ('k, 'v, 'e) l_hashtbl c_res" where
  "record_access h a =
     (if access_order h then c_bind (list_remove h a) (\<lambda>h. list_add_before h a 0) else Inr h)"

text \<open>The slot of a hash value in a table of that size.\<close>

definition l_tbl_index :: "int \<Rightarrow> 32 word \<Rightarrow> int" where
  "l_tbl_index tsize hashval = sint hashval AND (tsize - 1)"

definition l_tbl_entry :: "('k, 'v, 'e) l_hashtbl \<Rightarrow> 32 word \<Rightarrow> ptr option c_res" where
  "l_tbl_entry h hashval = c_read (l_table h) (l_tbl_index (l_table_size h) hashval)"

text \<open>A reference to a link of a slot's list: the slot itself, or the \<open>next\<close> field of an entry.\<close>

datatype slot_ref = SlotRef int | NextRef ptr

definition l_tbl_entry_ref :: "('k, 'v, 'e) l_hashtbl \<Rightarrow> 32 word \<Rightarrow> slot_ref" where
  "l_tbl_entry_ref h hashval = SlotRef (l_tbl_index (l_table_size h) hashval)"

definition read_ref :: "('k, 'v, 'e) l_hashtbl \<Rightarrow> slot_ref \<Rightarrow> ptr option c_res" where
  "read_ref h r = (case r of SlotRef i \<Rightarrow> c_read (l_table h) i | NextRef a \<Rightarrow> c_bind (get_cell h a) (\<lambda>e. Inr (slot_next e)))"

definition write_ref :: "('k, 'v, 'e) l_hashtbl \<Rightarrow> slot_ref \<Rightarrow> ptr option \<Rightarrow> ('k, 'v, 'e) l_hashtbl c_res" where
  "write_ref h r p =
     (case r of
        SlotRef i \<Rightarrow> c_bind (c_write (l_table h) i p) (\<lambda>t. Inr (h\<lparr>l_table := t\<rparr>))
      | NextRef a \<Rightarrow> set_cell h a (\<lambda>e. e\<lparr>slot_next := p\<rparr>))"

definition remove_eldest :: "64 word \<Rightarrow> 'e \<Rightarrow> bool \<times> 'e" where
  "remove_eldest count env = (False, env)"

text \<open>
  The walks along a slot's list and along the list of all entries leave the links they follow
  alone, or free the cells they visit: a walk of more steps than there are cells meets a cell
  twice and never ends.
\<close>

primrec find_loop :: "('k, 'v, 'e) l_hashtbl \<Rightarrow> 32 word \<Rightarrow> 'k \<Rightarrow> nat \<Rightarrow> ptr option \<Rightarrow> ptr option c_res" where
  "find_loop h hv k 0 p = (case p of None \<Rightarrow> Inr None | Some a \<Rightarrow> Inl NoReturn)"
| "find_loop h hv k (Suc n) p =
     (case p of
        None \<Rightarrow> Inr None
      | Some a \<Rightarrow>
          c_bind (get_cell h a) (\<lambda>e.
          if l_hash e = hv \<and> l_equals_fn h (l_key e) k then Inr (Some a) else find_loop h hv k n (slot_next e)))"

definition l_find_entry :: "('k, 'v, 'e) l_hashtbl \<Rightarrow> 32 word \<Rightarrow> 'k \<Rightarrow> ptr option c_res" where
  "l_find_entry h hv k = c_bind (l_tbl_entry h hv) (find_loop h hv k (length (cells h)))"

primrec remove_loop :: "('k, 'v, 'e) l_hashtbl \<Rightarrow> 32 word \<Rightarrow> 'k \<Rightarrow> nat \<Rightarrow> slot_ref \<Rightarrow> ptr option
    \<Rightarrow> (ptr option \<times> ('k, 'v, 'e) l_hashtbl) c_res" where
  "remove_loop h hv k 0 r p = (case p of None \<Rightarrow> Inr (None, h) | Some a \<Rightarrow> Inl NoReturn)"
| "remove_loop h hv k (Suc n) r p =
     (case p of
        None \<Rightarrow> Inr (None, h)
      | Some a \<Rightarrow>
          c_bind (get_cell h a) (\<lambda>e.
          if l_hash e = hv \<and> l_equals_fn h (l_key e) k then
            c_bind (write_ref h r (slot_next e)) (\<lambda>h.
            c_bind (list_remove (h\<lparr>l_nentries := l_nentries h - 1\<rparr>) a) (\<lambda>h.
            Inr (Some a, h)))
          else remove_loop h hv k n (NextRef a) (slot_next e)))"

definition l_remove_key :: "('k, 'v, 'e) l_hashtbl \<Rightarrow> 'k \<Rightarrow> (ptr option \<times> ('k, 'v, 'e) l_hashtbl) c_res" where
  "l_remove_key h k =
     (let hv = l_hash_fn h k; r = l_tbl_entry_ref h hv in
      c_bind (read_ref h r) (remove_loop h hv k (length (cells h)) r))"

section \<open>Operations\<close>

text \<open>Release of an entry: its callbacks, then the cell.  \<open>nulls\<close>: also null values go to \<open>val_free_fn\<close>.\<close>

definition release_l_entry :: "bool \<Rightarrow> ('k, 'v, 'e) l_hashtbl \<Rightarrow> ('k, 'v) l_hashtbl_entry \<Rightarrow> 'e \<Rightarrow> 'e" where
  "release_l_entry nulls h e env =
     (let env = (case l_key_free_fn h of None \<Rightarrow> env | Some f \<Rightarrow> f (l_key e) env)
      in case l_val_free_fn h of None \<Rightarrow> env | Some f \<Rightarrow> if nulls \<or> l_val e \<noteq> None then f (l_val e) env else env)"

definition free_cell :: "('k, 'v, 'e) l_hashtbl \<Rightarrow> ptr \<Rightarrow> 'e \<Rightarrow> (('k, 'v, 'e) l_hashtbl \<times> 'e) c_res" where
  "free_cell h a env = c_bind (get_cell h a) (\<lambda>e. Inr (h\<lparr>cells := (cells h)[a := None]\<rparr>, l_free_fn h (LEntry a e) env))"

definition l_hashtbl_remove :: "('k, 'v, 'e) l_hashtbl \<Rightarrow> 'k \<Rightarrow> 'e \<Rightarrow> (int \<times> ('k, 'v, 'e) l_hashtbl \<times> 'e) c_res" where
  "l_hashtbl_remove h k env =
     c_bind (l_remove_key h k) (\<lambda>(p, h).
     case p of
       None \<Rightarrow> Inr (1, h, env)
     | Some a \<Rightarrow>
         c_bind (get_cell h a) (\<lambda>e.
         c_bind (free_cell h a (release_l_entry False h e env)) (\<lambda>(h, env).
         Inr (0, h, env))))"

definition l_resize_capacity :: "int \<Rightarrow> int c_res" where
  "l_resize_capacity capacity =
     (if capacity < 1 then Inr 1
      else if LINKED_HASHTBL_MAX_TABLE_SIZE \<le> capacity then Inr LINKED_HASHTBL_MAX_TABLE_SIZE
      else if \<not> l_is_power_of_2 capacity
           then (case l_roundup_to_next_power_of_2 capacity of None \<Rightarrow> Inl SignedOverflow | Some c \<Rightarrow> Inr c)
      else Inr capacity)"

text \<open>\<open>tmp\<close> is the new table.\<close>

primrec transfer_loop :: "('k, 'v, 'e) l_hashtbl \<Rightarrow> ptr option list \<Rightarrow> nat \<Rightarrow> ptr \<Rightarrow> (('k, 'v, 'e) l_hashtbl \<times> ptr option list) c_res" where
  "transfer_loop h tmp 0 node = (if node = 0 then Inr (h, tmp) else Inl NoReturn)"
| "transfer_loop h tmp (Suc n) node =
     (if node = 0 then Inr (h, tmp)
      else
        c_bind (get_cell h node) (\<lambda>e.
        let i = l_tbl_index (int (length tmp)) (l_hash e) in
        c_bind (c_read tmp i) (\<lambda>p.
        c_bind (set_cell h node (\<lambda>e. e\<lparr>slot_next := p\<rparr>)) (\<lambda>h.
        c_bind (c_write tmp i (Some node)) (\<lambda>tmp.
        c_bind (get_next h node) (\<lambda>node.
        transfer_loop h tmp n node))))))"

definition l_hashtbl_resize :: "('k, 'v, 'e) l_hashtbl \<Rightarrow> int \<Rightarrow> 'e \<Rightarrow> (int \<times> ('k, 'v, 'e) l_hashtbl \<times> 'e) c_res" where
  "l_hashtbl_resize h capacity env =
     c_bind (l_resize_capacity capacity) (\<lambda>capacity.
     if capacity < l_table_size h \<or> capacity = l_table_size h then Inr (0, h, env)
     else case l_malloc_fn h (nat capacity * sizeof_pointer) env of
       (False, env) \<Rightarrow> Inr (1, h, env)
     | (True, env) \<Rightarrow>
         c_bind (transfer_loop h (replicate (nat capacity) None) (length (cells h)) (head_next h)) (\<lambda>(h, tmp).
         let env = (if l_table h \<noteq> [] then l_free_fn h (LTable (length (l_table h))) env else env)
         in Inr (0, h\<lparr>l_table_size := capacity, l_resize_threshold := l_resize_threshold_of capacity (l_max_load_factor h),
                       l_table := tmp\<rparr>, env)))"

text \<open>The cell of a new entry; its list links are set when it is linked.\<close>

definition new_entry :: "('k, 'v, 'e) l_hashtbl \<Rightarrow> 32 word \<Rightarrow> 'k \<Rightarrow> 'v option \<Rightarrow> ptr \<times> ('k, 'v, 'e) l_hashtbl" where
  "new_entry h hv k v =
     (length (cells h),
      h\<lparr>cells := cells h @ [Some \<lparr>list_next = 0, list_prev = 0, slot_next = None, l_key = k, l_val = v, l_hash = hv\<rparr>]\<rparr>)"

definition evict_eldest :: "('k, 'v, 'e) l_hashtbl \<Rightarrow> 'e \<Rightarrow> (('k, 'v, 'e) l_hashtbl \<times> 'e) c_res" where
  "evict_eldest h env =
     (case evictor_fn h (l_nentries h) env of
        (False, env) \<Rightarrow> Inr (h, env)
      | (True, env) \<Rightarrow>
          c_bind (get_cell h (head_prev h)) (\<lambda>e.
          c_bind (l_hashtbl_remove h (l_key e) env) (\<lambda>(_, h, env).
          Inr (h, env))))"

definition l_hashtbl_insert :: "('k, 'v, 'e) l_hashtbl \<Rightarrow> 'k \<Rightarrow> 'v option \<Rightarrow> 'e \<Rightarrow> (int \<times> ('k, 'v, 'e) l_hashtbl \<times> 'e) c_res" where
  "l_hashtbl_insert h k v env =
     (let hv = l_hash_fn h k in
      c_bind (l_find_entry h hv k) (\<lambda>p.
      case p of
        Some a \<Rightarrow>
          c_bind (get_cell h a) (\<lambda>e.
          let env = (case l_val_free_fn h of None \<Rightarrow> env | Some f \<Rightarrow> f (l_val e) env) in
          c_bind (set_cell h a (\<lambda>e. e\<lparr>l_val := v\<rparr>)) (\<lambda>h.
          Inr (0, h, env)))
      | None \<Rightarrow>
          (case l_malloc_fn h sizeof_l_entry env of
             (False, env) \<Rightarrow> Inr (1, h, env)
           | (True, env) \<Rightarrow>
               let (a, h) = new_entry h hv k v; r = l_tbl_entry_ref h hv in
               c_bind (read_ref h r) (\<lambda>next.
               c_bind (set_cell h a (\<lambda>e. e\<lparr>slot_next := next\<rparr>)) (\<lambda>h.
               c_bind (write_ref h r (Some a)) (\<lambda>h.
               c_bind (list_add_before h a 0) (\<lambda>h.
               c_bind (evict_eldest (h\<lparr>l_nentries := l_nentries h + 1\<rparr>) env) (\<lambda>(h, env).
               if l_auto_resize h \<and> ucast (word_of_int (l_resize_threshold h) :: 32 word) \<le> l_nentries h
               then c_bind (c_int (2 * l_table_size h)) (\<lambda>c.
                    c_bind (l_hashtbl_resize h c env) (\<lambda>(_, h, env). Inr (0, h, env)))
               else Inr (0, h, env)))))))))"

definition l_hashtbl_lookup :: "('k, 'v, 'e) l_hashtbl \<Rightarrow> 'k \<Rightarrow> ('v option \<times> ('k, 'v, 'e) l_hashtbl) c_res" where
  "l_hashtbl_lookup h k =
     (let hv = l_hash_fn h k in
      c_bind (l_find_entry h hv k) (\<lambda>p.
      case p of
        None \<Rightarrow> Inr (None, h)
      | Some a \<Rightarrow> c_bind (record_access h a) (\<lambda>h. c_bind (get_cell h a) (\<lambda>e. Inr (l_val e, h)))))"

primrec clear_loop :: "nat \<Rightarrow> ptr \<Rightarrow> ptr \<Rightarrow> ('k, 'v, 'e) l_hashtbl \<Rightarrow> 'e \<Rightarrow> (('k, 'v, 'e) l_hashtbl \<times> 'e) c_res" where
  "clear_loop 0 node tmp h env = (if node = 0 then Inr (h, env) else Inl NoReturn)"
| "clear_loop (Suc n) node tmp h env =
     (if node = 0 then Inr (h, env)
      else
        c_bind (get_cell h node) (\<lambda>e.
        let env = release_l_entry True h e env in
        c_bind (list_remove h node) (\<lambda>h.
        c_bind (free_cell h node env) (\<lambda>(h, env).
        c_bind (get_next h tmp) (\<lambda>tmp'.
        clear_loop n tmp tmp' (h\<lparr>l_nentries := l_nentries h - 1\<rparr>) env)))))"

definition l_hashtbl_clear :: "('k, 'v, 'e) l_hashtbl \<Rightarrow> 'e \<Rightarrow> (('k, 'v, 'e) l_hashtbl \<times> 'e) c_res" where
  "l_hashtbl_clear h env =
     c_bind (get_next h 0) (\<lambda>node.
     c_bind (get_next h node) (\<lambda>tmp.
     c_bind (clear_loop (length (cells h)) node tmp h env) (\<lambda>(h, env).
     if length (l_table h) < nat (l_table_size h) then Inl OutOfBounds
     else Inr (list_init (h\<lparr>l_table := replicate (nat (l_table_size h)) None @ drop (nat (l_table_size h)) (l_table h)\<rparr>), env))))"

definition l_hashtbl_delete :: "('k, 'v, 'e) l_hashtbl \<Rightarrow> 'e \<Rightarrow> 'e c_res" where
  "l_hashtbl_delete h env =
     c_bind (l_hashtbl_clear h env) (\<lambda>(h, env).
     Inr (l_free_fn h LStruct (l_free_fn h (LTable (length (l_table h))) env)))"

definition l_hashtbl_count :: "('k, 'v, 'e) l_hashtbl \<Rightarrow> 64 word" where
  "l_hashtbl_count h = l_nentries h"

definition l_hashtbl_capacity :: "('k, 'v, 'e) l_hashtbl \<Rightarrow> int" where
  "l_hashtbl_capacity h = l_table_size h"

definition l_hashtbl_create :: "('k \<Rightarrow> 64 word) \<Rightarrow> (nat \<Rightarrow> 'e \<Rightarrow> bool \<times> 'e) \<Rightarrow> (('k, 'v) l_block \<Rightarrow> 'e \<Rightarrow> 'e)
    \<Rightarrow> int \<Rightarrow> rat \<Rightarrow> bool \<Rightarrow> bool \<Rightarrow> ('k \<Rightarrow> 32 word) option \<Rightarrow> ('k \<Rightarrow> 'k \<Rightarrow> bool) option
    \<Rightarrow> ('k \<Rightarrow> 'e \<Rightarrow> 'e) option \<Rightarrow> ('v option \<Rightarrow> 'e \<Rightarrow> 'e) option
    \<Rightarrow> (nat \<Rightarrow> 'e \<Rightarrow> bool \<times> 'e) option \<Rightarrow> (('k, 'v) l_block \<Rightarrow> 'e \<Rightarrow> 'e) option \<Rightarrow> (64 word \<Rightarrow> 'e \<Rightarrow> bool \<times> 'e) option
    \<Rightarrow> 'e \<Rightarrow> (('k, 'v, 'e) l_hashtbl option \<times> 'e) c_res" where
  "l_hashtbl_create addr libc_malloc libc_free capacity mlf auto acc hash_f equals_f key_free val_free mallocf freef evictor env =
     (let mallocf = (case mallocf of None \<Rightarrow> libc_malloc | Some f \<Rightarrow> f);
          freef = (case freef of None \<Rightarrow> libc_free | Some f \<Rightarrow> f);
          hash_f = (case hash_f of None \<Rightarrow> (\<lambda>k. hashtbl_direct_hash (addr k)) | Some f \<Rightarrow> f);
          equals_f = (case equals_f of None \<Rightarrow> (\<lambda>a b. hashtbl_direct_equals (addr a) (addr b)) | Some f \<Rightarrow> f);
          evictor = (case evictor of None \<Rightarrow> remove_eldest | Some f \<Rightarrow> f)
      in case mallocf sizeof_l_hashtbl env of
           (False, env) \<Rightarrow> Inr (None, env)
         | (True, env) \<Rightarrow>
             let mlf = (if mlf < 0 then 3 / 4 else if 1 < mlf then 1 else mlf);
                 h = list_init \<lparr>head_next = 0, head_prev = 0, l_max_load_factor = mlf, l_hash_fn = hash_f, l_equals_fn = equals_f,
                      l_nentries = 0, l_table_size = 0, l_resize_threshold = 0, l_auto_resize = auto, access_order = acc,
                      l_key_free_fn = key_free, l_val_free_fn = val_free, l_malloc_fn = mallocf,
                      l_free_fn = freef, evictor_fn = evictor, l_table = [], cells = [None]\<rparr>
             in c_bind (l_hashtbl_resize h capacity env) (\<lambda>(r, h, env).
                if r \<noteq> 0 then Inr (None, freef LStruct env) else Inr (Some h, env)))"

text \<open>The callback of \<open>l_hashtbl_apply\<close> returns an \<open>int\<close>; anything but 1 ends the enumeration.\<close>

primrec l_apply_loop :: "('k, 'v, 'e) l_hashtbl \<Rightarrow> ('k \<Rightarrow> 'v option \<Rightarrow> 'e \<Rightarrow> int \<times> 'e) \<Rightarrow> nat \<Rightarrow> ptr \<Rightarrow> 64 word \<Rightarrow> 'e \<Rightarrow> (64 word \<times> 'e) c_res" where
  "l_apply_loop h f 0 node cnt env = (if node = 0 then Inr (cnt, env) else Inl NoReturn)"
| "l_apply_loop h f (Suc n) node cnt env =
     (if node = 0 then Inr (cnt, env)
      else
        c_bind (get_cell h node) (\<lambda>e.
        let (r, env) = f (l_key e) (l_val e) env in
        if r \<noteq> 1 then Inr (cnt + 1, env)
        else c_bind (get_next h node) (\<lambda>node. l_apply_loop h f n node (cnt + 1) env)))"

definition l_hashtbl_apply :: "('k, 'v, 'e) l_hashtbl \<Rightarrow> ('k \<Rightarrow> 'v option \<Rightarrow> 'e \<Rightarrow> int \<times> 'e) \<Rightarrow> 'e \<Rightarrow> (64 word \<times> 'e) c_res" where
  "l_hashtbl_apply h f env = l_apply_loop h f (length (cells h)) (head_next h) 0 env"

definition l_hashtbl_iter_init :: "('k, 'v, 'e) l_hashtbl \<Rightarrow> int \<Rightarrow> ('k, 'v) l_hashtbl_iter" where
  "l_hashtbl_iter_init h dir =
     \<lparr>l_iter_key = None, l_iter_val = None, direction = dir,
      iter_pos = (if 1 \<le> dir then head_next h else head_prev h), iter_end = 0\<rparr>"

definition l_hashtbl_iter_next :: "('k, 'v, 'e) l_hashtbl \<Rightarrow> ('k, 'v) l_hashtbl_iter \<Rightarrow> (int \<times> ('k, 'v) l_hashtbl_iter) c_res" where
  "l_hashtbl_iter_next h it =
     (let node = iter_pos it in
      if node = iter_end it then Inr (0, it)
      else
        c_bind (if 1 \<le> direction it then get_next h node else get_prev h node) (\<lambda>p.
        let it = it\<lparr>iter_pos := p\<rparr> in
        c_bind (get_cell h node) (\<lambda>e.
        Inr (1, it\<lparr>l_iter_key := Some (l_key e), l_iter_val := l_val e\<rparr>))))"

definition l_hashtbl_load_factor :: "('k, 'v, 'e) l_hashtbl \<Rightarrow> rat" where
  "l_hashtbl_load_factor h = fl64 (fl64 (of_nat (unat (l_nentries h))) / of_int (l_table_size h))"

end
