(* ===== verification/Dictionary.thy ===== *)
theory Dictionary
  imports Prelude
begin

text \<open>
  The contract the hash tables share: a dictionary with an equality of keys, whose insertion
  may fail without effect.  A state of the dictionary is a table together with the
  environment of its callbacks; the map it stands for gives each key its value, if any.
\<close>

section \<open>Operations and their abstract behaviour\<close>

datatype ('k, 'v) dict_op = Put 'k 'v | Del 'k | Get 'k

datatype 'v dict_res = Status int | Found 'v

definition upd_same :: "('k \<Rightarrow> 'k \<Rightarrow> bool) \<Rightarrow> 'k \<Rightarrow> 'v option \<Rightarrow> ('k \<Rightarrow> 'v option) \<Rightarrow> 'k \<Rightarrow> 'v option" where
  "upd_same same k v m k' = (if same k k' then v else m k')"

text \<open>
  One operation on the abstract map: a failed insertion and the removal of an absent key
  report 1 and change nothing; a lookup of an absent key finds the null value.
\<close>

inductive dict_step :: "('k \<Rightarrow> 'k \<Rightarrow> bool) \<Rightarrow> 'v \<Rightarrow> ('k, 'v) dict_op \<Rightarrow> ('k \<Rightarrow> 'v option) \<Rightarrow> 'v dict_res
    \<Rightarrow> ('k \<Rightarrow> 'v option) \<Rightarrow> bool" for same null where
  put: "dict_step same null (Put k v) m (Status 0) (upd_same same k (Some v) m)"
| put_fails: "m k = None \<Longrightarrow> dict_step same null (Put k v) m (Status 1) m"
| del: "m k \<noteq> None \<Longrightarrow> dict_step same null (Del k) m (Status 0) (upd_same same k None m)"
| del_absent: "m k = None \<Longrightarrow> dict_step same null (Del k) m (Status 1) m"
| get: "dict_step same null (Get k) m (Found (case m k of None \<Rightarrow> null | Some v \<Rightarrow> v)) m"

inductive_cases put_stepE: "dict_step same null (Put k v) m r m'"
inductive_cases del_stepE: "dict_step same null (Del k) m r m'"
inductive_cases get_stepE: "dict_step same null (Get k) m r m'"

inductive dict_steps :: "('k \<Rightarrow> 'k \<Rightarrow> bool) \<Rightarrow> 'v \<Rightarrow> ('k, 'v) dict_op list \<Rightarrow> ('k \<Rightarrow> 'v option) \<Rightarrow> 'v dict_res list
    \<Rightarrow> ('k \<Rightarrow> 'v option) \<Rightarrow> bool" for same null where
  none: "dict_steps same null [] m [] m"
| step: "dict_step same null op m r m' \<Longrightarrow> dict_steps same null ops m' rs m'' \<Longrightarrow>
         dict_steps same null (op # ops) m (r # rs) m''"

section \<open>Running a sequence of operations\<close>

definition run_op :: "('s \<Rightarrow> 'k \<Rightarrow> 'v \<Rightarrow> (int \<times> 's) c_res) \<Rightarrow> ('s \<Rightarrow> 'k \<Rightarrow> (int \<times> 's) c_res) \<Rightarrow> ('s \<Rightarrow> 'k \<Rightarrow> ('v \<times> 's) c_res)
    \<Rightarrow> ('k, 'v) dict_op \<Rightarrow> 's \<Rightarrow> ('v dict_res \<times> 's) c_res" where
  "run_op put del get op s =
     (case op of
        Put k v \<Rightarrow> c_bind (put s k v) (\<lambda>(r, s). Inr (Status r, s))
      | Del k \<Rightarrow> c_bind (del s k) (\<lambda>(r, s). Inr (Status r, s))
      | Get k \<Rightarrow> c_bind (get s k) (\<lambda>(v, s). Inr (Found v, s)))"

fun run_ops :: "('s \<Rightarrow> 'k \<Rightarrow> 'v \<Rightarrow> (int \<times> 's) c_res) \<Rightarrow> ('s \<Rightarrow> 'k \<Rightarrow> (int \<times> 's) c_res) \<Rightarrow> ('s \<Rightarrow> 'k \<Rightarrow> ('v \<times> 's) c_res)
    \<Rightarrow> ('k, 'v) dict_op list \<Rightarrow> 's \<Rightarrow> ('v dict_res list \<times> 's) c_res" where
  "run_ops put del get [] s = Inr ([], s)"
| "run_ops put del get (op # ops) s =
     c_bind (run_op put del get op s) (\<lambda>(r, s).
     c_bind (run_ops put del get ops s) (\<lambda>(rs, s). Inr (r # rs, s)))"

section \<open>The contract\<close>

text \<open>An operation that returns does what the abstract map does and keeps the invariant.\<close>

locale dictionary =
  fixes inv :: "'s \<Rightarrow> bool"
    and same :: "'k \<Rightarrow> 'k \<Rightarrow> bool"
    and null :: 'v
    and content :: "'s \<Rightarrow> 'k \<Rightarrow> 'v option"
    and put :: "'s \<Rightarrow> 'k \<Rightarrow> 'v \<Rightarrow> (int \<times> 's) c_res"
    and del :: "'s \<Rightarrow> 'k \<Rightarrow> (int \<times> 's) c_res"
    and get :: "'s \<Rightarrow> 'k \<Rightarrow> ('v \<times> 's) c_res"
  assumes put_law: "inv s \<Longrightarrow> put s k v = Inr (r, s') \<Longrightarrow>
      inv s' \<and> dict_step same null (Put k v) (content s) (Status r) (content s')"
    and del_law: "inv s \<Longrightarrow> del s k = Inr (r, s') \<Longrightarrow>
      inv s' \<and> dict_step same null (Del k) (content s) (Status r) (content s')"
    and get_law: "inv s \<Longrightarrow> get s k = Inr (w, s') \<Longrightarrow>
      inv s' \<and> dict_step same null (Get k) (content s) (Found w) (content s')"
begin

lemma run_op_refines:
  "inv s \<Longrightarrow> run_op put del get op s = Inr (r, s') \<Longrightarrow> inv s' \<and> dict_step same null op (content s) r (content s')"
  by (cases op) (auto simp: run_op_def dest: put_law del_law get_law)

text \<open>The results of a sequence of operations are those of the abstract map.\<close>

lemma run_ops_refines:
  "inv s \<Longrightarrow> run_ops put del get ops s = Inr (rs, s') \<Longrightarrow>
   inv s' \<and> dict_steps same null ops (content s) rs (content s')"
proof (induction ops arbitrary: s rs)
  case Nil
  then show ?case by (auto intro: dict_steps.none)
next
  case (Cons op ops)
  then obtain r s1 rs1 where 1: "run_op put del get op s = Inr (r, s1)"
    and 2: "run_ops put del get ops s1 = Inr (rs1, s')" and rs: "rs = r # rs1"
    by auto
  from run_op_refines [OF Cons.prems(1) 1] Cons.IH [OF _ 2] rs show ?case
    by (auto intro: dict_steps.step)
qed

end

text \<open>A dictionary whose operations always return.\<close>

locale total_dictionary = dictionary +
  assumes put_returns: "inv s \<Longrightarrow> \<exists>r s'. put s k v = Inr (r, s')"
    and del_returns: "inv s \<Longrightarrow> \<exists>r s'. del s k = Inr (r, s')"
    and get_returns: "inv s \<Longrightarrow> \<exists>w s'. get s k = Inr (w, s')"
begin

lemma run_op_returns: "inv s \<Longrightarrow> \<exists>r s'. run_op put del get op s = Inr (r, s')"
  using put_returns [of s] del_returns [of s] get_returns [of s] by (cases op) (fastforce simp: run_op_def)+

lemma run_ops_total:
  "inv s \<Longrightarrow> \<exists>rs s'. run_ops put del get ops s = Inr (rs, s') \<and> inv s' \<and> dict_steps same null ops (content s) rs (content s')"
proof -
  have "inv s \<Longrightarrow> \<exists>rs s'. run_ops put del get ops s = Inr (rs, s')"
  proof (induction ops arbitrary: s)
    case (Cons op ops)
    from run_op_returns [OF Cons.prems, of op] obtain r s1 where 1: "run_op put del get op s = Inr (r, s1)" by blast
    with run_op_refines [OF Cons.prems 1] Cons.IH [of s1] show ?case by fastforce
  qed simp
  then show "inv s \<Longrightarrow> ?thesis" using run_ops_refines by blast
qed

end

text \<open>Without failed insertions the abstract map is deterministic.\<close>

definition dict_exec :: "('k \<Rightarrow> 'k \<Rightarrow> bool) \<Rightarrow> 'v \<Rightarrow> ('k, 'v) dict_op \<Rightarrow> ('k \<Rightarrow> 'v option) \<Rightarrow> 'v dict_res \<times> ('k \<Rightarrow> 'v option)" where
  "dict_exec same null op m =
     (case op of
        Put k v \<Rightarrow> (Status 0, upd_same same k (Some v) m)
      | Del k \<Rightarrow> if m k = None then (Status 1, m) else (Status 0, upd_same same k None m)
      | Get k \<Rightarrow> (Found (case m k of None \<Rightarrow> null | Some v \<Rightarrow> v), m))"

fun dict_run :: "('k \<Rightarrow> 'k \<Rightarrow> bool) \<Rightarrow> 'v \<Rightarrow> ('k, 'v) dict_op list \<Rightarrow> ('k \<Rightarrow> 'v option) \<Rightarrow> 'v dict_res list \<times> ('k \<Rightarrow> 'v option)" where
  "dict_run same null [] m = ([], m)"
| "dict_run same null (op # ops) m =
     (let (r, m) = dict_exec same null op m; (rs, m) = dict_run same null ops m in (r # rs, m))"

lemma dict_step_exec:
  "dict_step same null op m r m' \<Longrightarrow> (\<And>k v. op = Put k v \<Longrightarrow> r = Status 0) \<Longrightarrow> dict_exec same null op m = (r, m')"
  by (erule dict_step.cases) (auto simp: dict_exec_def)

locale reliable_dictionary = total_dictionary +
  assumes put_succeeds: "inv s \<Longrightarrow> put s k v = Inr (r, s') \<Longrightarrow> r = 0"
begin

lemma run_op_exec:
  assumes "inv s"
  shows "\<exists>s'. run_op put del get op s = Inr (fst (dict_exec same null op (content s)), s') \<and> inv s' \<and> content s' = snd (dict_exec same null op (content s))"
proof -
  obtain r s' where run: "run_op put del get op s = Inr (r, s')" using run_op_returns [OF assms] by blast
  from run_op_refines [OF assms run] have s': "inv s'" "dict_step same null op (content s) r (content s')" by auto
  have "r = Status 0" if "op = Put k v" for k v
    using run that put_succeeds [OF assms, of k v] by (auto simp: run_op_def)
  from dict_step_exec [OF s'(2) this] run s'(1) show ?thesis by simp
qed

lemma run_ops_exec:
  "inv s \<Longrightarrow> \<exists>s'. run_ops put del get ops s = Inr (fst (dict_run same null ops (content s)), s') \<and> content s' = snd (dict_run same null ops (content s))"
proof (induction ops arbitrary: s)
  case (Cons op ops)
  obtain s1 where s1: "run_op put del get op s = Inr (fst (dict_exec same null op (content s)), s1)" "inv s1"
    "content s1 = snd (dict_exec same null op (content s))" using run_op_exec [OF Cons.prems] by blast
  from Cons.IH [OF s1(2)] s1 show ?case by (auto simp: split_def Let_def)
qed simp

end

end
