(* ===== verification/Hashtbl_Correct.thy ===== *)
theory Hashtbl_Correct
  imports Hashtbl Dictionary
begin

text \<open>
  Correctness of \<^verbatim>\<open>hashtbl.c\<close>: the table's invariant, the finite map it stands for, and what
  every operation does to both.
\<close>

section \<open>Invariant and abstraction\<close>

definition slot_ok :: "('k, 'v, 'e) hashtbl \<Rightarrow> nat \<Rightarrow> ('k, 'v) hashtbl_entry list \<Rightarrow> bool" where
  "slot_ok h i chain \<longleftrightarrow>
     (\<forall>e \<in> set chain. hash e = hash_fn h (key e) \<and> tbl_index h (hash_fn h (key e)) = int i) \<and>
     sorted_wrt (\<lambda>a b. \<not> equals_fn h (key a) (key b)) chain"

definition hashtbl_wf :: "('k, 'v, 'e) hashtbl \<Rightarrow> bool" where
  "hashtbl_wf h \<longleftrightarrow>
     key_fns (hash_fn h) (equals_fn h) \<and>
     (\<exists>n \<le> 30. table_size h = 2 ^ n) \<and>
     length (table h) = nat (table_size h) \<and>
     nentries h = of_nat (length (concat (table h))) \<and>
     (\<forall>i < length (table h). slot_ok h i (table h ! i))"

definition hmap :: "('k, 'v, 'e) hashtbl \<Rightarrow> 'k \<Rightarrow> 'v option option" where
  "hmap h k = map_option val (find (\<lambda>e. equals_fn h (key e) k) (concat (table h)))"

definition slot :: "('k, 'v, 'e) hashtbl \<Rightarrow> 'k \<Rightarrow> nat" where
  "slot h k = nat (tbl_index h (hash_fn h k))"

section \<open>Slots\<close>

text \<open>Where a key belongs depends on neither the chains nor the entry count.\<close>

lemma tbl_index_update [simp]:
  "tbl_index (table_update f h) = tbl_index h"
  "tbl_index (nentries_update g h) = tbl_index h"
  by (simp_all add: tbl_index_def fun_eq_iff)

lemma slot_ok_update [simp]:
  "slot_ok (table_update f h) = slot_ok h"
  "slot_ok (nentries_update g h) = slot_ok h"
  by (simp_all add: slot_ok_def fun_eq_iff)

lemma slot_update [simp]:
  "slot (table_update f h) = slot h"
  "slot (nentries_update g h) = slot h"
  by (simp_all add: slot_def fun_eq_iff)

lemma table_index_mod: "table_size h = 2 ^ n \<Longrightarrow> tbl_index h hv = sint hv mod 2 ^ n"
  by (simp add: tbl_index_def pow2_mask)

lemma wf_size_pos: "hashtbl_wf h \<Longrightarrow> 0 < table_size h"
  by (auto simp: hashtbl_wf_def)

lemma wf_index:
  assumes "hashtbl_wf h"
  shows "0 \<le> tbl_index h hv" and "tbl_index h hv < int (length (table h))"
proof -
  from assms obtain n where "table_size h = 2 ^ n" and "int (length (table h)) = table_size h"
    using wf_size_pos [OF assms] by (auto simp: hashtbl_wf_def)
  then show "0 \<le> tbl_index h hv" and "tbl_index h hv < int (length (table h))"
    by (simp_all add: table_index_mod)
qed

lemma wf_slot: "hashtbl_wf h \<Longrightarrow> slot h k < length (table h)"
  using wf_index [of h "hash_fn h k"] by (simp add: slot_def nat_less_iff)

lemma tbl_entry_slot: "hashtbl_wf h \<Longrightarrow> tbl_entry h (hash_fn h k) = Inr (table h ! slot h k)"
  using wf_index [of h "hash_fn h k"] by (simp add: tbl_entry_def slot_def c_mem)

lemma tbl_entry_ref_slot:
  "hashtbl_wf h \<Longrightarrow> tbl_entry_ref h (hash_fn h k) c = Inr (h\<lparr>table := (table h)[slot h k := c]\<rparr>)"
  using wf_index [of h "hash_fn h k"] by (simp add: tbl_entry_ref_def slot_def c_mem)

lemma wf_keys: "hashtbl_wf h \<Longrightarrow> key_fns (hash_fn h) (equals_fn h)"
  by (simp add: hashtbl_wf_def)

lemma wf_slot_ok: "hashtbl_wf h \<Longrightarrow> i < length (table h) \<Longrightarrow> slot_ok h i (table h ! i)"
  by (simp add: hashtbl_wf_def)

lemma equals_same_slot:
  assumes "hashtbl_wf h" and "equals_fn h k k'"
  shows "slot h k = slot h k'"
  using key_fns.hash_equals [OF wf_keys [OF assms(1)] assms(2)] by (simp add: slot_def)

lemma entry_in_its_slot:
  assumes "hashtbl_wf h" and "i < length (table h)" and "e \<in> set (table h ! i)" and "equals_fn h (key e) k"
  shows "i = slot h k"
proof -
  have "tbl_index h (hash_fn h (key e)) = int i"
    using wf_slot_ok [OF assms(1,2)] assms(3) by (auto simp: slot_ok_def)
  then have "slot h (key e) = i" by (simp add: slot_def)
  with equals_same_slot [OF assms(1,4)] show ?thesis by simp
qed

lemma hmap_slot: "hashtbl_wf h \<Longrightarrow> hmap h k = map_option val (find (\<lambda>e. equals_fn h (key e) k) (table h ! slot h k))"
  unfolding hmap_def
  by (subst find_concat_row [of "slot h k"]) (auto simp: wf_slot dest: entry_in_its_slot)

lemma entry_matches_iff:
  assumes "hashtbl_wf h" and "i < length (table h)" and "e \<in> set (table h ! i)"
  shows "entry_matches h (hash_fn h k) k e \<longleftrightarrow> equals_fn h (key e) k"
  using wf_slot_ok [OF assms(1,2)] assms(3) key_fns.hash_equals [OF wf_keys [OF assms(1)], of "key e" k]
  by (auto simp: entry_matches_def slot_ok_def)

text \<open>Replacing one chain by another that fits its slot.\<close>

lemma wf_update_slot:
  assumes wf: "hashtbl_wf h" and i: "i < length (table h)" and ok: "slot_ok h i c"
    and n: "n + of_nat (length (table h ! i)) = nentries h + of_nat (length c)"
  shows "hashtbl_wf (h\<lparr>table := (table h)[i := c], nentries := n\<rparr>)"
proof -
  have "(of_nat (length (concat ((table h)[i := c]))) :: 64 word) + of_nat (length (table h ! i))
      = of_nat (length (concat (table h))) + of_nat (length c)"
    using length_concat_update [OF i, of c] by (metis of_nat_add)
  with n wf have "n = of_nat (length (concat ((table h)[i := c])))"
    by (simp add: hashtbl_wf_def add_diff_eq flip: eq_diff_eq)
  with wf i ok show ?thesis
    by (auto simp: hashtbl_wf_def nth_list_update)
qed

lemma hmap_update_slot:
  assumes "hashtbl_wf h" and "hashtbl_wf (h\<lparr>table := (table h)[i := c], nentries := n\<rparr>)" and "i < length (table h)"
  shows "hmap (h\<lparr>table := (table h)[i := c], nentries := n\<rparr>) k =
     (if slot h k = i then map_option val (find (\<lambda>e. equals_fn h (key e) k) c) else hmap h k)"
  using assms by (simp add: hmap_slot [OF assms(2)] hmap_slot [OF assms(1)])

section \<open>Walking a chain\<close>

lemma find_in_chain_None: "find_in_chain p es j = None \<longleftrightarrow> find p es = None"
  by (induction es arbitrary: j) auto

lemma find_in_chain_Some:
  "find_in_chain p es j = Some i \<Longrightarrow>
   j \<le> i \<and> i - j < length es \<and> p (es ! (i - j)) \<and> find p es = Some (es ! (i - j))"
proof (induction es arbitrary: j)
  case (Cons e es)
  show ?case
  proof (cases "p e")
    case False
    with Cons.prems have "find_in_chain p es (Suc j) = Some i" by simp
    from Cons.IH [OF this] False show ?thesis by (auto simp: nth_Cons' Suc_diff_le)
  qed (use Cons.prems in auto)
qed simp

lemma unlink_from_chain_None: "unlink_from_chain p es = (None, es') \<Longrightarrow> es' = es \<and> find p es = None"
  by (induction es arbitrary: es') (auto split: if_splits prod.splits)

lemma unlink_from_chain_Some:
  "unlink_from_chain p es = (Some e, es') \<Longrightarrow>
   find p es = Some e \<and> (\<exists>xs ys. es = xs @ e # ys \<and> es' = xs @ ys)"
proof (induction es arbitrary: es')
  case (Cons x es)
  show ?case
  proof (cases "p x")
    case True
    with Cons.prems show ?thesis by (auto intro: exI [of _ "[]"])
  next
    case False
    then obtain es'' where "unlink_from_chain p es = (Some e, es'')" and "es' = x # es''"
      using Cons.prems by (auto split: prod.splits)
    with Cons.IH [of es''] False show ?thesis by (auto intro: Cons_eq_appendI)
  qed
qed simp


section \<open>Lookup\<close>

lemma find_cong_on: "(\<And>x. x \<in> set xs \<Longrightarrow> P x = Q x) \<Longrightarrow> find P xs = find Q xs"
  by (induction xs) auto

lemma find_matches:
  "hashtbl_wf h \<Longrightarrow>
   find (entry_matches h (hash_fn h k) k) (table h ! slot h k) = find (\<lambda>e. equals_fn h (key e) k) (table h ! slot h k)"
  by (intro find_cong_on entry_matches_iff) (auto simp: wf_slot)

lemma find_entry_wf:
  assumes "hashtbl_wf h"
  shows "(find_entry h (hash_fn h k) k = Inr None \<and> hmap h k = None) \<or>
    (\<exists>j. find_entry h (hash_fn h k) k = Inr (Some j) \<and> j < length (table h ! slot h k) \<and>
         equals_fn h (key (table h ! slot h k ! j)) k \<and> hmap h k = Some (val (table h ! slot h k ! j)))"
proof (cases "find_in_chain (entry_matches h (hash_fn h k) k) (table h ! slot h k) 0")
  case None
  then show ?thesis
    using assms by (simp add: find_entry_def tbl_entry_slot find_in_chain_None find_matches hmap_slot)
next
  case (Some j)
  from find_in_chain_Some [OF this] show ?thesis
    using assms Some by (auto simp: find_entry_def tbl_entry_slot find_matches hmap_slot entry_matches_def)
qed

lemma lookup_wf:
  assumes "hashtbl_wf h"
  shows "hashtbl_lookup h k = Inr (case hmap h k of None \<Rightarrow> None | Some v \<Rightarrow> v)"
  using find_entry_wf [OF assms, of k] assms by (auto simp: hashtbl_lookup_def tbl_entry_slot)

section \<open>Linking and unlinking\<close>

lemma link_entry_wf:
  assumes wf: "hashtbl_wf h" and new: "hmap h k = None"
    and e_def: "e = \<lparr>key = k, val = v, hash = hash_fn h k\<rparr>"
  shows "\<exists>h'. link_entry h e = Inr h' \<and> hashtbl_wf h' \<and>
    (\<forall>k'. hmap h' k' = (if equals_fn h k k' then Some v else hmap h k')) \<and>
    nentries h' = nentries h + 1 \<and> equals_fn h' = equals_fn h \<and> hash_fn h' = hash_fn h \<and>
    table_size h' = table_size h \<and> auto_resize h' = auto_resize h"
proof -
  let ?i = "slot h k" let ?c = "table h ! ?i"
  let ?h = "h\<lparr>table := (table h)[?i := e # ?c], nentries := nentries h + 1\<rparr>"
  note i = wf_slot [OF wf, of k]
  have "tbl_index h (hash_fn h k) = int ?i"
    using wf_index [OF wf] by (simp add: slot_def)
  moreover have "\<not> equals_fn h k (key b)" if "b \<in> set ?c" for b
    using new that key_fns.equals_sym [OF wf_keys [OF wf], of k "key b"]
    by (auto simp: hmap_slot [OF wf] find_None_iff)
  ultimately have ok: "slot_ok h ?i (e # ?c)"
    using wf_slot_ok [OF wf i] by (auto simp: slot_ok_def e_def)
  have wf': "hashtbl_wf ?h"
    by (rule wf_update_slot [OF wf i ok]) simp
  have "hmap ?h k' = (if equals_fn h k k' then Some v else hmap h k')" for k'
    unfolding hmap_update_slot [OF wf wf' i]
    using equals_same_slot [OF wf, of k k'] by (auto simp: e_def hmap_slot [OF wf, of k'])
  moreover have "link_entry h e = Inr ?h"
    using wf by (simp add: link_entry_def tbl_entry_slot tbl_entry_ref_slot e_def)
  ultimately show ?thesis using wf' by simp
qed

lemma remove_key_wf:
  assumes wf: "hashtbl_wf h"
  shows "(hmap h k = None \<and> remove_key h k = Inr (None, h)) \<or>
    (\<exists>e h'. remove_key h k = Inr (Some e, h') \<and> hmap h k = Some (val e) \<and> equals_fn h (key e) k \<and>
       hashtbl_wf h' \<and> (\<forall>k'. hmap h' k' = (if equals_fn h k k' then None else hmap h k')) \<and>
       nentries h' = nentries h - 1 \<and> equals_fn h' = equals_fn h \<and> hash_fn h' = hash_fn h \<and>
       table_size h' = table_size h \<and> auto_resize h' = auto_resize h \<and> key_free_fn h' = key_free_fn h \<and>
       val_free_fn h' = val_free_fn h \<and> free_fn h' = free_fn h)"
proof -
  let ?i = "slot h k" let ?c = "table h ! ?i" let ?p = "entry_matches h (hash_fn h k) k"
  note i = wf_slot [OF wf, of k]
  note keys = wf_keys [OF wf]
  obtain r c where u: "unlink_from_chain ?p ?c = (r, c)" by fastforce
  show ?thesis
  proof (cases r)
    case None
    with u have "find ?p ?c = None" using unlink_from_chain_None by blast
    with u None show ?thesis
      using wf by (simp add: remove_key_def tbl_entry_slot hmap_slot find_matches)
  next
    case (Some e)
    let ?h = "h\<lparr>table := (table h)[?i := c], nentries := nentries h - 1\<rparr>"
    from u Some obtain xs ys where c: "?c = xs @ e # ys" "c = xs @ ys" and f: "find ?p ?c = Some e"
      using unlink_from_chain_Some by (metis (no_types, lifting))
    from f have ek: "equals_fn h (key e) k" by (auto simp: find_Some_iff entry_matches_def)
    have sorted: "sorted_wrt (\<lambda>a b. \<not> equals_fn h (key a) (key b)) (xs @ e # ys)"
      using wf_slot_ok [OF wf i] c by (simp add: slot_ok_def)
    have ok: "slot_ok h ?i c"
      using wf_slot_ok [OF wf i] c by (auto simp: slot_ok_def sorted_wrt_append)
    have wf': "hashtbl_wf ?h"
      by (rule wf_update_slot [OF wf i ok]) (simp add: c)
    have others: "\<not> equals_fn h (key a) k'" if "a \<in> set (xs @ ys)" "equals_fn h k k'" for a k'
    proof
      assume "equals_fn h (key a) k'"
      with that(2) ek keys have "equals_fn h (key a) (key e)" "equals_fn h (key e) (key a)"
        by (meson key_fns.equals_sym key_fns.equals_trans)+
      with that(1) sorted show False by (auto simp: sorted_wrt_append)
    qed
    have "hmap ?h k' = (if equals_fn h k k' then None else hmap h k')" for k'
    proof (cases "equals_fn h k k'")
      case True
      then have "find (\<lambda>e. equals_fn h (key e) k') c = None"
        using others c(2) by (auto simp: find_None_iff)
      with True equals_same_slot [OF wf True] show ?thesis
        unfolding hmap_update_slot [OF wf wf' i] by simp
    next
      case False
      then have "\<not> equals_fn h (key e) k'"
        using ek keys by (meson key_fns.equals_sym key_fns.equals_trans)
      with False show ?thesis
        unfolding hmap_update_slot [OF wf wf' i] by (simp add: hmap_slot [OF wf] c find_append split: option.split)
    qed
    moreover have "remove_key h k = Inr (Some e, ?h)"
      using wf u Some by (simp add: remove_key_def tbl_entry_slot tbl_entry_ref_slot Let_def)
    moreover have "hmap h k = Some (val e)"
      using f by (simp add: hmap_slot [OF wf] find_matches [OF wf])
    ultimately show ?thesis using wf' ek by auto
  qed
qed

section \<open>Resizing\<close>

lemma wf_pairwise:
  assumes wf: "hashtbl_wf h"
  shows "sorted_wrt (\<lambda>a b. \<not> equals_fn h (key a) (key b)) (concat (table h))"
proof (rule sorted_wrt_concat)
  show "sorted_wrt (\<lambda>a b. \<not> equals_fn h (key a) (key b)) (table h ! i)" if "i < length (table h)" for i
    using wf_slot_ok [OF wf that] by (simp add: slot_ok_def)
next
  fix i j a b
  assume ij: "i < j" "j < length (table h)" and a: "a \<in> set (table h ! i)" and b: "b \<in> set (table h ! j)"
  show "\<not> equals_fn h (key a) (key b)"
  proof
    assume "equals_fn h (key a) (key b)"
    then have "i = slot h (key b)" using entry_in_its_slot [OF wf _ a] ij by simp
    moreover have "j = slot h (key b)"
      using entry_in_its_slot [OF wf ij(2) b] key_fns.equals_refl [OF wf_keys [OF wf]] by blast
    ultimately show False using ij by simp
  qed
qed

lemma pairwise_unique:
  assumes keys: "key_fns hf eq" and sorted: "sorted_wrt (\<lambda>a b. \<not> eq (f a) (f b)) xs"
    and "x \<in> set xs" "y \<in> set xs" "eq (f x) k" "eq (f y) k"
  shows "x = y"
proof -
  have xy: "eq (f x) (f y)" "eq (f y) (f x)"
    using assms(5,6) keys by (meson key_fns.equals_sym key_fns.equals_trans)+
  obtain i j where "i < length xs" "j < length xs" "x = xs ! i" "y = xs ! j"
    using assms(3,4) by (auto simp: in_set_conv_nth)
  with sorted xy show ?thesis
    by (metis linorder_neqE_nat sorted_wrt_iff_nth_less)
qed

lemma link_entry_index:
  assumes "0 \<le> tbl_index h (hash e)" and "tbl_index h (hash e) < int (length (table h))"
  shows "link_entry h e =
    Inr (h\<lparr>table := (table h)[nat (tbl_index h (hash e)) := e # table h ! nat (tbl_index h (hash e))],
          nentries := nentries h + 1\<rparr>)"
  using assms by (simp add: link_entry_def tbl_entry_def tbl_entry_ref_def c_mem)

lemma transfer_entries:
  assumes "\<And>hv. 0 \<le> tbl_index h hv \<and> tbl_index h hv < int (length (table h))"
  shows "\<exists>t. transfer es h = Inr (h\<lparr>table := t, nentries := nentries h + of_nat (length es)\<rparr>) \<and>
     length t = length (table h) \<and>
     (\<forall>i < length t. t ! i = rev (filter (\<lambda>e. tbl_index h (hash e) = int i) es) @ table h ! i) \<and>
     length (concat t) = length (concat (table h)) + length es"
  using assms
proof (induction es arbitrary: h)
  case Nil
  then show ?case by (auto intro!: exI [of _ "table h"])
next
  case (Cons e es)
  let ?i = "nat (tbl_index h (hash e))"
  let ?h = "h\<lparr>table := (table h)[?i := e # table h ! ?i], nentries := nentries h + 1\<rparr>"
  have i: "?i < length (table h)" "tbl_index h (hash e) = int ?i"
    using Cons.prems [of "hash e"] by (simp_all add: nat_less_iff)
  have "link_entry h e = Inr ?h"
    using Cons.prems [of "hash e"] by (simp add: link_entry_index)
  moreover obtain t where t: "transfer es ?h = Inr (?h\<lparr>table := t, nentries := nentries ?h + of_nat (length es)\<rparr>)"
      "length t = length (table h)"
      "\<forall>i < length t. t ! i = rev (filter (\<lambda>e. tbl_index h (hash e) = int i) es) @ table ?h ! i"
      "length (concat t) = length (concat (table ?h)) + length es"
    using Cons.IH [of ?h] Cons.prems by auto
  moreover have "length (concat (table ?h)) = Suc (length (concat (table h)))"
    using length_concat_update [OF i(1), of "e # table h ! ?i"] by simp
  moreover have "t ! j = rev (filter (\<lambda>e. tbl_index h (hash e) = int j) (e # es)) @ table h ! j"
    if "j < length t" for j
    using t(2,3) that i by (auto simp: nth_list_update)
  ultimately show ?case
    by (auto intro!: exI [of _ t] simp: algebra_simps)
qed


lemma roundup_loop_result:
  assumes "x \<le> 2 ^ 30" and "k \<le> 30" and "k = 0 \<or> 2 ^ (k - 1) < x"
  shows "\<exists>n. k \<le> n \<and> n \<le> 30 \<and> roundup_loop x (2 ^ k) = Some (2 ^ n) \<and> x \<le> 2 ^ n \<and> (n = 0 \<or> 2 ^ (n - 1) < x)"
  using assms(2,3)
proof (induction "30 - k" arbitrary: k)
  case 0
  then have "k = 30" by simp
  with 0 assms(1) show ?case by (intro exI [of _ 30]) (simp add: roundup_loop.simps [of x "1073741824"])
next
  case (Suc m)
  show ?case
  proof (cases "2 ^ k < x")
    case True
    have k: "k < 30" "m = 30 - Suc k" using Suc.hyps(2) by simp_all
    have "(2::int) ^ Suc k \<le> 2 ^ 30" by (rule power_increasing) (use k in auto)
    then have "(2::int) ^ Suc k \<le> 1073741824" by simp
    moreover have "(0::int) < 2 ^ Suc k" by simp
    ultimately have "c_int_ok (2 * 2 ^ k)"
      unfolding c_int_ok_def INT_MAX_def INT_MIN_def power_Suc by (intro conjI) linarith+
    then have "roundup_loop x (2 ^ k) = roundup_loop x (2 ^ Suc k)"
      using True by (simp add: roundup_loop.simps [of x "2 ^ k"])
    with Suc.hyps(1) [OF k(2)] k True show ?thesis by (metis Suc_leI Suc_leD diff_Suc_1)
  next
    case False
    with Suc.prems show ?thesis by (intro exI [of _ k]) (simp add: roundup_loop.simps [of x "2 ^ k"])
  qed
qed

lemma pow2_of_is_power_of_2: "1 \<le> x \<Longrightarrow> is_power_of_2 x \<Longrightarrow> \<exists>n. x = 2 ^ n"
proof (induction "nat x" arbitrary: x rule: less_induct)
  case less
  have rec: "x AND (x - 1) = 2 * ((x div 2) AND ((x - 1) div 2))"
    by (subst and_int_rec) auto
  show ?case
  proof (cases "even x")
    case True
    then obtain y where y: "x = 2 * y" by blast
    with less.prems have "1 \<le> y" by simp
    moreover have "(2 * y - 1) div 2 = y - 1" by presburger
    then have "is_power_of_2 y"
      using rec less.prems(2) y by (simp add: is_power_of_2_def)
    ultimately obtain n where "y = 2 ^ n" using less.hyps [of y] y by auto
    with y show ?thesis by (auto intro: exI [of _ "Suc n"])
  next
    case False
    then have "(x - 1) div 2 = x div 2" by presburger
    with rec less.prems have "x div 2 = 0" by (simp add: is_power_of_2_def)
    with less.prems(1) have "x = 1" by linarith
    then show ?thesis by (auto intro: exI [of _ 0])
  qed
qed

lemma is_power_of_2_pow2: "is_power_of_2 (2 ^ n)"
  unfolding is_power_of_2_def pow2_mask by simp

text \<open>
  The capacity is always a power of two between 1 and the maximum; a request in that range
  is rounded up to the next power of two.
\<close>

lemma resize_capacity_result:
  "\<exists>n \<le> 30. resize_capacity c = Inr (2 ^ n) \<and>
     (1 \<le> c \<longrightarrow> c \<le> 2 ^ 30 \<longrightarrow> c \<le> 2 ^ n \<and> (n = 0 \<or> 2 ^ (n - 1) < c))"
proof (cases "c < 1 \<or> HASHTBL_MAX_TABLE_SIZE \<le> c")
  case True
  then show ?thesis
    by (cases "c < 1") (auto simp: resize_capacity_def HASHTBL_MAX_TABLE_SIZE_def
        intro: exI [of _ 0] exI [of _ 30])
next
  case False
  show ?thesis
  proof (cases "is_power_of_2 c")
    case True
    with False obtain n where n: "c = 2 ^ n" using pow2_of_is_power_of_2 [of c] by auto
    have "n < 30"
    proof (rule ccontr)
      assume "\<not> n < 30"
      then have "(2::int) ^ 30 \<le> 2 ^ n" by (intro power_increasing) auto
      with False n show False by (simp add: HASHTBL_MAX_TABLE_SIZE_def)
    qed
    with True False n show ?thesis
      by (intro exI [of _ n]) (auto simp: resize_capacity_def intro: power_strict_increasing)
  next
    case np: False
    obtain n where "n \<le> 30" "roundup_loop c 1 = Some (2 ^ n)" "c \<le> 2 ^ n" "n = 0 \<or> 2 ^ (n - 1) < c"
      using roundup_loop_result [of c 0] False by (auto simp: HASHTBL_MAX_TABLE_SIZE_def)
    with np False show ?thesis
      by (intro exI [of _ n]) (simp add: resize_capacity_def roundup_to_next_power_of_2_def)
  qed
qed

text \<open>Rebuilding the chains for a table of another size keeps the map.\<close>

lemma transfer_wf:
  assumes old: "key_fns (hash_fn h) (equals_fn h)"
      "\<forall>e \<in> set es. hash e = hash_fn h (key e)"
      "sorted_wrt (\<lambda>a b. \<not> equals_fn h (key a) (key b)) es"
    and n: "n \<le> 30" "c = 2 ^ n"
  shows "\<exists>t. transfer es (h\<lparr>table := replicate (nat c) [], nentries := 0, table_size := c\<rparr>) =
      Inr (h\<lparr>table := t, nentries := of_nat (length es), table_size := c\<rparr>) \<and>
      set (concat t) = set es \<and>
      hashtbl_wf (h\<lparr>table := t, nentries := of_nat (length es), table_size := c, resize_threshold := r\<rparr>)"
proof -
  let ?h = "h\<lparr>table := replicate (nat c) [], nentries := 0, table_size := c\<rparr>"
  have idx: "tbl_index ?h hv = sint hv mod 2 ^ n" for hv
    using n by (intro table_index_mod) simp
  have range: "0 \<le> tbl_index ?h hv \<and> tbl_index ?h hv < int (length (table ?h))" for hv
    unfolding idx using n by simp
  obtain t where t: "transfer es ?h = Inr (?h\<lparr>table := t, nentries := of_nat (length es)\<rparr>)"
      "length t = nat c" "\<forall>i < length t. t ! i = rev (filter (\<lambda>e. tbl_index ?h (hash e) = int i) es)"
      "length (concat t) = length es"
    using transfer_entries [of ?h es, OF range] by auto
  let ?h' = "h\<lparr>table := t, nentries := of_nat (length es), table_size := c, resize_threshold := r\<rparr>"
  have idx': "tbl_index ?h' = tbl_index ?h" by (simp add: tbl_index_def fun_eq_iff)
  have ok: "slot_ok ?h' i (t ! i)" if "i < length t" for i
    using t(3) that old(2,3) idx' key_fns.equals_sym [OF old(1)]
    by (auto simp: slot_ok_def sorted_wrt_rev intro!: sorted_wrt_filter elim!: sorted_wrt_mono_rel [rotated])
  have "hashtbl_wf ?h'"
    using old(1) n t(2,4) ok by (auto simp: hashtbl_wf_def)
  moreover have "e \<in> set (concat t) \<longleftrightarrow> e \<in> set es" for e
  proof -
    have "nat (tbl_index ?h (hash e)) < length t" using range [of "hash e"] t(2) by (auto split: if_splits)
    with range [of "hash e"] t(3) show ?thesis
      unfolding in_set_concat_nth by (auto intro!: exI [of _ "nat (tbl_index ?h (hash e))"])
  qed
  moreover have "set (concat t) = set es" if "\<And>e. e \<in> set (concat t) \<longleftrightarrow> e \<in> set es"
    using that by blast
  ultimately show ?thesis using t(1) by (intro exI [of _ t]) simp
qed


text \<open>What a resize may leave behind: a well-formed table that stands for the same map.\<close>

definition same_content :: "('k, 'v, 'e) hashtbl \<Rightarrow> ('k, 'v, 'e) hashtbl \<Rightarrow> bool" where
  "same_content h h' \<longleftrightarrow>
     hmap h' = hmap h \<and> nentries h' = nentries h \<and> hash_fn h' = hash_fn h \<and> equals_fn h' = equals_fn h \<and>
     auto_resize h' = auto_resize h \<and> malloc_fn h' = malloc_fn h \<and> max_load_factor h' = max_load_factor h"

lemma same_content_refl [simp]: "same_content h h"
  by (simp add: same_content_def)

lemma rebuild_wf:
  assumes keys: "key_fns (hash_fn h) (equals_fn h)"
    and size: "length (table h) = nat (table_size h)"
    and hashes: "\<forall>e \<in> set (concat (table h)). hash e = hash_fn h (key e)"
    and sorted: "sorted_wrt (\<lambda>a b. \<not> equals_fn h (key a) (key b)) (concat (table h))"
    and count: "nentries h = of_nat (length (concat (table h)))"
    and cap: "resize_capacity c = Inr (2 ^ n)" "n \<le> 30" "table_size h < 2 ^ n"
    and m: "malloc_fn h (nat (2 ^ n) * sizeof_pointer) env = (True, env')"
  shows "\<exists>h' env''. hashtbl_resize h c env = Inr (0, h', env'') \<and> hashtbl_wf h' \<and> same_content h h' \<and>
    table_size h' = 2 ^ n \<and> resize_threshold h' = resize_threshold_of (2 ^ n) (max_load_factor h)"
proof -
  let ?r = "resize_threshold_of (2 ^ n) (max_load_factor h)"
  obtain t where t: "transfer (concat (table h)) (h\<lparr>table := replicate (nat (2 ^ n)) [], nentries := 0, table_size := 2 ^ n\<rparr>) =
      Inr (h\<lparr>table := t, nentries := of_nat (length (concat (table h))), table_size := 2 ^ n\<rparr>)"
     "set (concat t) = set (concat (table h))"
     "hashtbl_wf (h\<lparr>table := t, nentries := of_nat (length (concat (table h))), table_size := 2 ^ n, resize_threshold := ?r\<rparr>)"
    using transfer_wf [OF keys hashes sorted cap(2) refl, of ?r] by metis
  let ?h = "h\<lparr>table := t, nentries := of_nat (length (concat (table h))), table_size := 2 ^ n, resize_threshold := ?r\<rparr>"
  have find_eq: "find (\<lambda>e. equals_fn h (key e) k) (concat t) = find (\<lambda>e. equals_fn h (key e) k) (concat (table h))" for k
    using t(2) pairwise_unique [OF keys sorted] by (intro find_cong_set) auto
  have hmap: "hmap ?h = hmap h"
    unfolding hmap_def fun_eq_iff by (simp add: find_eq del: find_None_iff2 find_None_iff)
  have slots: "all_slots h = Inr (table h)"
    using size by (simp add: all_slots_def)
  obtain env'' where "hashtbl_resize h c env = Inr (0, ?h, env'')"
    using cap m t(1) slots by (simp add: hashtbl_resize_def Let_def)
  with t(3) hmap count show ?thesis by (auto simp: same_content_def)
qed

lemma wf_hashes: "hashtbl_wf h \<Longrightarrow> \<forall>e \<in> set (concat (table h)). hash e = hash_fn h (key e)"
  unfolding Ball_def in_set_concat_nth by (auto simp: hashtbl_wf_def slot_ok_def)

lemma hashtbl_resize_wf:
  assumes wf: "hashtbl_wf h"
  shows "\<exists>r h' env'. hashtbl_resize h c env = Inr (r, h', env') \<and> hashtbl_wf h' \<and> same_content h h' \<and>
     (r = 0 \<or> r = 1 \<and> h' = h) \<and> table_size h \<le> table_size h'"
proof -
  obtain n where n: "resize_capacity c = Inr (2 ^ n)" "n \<le> 30" using resize_capacity_result [of c] by auto
  show ?thesis
  proof (cases "table_size h < 2 ^ n")
    case False
    then show ?thesis using wf n by (simp add: hashtbl_resize_def)
  next
    case True
    show ?thesis
    proof (cases "malloc_fn h (nat (2 ^ n) * sizeof_pointer) env")
      case (Pair ok env')
      show ?thesis
      proof (cases ok)
        case True
        with Pair \<open>table_size h < 2 ^ n\<close> show ?thesis
          using rebuild_wf [OF wf_keys [OF wf] _ wf_hashes [OF wf] wf_pairwise [OF wf] _ n, of env env'] wf
          by (fastforce simp: hashtbl_wf_def [of h])
      next
        case False
        with Pair n \<open>table_size h < 2 ^ n\<close> wf show ?thesis by (simp add: hashtbl_resize_def)
      qed
    qed
  qed
qed

section \<open>Insertion and removal\<close>

lemma replace_val_wf:
  assumes wf: "hashtbl_wf h" and c: "table h ! slot h k = xs @ e # ys" and eq: "equals_fn h (key e) k"
    and h': "h' = h\<lparr>table := (table h)[slot h k := xs @ e\<lparr>val := v\<rparr> # ys]\<rparr>"
  shows "hashtbl_wf h'" and "hmap h' k' = (if equals_fn h k k' then Some v else hmap h k')"
proof -
  let ?c = "xs @ e\<lparr>val := v\<rparr> # ys"
  note i = wf_slot [OF wf, of k]
  note keys = wf_keys [OF wf]
  have old: "slot_ok h (slot h k) (xs @ e # ys)" using wf_slot_ok [OF wf i] c by simp
  then have ok: "slot_ok h (slot h k) ?c"
    by (auto simp: slot_ok_def sorted_wrt_append)
  have h'': "h' = h\<lparr>table := (table h)[slot h k := ?c], nentries := nentries h\<rparr>"
    by (simp add: h')
  show wf': "hashtbl_wf h'"
    unfolding h'' by (rule wf_update_slot [OF wf i ok]) (simp add: c)
  note upd = hmap_update_slot [OF wf wf' [unfolded h''] i]
  show "hmap h' k' = (if equals_fn h k k' then Some v else hmap h k')"
  proof (cases "equals_fn h k k'")
    case True
    have "\<not> equals_fn h (key a) k'" if "a \<in> set xs" for a
    proof
      assume "equals_fn h (key a) k'"
      with True eq keys have "equals_fn h (key a) (key e)"
        by (meson key_fns.equals_sym key_fns.equals_trans)
      with that old show False by (auto simp: slot_ok_def sorted_wrt_append)
    qed
    then have "find (\<lambda>e. equals_fn h (key e) k') xs = None" by (auto simp: find_None_iff)
    moreover have "equals_fn h (key e) k'" using True eq keys by (meson key_fns.equals_trans)
    ultimately show ?thesis
      unfolding h'' upd using True equals_same_slot [OF wf True] by (simp add: find_append)
  next
    case False
    then have "\<not> equals_fn h (key e) k'"
      using eq keys by (meson key_fns.equals_sym key_fns.equals_trans)
    with False show ?thesis
      unfolding h'' upd by (simp add: hmap_slot [OF wf] c find_append split: option.split)
  qed
qed

text \<open>What a call that stores \<open>v\<close> under \<open>k\<close> may do to the map: all of it, or nothing.\<close>

definition insert_effect :: "'k \<Rightarrow> 'v option \<Rightarrow> int \<Rightarrow> ('k, 'v, 'e) hashtbl \<Rightarrow> ('k, 'v, 'e) hashtbl \<Rightarrow> bool" where
  "insert_effect k v r h h' \<longleftrightarrow>
     hash_fn h' = hash_fn h \<and> equals_fn h' = equals_fn h \<and> auto_resize h' = auto_resize h \<and>
     (r = 0 \<and> (\<forall>k'. hmap h' k' = (if equals_fn h k k' then Some v else hmap h k')) \<and>
        nentries h' = nentries h + (if hmap h k = None then 1 else 0) \<or>
      r = 1 \<and> hmap h k = None \<and> hmap h' = hmap h \<and> nentries h' = nentries h)"

lemma insert_replace:
  assumes wf: "hashtbl_wf h" and "hmap h k = Some old"
  shows "\<exists>h' env'. hashtbl_insert h k v env = Inr (0, h', env') \<and> hashtbl_wf h' \<and> insert_effect k v 0 h h' \<and>
     table_size h' = table_size h"
proof -
  let ?c = "table h ! slot h k"
  from find_entry_wf [OF wf, of k] assms(2) obtain j where
    j: "find_entry h (hash_fn h k) k = Inr (Some j)" "j < length ?c" "equals_fn h (key (?c ! j)) k"
    by auto
  let ?c' = "take j ?c @ (?c ! j)\<lparr>val := v\<rparr> # drop (Suc j) ?c"
  let ?h = "h\<lparr>table := (table h)[slot h k := ?c']\<rparr>"
  have c: "?c = take j ?c @ ?c ! j # drop (Suc j) ?c" using j(2) by (rule id_take_nth_drop)
  have "hashtbl_insert h k v env = Inr (0, ?h, case val_free_fn h of None \<Rightarrow> env | Some f \<Rightarrow> f (val (?c ! j)) env)"
    using wf j by (simp add: hashtbl_insert_def tbl_entry_slot tbl_entry_ref_slot upd_conv_take_nth_drop)
  with replace_val_wf [OF wf c j(3) refl, of v] assms(2) show ?thesis by (auto simp: insert_effect_def)
qed

text \<open>The table an insertion of a new key links into: grown when the threshold is reached.\<close>

definition needs_resize :: "('k, 'v, 'e) hashtbl \<Rightarrow> bool" where
  "needs_resize h \<longleftrightarrow> auto_resize h \<and> ucast (word_of_int (resize_threshold h) :: 32 word) \<le> nentries h"

lemma insert_new:
  assumes wf: "hashtbl_wf h" and new: "hmap h k = None" and room: "needs_resize h \<Longrightarrow> table_size h < 2 ^ 30"
  shows "\<exists>r h' env'. hashtbl_insert h k v env = Inr (r, h', env') \<and> hashtbl_wf h' \<and> insert_effect k v r h h' \<and>
     table_size h \<le> table_size h' \<and> ((\<forall>n e. fst (malloc_fn h n e)) \<longrightarrow> r = 0)"
proof -
  let ?g = "if needs_resize h
            then c_bind (c_int (2 * table_size h)) (\<lambda>c.
                 c_bind (hashtbl_resize h c env) (\<lambda>(_, h, env). Inr (h, env)))
            else Inr (h, env)"
  have "\<exists>g env1. ?g = Inr (g, env1) \<and> hashtbl_wf g \<and> same_content h g \<and> table_size h \<le> table_size g"
  proof (cases "needs_resize h")
    case True
    then have "c_int (2 * table_size h) = Inr (2 * table_size h)"
      using room wf_size_pos [OF wf] by (simp add: c_int_defs)
    with True hashtbl_resize_wf [OF wf, of "2 * table_size h" env] show ?thesis by force
  qed (use wf in simp)
  then obtain g env1 where g: "?g = Inr (g, env1)" "hashtbl_wf g" "same_content h g" "table_size h \<le> table_size g"
    by blast
  have step: "hashtbl_insert h k v env =
      (case hashtbl_entry_new g (hash_fn h k) k v env1 of
         (None, env) \<Rightarrow> Inr (1, g, env)
       | (Some e, env) \<Rightarrow> c_bind (link_entry g e) (\<lambda>h. Inr (0, h, env)))"
    using find_entry_wf [OF wf, of k] new g(1) by (auto simp: hashtbl_insert_def needs_resize_def Let_def)
  obtain ok env2 where m: "malloc_fn g sizeof_entry env1 = (ok, env2)" by fastforce
  show ?thesis
  proof (cases ok)
    case False
    then have "hashtbl_insert h k v env = Inr (1, g, env2)"
      using step m by (simp add: hashtbl_entry_new_def)
    moreover have "\<not> (\<forall>n e. fst (malloc_fn h n e))"
      using m False g(3) by (metis fst_conv same_content_def)
    ultimately show ?thesis using g new by (auto simp: insert_effect_def same_content_def)
  next
    case True
    let ?e = "\<lparr>key = k, val = v, hash = hash_fn g k\<rparr>"
    have "hmap g k = None" "hash_fn g = hash_fn h" using g(3) new by (simp_all add: same_content_def)
    with link_entry_wf [OF g(2), of k ?e v] obtain h' where h': "link_entry g ?e = Inr h'" "hashtbl_wf h'"
      "\<forall>k'. hmap h' k' = (if equals_fn g k k' then Some v else hmap g k')" "nentries h' = nentries g + 1"
      "equals_fn h' = equals_fn g" "hash_fn h' = hash_fn g" "table_size h' = table_size g" "auto_resize h' = auto_resize g"
      by auto
    then have "hashtbl_insert h k v env = Inr (0, h', env2)"
      using step m True \<open>hash_fn g = hash_fn h\<close> by (simp add: hashtbl_entry_new_def)
    with h' g new show ?thesis by (auto simp: insert_effect_def same_content_def)
  qed
qed

lemma hashtbl_insert_wf:
  assumes "hashtbl_wf h" and "needs_resize h \<Longrightarrow> table_size h < 2 ^ 30"
  shows "\<exists>r h' env'. hashtbl_insert h k v env = Inr (r, h', env') \<and> hashtbl_wf h' \<and> insert_effect k v r h h' \<and>
     table_size h \<le> table_size h' \<and> ((\<forall>n e. fst (malloc_fn h n e)) \<longrightarrow> r = 0)"
proof (cases "hmap h k")
  case (Some old)
  from insert_replace [OF assms(1) Some, of v env] show ?thesis by fastforce
qed (rule insert_new [OF assms(1) _ assms(2)])

definition release_removed :: "('k, 'v, 'e) hashtbl \<Rightarrow> ('k, 'v) hashtbl_entry \<Rightarrow> 'e \<Rightarrow> 'e" where
  "release_removed h e env =
     (let env = (case key_free_fn h of None \<Rightarrow> env | Some f \<Rightarrow> f (key e) env);
          env = (case val_free_fn h of None \<Rightarrow> env
                 | Some f \<Rightarrow> if val e \<noteq> None then f (val e) env else env)
      in free_fn h (EntryBlock e) env)"

lemma hashtbl_remove_wf:
  assumes wf: "hashtbl_wf h"
  shows "(hmap h k = None \<and> hashtbl_remove h k env = Inr (1, h, env)) \<or>
    (\<exists>e h'. hashtbl_remove h k env = Inr (0, h', release_removed h e env) \<and>
       hmap h k = Some (val e) \<and> equals_fn h (key e) k \<and>
       hashtbl_wf h' \<and> (\<forall>k'. hmap h' k' = (if equals_fn h k k' then None else hmap h k')) \<and>
       nentries h' = nentries h - 1 \<and> equals_fn h' = equals_fn h \<and> hash_fn h' = hash_fn h \<and>
       table_size h' = table_size h \<and> auto_resize h' = auto_resize h)"
  using remove_key_wf [OF wf, of k]
proof (elim disjE exE)
  fix e h'
  assume "remove_key h k = Inr (Some e, h') \<and> hmap h k = Some (val e) \<and> equals_fn h (key e) k \<and>
       hashtbl_wf h' \<and> (\<forall>k'. hmap h' k' = (if equals_fn h k k' then None else hmap h k')) \<and>
       nentries h' = nentries h - 1 \<and> equals_fn h' = equals_fn h \<and> hash_fn h' = hash_fn h \<and>
       table_size h' = table_size h \<and> auto_resize h' = auto_resize h \<and> key_free_fn h' = key_free_fn h \<and>
       val_free_fn h' = val_free_fn h \<and> free_fn h' = free_fn h"
  then show ?thesis
    by (intro disjI2 exI [of _ e] exI [of _ h']) (simp add: hashtbl_remove_def release_removed_def Let_def cong: option.case_cong if_cong)
qed (simp add: hashtbl_remove_def)

section \<open>Clearing and deleting\<close>

definition release_entry :: "('k, 'v, 'e) hashtbl \<Rightarrow> ('k, 'v) hashtbl_entry \<Rightarrow> 'e \<Rightarrow> 'e" where
  "release_entry h e env =
     (let env = (case key_free_fn h of None \<Rightarrow> env | Some f \<Rightarrow> f (key e) env);
          env = (case val_free_fn h of None \<Rightarrow> env | Some f \<Rightarrow> f (val e) env)
      in free_fn h (EntryBlock e) env)"

lemma release_entry_update [simp]:
  "release_entry (table_update f h) = release_entry h"
  "release_entry (nentries_update g h) = release_entry h"
  by (simp_all add: release_entry_def fun_eq_iff)

lemma clear_chain_eq:
  "clear_chain es h env = (h\<lparr>nentries := nentries h - of_nat (length es)\<rparr>, fold (release_entry h) es env)"
  by (induction es arbitrary: h env) (simp_all add: release_entry_def Let_def algebra_simps)

lemma clear_slots_eq:
  assumes "i + n = length (table h)"
  shows "clear_slots [i..<i + n] h env =
     Inr (h\<lparr>table := take i (table h) @ replicate n [], nentries := nentries h - of_nat (length (concat (drop i (table h))))\<rparr>,
          fold (release_entry h) (concat (drop i (table h))) env)"
  using assms
proof (induction n arbitrary: i h env)
  case (Suc n)
  let ?h = "h\<lparr>nentries := nentries h - of_nat (length (table h ! i)), table := (table h)[i := []]\<rparr>"
  have up: "[i..<i + Suc n] = i # [Suc i..<Suc i + n]" by (simp add: upt_conv_Cons del: upt_Suc)
  have i: "i < length (table h)" using Suc.prems by simp
  have drop: "drop i (table h) = table h ! i # drop (Suc i) (table h)" using i by (rule Cons_nth_drop_Suc [symmetric])
  have "clear_slots [i..<i + Suc n] h env =
      clear_slots [Suc i..<Suc i + n] ?h (fold (release_entry h) (table h ! i) env)"
    unfolding up using i by (simp add: c_mem clear_chain_eq del: upt_Suc)
  also have "\<dots> = Inr (?h\<lparr>table := take (Suc i) (table ?h) @ replicate n [],
       nentries := nentries ?h - of_nat (length (concat (drop (Suc i) (table ?h))))\<rparr>,
       fold (release_entry ?h) (concat (drop (Suc i) (table ?h))) (fold (release_entry h) (table h ! i) env))"
    using Suc.prems by (intro Suc.IH) simp
  also have "take (Suc i) (table ?h) = take i (table h) @ [[]]"
    using i by (simp add: take_Suc_conv_app_nth)
  finally show ?case
    by (simp add: drop algebra_simps)
qed simp

lemma hashtbl_clear_eq:
  assumes "hashtbl_wf h"
  shows "hashtbl_clear h env =
     Inr (h\<lparr>table := replicate (length (table h)) [], nentries := 0\<rparr>, fold (release_entry h) (concat (table h)) env)"
  using clear_slots_eq [of 0 "length (table h)" h env] assms by (simp add: hashtbl_clear_def hashtbl_wf_def)

lemma empty_table_wf:
  assumes "key_fns (hash_fn h) (equals_fn h)" and "table_size h = 2 ^ n" and "n \<le> 30"
    and "table h = replicate (nat (table_size h)) []" and "nentries h = 0"
  shows "hashtbl_wf h" and "hmap h k = None"
proof -
  have [simp]: "concat (replicate m []) = []" for m by (induction m) auto
  show "hashtbl_wf h" using assms by (auto simp: hashtbl_wf_def slot_ok_def)
  show "hmap h k = None" using assms by (simp add: hmap_def)
qed

section \<open>Creation\<close>

lemma fresh_table_resize:
  assumes "key_fns (hash_fn h) (equals_fn h)" and "table h = []" "table_size h = 0" "nentries h = 0"
  shows "\<exists>r h' env'. hashtbl_resize h c env = Inr (r, h', env') \<and>
    (r = 0 \<longrightarrow> hashtbl_wf h' \<and> same_content h h' \<and> resize_capacity c = Inr (table_size h') \<and>
       resize_threshold h' = resize_threshold_of (table_size h') (max_load_factor h)) \<and>
    ((\<forall>n e. fst (malloc_fn h n e)) \<longrightarrow> r = 0)"
proof -
  obtain n where n: "resize_capacity c = Inr (2 ^ n)" "n \<le> 30" using resize_capacity_result [of c] by auto
  obtain ok env' where m: "malloc_fn h (nat (2 ^ n) * sizeof_pointer) env = (ok, env')" by fastforce
  show ?thesis
  proof (cases ok)
    case True
    with rebuild_wf [OF assms(1) _ _ _ _ n, of env env'] assms m n show ?thesis by fastforce
  next
    case False
    with n m assms show ?thesis by (auto simp: hashtbl_resize_def) (metis fst_conv)
  qed
qed

section \<open>Iteration\<close>

text \<open>The entries an iterator has still to yield.\<close>

definition iter_rest :: "('k, 'v, 'e) hashtbl \<Rightarrow> ('k, 'v) hashtbl_iter \<Rightarrow> ('k, 'v) hashtbl_entry list" where
  "iter_rest h it =
     (if entry it = [] then concat (drop (nat (pos it)) (table h))
      else tl (entry it) @ concat (drop (Suc (nat (pos it))) (table h)))"

definition iter_next_ok :: "('k, 'v, 'e) hashtbl \<Rightarrow> ('k, 'v) hashtbl_entry list \<Rightarrow> int \<times> ('k, 'v) hashtbl_iter \<Rightarrow> bool" where
  "iter_next_ok h es r \<longleftrightarrow>
     (case r of (b, it) \<Rightarrow>
       0 \<le> pos it \<and>
       (case es of [] \<Rightarrow> b = 0 \<and> iter_rest h it = []
        | e # es' \<Rightarrow> b = 1 \<and> iter_key it = Some (key e) \<and> iter_val it = val e \<and> iter_rest h it = es'))"

lemma iter_scan_ok:
  assumes "length (table h) = nat (table_size h)" and "0 \<le> i" and "entry it = []" and "pos it \<ge> 0"
    and "concat (drop (nat (pos it)) (table h)) = concat (drop (nat i) (table h))"
  shows "\<exists>r. iter_scan h i it = Inr r \<and> iter_next_ok h (concat (drop (nat i) (table h))) r"
  using assms
proof (induction h i it rule: iter_scan.induct)
  case (1 h i it)
  show ?case
  proof (cases "i < table_size h")
    case False
    with 1(2-) show ?thesis
      by (auto simp: iter_scan.simps [of h i] iter_next_ok_def iter_rest_def split: list.split)
  next
    case True
    let ?c = "table h ! nat i" let ?it = "it\<lparr>entry := ?c, pos := i\<rparr>"
    have n: "nat i < length (table h)" using True 1(2,3) by simp
    then have d: "drop (nat i) (table h) = ?c # drop (Suc (nat i)) (table h)" by (rule Cons_nth_drop_Suc [symmetric])
    have rd: "c_read (table h) i = Inr ?c" using n 1(3) by (simp add: c_mem)
    show ?thesis
    proof (cases "?c = []")
      case False
      then obtain e es where "?c = e # es" by (cases ?c) auto
      with True rd d 1(3) show ?thesis
        by (simp add: iter_scan.simps [of h i] iter_next_ok_def iter_yield_def iter_rest_def)
    next
      case empty: True
      have suc: "nat (i + 1) = Suc (nat i)" using 1(3) by simp
      with empty d have same: "concat (drop (nat i) (table h)) = concat (drop (nat (i + 1)) (table h))" by simp
      have "\<exists>r. iter_scan h (i + 1) ?it = Inr r \<and> iter_next_ok h (concat (drop (nat (i + 1)) (table h))) r"
        using 1(1) [OF True rd refl] 1(2,3) empty same by simp
      with True rd empty same show ?thesis by (simp add: iter_scan.simps [of h i])
    qed
  qed
qed

lemma hashtbl_iter_next_ok:
  assumes "length (table h) = nat (table_size h)" and "0 \<le> pos it"
  shows "\<exists>r. hashtbl_iter_next h it = Inr r \<and> iter_next_ok h (iter_rest h it) r"
proof (cases "entry it")
  case Nil
  with iter_scan_ok [OF assms(1) assms(2) Nil assms(2)] show ?thesis
    by (simp add: hashtbl_iter_next_def iter_rest_def)
next
  case (Cons e es)
  show ?thesis
  proof (cases es)
    case Nil
    let ?it = "it\<lparr>entry := [], pos := pos it + 1\<rparr>"
    have "nat (pos it + 1) = Suc (nat (pos it))" using assms(2) by simp
    then show ?thesis
      using iter_scan_ok [OF assms(1), of "pos it + 1" ?it] Cons Nil assms(2)
      by (simp add: hashtbl_iter_next_def iter_rest_def Let_def)
  next
    case (Cons e' es')
    with \<open>entry it = e # es\<close> assms(2) show ?thesis
      by (simp add: hashtbl_iter_next_def iter_rest_def Let_def iter_next_ok_def iter_yield_def)
  qed
qed

text \<open>The client's loop \<^verbatim>\<open>while (hashtbl_iter_next(h, &iter)) ...\<close>, collecting what it sees.\<close>

fun iter_collect :: "nat \<Rightarrow> ('k, 'v, 'e) hashtbl \<Rightarrow> ('k, 'v) hashtbl_iter \<Rightarrow> ('k option \<times> 'v option) list c_res" where
  "iter_collect 0 h it = Inl NoReturn"
| "iter_collect (Suc n) h it =
     c_bind (hashtbl_iter_next h it) (\<lambda>(b, it).
     if b = 0 then Inr []
     else c_bind (iter_collect n h it) (\<lambda>xs. Inr ((iter_key it, iter_val it) # xs)))"

lemma iter_collect_rest:
  assumes "length (table h) = nat (table_size h)" and "0 \<le> pos it" and "length (iter_rest h it) < n"
  shows "iter_collect n h it = Inr (map (\<lambda>e. (Some (key e), val e)) (iter_rest h it))"
  using assms(2,3)
proof (induction n arbitrary: it)
  case (Suc n)
  obtain b it' where r: "hashtbl_iter_next h it = Inr (b, it')" "iter_next_ok h (iter_rest h it) (b, it')"
    using hashtbl_iter_next_ok [OF assms(1) Suc.prems(1)] by auto
  show ?case
  proof (cases "iter_rest h it")
    case Nil
    with r show ?thesis by (simp add: iter_next_ok_def)
  next
    case (Cons e es)
    with r have "0 \<le> pos it'" "b = 1" "iter_key it' = Some (key e)" "iter_val it' = val e" "iter_rest h it' = es"
      by (simp_all add: iter_next_ok_def)
    with Suc.IH [of it'] Suc.prems(2) Cons r(1) show ?thesis by simp
  qed
qed simp

section \<open>Applying a function\<close>

lemma apply_chain_all:
  assumes "\<And>e env. e \<in> set es \<Longrightarrow> fst (f (key e) (val e) env)"
  shows "apply_chain f es n env =
     (n + of_nat (length es), fold (\<lambda>e env. snd (f (key e) (val e) env)) es env)"
  using assms
proof (induction es arbitrary: n env)
  case (Cons e es)
  obtain env' where "f (key e) (val e) env = (True, env')"
    using Cons.prems [of e env] by (metis list.set_intros(1) prod.collapse)
  with Cons show ?case by (simp add: algebra_simps)
qed simp

section \<open>The table as a dictionary\<close>

text \<open>The operations on a table together with the environment of its callbacks.\<close>

definition tbl_put :: "('k, 'v, 'e) hashtbl \<times> 'e \<Rightarrow> 'k \<Rightarrow> 'v option \<Rightarrow> (int \<times> ('k, 'v, 'e) hashtbl \<times> 'e) c_res" where
  "tbl_put s k v = hashtbl_insert (fst s) k v (snd s)"

definition tbl_del :: "('k, 'v, 'e) hashtbl \<times> 'e \<Rightarrow> 'k \<Rightarrow> (int \<times> ('k, 'v, 'e) hashtbl \<times> 'e) c_res" where
  "tbl_del s k = hashtbl_remove (fst s) k (snd s)"

definition tbl_get :: "('k, 'v, 'e) hashtbl \<times> 'e \<Rightarrow> 'k \<Rightarrow> ('v option \<times> ('k, 'v, 'e) hashtbl \<times> 'e) c_res" where
  "tbl_get s k = c_bind (hashtbl_lookup (fst s) k) (\<lambda>v. Inr (v, s))"

definition tbl_inv :: "('k \<Rightarrow> 'k \<Rightarrow> bool) \<Rightarrow> ('k, 'v, 'e) hashtbl \<times> 'e \<Rightarrow> bool" where
  "tbl_inv eq s \<longleftrightarrow> hashtbl_wf (fst s) \<and> equals_fn (fst s) = eq"

definition fixed_tbl_inv :: "('k \<Rightarrow> 'k \<Rightarrow> bool) \<Rightarrow> ('k, 'v, 'e) hashtbl \<times> 'e \<Rightarrow> bool" where
  "fixed_tbl_inv eq s \<longleftrightarrow> tbl_inv eq s \<and> \<not> auto_resize (fst s)"

lemma insert_overflow:
  assumes "hashtbl_wf h" and "hmap h k = None" and "needs_resize h" and "\<not> table_size h < 2 ^ 30"
  shows "hashtbl_insert h k v env = Inl SignedOverflow"
  using find_entry_wf [OF assms(1), of k] assms
  by (auto simp: hashtbl_insert_def needs_resize_def c_int_defs Let_def)

lemma tbl_put_cases:
  assumes "tbl_inv eq s"
  shows "(\<exists>r s'. tbl_put s k v = Inr (r, s') \<and> tbl_inv eq s' \<and> auto_resize (fst s') = auto_resize (fst s) \<and>
            dict_step eq None (Put k v) (hmap (fst s)) (Status r) (hmap (fst s'))) \<or>
         auto_resize (fst s) \<and> tbl_put s k v = Inl SignedOverflow"
proof (cases "hmap (fst s) k = None \<and> needs_resize (fst s) \<and> \<not> table_size (fst s) < 2 ^ 30")
  case True
  with assms show ?thesis
    by (auto simp: tbl_put_def tbl_inv_def insert_overflow needs_resize_def)
next
  case False
  have wf: "hashtbl_wf (fst s)" and eq: "equals_fn (fst s) = eq" using assms by (simp_all add: tbl_inv_def)
  obtain r h' env' where i: "hashtbl_insert (fst s) k v (snd s) = Inr (r, h', env')" "hashtbl_wf h'"
      "insert_effect k v r (fst s) h'"
    using False insert_new [OF wf, of k v "snd s"] insert_replace [OF wf, of k _ v "snd s"]
    by (cases "hmap (fst s) k") (blast, metis)
  have "dict_step eq None (Put k v) (hmap (fst s)) (Status r) (hmap h')"
  proof (cases "r = 0")
    case True
    with i(3) eq have "hmap h' = upd_same eq k (Some v) (hmap (fst s))"
      by (auto simp: insert_effect_def upd_same_def)
    with True show ?thesis by (simp add: dict_step.put)
  next
    case False
    with i(3) show ?thesis by (auto simp: insert_effect_def intro: dict_step.put_fails)
  qed
  with i eq show ?thesis
    by (intro disjI1 exI [of _ r] exI [of _ "(h', env')"]) (simp add: tbl_put_def tbl_inv_def insert_effect_def)
qed

lemma tbl_del_cases:
  assumes "tbl_inv eq s"
  shows "\<exists>r s'. tbl_del s k = Inr (r, s') \<and> tbl_inv eq s' \<and> auto_resize (fst s') = auto_resize (fst s) \<and>
            dict_step eq None (Del k) (hmap (fst s)) (Status r) (hmap (fst s'))"
proof -
  have wf: "hashtbl_wf (fst s)" and eq: "equals_fn (fst s) = eq" using assms by (simp_all add: tbl_inv_def)
  from hashtbl_remove_wf [OF wf, of k "snd s"] show ?thesis
  proof (elim disjE exE conjE)
    assume "hmap (fst s) k = None" "hashtbl_remove (fst s) k (snd s) = Inr (1, fst s, snd s)"
    with assms show ?thesis
      by (intro exI [of _ 1] exI [of _ s]) (simp add: tbl_del_def dict_step.del_absent)
  next
    fix e h'
    assume r: "hashtbl_remove (fst s) k (snd s) = Inr (0, h', release_removed (fst s) e (snd s))"
      "hmap (fst s) k = Some (val e)" "hashtbl_wf h'" "equals_fn h' = equals_fn (fst s)" "auto_resize h' = auto_resize (fst s)"
      "\<forall>k'. hmap h' k' = (if equals_fn (fst s) k k' then None else hmap (fst s) k')"
    then have "hmap h' = upd_same eq k None (hmap (fst s))" using eq by (auto simp: upd_same_def)
    with r eq show ?thesis
      by (intro exI [of _ 0] exI [of _ "(h', release_removed (fst s) e (snd s))"])
        (simp add: tbl_del_def tbl_inv_def dict_step.del)
  qed
qed

lemma tbl_get_cases:
  assumes "tbl_inv eq s"
  shows "\<exists>w. tbl_get s k = Inr (w, s) \<and> dict_step eq None (Get k) (hmap (fst s)) (Found w) (hmap (fst s))"
  using assms dict_step.get [of eq None k "hmap (fst s)"]
  by (auto simp: tbl_get_def tbl_inv_def lookup_wf)

interpretation tbl: dictionary "tbl_inv eq" eq None "\<lambda>s. hmap (fst s)" tbl_put tbl_del tbl_get for eq
proof
  show "tbl_inv eq s' \<and> dict_step eq None (Put k v) (hmap (fst s)) (Status r) (hmap (fst s'))"
    if "tbl_inv eq s" "tbl_put s k v = Inr (r, s')" for s s' k v r
    using tbl_put_cases [OF that(1), of k v] that(2) by auto
  show "tbl_inv eq s' \<and> dict_step eq None (Del k) (hmap (fst s)) (Status r) (hmap (fst s'))"
    if "tbl_inv eq s" "tbl_del s k = Inr (r, s')" for s s' k r
    using tbl_del_cases [OF that(1), of k] that(2) by auto
  show "tbl_inv eq s' \<and> dict_step eq None (Get k) (hmap (fst s)) (Found w) (hmap (fst s'))"
    if "tbl_inv eq s" "tbl_get s k = Inr (w, s')" for s s' k w
    using tbl_get_cases [OF that(1), of k] that by auto
qed

interpretation fixed_tbl: total_dictionary "fixed_tbl_inv eq" eq None "\<lambda>s. hmap (fst s)" tbl_put tbl_del tbl_get for eq
proof
  fix s s' k v r w
  assume inv: "fixed_tbl_inv eq s"
  then have s: "tbl_inv eq s" and fixed: "\<not> auto_resize (fst s)" by (simp_all add: fixed_tbl_inv_def)
  note cases = tbl_put_cases [OF s, of k v] tbl_del_cases [OF s, of k] tbl_get_cases [OF s, of k]
  show "fixed_tbl_inv eq s' \<and> dict_step eq None (Put k v) (hmap (fst s)) (Status r) (hmap (fst s'))"
    if "tbl_put s k v = Inr (r, s')"
    using cases(1) that fixed by (auto simp: fixed_tbl_inv_def)
  show "fixed_tbl_inv eq s' \<and> dict_step eq None (Del k) (hmap (fst s)) (Status r) (hmap (fst s'))"
    if "tbl_del s k = Inr (r, s')"
    using cases(2) that fixed by (auto simp: fixed_tbl_inv_def)
  show "fixed_tbl_inv eq s' \<and> dict_step eq None (Get k) (hmap (fst s)) (Found w) (hmap (fst s'))"
    if "tbl_get s k = Inr (w, s')"
    using cases(3) that inv by auto
  show "\<exists>r s'. tbl_put s k v = Inr (r, s')" "\<exists>r s'. tbl_del s k = Inr (r, s')" "\<exists>w s'. tbl_get s k = Inr (w, s')"
    using cases fixed by auto
qed

text \<open>With an allocator that never fails every insertion succeeds.\<close>

definition reliable_tbl_inv :: "('k \<Rightarrow> 'k \<Rightarrow> bool) \<Rightarrow> ('k, 'v, 'e) hashtbl \<times> 'e \<Rightarrow> bool" where
  "reliable_tbl_inv eq s \<longleftrightarrow> fixed_tbl_inv eq s \<and> (\<forall>n e. fst (malloc_fn (fst s) n e))"

lemma insert_keeps_malloc: "\<not> auto_resize h \<Longrightarrow> hashtbl_insert h k v env = Inr (r, h', env') \<Longrightarrow> malloc_fn h' = malloc_fn h"
  by (auto simp: hashtbl_insert_def Let_def tbl_entry_ref_def link_entry_def split: option.splits prod.splits)

lemma remove_key_keeps_malloc:
  assumes "remove_key h k = Inr (r, h')"
  shows "malloc_fn h' = malloc_fn h"
proof -
  from assms obtain c where c: "tbl_entry h (hash_fn h k) = Inr c" by (auto simp: remove_key_def Let_def)
  obtain p c' where "unlink_from_chain (entry_matches h (hash_fn h k) k) c = (p, c')" by fastforce
  with assms c show ?thesis by (cases p) (auto simp: remove_key_def Let_def tbl_entry_ref_def)
qed

lemma remove_keeps_malloc:
  assumes "hashtbl_remove h k env = Inr (r, h', env')"
  shows "malloc_fn h' = malloc_fn h"
proof -
  from assms obtain p h1 where 1: "remove_key h k = Inr (p, h1)"
    and 2: "(case p of None \<Rightarrow> Inr (1, h1, env)
      | Some e \<Rightarrow> let env = (case key_free_fn h1 of None \<Rightarrow> env | Some f \<Rightarrow> f (key e) env);
             env = (case val_free_fn h1 of None \<Rightarrow> env | Some f \<Rightarrow> if val e \<noteq> None then f (val e) env else env);
             env = free_fn h1 (EntryBlock e) env in Inr (0, h1, env)) = (Inr (r, h', env') :: (int \<times> ('a, 'b, 'c) hashtbl \<times> 'c) c_res)"
    unfolding hashtbl_remove_def by auto
  from 2 have "h' = h1" by (cases p) (simp_all add: Let_def)
  with remove_key_keeps_malloc [OF 1] show ?thesis by simp
qed

lemma reliable_insert:
  "\<not> auto_resize h \<Longrightarrow> \<forall>n e. fst (malloc_fn h n e) \<Longrightarrow> hashtbl_insert h k v env = Inr (r, h', env') \<Longrightarrow> r = 0"
  by (auto simp: hashtbl_insert_def hashtbl_entry_new_def Let_def split: option.splits prod.splits bool.splits) (metis fst_conv)+

interpretation reliable_tbl: reliable_dictionary "reliable_tbl_inv eq" eq None "\<lambda>s. hmap (fst s)" tbl_put tbl_del tbl_get for eq
proof
  fix s s' k v r w
  assume inv: "reliable_tbl_inv eq s"
  then have s: "fixed_tbl_inv eq s" and auto: "\<not> auto_resize (fst s)" and m: "\<forall>n e. fst (malloc_fn (fst s) n e)"
    by (simp_all add: reliable_tbl_inv_def fixed_tbl_inv_def)
  show "reliable_tbl_inv eq s' \<and> dict_step eq None (Put k v) (hmap (fst s)) (Status r) (hmap (fst s'))"
    if "tbl_put s k v = Inr (r, s')"
    using fixed_tbl.put_law [OF s that] insert_keeps_malloc [OF auto] that m by (cases s') (auto simp: reliable_tbl_inv_def tbl_put_def)
  show "reliable_tbl_inv eq s' \<and> dict_step eq None (Del k) (hmap (fst s)) (Status r) (hmap (fst s'))"
    if "tbl_del s k = Inr (r, s')"
    using fixed_tbl.del_law [OF s that] remove_keeps_malloc [of "fst s" k "snd s" r "fst s'" "snd s'"] that m
    by (auto simp: reliable_tbl_inv_def tbl_del_def)
  show "reliable_tbl_inv eq s' \<and> dict_step eq None (Get k) (hmap (fst s)) (Found w) (hmap (fst s'))"
    if "tbl_get s k = Inr (w, s')"
    using fixed_tbl.get_law [OF s that] that inv by (auto simp: reliable_tbl_inv_def tbl_get_def)
  show "\<exists>r s'. tbl_put s k v = Inr (r, s')" "\<exists>r s'. tbl_del s k = Inr (r, s')" "\<exists>w s'. tbl_get s k = Inr (w, s')"
    using fixed_tbl.put_returns [OF s] fixed_tbl.del_returns [OF s] fixed_tbl.get_returns [OF s] by blast+
  show "r = 0" if "tbl_put s k v = Inr (r, s')"
    using reliable_insert [OF auto m] that by (cases s') (auto simp: tbl_put_def)
qed

section \<open>Properties\<close>

text \<open>A table to try the properties on: four slots, integer keys, an allocator that never fails.\<close>

definition sample_table :: "(32 word, nat, nat) hashtbl" where
  "sample_table =
     \<lparr>max_load_factor = 3 / 4, hash_fn = hashtbl_int_hash, equals_fn = hashtbl_int_equals, nentries = 2,
      table_size = 4, resize_threshold = 3, auto_resize = False, key_free_fn = None, val_free_fn = None,
      malloc_fn = (\<lambda>n env. (True, env + 1)), free_fn = (\<lambda>b env. env - 1),
      table = [[], [\<lparr>key = 5, val = Some 50, hash = 5\<rparr>, \<lparr>key = 1, val = Some 10, hash = 1\<rparr>], [], []]\<rparr>"

lemma sample_table_sel [simp]:
  "hash_fn sample_table = hashtbl_int_hash" "equals_fn sample_table = hashtbl_int_equals" "nentries sample_table = 2"
  "table_size sample_table = 4" "resize_threshold sample_table = 3" "\<not> auto_resize sample_table"
  "key_free_fn sample_table = None" "val_free_fn sample_table = None"
  "malloc_fn sample_table = (\<lambda>n env. (True, env + 1))" "free_fn sample_table = (\<lambda>b env. env - 1)"
  "table sample_table = [[], [\<lparr>key = 5, val = Some 50, hash = 5\<rparr>, \<lparr>key = 1, val = Some 10, hash = 1\<rparr>], [], []]"
  by (simp_all add: sample_table_def)

lemma sample_table_wf [simp]: "hashtbl_wf sample_table"
proof -
  have keys: "key_fns hashtbl_int_hash hashtbl_int_equals"
    by unfold_locales (auto simp: hashtbl_int_hash_def hashtbl_int_equals_def)
  have size: "\<exists>n \<le> 30. (4::int) = 2 ^ n" by (intro exI [of _ 2]) simp
  have "slot_ok sample_table i (table sample_table ! i)" if "i < 4" for i
  proof -
    from that consider "i = 0" | "i = 1" | "i = 2" | "i = 3" by linarith
    then show ?thesis
      by cases (simp_all add: slot_ok_def tbl_index_def hashtbl_int_hash_def hashtbl_int_equals_def)
  qed
  with keys size show ?thesis by (simp add: hashtbl_wf_def)
qed

lemma sample_table_hmap [simp]: "hmap sample_table k = (if k = 5 then Some (Some 50) else if k = 1 then Some (Some 10) else None)"
  by (auto simp: hmap_def hashtbl_int_equals_def)

text \<open>
  C19. Inserting into a well-formed table that need not grow beyond the maximal size returns,
  keeps the invariant and the key functions, and either stores the value under the key, all other keys
  unchanged and the count raised exactly for a new key, or reports failure and leaves the map as it was;
  it does not fail when the allocator does not.
\<close>

theorem hashtbl_insert_correct:
  assumes "hashtbl_wf h" and "needs_resize h \<Longrightarrow> table_size h < 2 ^ 30"
  shows "\<exists>r h' env'. hashtbl_insert h k v env = Inr (r, h', env') \<and> hashtbl_wf h' \<and> insert_effect k v r h h' \<and>
     table_size h \<le> table_size h' \<and> ((\<forall>n e. fst (malloc_fn h n e)) \<longrightarrow> r = 0)"
  using assms by (rule hashtbl_insert_wf)

theorem hashtbl_insert_correct_witness:
  "\<exists>h' env'. hashtbl_insert sample_table 9 (Some 90) 0 = Inr (0, h', env') \<and> hashtbl_wf h' \<and>
     hmap h' 9 = Some (Some 90) \<and> hmap h' 5 = Some (Some 50) \<and> nentries h' = 3"
proof -
  have "\<forall>n e. fst (malloc_fn sample_table n e)" "\<not> needs_resize sample_table"
    by (simp_all add: needs_resize_def)
  then obtain h' env' where i: "hashtbl_insert sample_table 9 (Some 90) 0 = Inr (0, h', env')" "hashtbl_wf h'"
    "insert_effect 9 (Some 90) 0 sample_table h'"
    using hashtbl_insert_correct [OF sample_table_wf, of 9 "Some 90" 0] by auto
  then show ?thesis by (auto simp: insert_effect_def hashtbl_int_equals_def)
qed

text \<open>
  C1. A sequence of insertions, removals and lookups on a well-formed table behaves as on a map keyed up to the
  table's equality: whenever it returns, its results and final content are possible for the map, and on a table without automatic
  resizing it always returns.
\<close>

theorem hashtbl_refines_map:
  assumes "hashtbl_wf h"
  shows "(\<forall>rs s. run_ops tbl_put tbl_del tbl_get ops (h, env) = Inr (rs, s) \<longrightarrow>
            hashtbl_wf (fst s) \<and> dict_steps (equals_fn h) None ops (hmap h) rs (hmap (fst s))) \<and>
    (\<not> auto_resize h \<longrightarrow> (\<exists>rs s. run_ops tbl_put tbl_del tbl_get ops (h, env) = Inr (rs, s)))"
proof (intro conjI allI impI)
  have inv: "tbl_inv (equals_fn h) (h, env)" using assms by (simp add: tbl_inv_def)
  show "hashtbl_wf (fst s)" "dict_steps (equals_fn h) None ops (hmap h) rs (hmap (fst s))"
    if "run_ops tbl_put tbl_del tbl_get ops (h, env) = Inr (rs, s)" for rs s
    using tbl.run_ops_refines [OF inv that] by (simp_all add: tbl_inv_def)
  show "\<exists>rs s. run_ops tbl_put tbl_del tbl_get ops (h, env) = Inr (rs, s)" if "\<not> auto_resize h"
    using fixed_tbl.run_ops_total [of "equals_fn h" "(h, env)" ops] inv that by (auto simp: fixed_tbl_inv_def)
qed

theorem hashtbl_refines_map_witness:
  "\<exists>rs s. run_ops tbl_put tbl_del tbl_get [Put 9 (Some 90), Get 5, Del 1] (sample_table, 0) = Inr (rs, s) \<and>
     dict_steps hashtbl_int_equals None [Put 9 (Some 90), Get 5, Del 1] (hmap sample_table) rs (hmap (fst s))"
  using hashtbl_refines_map [OF sample_table_wf, of "[Put 9 (Some 90), Get 5, Del 1]" 0] by (metis sample_table_sel(2,6))

text \<open>
  C20. Resizing a well-formed table always returns; the result is well-formed, has the same content, entry
  count and key functions, is never smaller, and on allocation failure is the unchanged table. The new capacity is a power of two.
\<close>

theorem hashtbl_resize_preserves_content:
  assumes "hashtbl_wf h"
  shows "\<exists>r h' env'. hashtbl_resize h c env = Inr (r, h', env') \<and> hashtbl_wf h' \<and> same_content h h' \<and>
     (r = 0 \<or> r = 1 \<and> h' = h) \<and> table_size h \<le> table_size h'"
  using assms by (rule hashtbl_resize_wf)

theorem hashtbl_resize_preserves_content_witness:
  "\<exists>r h' env'. hashtbl_resize sample_table 9 0 = Inr (r, h', env') \<and> hashtbl_wf h' \<and> hmap h' 5 = Some (Some 50) \<and>
     4 \<le> table_size h'"
  using hashtbl_resize_preserves_content [OF sample_table_wf, of 9 0] by (fastforce simp: same_content_def)

text \<open>
  Removing a key from a well-formed table returns: for an absent key the table is unchanged and the result 1,
  for a present one exactly that entry is gone, the count is one less, and the entry's key, its value unless null
  and the entry itself are released, in this order.
\<close>

theorem hashtbl_remove_correct:
  assumes "hashtbl_wf h"
  shows "(hmap h k = None \<and> hashtbl_remove h k env = Inr (1, h, env)) \<or>
    (\<exists>e h'. hashtbl_remove h k env = Inr (0, h', release_removed h e env) \<and>
       hmap h k = Some (val e) \<and> equals_fn h (key e) k \<and> hashtbl_wf h' \<and>
       (\<forall>k'. hmap h' k' = (if equals_fn h k k' then None else hmap h k')) \<and> nentries h' = nentries h - 1)"
  using hashtbl_remove_wf [OF assms, of k env] by blast

theorem hashtbl_remove_correct_witness:
  "\<exists>h' env'. hashtbl_remove sample_table 5 0 = Inr (0, h', env') \<and> hmap h' 5 = None \<and> hmap h' 1 = Some (Some 10)"
  using hashtbl_remove_correct [OF sample_table_wf, of 5 0] by (auto simp: hashtbl_int_equals_def)

text \<open>
  C24. Walking a well-formed table with its iterator from the start ends after one call more than there are
  entries, and yields every entry of the table exactly once, slot by slot.
\<close>

theorem hashtbl_iteration_complete:
  assumes "hashtbl_wf h" and "length (concat (table h)) < n"
  shows "iter_collect n h (hashtbl_iter_init h) = Inr (map (\<lambda>e. (Some (key e), val e)) (concat (table h)))"
  using iter_collect_rest [of h "hashtbl_iter_init h" n] assms
  by (simp add: hashtbl_wf_def hashtbl_iter_init_def iter_rest_def)

theorem hashtbl_iteration_complete_witness:
  "iter_collect 3 sample_table (hashtbl_iter_init sample_table) = Inr [(Some 5, Some 50), (Some 1, Some 10)]"
  using hashtbl_iteration_complete [OF sample_table_wf, of 3] by simp

text \<open>
  C27. Clearing a well-formed table releases every entry exactly once, in table order, and leaves a well-formed
  empty table of the same capacity; deleting it releases the same entries, then the bucket array, then the table.
\<close>

theorem hashtbl_clear_releases_all:
  assumes "hashtbl_wf h"
  shows "\<exists>h'. hashtbl_clear h env = Inr (h', fold (release_entry h) (concat (table h)) env) \<and>
      hashtbl_wf h' \<and> (\<forall>k. hmap h' k = None) \<and> hashtbl_count h' = 0 \<and> hashtbl_capacity h' = hashtbl_capacity h \<and>
      hashtbl_delete h env =
        Inr (free_fn h StructBlock (free_fn h (TableBlock (length (table h))) (fold (release_entry h) (concat (table h)) env)))"
proof -
  let ?h = "h\<lparr>table := replicate (length (table h)) [], nentries := 0\<rparr>"
  obtain n where n: "n \<le> 30" "table_size h = 2 ^ n" "length (table h) = nat (table_size h)"
    using assms by (auto simp: hashtbl_wf_def)
  have "hashtbl_wf ?h" "\<And>k. hmap ?h k = None"
    using empty_table_wf [of ?h n] n wf_keys [OF assms] by simp_all
  then show ?thesis
    using hashtbl_clear_eq [OF assms, of env]
    by (simp add: hashtbl_count_def hashtbl_capacity_def hashtbl_delete_def)
qed

theorem hashtbl_clear_releases_all_witness:
  "\<exists>h'. hashtbl_clear sample_table 7 = Inr (h', 5) \<and> hashtbl_count h' = 0 \<and> hashtbl_delete sample_table 7 = Inr 3"
  using hashtbl_clear_releases_all [OF sample_table_wf, of 7] by (auto simp: release_entry_def)

lemma create_finish:
  assumes "key_fns (hash_fn h) (equals_fn h)" and "table h = []" "table_size h = 0" "nentries h = 0"
  shows "\<exists>oh env'. c_bind (hashtbl_resize h c env) (\<lambda>(r, h, env). if r \<noteq> 0 then Inr (None, ff env) else Inr (Some h, env)) = Inr (oh, env') \<and>
     (\<forall>h'. oh = Some h' \<longrightarrow>
        hashtbl_wf h' \<and> (\<forall>k. hmap h' k = None) \<and> hashtbl_count h' = 0 \<and> auto_resize h' = auto_resize h \<and>
        resize_capacity c = Inr (hashtbl_capacity h') \<and> max_load_factor h' = max_load_factor h \<and>
        resize_threshold h' = resize_threshold_of (hashtbl_capacity h') (max_load_factor h')) \<and>
     ((\<forall>n e. fst (malloc_fn h n e)) \<longrightarrow> oh \<noteq> None)"
proof -
  obtain r h' env' where r: "hashtbl_resize h c env = Inr (r, h', env')"
      "r = 0 \<longrightarrow> hashtbl_wf h' \<and> same_content h h' \<and> resize_capacity c = Inr (table_size h') \<and>
         resize_threshold h' = resize_threshold_of (table_size h') (max_load_factor h)"
      "(\<forall>n e. fst (malloc_fn h n e)) \<longrightarrow> r = 0"
    using fresh_table_resize [OF assms, of c env] by blast
  moreover have "hmap h k = None" for k using assms by (simp add: hmap_def)
  ultimately show ?thesis
    using assms(4) by (cases "r = 0") (auto simp: same_content_def hashtbl_count_def hashtbl_capacity_def)
qed

text \<open>
  With key functions that fit together, creation returns. If the allocator works it yields a well-formed
  empty table whose capacity is the requested one, rounded up to a power of two within the limits, and whose load factor is
  the requested one, replaced by 0.75 only when negative and by 1 when above 1.
\<close>

theorem hashtbl_create_correct:
  assumes "key_fns (case hash_f of None \<Rightarrow> (\<lambda>k. hashtbl_direct_hash (addr k)) | Some f \<Rightarrow> f)
                   (case equals_f of None \<Rightarrow> (\<lambda>a b. hashtbl_direct_equals (addr a) (addr b)) | Some f \<Rightarrow> f)"
  shows "\<exists>oh env'. hashtbl_create addr libc_malloc libc_free c mlf auto hash_f equals_f key_free val_free mallocf freef env = Inr (oh, env') \<and>
     (\<forall>h. oh = Some h \<longrightarrow>
        hashtbl_wf h \<and> (\<forall>k. hmap h k = None) \<and> hashtbl_count h = 0 \<and> auto_resize h = auto \<and>
        resize_capacity c = Inr (hashtbl_capacity h) \<and>
        max_load_factor h = (if mlf < 0 then 3 / 4 else if 1 < mlf then 1 else mlf) \<and>
        resize_threshold h = resize_threshold_of (hashtbl_capacity h) (max_load_factor h)) \<and>
     ((\<forall>n e. fst ((case mallocf of None \<Rightarrow> libc_malloc | Some f \<Rightarrow> f) n e)) \<longrightarrow> oh \<noteq> None)"
proof -
  let ?m = "case mallocf of None \<Rightarrow> libc_malloc | Some f \<Rightarrow> f"
  let ?h = "\<lparr>max_load_factor = if mlf < 0 then 3 / 4 else if 1 < mlf then 1 else mlf,
      hash_fn = case hash_f of None \<Rightarrow> (\<lambda>k. hashtbl_direct_hash (addr k)) | Some f \<Rightarrow> f,
      equals_fn = case equals_f of None \<Rightarrow> (\<lambda>a b. hashtbl_direct_equals (addr a) (addr b)) | Some f \<Rightarrow> f,
      nentries = 0, table_size = 0, resize_threshold = 0, auto_resize = auto,
      key_free_fn = key_free, val_free_fn = val_free, malloc_fn = ?m,
      free_fn = (case freef of None \<Rightarrow> libc_free | Some f \<Rightarrow> f), table = []\<rparr>"
  obtain ok env1 where m: "?m sizeof_hashtbl env = (ok, env1)" by fastforce
  show ?thesis
  proof (cases ok)
    case False
    then have "\<not> (\<forall>n e. fst (?m n e))" using m by (metis fst_conv)
    with m False show ?thesis by (simp add: hashtbl_create_def)
  next
    case True
    have "hashtbl_create addr libc_malloc libc_free c mlf auto hash_f equals_f key_free val_free mallocf freef env =
      c_bind (hashtbl_resize ?h c env1) (\<lambda>(r, h, env).
        if r \<noteq> 0 then Inr (None, (case freef of None \<Rightarrow> libc_free | Some f \<Rightarrow> f) StructBlock env) else Inr (Some h, env))"
      using m True by (simp add: hashtbl_create_def Let_def)
    with create_finish [of ?h c env1 "(case freef of None \<Rightarrow> libc_free | Some f \<Rightarrow> f) StructBlock"] assms show ?thesis by simp
  qed
qed

theorem hashtbl_create_correct_witness:
  "\<exists>h env'. hashtbl_create (\<lambda>k. ucast k) (\<lambda>n env. (True, env + n)) (\<lambda>b env. env) 3 0 True (Some hashtbl_int_hash)
     (Some hashtbl_int_equals) None None None None (0::nat) = Inr (Some h, env') \<and> hashtbl_wf h \<and> hmap h 7 = None \<and>
     max_load_factor h = 0 \<and> resize_threshold h = resize_threshold_of (hashtbl_capacity h) 0"
proof -
  have "key_fns hashtbl_int_hash hashtbl_int_equals"
    by unfold_locales (auto simp: hashtbl_int_hash_def hashtbl_int_equals_def)
  with hashtbl_create_correct [where hash_f = "Some hashtbl_int_hash" and addr = "\<lambda>k. ucast k"
      and equals_f = "Some hashtbl_int_equals" and libc_malloc = "\<lambda>n env. (True, env + n)" and libc_free = "\<lambda>b env. env"
      and c = 3 and mlf = 0 and auto = True and key_free = None and val_free = None and mallocf = None and freef = None
      and env = "0::nat"]
  show ?thesis by force
qed

lemma zero_threshold [simp]: "resize_threshold_of c 0 = 0"
proof -
  have "trunc (fl64 (fl64 0 + 1 / 2)) = 0" by code_simp
  then show ?thesis by (simp add: resize_threshold_of_def)
qed

lemma resize_capacity_pow2:
  assumes "n \<le> 30"
  shows "resize_capacity (2 ^ n) = Inr (2 ^ n)"
proof -
  have le: "(2::int) ^ n \<le> 2 ^ 30" using assms by (intro power_increasing) auto
  obtain m where m: "resize_capacity (2 ^ n) = Inr (2 ^ m)" "(2::int) ^ n \<le> 2 ^ m" "m = 0 \<or> (2::int) ^ (m - 1) < 2 ^ n"
    using resize_capacity_result [of "2 ^ n"] le by auto
  then have "n \<le> m" "m = 0 \<or> m - 1 < n" by simp_all
  then have "m = n" by linarith
  with m show ?thesis by simp
qed

lemma resize_doubles:
  assumes wf: "hashtbl_wf h" and small: "table_size h < 2 ^ 30" and m: "\<forall>n e. fst (malloc_fn h n e)"
  shows "\<exists>h' env'. hashtbl_resize h (2 * table_size h) env = Inr (0, h', env') \<and> hashtbl_wf h' \<and> same_content h h' \<and>
    table_size h' = 2 * table_size h"
proof -
  obtain n where n: "table_size h = 2 ^ n" "n \<le> 30" using wf by (auto simp: hashtbl_wf_def)
  with small have "n < 30" by (metis le_neq_implies_less less_irrefl)
  then have cap: "resize_capacity (2 * table_size h) = Inr (2 ^ Suc n)" "Suc n \<le> 30"
    using resize_capacity_pow2 [of "Suc n"] n by simp_all
  obtain env' where "malloc_fn h (nat (2 ^ Suc n) * sizeof_pointer) env = (True, env')"
    using m by (metis (full_types) prod.collapse)
  with rebuild_wf [OF wf_keys [OF wf] _ wf_hashes [OF wf] wf_pairwise [OF wf] _ cap, of env env'] n wf show ?thesis
    by (auto simp: hashtbl_wf_def [of h])
qed

text \<open>
  A load factor of 0.0 is not replaced by a default: an automatically resized table with it doubles its
  bucket array at every insertion of a new key, until at the maximal size the doubling overflows the capacity argument.
\<close>

theorem zero_load_factor_doubles:
  assumes "hashtbl_wf h" and "auto_resize h" and "resize_threshold h = resize_threshold_of (table_size h) 0"
    and "hmap h k = None" and "\<forall>n e. fst (malloc_fn h n e)"
  shows "if table_size h < HASHTBL_MAX_TABLE_SIZE
     then \<exists>h' env'. hashtbl_insert h k v env = Inr (0, h', env') \<and> hashtbl_wf h' \<and> table_size h' = 2 * table_size h
     else hashtbl_insert h k v env = Inl SignedOverflow"
proof -
  have grow: "needs_resize h" using assms(2,3) by (simp add: needs_resize_def)
  show ?thesis
  proof (cases "table_size h < 2 ^ 30")
    case False
    with insert_overflow [OF assms(1,4) grow False] show ?thesis by (simp add: HASHTBL_MAX_TABLE_SIZE_def)
  next
    case True
    obtain g env1 where g: "hashtbl_resize h (2 * table_size h) env = Inr (0, g, env1)" "hashtbl_wf g" "same_content h g"
        "table_size g = 2 * table_size h"
      using resize_doubles [OF assms(1) True assms(5)] by blast
    let ?e = "\<lparr>key = k, val = v, hash = hash_fn g k\<rparr>"
    obtain env2 where m: "malloc_fn g sizeof_entry env1 = (True, env2)"
      using assms(5) g(3) by (metis (full_types) prod.collapse same_content_def)
    obtain h' where h': "link_entry g ?e = Inr h'" "hashtbl_wf h'" "table_size h' = table_size g"
      using link_entry_wf [OF g(2) _ refl, of k v] g(3) assms(4) by (auto simp: same_content_def)
    have "hashtbl_insert h k v env = Inr (0, h', env2)"
      using find_entry_wf [OF assms(1), of k] assms(4) grow g True wf_size_pos [OF assms(1)] m h'(1)
      by (auto simp: hashtbl_insert_def needs_resize_def c_int_defs hashtbl_entry_new_def same_content_def)
    with h' g(4) True show ?thesis by (simp add: HASHTBL_MAX_TABLE_SIZE_def)
  qed
qed

theorem zero_load_factor_doubles_witness:
  "\<exists>h' env'. hashtbl_insert (sample_table\<lparr>auto_resize := True, resize_threshold := 0\<rparr>) 9 None 0 = Inr (0, h', env') \<and>
     table_size h' = 8"
proof -
  let ?h = "sample_table\<lparr>auto_resize := True, resize_threshold := 0\<rparr>"
  have "hashtbl_wf ?h" "hmap ?h 9 = None"
    using sample_table_wf sample_table_hmap [of 9]
    by (simp_all add: hashtbl_wf_def slot_ok_def tbl_index_def hmap_def)
  with zero_load_factor_doubles [of ?h 9 None 0] show ?thesis by (auto simp: HASHTBL_MAX_TABLE_SIZE_def)
qed

end
