(* ===== verification/Linked_Hashtbl_Correct.thy ===== *)
theory Linked_Hashtbl_Correct
  imports Linked_Hashtbl Hashtbl_Correct
begin

text \<open>
  Correctness of \<^verbatim>\<open>linked-hashtbl.c\<close>: the heap of entries is a well-formed pair of linked structures, and the
  operations act on the list of all entries as on an association list ordered by recency.
\<close>

section \<open>Views of the heap\<close>

definition nxt :: "('k, 'v, 'e) l_hashtbl \<Rightarrow> ptr \<Rightarrow> ptr" where
  "nxt h a = (if a = 0 then head_next h else list_next (the (cells h ! a)))"

definition prv :: "('k, 'v, 'e) l_hashtbl \<Rightarrow> ptr \<Rightarrow> ptr" where
  "prv h a = (if a = 0 then head_prev h else list_prev (the (cells h ! a)))"

definition snx :: "('k, 'v, 'e) l_hashtbl \<Rightarrow> ptr \<Rightarrow> ptr option" where
  "snx h a = slot_next (the (cells h ! a))"

definition kvh :: "('k, 'v, 'e) l_hashtbl \<Rightarrow> ptr \<Rightarrow> 'k \<times> 'v option \<times> 32 word" where
  "kvh h a = (let e = the (cells h ! a) in (l_key e, l_val e, l_hash e))"

definition live :: "('k, 'v, 'e) l_hashtbl \<Rightarrow> ptr \<Rightarrow> bool" where
  "live h a \<longleftrightarrow> 0 < a \<and> a < length (cells h) \<and> cells h ! a \<noteq> None"

definition base :: "('k, 'v, 'e) l_hashtbl \<Rightarrow> ('k, 'v, 'e) l_hashtbl" where
  "base h = h\<lparr>head_next := 0, head_prev := 0, cells := []\<rparr>"

abbreviation ek :: "('k, 'v, 'e) l_hashtbl \<Rightarrow> ptr \<Rightarrow> 'k" where "ek h a \<equiv> fst (kvh h a)"

abbreviation ev :: "('k, 'v, 'e) l_hashtbl \<Rightarrow> ptr \<Rightarrow> 'v option" where "ev h a \<equiv> fst (snd (kvh h a))"

abbreviation eh :: "('k, 'v, 'e) l_hashtbl \<Rightarrow> ptr \<Rightarrow> 32 word" where "eh h a \<equiv> snd (snd (kvh h a))"

lemmas view_defs = nxt_def prv_def snx_def kvh_def live_def base_def

lemma views_other_fields [simp]:
  "nxt (h\<lparr>l_nentries := n\<rparr>) = nxt h" "prv (h\<lparr>l_nentries := n\<rparr>) = prv h" "snx (h\<lparr>l_nentries := n\<rparr>) = snx h"
  "kvh (h\<lparr>l_nentries := n\<rparr>) = kvh h" "live (h\<lparr>l_nentries := n\<rparr>) = live h"
  "nxt (h\<lparr>l_table := t\<rparr>) = nxt h" "prv (h\<lparr>l_table := t\<rparr>) = prv h" "snx (h\<lparr>l_table := t\<rparr>) = snx h"
  "kvh (h\<lparr>l_table := t\<rparr>) = kvh h" "live (h\<lparr>l_table := t\<rparr>) = live h"
  "nxt (h\<lparr>l_table_size := z\<rparr>) = nxt h" "prv (h\<lparr>l_table_size := z\<rparr>) = prv h" "snx (h\<lparr>l_table_size := z\<rparr>) = snx h"
  "kvh (h\<lparr>l_table_size := z\<rparr>) = kvh h" "live (h\<lparr>l_table_size := z\<rparr>) = live h"
  "nxt (h\<lparr>l_resize_threshold := z\<rparr>) = nxt h" "prv (h\<lparr>l_resize_threshold := z\<rparr>) = prv h" "snx (h\<lparr>l_resize_threshold := z\<rparr>) = snx h"
  "kvh (h\<lparr>l_resize_threshold := z\<rparr>) = kvh h" "live (h\<lparr>l_resize_threshold := z\<rparr>) = live h"
  by (simp_all add: fun_eq_iff view_defs)

lemma base_fields:
  assumes "base h' = base h"
  shows "l_table h' = l_table h" "l_table_size h' = l_table_size h" "l_nentries h' = l_nentries h" "l_hash_fn h' = l_hash_fn h"
    "l_equals_fn h' = l_equals_fn h" "access_order h' = access_order h" "l_auto_resize h' = l_auto_resize h"
    "l_resize_threshold h' = l_resize_threshold h" "l_max_load_factor h' = l_max_load_factor h" "l_malloc_fn h' = l_malloc_fn h"
    "l_free_fn h' = l_free_fn h" "l_key_free_fn h' = l_key_free_fn h" "l_val_free_fn h' = l_val_free_fn h" "evictor_fn h' = evictor_fn h"
  using assms by (cases h; cases h'; simp add: base_def)+

lemma get_cell_live: "live h a \<Longrightarrow> get_cell h a = Inr (the (cells h ! a))"
  by (auto simp: live_def get_cell_def)

lemma cell_fields: "l_key (the (cells h ! a)) = ek h a" "l_val (the (cells h ! a)) = ev h a" "l_hash (the (cells h ! a)) = eh h a"
  "slot_next (the (cells h ! a)) = snx h a"
  by (simp_all add: kvh_def snx_def Let_def)

lemma get_links:
  "a = 0 \<or> live h a \<Longrightarrow> get_next h a = Inr (nxt h a)"
  "a = 0 \<or> live h a \<Longrightarrow> get_prev h a = Inr (prv h a)"
  by (auto simp: get_next_def get_prev_def nxt_def prv_def get_cell_live live_def)

text \<open>Two tables with the same views up to the links.\<close>

definition same_data :: "('k, 'v, 'e) l_hashtbl \<Rightarrow> ('k, 'v, 'e) l_hashtbl \<Rightarrow> bool" where
  "same_data h h' \<longleftrightarrow> kvh h' = kvh h \<and> live h' = live h \<and> base h' = base h \<and> length (cells h') = length (cells h)"

lemma same_data_refl: "same_data h h"
  by (simp add: same_data_def)

lemma same_data_trans: "same_data h h1 \<Longrightarrow> same_data h1 h2 \<Longrightarrow> same_data h h2"
  by (simp add: same_data_def)

lemma cell_update_views:
  assumes "live h a" and "h' = h\<lparr>cells := (cells h)[a := Some e]\<rparr>"
  shows "nxt h' = (nxt h)(a := list_next e)" "prv h' = (prv h)(a := list_prev e)" "snx h' = (snx h)(a := slot_next e)"
    "kvh h' = (kvh h)(a := (l_key e, l_val e, l_hash e))" "live h' = live h" "base h' = base h" "length (cells h') = length (cells h)"
  using assms by (auto simp: view_defs fun_eq_iff nth_list_update Let_def)

lemma set_link:
  assumes "a = 0 \<or> live h a"
  shows "\<exists>h'. set_next h a b = Inr h' \<and> nxt h' = (nxt h)(a := b) \<and> prv h' = prv h \<and> snx h' = snx h \<and> same_data h h'"
    and "\<exists>h'. set_prev h a b = Inr h' \<and> prv h' = (prv h)(a := b) \<and> nxt h' = nxt h \<and> snx h' = snx h \<and> same_data h h'"
proof -
  let ?e = "the (cells h ! a)"
  have z: "nxt (h\<lparr>head_next := b\<rparr>) = (nxt h)(0 := b)" "prv (h\<lparr>head_next := b\<rparr>) = prv h" "snx (h\<lparr>head_next := b\<rparr>) = snx h"
    "same_data h (h\<lparr>head_next := b\<rparr>)" "prv (h\<lparr>head_prev := b\<rparr>) = (prv h)(0 := b)" "nxt (h\<lparr>head_prev := b\<rparr>) = nxt h"
    "snx (h\<lparr>head_prev := b\<rparr>) = snx h" "same_data h (h\<lparr>head_prev := b\<rparr>)"
    by (auto simp: same_data_def view_defs fun_eq_iff)
  have c: "nxt h a = list_next ?e" "prv h a = list_prev ?e" "snx h a = slot_next ?e" "kvh h a = (l_key ?e, l_val ?e, l_hash ?e)" if "live h a"
    using that by (simp_all add: view_defs Let_def)
  show "\<exists>h'. set_next h a b = Inr h' \<and> nxt h' = (nxt h)(a := b) \<and> prv h' = prv h \<and> snx h' = snx h \<and> same_data h h'"
    using assms z(1-4) cell_update_views [OF _ refl, of h a "?e\<lparr>list_next := b\<rparr>"] c
    by (cases "a = 0") (auto simp: set_next_def set_cell_def get_cell_live same_data_def)
  show "\<exists>h'. set_prev h a b = Inr h' \<and> prv h' = (prv h)(a := b) \<and> nxt h' = nxt h \<and> snx h' = snx h \<and> same_data h h'"
    using assms z(5-8) cell_update_views [OF _ refl, of h a "?e\<lparr>list_prev := b\<rparr>"] c
    by (cases "a = 0") (auto simp: set_prev_def set_cell_def get_cell_live same_data_def)
qed

lemma set_slot_next:
  assumes "live h a"
  shows "\<exists>h'. set_cell h a (\<lambda>e. e\<lparr>slot_next := p\<rparr>) = Inr h' \<and> snx h' = (snx h)(a := p) \<and> nxt h' = nxt h \<and> prv h' = prv h \<and> same_data h h'"
proof -
  let ?e = "the (cells h ! a)"
  have "nxt h a = list_next ?e" "prv h a = list_prev ?e" "kvh h a = (l_key ?e, l_val ?e, l_hash ?e)"
    using assms by (simp_all add: view_defs Let_def)
  with assms cell_update_views [OF assms refl, of "?e\<lparr>slot_next := p\<rparr>"] show ?thesis
    by (auto simp: set_cell_def get_cell_live same_data_def)
qed

section \<open>The doubly linked list\<close>

lemma list_add_before_views:
  assumes "live h a" and "nxt h 0 = 0 \<or> live h (nxt h 0)"
  shows "\<exists>h'. list_add_before h a 0 = Inr h' \<and> nxt h' = (nxt h)(a := nxt h 0, 0 := a) \<and>
    prv h' = (prv h)(a := 0, nxt h 0 := a) \<and> snx h' = snx h \<and> same_data h h'"
proof -
  obtain h1 where 1: "set_next h a (nxt h 0) = Inr h1" "nxt h1 = (nxt h)(a := nxt h 0)" "prv h1 = prv h" "snx h1 = snx h" "same_data h h1"
    using set_link(1) assms(1) by blast
  then have l1: "live h1 = live h" by (simp add: same_data_def)
  obtain h2 where 2: "set_prev h1 a 0 = Inr h2" "prv h2 = (prv h1)(a := 0)" "nxt h2 = nxt h1" "snx h2 = snx h1" "same_data h1 h2"
    using set_link(2) [of a h1] assms(1) l1 by auto
  obtain h3 where 3: "set_next h2 0 a = Inr h3" "nxt h3 = (nxt h2)(0 := a)" "prv h3 = prv h2" "snx h3 = snx h2" "same_data h2 h3"
    using set_link(1) by blast
  have l3: "live h3 = live h" using l1 2(5) 3(5) by (simp add: same_data_def)
  obtain h4 where 4: "set_prev h3 (nxt h 0) a = Inr h4" "prv h4 = (prv h3)(nxt h 0 := a)" "nxt h4 = nxt h3" "snx h4 = snx h3" "same_data h3 h4"
    using set_link(2) [of "nxt h 0" h3] assms(2) l3 by auto
  have "list_add_before h a 0 = Inr h4"
    using 1(1) 2(1) 3(1) 4(1) get_links(1) [of 0 h] by (simp add: list_add_before_def)
  with 1 2 3 4 show ?thesis by (auto intro: same_data_trans)
qed

lemma list_remove_views:
  assumes "live h a" and "nxt h a = 0 \<or> live h (nxt h a)" and "prv h a = 0 \<or> live h (prv h a)" and "prv h a \<noteq> a"
  shows "\<exists>h'. list_remove h a = Inr h' \<and> nxt h' = (nxt h)(prv h a := nxt h a) \<and>
    prv h' = (prv h)(nxt h a := prv h a) \<and> snx h' = snx h \<and> same_data h h'"
proof -
  obtain h1 where 1: "set_next h (prv h a) (nxt h a) = Inr h1" "nxt h1 = (nxt h)(prv h a := nxt h a)" "prv h1 = prv h" "snx h1 = snx h" "same_data h h1"
    using set_link(1) assms(3) by blast
  then have l1: "live h1 = live h" by (simp add: same_data_def)
  obtain h2 where 2: "set_prev h1 (nxt h a) (prv h a) = Inr h2" "prv h2 = (prv h1)(nxt h a := prv h a)" "nxt h2 = nxt h1" "snx h2 = snx h1" "same_data h1 h2"
    using set_link(2) [of "nxt h a" h1] assms(2) l1 by auto
  have "list_remove h a = Inr h2"
    using 1 2(1) get_links [of a h] get_links [of a h1] assms(1,4) l1 by (simp add: list_remove_def)
  with 1 2 show ?thesis by (auto intro: same_data_trans)
qed

text \<open>\<open>dpath p xs q\<close>: the links lead from \<open>p\<close> over \<open>xs\<close> to \<open>q\<close> and back.\<close>

primrec dpath :: "(ptr \<Rightarrow> ptr) \<Rightarrow> (ptr \<Rightarrow> ptr) \<Rightarrow> ptr \<Rightarrow> ptr list \<Rightarrow> ptr \<Rightarrow> bool" where
  "dpath nx pv p [] q \<longleftrightarrow> nx p = q \<and> pv q = p"
| "dpath nx pv p (x # xs) q \<longleftrightarrow> nx p = x \<and> pv x = p \<and> dpath nx pv x xs q"

lemma dpath_append: "dpath nx pv p (us @ a # vs) q \<longleftrightarrow> dpath nx pv p us a \<and> dpath nx pv a vs q"
  by (induction us arbitrary: p) auto

lemma dpath_next_update: "n \<notin> set (p # xs) \<Longrightarrow> dpath (nx(n := y)) pv p xs q = dpath nx pv p xs q"
  by (induction xs arbitrary: p) auto

lemma dpath_prev_update: "n \<notin> set (xs @ [q]) \<Longrightarrow> dpath nx (pv(n := y)) p xs q = dpath nx pv p xs q"
  by (induction xs arbitrary: p) auto

lemma dpath_ends: "dpath nx pv p xs q \<Longrightarrow> nx p = hd (xs @ [q]) \<and> pv q = last (p # xs)"
  by (induction xs arbitrary: p) auto

lemma dpath_add_front:
  assumes "dpath nx pv 0 xs 0" and "distinct (0 # xs)" and "a \<notin> set (0 # xs)"
  shows "dpath (nx(a := nx 0, 0 := a)) (pv(a := 0, nx 0 := a)) 0 (a # xs) 0"
proof (cases xs)
  case Nil
  with assms show ?thesis by auto
next
  case (Cons x xs')
  with assms have x: "nx 0 = x" "dpath nx pv x xs' 0" by auto
  have "dpath (nx(a := x, 0 := a)) (pv(a := 0, x := a)) x xs' 0 = dpath nx pv x xs' 0"
    using assms(2,3) Cons by (simp add: dpath_next_update dpath_prev_update)
  with x assms(2,3) Cons show ?thesis by auto
qed

lemma dpath_remove:
  assumes "dpath nx pv p (us @ a # vs) q" and "distinct (us @ a # vs)" and "p \<notin> set (us @ a # vs)" and "q \<notin> set (us @ a # vs)"
  shows "dpath (nx(pv a := nx a)) (pv(nx a := pv a)) p (us @ vs) q"
  using assms
proof (induction us arbitrary: p)
  case Nil
  show ?case
  proof (cases vs)
    case Nil
    with Nil.prems show ?thesis by auto
  next
    case (Cons b vs')
    with Nil.prems have "dpath nx pv b vs' q" "nx a = b" "pv a = p" "b \<noteq> p" "nx p = a" by auto
    moreover have "dpath (nx(p := b)) (pv(b := p)) b vs' q = dpath nx pv b vs' q"
      using Nil.prems Cons by (simp add: dpath_next_update dpath_prev_update)
    ultimately show ?thesis using Cons by (simp add: fun_upd_def)
  qed
next
  case (Cons u us)
  have ends: "pv a = last (u # us)" "nx a = hd (vs @ [q])"
    using Cons.prems(1) dpath_ends [of nx pv u us a] dpath_ends [of nx pv a vs q] by (auto simp: dpath_append)
  have "pv a \<noteq> p" using ends(1) Cons.prems(3) last_in_set [of "u # us"] by (metis Un_iff list.distinct(1) set_append)
  moreover have "nx a \<noteq> u" using ends(2) Cons.prems(2,4) by (cases vs) auto
  ultimately show ?case using Cons by auto
qed

section \<open>Slots\<close>

primrec cpath :: "(ptr \<Rightarrow> ptr option) \<Rightarrow> ptr option \<Rightarrow> ptr list \<Rightarrow> bool" where
  "cpath sn p [] \<longleftrightarrow> p = None"
| "cpath sn p (a # as) \<longleftrightarrow> p = Some a \<and> cpath sn (sn a) as"

lemma cpath_update: "a \<notin> set ys \<Longrightarrow> cpath (sn(a := q)) p ys = cpath sn p ys"
  by (induction ys arbitrary: p) auto

lemma cpath_unlink:
  "cpath sn p (us @ a # vs) \<Longrightarrow> us \<noteq> [] \<Longrightarrow> distinct (us @ a # vs) \<Longrightarrow> cpath (sn(last us := sn a)) p (us @ vs)"
proof (induction us arbitrary: p)
  case (Cons u us)
  show ?case
  proof (cases "us = []")
    case True
    then have "cpath (sn(u := sn a)) p (u # vs)" using Cons.prems by (simp add: cpath_update)
    with True show ?thesis by (metis append_Cons append_Nil last_ConsL)
  next
    case False
    then have "last us \<noteq> u" using Cons.prems(3) last_in_set by fastforce
    with False Cons show ?thesis by auto
  qed
qed simp

definition home :: "('k, 'v, 'e) l_hashtbl \<Rightarrow> ptr \<Rightarrow> nat" where
  "home h a = nat (l_tbl_index (l_table_size h) (eh h a))"

definition slots_ok :: "('k, 'v, 'e) l_hashtbl \<Rightarrow> ptr list \<Rightarrow> bool" where
  "slots_ok h xs \<longleftrightarrow> (\<forall>i < length (l_table h). \<exists>ys. cpath (snx h) (l_table h ! i) ys \<and> distinct ys \<and> set ys = {a \<in> set xs. home h a = i})"

text \<open>
  The invariant: \<open>xs\<close> are the entries in the order of the list of all entries.  Except between the
  unlinking of an entry and its release, the live cells are exactly these.
\<close>

definition keys_ok :: "('k, 'v, 'e) l_hashtbl \<Rightarrow> ptr list \<Rightarrow> bool" where
  "keys_ok h xs \<longleftrightarrow> (\<forall>a \<in> set xs. live h a \<and> eh h a = l_hash_fn h (ek h a)) \<and>
     (\<forall>a \<in> set xs. \<forall>b \<in> set xs. l_equals_fn h (ek h a) (ek h b) \<longrightarrow> a = b)"

definition size_ok :: "('k, 'v, 'e) l_hashtbl \<Rightarrow> bool" where
  "size_ok h \<longleftrightarrow> key_fns (l_hash_fn h) (l_equals_fn h) \<and> (\<exists>n \<le> 30. l_table_size h = 2 ^ n) \<and> length (l_table h) = nat (l_table_size h)"

definition linked :: "('k, 'v, 'e) l_hashtbl \<Rightarrow> ptr list \<Rightarrow> bool" where
  "linked h xs \<longleftrightarrow> size_ok h \<and> dpath (nxt h) (prv h) 0 xs 0 \<and> distinct (0 # xs) \<and> keys_ok h xs \<and> slots_ok h xs \<and>
     l_nentries h = of_nat (length xs)"

definition l_wf :: "('k, 'v, 'e) l_hashtbl \<Rightarrow> ptr list \<Rightarrow> bool" where
  "l_wf h xs \<longleftrightarrow> linked h xs \<and> (\<forall>a. live h a \<longrightarrow> a \<in> set xs) \<and> cells h \<noteq> []"

definition entries_of :: "('k, 'v, 'e) l_hashtbl \<Rightarrow> ptr list \<Rightarrow> ('k \<times> 'v option) list" where
  "entries_of h xs = map (\<lambda>a. (ek h a, ev h a)) xs"

lemma slot_range:
  assumes "size_ok h"
  shows "0 \<le> l_tbl_index (l_table_size h) hv" and "l_tbl_index (l_table_size h) hv < int (length (l_table h))"
proof -
  from assms obtain n where n: "l_table_size h = 2 ^ n" and "length (l_table h) = nat (l_table_size h)" unfolding size_ok_def by blast
  then have "int (length (l_table h)) = 2 ^ n" by simp
  with n show "0 \<le> l_tbl_index (l_table_size h) hv" "l_tbl_index (l_table_size h) hv < int (length (l_table h))"
    by (simp_all add: l_tbl_index_def pow2_mask)
qed

lemma linked_live: "linked h xs \<Longrightarrow> a \<in> set xs \<Longrightarrow> live h a"
  by (simp add: linked_def keys_ok_def)

lemma linked_room: "linked h xs \<Longrightarrow> distinct ys \<Longrightarrow> set ys \<subseteq> set xs \<Longrightarrow> length ys \<le> length (cells h)"
proof -
  assume a: "linked h xs" "distinct ys" "set ys \<subseteq> set xs"
  have "set ys \<subseteq> {..<length (cells h)}"
  proof
    fix x
    assume "x \<in> set ys"
    with a(3) linked_live [OF a(1)] have "live h x" by blast
    then show "x \<in> {..<length (cells h)}" by (simp add: live_def)
  qed
  from card_mono [OF finite_lessThan this] a(2) show ?thesis by (simp add: distinct_card)
qed

lemma find_unique:
  assumes "a \<in> set xs" and "P a" and "\<And>b. b \<in> set xs \<Longrightarrow> P b \<Longrightarrow> b = a"
  shows "find P xs = Some a"
proof (cases "find P xs")
  case None
  with assms(1,2) show ?thesis by (auto simp: find_None_iff)
next
  case (Some b)
  then have "b \<in> set xs" "P b" by (auto simp: find_Some_iff)
  with Some assms(3) show ?thesis by auto
qed

lemma find_loop_path:
  assumes "cpath (snx h) p ys" and "\<And>a. a \<in> set ys \<Longrightarrow> live h a" and "length ys \<le> n"
  shows "find_loop h hv k n p = Inr (find (\<lambda>a. eh h a = hv \<and> l_equals_fn h (ek h a) k) ys)"
  using assms
proof (induction ys arbitrary: p n)
  case Nil
  then show ?case by (cases n) auto
next
  case (Cons a ys)
  then obtain n' where "n = Suc n'" by (cases n) auto
  with Cons show ?case by (simp add: get_cell_live cell_fields)
qed

text \<open>The slot of a key, and the entry with that key in it.\<close>

lemma key_slot:
  assumes wf: "linked h xs"
  obtains ys where "l_tbl_entry h (l_hash_fn h k) = Inr (l_table h ! nat (l_tbl_index (l_table_size h) (l_hash_fn h k)))"
    "cpath (snx h) (l_table h ! nat (l_tbl_index (l_table_size h) (l_hash_fn h k))) ys" "distinct ys"
    "set ys = {a \<in> set xs. home h a = nat (l_tbl_index (l_table_size h) (l_hash_fn h k))}" "length ys \<le> length (cells h)"
    "find (\<lambda>a. eh h a = l_hash_fn h k \<and> l_equals_fn h (ek h a) k) ys = find (\<lambda>a. l_equals_fn h (ek h a) k) xs"
proof -
  let ?hv = "l_hash_fn h k" let ?i = "nat (l_tbl_index (l_table_size h) (l_hash_fn h k))"
  have sz: "size_ok h" using wf by (simp add: linked_def)
  have i: "?i < length (l_table h)" using slot_range [OF sz, of ?hv] by linarith
  then obtain ys where ys: "cpath (snx h) (l_table h ! ?i) ys" "distinct ys" "set ys = {a \<in> set xs. home h a = ?i}"
    using wf unfolding linked_def slots_ok_def by blast
  have hash: "eh h a = ?hv" if "a \<in> set xs" "l_equals_fn h (ek h a) k" for a
    using that wf key_fns.hash_equals [of "l_hash_fn h" "l_equals_fn h" "ek h a" k] by (auto simp: linked_def keys_ok_def size_ok_def)
  have "find (\<lambda>a. eh h a = ?hv \<and> l_equals_fn h (ek h a) k) ys = find (\<lambda>a. l_equals_fn h (ek h a) k) xs"
  proof (cases "find (\<lambda>a. l_equals_fn h (ek h a) k) xs")
    case None
    with ys(3) have "find (\<lambda>a. eh h a = ?hv \<and> l_equals_fn h (ek h a) k) ys = None" by (auto simp: find_None_iff)
    with None show ?thesis by simp
  next
    case (Some a)
    then have a: "a \<in> set xs" "l_equals_fn h (ek h a) k" by (auto simp: find_Some_iff)
    have "b = a" if "b \<in> set xs" "l_equals_fn h (ek h b) k" for b
    proof -
      have "l_equals_fn h (ek h b) (ek h a)"
        using wf a(2) that(2) key_fns.equals_trans key_fns.equals_sym unfolding linked_def size_ok_def by metis
      with wf a(1) that(1) show ?thesis by (auto simp: linked_def keys_ok_def)
    qed
    moreover have "a \<in> set ys" using a(1) hash [OF a] ys(3) by (simp add: home_def)
    moreover have "set ys \<subseteq> set xs" using ys(3) by blast
    ultimately show ?thesis
      unfolding Some using a(2) hash [OF a] by (intro find_unique) auto
  qed
  moreover have "length ys \<le> length (cells h)" using linked_room [OF wf ys(2)] ys(3) by auto
  moreover have "l_tbl_entry h ?hv = Inr (l_table h ! ?i)" using slot_range [OF sz, of ?hv] by (simp add: l_tbl_entry_def c_mem)
  ultimately show thesis using that ys by blast
qed

lemma l_find_entry_ok: "linked h xs \<Longrightarrow> l_find_entry h (l_hash_fn h k) k = Inr (find (\<lambda>a. l_equals_fn h (ek h a) k) xs)"
proof -
  assume wf: "linked h xs"
  obtain ys where "l_tbl_entry h (l_hash_fn h k) = Inr (l_table h ! nat (l_tbl_index (l_table_size h) (l_hash_fn h k)))"
    "cpath (snx h) (l_table h ! nat (l_tbl_index (l_table_size h) (l_hash_fn h k))) ys"
    "set ys = {a \<in> set xs. home h a = nat (l_tbl_index (l_table_size h) (l_hash_fn h k))}" "length ys \<le> length (cells h)"
    "find (\<lambda>a. eh h a = l_hash_fn h k \<and> l_equals_fn h (ek h a) k) ys = find (\<lambda>a. l_equals_fn h (ek h a) k) xs"
    by (rule key_slot [OF wf, of k])
  with linked_live [OF wf] find_loop_path [of h _ ys "length (cells h)" "l_hash_fn h k" k] show ?thesis by (simp add: l_find_entry_def)
qed

section \<open>Unlinking an entry\<close>

text \<open>What no operation on the entries changes.\<close>

definition conf :: "('k, 'v, 'e) l_hashtbl \<Rightarrow> ('k, 'v, 'e) l_hashtbl" where
  "conf h = h\<lparr>head_next := 0, head_prev := 0, l_nentries := 0, l_table_size := 0, l_resize_threshold := 0, l_table := [], cells := []\<rparr>"

lemma conf_fields:
  assumes "conf h' = conf h"
  shows "l_hash_fn h' = l_hash_fn h" "l_equals_fn h' = l_equals_fn h" "access_order h' = access_order h" "l_auto_resize h' = l_auto_resize h"
    "l_max_load_factor h' = l_max_load_factor h" "l_malloc_fn h' = l_malloc_fn h" "l_free_fn h' = l_free_fn h"
    "l_key_free_fn h' = l_key_free_fn h" "l_val_free_fn h' = l_val_free_fn h" "evictor_fn h' = evictor_fn h"
  using assms by (cases h; cases h'; simp add: conf_def)+

lemma base_conf: "base h' = base h \<Longrightarrow> conf h' = conf h"
  by (cases h; cases h') (simp add: base_def conf_def)

lemma conf_update [simp]: "conf (h\<lparr>l_nentries := n\<rparr>) = conf h" "conf (h\<lparr>l_table := t\<rparr>) = conf h" "conf (h\<lparr>cells := c\<rparr>) = conf h"
  by (simp_all add: conf_def)

lemma remove_loop_path:
  assumes "cpath (snx h) p ys" and "\<And>a. a \<in> set ys \<Longrightarrow> live h a" and "length ys \<le> n"
  shows "case find (\<lambda>a. eh h a = hv \<and> l_equals_fn h (ek h a) k) ys of
      None \<Rightarrow> remove_loop h hv k n r p = Inr (None, h)
    | Some a \<Rightarrow> \<exists>us vs. ys = us @ a # vs \<and> remove_loop h hv k n r p =
        c_bind (write_ref h (if us = [] then r else NextRef (last us)) (snx h a)) (\<lambda>h.
        c_bind (list_remove (h\<lparr>l_nentries := l_nentries h - 1\<rparr>) a) (\<lambda>h. Inr (Some a, h)))"
  using assms
proof (induction ys arbitrary: p n r)
  case Nil
  then show ?case by (cases n) auto
next
  case (Cons b ys)
  then obtain n' where n: "n = Suc n'" by (cases n) auto
  have b: "get_cell h b = Inr (the (cells h ! b))" using Cons.prems(2) by (simp add: get_cell_live)
  show ?case
  proof (cases "eh h b = hv \<and> l_equals_fn h (ek h b) k")
    case True
    with n b Cons.prems(1) show ?thesis by (auto simp: cell_fields intro!: exI [of _ "[]"])
  next
    case False
    then have step: "remove_loop h hv k n r p = remove_loop h hv k n' (NextRef b) (snx h b)"
      using n b Cons.prems(1) by (auto simp: cell_fields)
    note IH = Cons.IH [of "snx h b" n' "NextRef b"]
    show ?thesis
    proof (cases "find (\<lambda>a. eh h a = hv \<and> l_equals_fn h (ek h a) k) ys")
      case None
      with False IH Cons.prems n step show ?thesis by auto
    next
      case (Some a)
      with IH Cons.prems n obtain us vs where us: "ys = us @ a # vs" "remove_loop h hv k n' (NextRef b) (snx h b) =
          c_bind (write_ref h (if us = [] then NextRef b else NextRef (last us)) (snx h a)) (\<lambda>h.
          c_bind (list_remove (h\<lparr>l_nentries := l_nentries h - 1\<rparr>) a) (\<lambda>h. Inr (Some a, h)))" by auto
      have "(if us = [] then NextRef b else NextRef (last us)) = (if b # us = [] then r else NextRef (last (b # us)))" by simp
      with us step have "b # ys = (b # us) @ a # vs \<and> remove_loop h hv k n r p =
          c_bind (write_ref h (if b # us = [] then r else NextRef (last (b # us))) (snx h a)) (\<lambda>h.
          c_bind (list_remove (h\<lparr>l_nentries := l_nentries h - 1\<rparr>) a) (\<lambda>h. Inr (Some a, h)))" by simp
      moreover have "find (\<lambda>a. eh h a = hv \<and> l_equals_fn h (ek h a) k) (b # ys) = Some a" using False Some by auto
      ultimately show ?thesis by (simp only: option.case) blast
    qed
  qed
qed

lemma slots_unlink:
  fixes sn T T' sn'
  assumes ok: "\<forall>i < length T. \<exists>ys. cpath sn (T ! i) ys \<and> distinct ys \<and> set ys = {b \<in> X. hm b = i}"
    and s: "s < length T" "cpath sn (T ! s) (us @ a # vs)" "distinct (us @ a # vs)" "set (us @ a # vs) = {b \<in> X. hm b = s}"
    and upd: "T' = (if us = [] then T[s := sn a] else T)" "sn' = (if us = [] then sn else sn(last us := sn a))"
  shows "\<forall>i < length T'. \<exists>ys. cpath sn' (T' ! i) ys \<and> distinct ys \<and> set ys = {b \<in> X - {a}. hm b = (i::nat)}"
proof (intro allI impI)
  fix i
  assume "i < length T'"
  then have i: "i < length T" using upd(1) by (auto split: if_splits)
  have mem: "b \<in> X \<and> hm b = s" if "b \<in> set (us @ a # vs)" for b using that unfolding s(4) by blast
  have last: "us \<noteq> [] \<Longrightarrow> hm (last us) = s" using mem [of "last us"] by simp
  show "\<exists>ys. cpath sn' (T' ! i) ys \<and> distinct ys \<and> set ys = {b \<in> X - {a}. hm b = i}"
  proof (cases "i = s")
    case True
    have "cpath sn' (T' ! s) (us @ vs)"
    proof (cases "us = []")
      case True
      with s(1,2) upd show ?thesis by simp
    next
      case False
      with cpath_unlink [OF s(2) False s(3)] upd show ?thesis by simp
    qed
    moreover have "set (us @ vs) = set (us @ a # vs) - {a}" using s(3) by auto
    then have "set (us @ vs) = {b \<in> X - {a}. hm b = s}" unfolding s(4) by blast
    ultimately show ?thesis using s(3) True by auto
  next
    case False
    from ok i obtain ys where ys: "cpath sn (T ! i) ys" "distinct ys" "set ys = {b \<in> X. hm b = i}" by blast
    have "hm a = s" using mem [of a] by simp
    with ys(3) False have "set ys = {b \<in> X - {a}. hm b = i}" by auto
    moreover have "cpath sn' (T' ! i) ys"
      using ys(1,3) last False upd by (auto simp: cpath_update)
    ultimately show ?thesis using ys(2) by blast
  qed
qed

lemma write_ref_views:
  assumes "case r of SlotRef i \<Rightarrow> 0 \<le> i \<and> i < int (length (l_table h)) | NextRef b \<Rightarrow> live h b"
  shows "\<exists>h'. write_ref h r p = Inr h' \<and> nxt h' = nxt h \<and> prv h' = prv h \<and> kvh h' = kvh h \<and> live h' = live h \<and> conf h' = conf h \<and>
    length (cells h') = length (cells h) \<and> l_nentries h' = l_nentries h \<and> l_table_size h' = l_table_size h \<and> l_resize_threshold h' = l_resize_threshold h \<and>
    l_table h' = (case r of SlotRef i \<Rightarrow> (l_table h)[nat i := p] | NextRef b \<Rightarrow> l_table h) \<and>
    snx h' = (case r of SlotRef i \<Rightarrow> snx h | NextRef b \<Rightarrow> (snx h)(b := p))"
proof (cases r)
  case (SlotRef i)
  with assms show ?thesis by (simp add: write_ref_def c_mem)
next
  case (NextRef b)
  with assms set_slot_next [of h b p] obtain h' where h': "write_ref h r p = Inr h'" "snx h' = (snx h)(b := p)" "nxt h' = nxt h" "prv h' = prv h"
    and same: "same_data h h'" by (auto simp: write_ref_def)
  then have "base h' = base h" by (simp add: same_data_def)
  with h' same NextRef base_fields [OF this] base_conf [OF this] show ?thesis by (simp add: same_data_def)
qed

text \<open>Taking the entry \<open>a\<close> out of the list and of its slot.\<close>

lemma l_remove_key_absent:
  assumes "linked h xs" and "find (\<lambda>a. l_equals_fn h (ek h a) k) xs = None"
  shows "l_remove_key h k = Inr (None, h)"
proof -
  let ?i = "l_tbl_index (l_table_size h) (l_hash_fn h k)"
  obtain ys where ys: "cpath (snx h) (l_table h ! nat ?i) ys" "set ys = {a \<in> set xs. home h a = nat ?i}" "length ys \<le> length (cells h)"
    "find (\<lambda>a. eh h a = l_hash_fn h k \<and> l_equals_fn h (ek h a) k) ys = find (\<lambda>a. l_equals_fn h (ek h a) k) xs"
    by (rule key_slot [OF assms(1), of k])
  have "live h a" if "a \<in> set ys" for a using that ys(2) linked_live [OF assms(1)] by blast
  from remove_loop_path [OF ys(1) this ys(3), of "l_hash_fn h k" k "SlotRef ?i"] ys(4) assms(2)
  have "remove_loop h (l_hash_fn h k) k (length (cells h)) (SlotRef ?i) (l_table h ! nat ?i) = Inr (None, h)" by simp
  moreover have "size_ok h" using assms(1) by (simp add: linked_def)
  ultimately show ?thesis
    using slot_range [of h "l_hash_fn h k"] by (simp add: l_remove_key_def l_tbl_entry_ref_def read_ref_def c_mem)
qed

lemma linked_neighbours:
  assumes "dpath (nxt h) (prv h) 0 (us @ a # vs) 0" and "distinct (0 # us @ a # vs)" and "\<And>b. b \<in> set (us @ a # vs) \<Longrightarrow> live h b"
  shows "nxt h a = 0 \<or> live h (nxt h a)" "prv h a = 0 \<or> live h (prv h a)" "prv h a \<noteq> a"
proof -
  have ends: "nxt h a = hd (vs @ [0])" "prv h a = last (0 # us)"
    using assms(1) dpath_ends [of "nxt h" "prv h" 0 us a] dpath_ends [of "nxt h" "prv h" a vs 0] by (auto simp: dpath_append)
  have "nxt h a \<in> set (vs @ [0])" unfolding ends by (cases vs) auto
  moreover have "prv h a \<in> set (0 # us)" unfolding ends by (metis last_in_set list.distinct(1))
  ultimately show "nxt h a = 0 \<or> live h (nxt h a)" "prv h a = 0 \<or> live h (prv h a)" "prv h a \<noteq> a"
    using assms(2,3) by auto
qed

lemma l_remove_key_found:
  assumes wf: "linked h xs" and a: "find (\<lambda>a. l_equals_fn h (ek h a) k) xs = Some a"
  obtains us vs h' where "xs = us @ a # vs" "l_remove_key h k = Inr (Some a, h')" "linked h' (us @ vs)" "kvh h' = kvh h" "live h' = live h"
    "conf h' = conf h" "length (cells h') = length (cells h)" "l_table_size h' = l_table_size h" "l_resize_threshold h' = l_resize_threshold h"
proof -
  let ?i = "l_tbl_index (l_table_size h) (l_hash_fn h k)"
  have sz: "size_ok h" and path: "dpath (nxt h) (prv h) 0 xs 0" and dist: "distinct (0 # xs)" and keys: "keys_ok h xs" and slots: "slots_ok h xs"
    and n: "l_nentries h = of_nat (length xs)" using wf by (auto simp: linked_def)
  note range = slot_range [OF sz, of "l_hash_fn h k"]
  from a have "a \<in> set xs" by (auto simp: find_Some_iff)
  then obtain us vs where xs: "xs = us @ a # vs" by (meson split_list)
  obtain ys where ys: "cpath (snx h) (l_table h ! nat ?i) ys" "distinct ys" "set ys = {a \<in> set xs. home h a = nat ?i}" "length ys \<le> length (cells h)"
    "find (\<lambda>a. eh h a = l_hash_fn h k \<and> l_equals_fn h (ek h a) k) ys = find (\<lambda>a. l_equals_fn h (ek h a) k) xs"
    by (rule key_slot [OF wf, of k])
  have alive: "live h b" if "b \<in> set ys" for b using that ys(3) linked_live [OF wf] by blast
  obtain us1 vs1 where ys1: "ys = us1 @ a # vs1" and loop: "remove_loop h (l_hash_fn h k) k (length (cells h)) (SlotRef ?i) (l_table h ! nat ?i) =
      c_bind (write_ref h (if us1 = [] then SlotRef ?i else NextRef (last us1)) (snx h a)) (\<lambda>h.
      c_bind (list_remove (h\<lparr>l_nentries := l_nentries h - 1\<rparr>) a) (\<lambda>h. Inr (Some a, h)))"
    using remove_loop_path [OF ys(1) alive ys(4), of "l_hash_fn h k" k "SlotRef ?i"] ys(5) a by auto
  let ?r = "if us1 = [] then SlotRef ?i else NextRef (last us1)"
  have "case ?r of SlotRef i \<Rightarrow> 0 \<le> i \<and> i < int (length (l_table h)) | NextRef b \<Rightarrow> live h b"
    using range alive ys1 by auto
  from write_ref_views [OF this, of "snx h a"] obtain h1 where h1: "write_ref h ?r (snx h a) = Inr h1" "nxt h1 = nxt h" "prv h1 = prv h"
    "kvh h1 = kvh h" "live h1 = live h" "conf h1 = conf h" "length (cells h1) = length (cells h)" "l_nentries h1 = l_nentries h"
    "l_table_size h1 = l_table_size h" "l_resize_threshold h1 = l_resize_threshold h"
    "l_table h1 = (if us1 = [] then (l_table h)[nat ?i := snx h a] else l_table h)"
    "snx h1 = (if us1 = [] then snx h else (snx h)(last us1 := snx h a))" by (auto split: if_splits)
  let ?h1 = "h1\<lparr>l_nentries := l_nentries h1 - 1\<rparr>"
  have v: "nxt ?h1 = nxt h" "prv ?h1 = prv h" "kvh ?h1 = kvh h" "live ?h1 = live h" "snx ?h1 = snx h1"
    using h1(2-5) by simp_all
  have "dpath (nxt ?h1) (prv ?h1) 0 (us @ a # vs) 0" "distinct (0 # us @ a # vs)" "\<And>b. b \<in> set (us @ a # vs) \<Longrightarrow> live ?h1 b"
    using path dist xs linked_live [OF wf] v by auto
  from list_remove_views [OF _ linked_neighbours [OF this]] linked_live [OF wf \<open>a \<in> set xs\<close>] v obtain h2 where
    h2: "list_remove ?h1 a = Inr h2" "nxt h2 = (nxt h)(prv h a := nxt h a)" "prv h2 = (prv h)(nxt h a := prv h a)" "snx h2 = snx h1" "same_data ?h1 h2"
    by auto
  have base: "base h2 = base ?h1" and d2: "kvh h2 = kvh h" "live h2 = live h" "length (cells h2) = length (cells h)"
    using h2(5) v h1(7) by (auto simp: same_data_def)
  note f2 = base_fields [OF base] and c2 = base_conf [OF base]
  have fns: "conf h2 = conf h" using c2 h1(6) by simp
  have tbl: "l_table h2 = l_table h1" "l_table_size h2 = l_table_size h" "l_nentries h2 = l_nentries h - 1" "l_resize_threshold h2 = l_resize_threshold h"
    using f2 h1 by simp_all
  have "l_remove_key h k = Inr (Some a, h2)"
    using loop h1(1) h2(1) range by (simp add: l_remove_key_def l_tbl_entry_ref_def read_ref_def c_mem del: c_bind_eq_Inr_iff)
  moreover have "linked h2 (us @ vs)" unfolding linked_def
  proof (intro conjI)
    show "size_ok h2" using sz tbl h1(11) conf_fields [OF fns] by (simp add: size_ok_def)
    show "dpath (nxt h2) (prv h2) 0 (us @ vs) 0"
      unfolding h2(2,3) using path dist xs by (intro dpath_remove) auto
    show "distinct (0 # us @ vs)" using dist xs by auto
    show "keys_ok h2 (us @ vs)" using keys xs d2 conf_fields [OF fns] by (auto simp: keys_ok_def)
    show "l_nentries h2 = of_nat (length (us @ vs))" using tbl(3) n xs by simp
    have hm: "home h2 = home h" using tbl(2) d2(1) by (simp add: home_def fun_eq_iff)
    have X: "set (us @ vs) = set xs - {a}" using dist xs by auto
    have "\<forall>i < length (l_table h2). \<exists>ys. cpath (snx h2) (l_table h2 ! i) ys \<and> distinct ys \<and> set ys = {b \<in> set xs - {a}. home h b = i}"
    proof (rule slots_unlink)
      show "\<forall>i < length (l_table h). \<exists>ys. cpath (snx h) (l_table h ! i) ys \<and> distinct ys \<and> set ys = {b \<in> set xs. home h b = i}"
        using slots by (simp add: slots_ok_def)
      show "nat ?i < length (l_table h)" using range by linarith
      show "cpath (snx h) (l_table h ! nat ?i) (us1 @ a # vs1)" "distinct (us1 @ a # vs1)" "set (us1 @ a # vs1) = {b \<in> set xs. home h b = nat ?i}"
        using ys(1-3) ys1 by simp_all
    qed (simp_all add: tbl(1) h1(11,12) h2(4))
    then show "slots_ok h2 (us @ vs)" unfolding slots_ok_def hm X .
  qed
  ultimately show thesis using that xs d2 fns tbl by blast
qed

section \<open>Removal\<close>

lemma free_cell_views:
  assumes "live h a"
  obtains h' where "free_cell h a env = Inr (h', l_free_fn h (LEntry a (the (cells h ! a))) env)"
    "nxt h' = (nxt h)(a := nxt h' a)" "prv h' = (prv h)(a := prv h' a)" "snx h' = (snx h)(a := snx h' a)" "kvh h' = (kvh h)(a := kvh h' a)"
    "live h' = (live h)(a := False)" "base h' = base h" "length (cells h') = length (cells h)"
proof
  let ?h = "h\<lparr>cells := (cells h)[a := None]\<rparr>"
  show "free_cell h a env = Inr (?h, l_free_fn h (LEntry a (the (cells h ! a))) env)" by (simp add: free_cell_def get_cell_live [OF assms])
qed (use assms in \<open>auto simp: view_defs fun_eq_iff nth_list_update\<close>)

lemma free_keeps_linked:
  assumes wf: "linked h xs" and a: "a \<notin> set (0 # xs)"
    and h': "nxt h' = (nxt h)(a := nxt h' a)" "prv h' = (prv h)(a := prv h' a)" "snx h' = (snx h)(a := snx h' a)" "kvh h' = (kvh h)(a := kvh h' a)"
      "live h' = (live h)(a := False)" "base h' = base h"
  shows "linked h' xs" and "entries_of h' xs = entries_of h xs"
proof -
  note f = base_fields [OF h'(6)]
  have k: "kvh h' b = kvh h b" if "b \<in> set xs" for b using h'(4) that a by (metis fun_upd_other list.set_intros(2))
  have hm: "home h' b = home h b" if "b \<in> set xs" for b using k [OF that] f(2) by (simp add: home_def)
  show "entries_of h' xs = entries_of h xs" using k by (simp add: entries_of_def)
  show "linked h' xs" unfolding linked_def
  proof (intro conjI)
    show "size_ok h'" using wf f by (simp add: linked_def size_ok_def)
    have "dpath ((nxt h)(a := nxt h' a)) ((prv h)(a := prv h' a)) 0 xs 0 = dpath (nxt h) (prv h) 0 xs 0"
      using a by (simp add: dpath_next_update dpath_prev_update)
    then show "dpath (nxt h') (prv h') 0 xs 0" using wf h'(1,2) unfolding linked_def by metis
    show "distinct (0 # xs)" "l_nentries h' = of_nat (length xs)" using wf f by (simp_all add: linked_def)
    have "live h' b = live h b" if "b \<in> set xs" for b using h'(5) that a by (metis fun_upd_other list.set_intros(2))
    then show "keys_ok h' xs" using wf k f by (simp add: linked_def keys_ok_def)
    show "slots_ok h' xs" unfolding slots_ok_def
    proof (intro allI impI)
      fix i
      assume "i < length (l_table h')"
      with wf f obtain ys where ys: "cpath (snx h) (l_table h ! i) ys" "distinct ys" "set ys = {b \<in> set xs. home h b = i}"
        unfolding linked_def slots_ok_def by metis
      have "a \<notin> set ys" using ys(3) a by auto
      then have "cpath (snx h') (l_table h' ! i) ys" using ys(1) h'(3) f(1) cpath_update [of a ys "snx h"] by metis
      moreover have "set ys = {b \<in> set xs. home h' b = i}" using ys(3) hm by auto
      ultimately show "\<exists>ys. cpath (snx h') (l_table h' ! i) ys \<and> distinct ys \<and> set ys = {b \<in> set xs. home h' b = i}" using ys(2) by blast
    qed
  qed
qed

lemma l_remove_absent:
  "l_wf h xs \<Longrightarrow> find (\<lambda>a. l_equals_fn h (ek h a) k) xs = None \<Longrightarrow> l_hashtbl_remove h k env = Inr (1, h, env)"
  using l_remove_key_absent [of h xs k] by (simp add: l_hashtbl_remove_def l_wf_def)

lemma l_remove_found:
  assumes wf: "l_wf h xs" and a: "find (\<lambda>a. l_equals_fn h (ek h a) k) xs = Some a"
  obtains us vs h' e where "xs = us @ a # vs" "l_wf h' (us @ vs)" "entries_of h' (us @ vs) = entries_of h (us @ vs)" "conf h' = conf h"
    "l_key e = ek h a" "l_val e = ev h a" "l_table_size h' = l_table_size h" "l_resize_threshold h' = l_resize_threshold h"
    "l_hashtbl_remove h k env = Inr (0, h', l_free_fn h (LEntry a e) (release_l_entry False h e env))"
proof -
  from wf have lk: "linked h xs" and tight: "\<And>b. live h b \<Longrightarrow> b \<in> set xs" and cells: "cells h \<noteq> []" by (auto simp: l_wf_def)
  obtain us vs h1 where xs: "xs = us @ a # vs" and rk: "l_remove_key h k = Inr (Some a, h1)" and l1: "linked h1 (us @ vs)"
    and h1: "kvh h1 = kvh h" "live h1 = live h" "conf h1 = conf h" "l_table_size h1 = l_table_size h" "l_resize_threshold h1 = l_resize_threshold h"
      "length (cells h1) = length (cells h)"
    by (rule l_remove_key_found [OF lk a])
  have dist: "distinct (0 # xs)" using lk by (simp add: linked_def)
  have live: "live h1 a" using h1(2) linked_live [OF lk] xs by simp
  let ?e = "the (cells h1 ! a)"
  obtain h2 where fr: "free_cell h1 a (release_l_entry False h1 ?e env) = Inr (h2, l_free_fn h1 (LEntry a ?e) (release_l_entry False h1 ?e env))"
    and h2: "nxt h2 = (nxt h1)(a := nxt h2 a)" "prv h2 = (prv h1)(a := prv h2 a)" "snx h2 = (snx h1)(a := snx h2 a)" "kvh h2 = (kvh h1)(a := kvh h2 a)"
      "live h2 = (live h1)(a := False)" "base h2 = base h1"
    and len2: "length (cells h2) = length (cells h1)"
    by (rule free_cell_views [OF live])
  have na: "a \<notin> set (0 # us @ vs)" using dist xs by auto
  note keep = free_keeps_linked [OF l1 na h2]
  note cf = conf_fields [OF h1(3)]
  have rel: "release_l_entry False h1 = release_l_entry False h" by (intro ext) (simp add: release_l_entry_def cf)
  have "l_hashtbl_remove h k env = Inr (0, h2, l_free_fn h (LEntry a ?e) (release_l_entry False h ?e env))"
    using rk fr live cf by (simp add: l_hashtbl_remove_def get_cell_live rel del: c_bind_eq_Inr_iff)
  moreover have "l_wf h2 (us @ vs)" unfolding l_wf_def
  proof (intro conjI allI impI)
    fix b
    assume "live h2 b"
    then have "live h1 b \<and> b \<noteq> a" unfolding h2(5) by (simp split: if_splits)
    then have "b \<in> set xs" "b \<noteq> a" using h1(2) tight by auto
    then show "b \<in> set (us @ vs)" using xs by auto
  next
    show "cells h2 \<noteq> []" using len2 h1(6) cells by auto
  qed (fact keep(1))
  moreover have "entries_of h2 (us @ vs) = entries_of h (us @ vs)" unfolding keep(2) using h1(1) by (simp add: entries_of_def)
  moreover have "conf h2 = conf h" using base_conf [OF h2(6)] h1(3) by simp
  moreover have "l_key ?e = ek h a" "l_val ?e = ev h a" using h1(1) cell_fields by metis+
  ultimately show thesis using that xs h1(4,5) base_fields [OF h2(6)] by metis
qed

section \<open>Resizing\<close>

text \<open>The rounding of the capacity is that of \<^verbatim>\<open>hashtbl.c\<close>.\<close>

lemma l_roundup_loop_eq: "l_roundup_loop x n = roundup_loop x n"
proof -
  have "roundup_loop x n = Some r" if "l_roundup_loop x n = Some r" for x n r
    using that
  proof (rule l_roundup_loop.raw_induct [where xa = "(x, n)" and y = r and P = "\<lambda>x n r. roundup_loop x n = Some r", unfolded prod.case, rotated])
    fix rec x n r
    assume "\<And>x n r. rec x n = Some r \<Longrightarrow> roundup_loop x n = Some r"
      and "(if n < x then if c_int_ok (2 * n) then rec x (2 * n) else None else Some n) = Some r"
    then show "roundup_loop x n = Some r" by (auto simp: roundup_loop.simps [of x n] split: if_splits)
  qed
  moreover have "l_roundup_loop x n = Some r" if "roundup_loop x n = Some r" for x n r
    using that
  proof (rule roundup_loop.raw_induct [where xa = "(x, n)" and y = r and P = "\<lambda>x n r. l_roundup_loop x n = Some r", unfolded prod.case, rotated])
    fix rec x n r
    assume "\<And>x n r. rec x n = Some r \<Longrightarrow> l_roundup_loop x n = Some r"
      and "(if n < x then if c_int_ok (2 * n) then rec x (2 * n) else None else Some n) = Some r"
    then show "l_roundup_loop x n = Some r" by (auto simp: l_roundup_loop.simps [of x n] split: if_splits)
  qed
  ultimately show ?thesis by (metis not_Some_eq)
qed

lemma l_resize_capacity_eq: "l_resize_capacity = resize_capacity"
  by (simp add: fun_eq_iff l_resize_capacity_def resize_capacity_def LINKED_HASHTBL_MAX_TABLE_SIZE_def HASHTBL_MAX_TABLE_SIZE_def
      l_is_power_of_2_def is_power_of_2_def l_roundup_to_next_power_of_2_def roundup_to_next_power_of_2_def l_roundup_loop_eq)

text \<open>The walk that fills the new table: each slot gets its entries, the last visited first.\<close>

definition new_slots :: "('k, 'v, 'e) l_hashtbl \<Rightarrow> ptr option list \<Rightarrow> ptr list \<Rightarrow> bool" where
  "new_slots h tmp us \<longleftrightarrow> (\<forall>i < length tmp. cpath (snx h) (tmp ! i) (filter (\<lambda>a. nat (l_tbl_index (int (length tmp)) (eh h a)) = i) us))"

lemma new_slots_step:
  assumes "new_slots h tmp us" and "a \<notin> set us" and j: "j = nat (l_tbl_index (int (length tmp)) (eh h a))" "j < length tmp"
    and h': "snx h' = (snx h)(a := tmp ! j)" "kvh h' = kvh h"
  shows "new_slots h' (tmp[j := Some a]) (a # us)"
proof -
  let ?f = "\<lambda>i. filter (\<lambda>a. nat (l_tbl_index (int (length tmp)) (eh h a)) = i) us"
  have old: "cpath (snx h') (tmp ! i) (?f i)" if "i < length tmp" for i
    using assms(1,2) that h'(1) by (simp add: new_slots_def cpath_update)
  have "cpath (snx h') (tmp[j := Some a] ! i) (filter (\<lambda>a. nat (l_tbl_index (int (length tmp)) (eh h' a)) = i) (a # us))"
    if i: "i < length tmp" for i
  proof (cases "i = j")
    case True
    then have "filter (\<lambda>a. nat (l_tbl_index (int (length tmp)) (eh h a)) = i) (a # us) = a # ?f j" using j by simp
    moreover have "snx h' a = tmp ! j" using h'(1) by simp
    ultimately show ?thesis using old [OF j(2)] j True h'(2) by simp
  next
    case False
    then have "filter (\<lambda>a. nat (l_tbl_index (int (length tmp)) (eh h a)) = i) (a # us) = ?f i" using j by simp
    with old [of i] i False h'(2) show ?thesis by simp
  qed
  then show ?thesis by (simp add: new_slots_def)
qed

lemma transfer_path:
  assumes "dpath (nxt h) (prv h) p vs 0" and "0 \<notin> set vs" and "\<And>a. a \<in> set vs \<Longrightarrow> live h a" and "distinct vs" and "length vs \<le> n"
    and "new_slots h tmp us" and "set us \<inter> set vs = {}" and size: "int (length tmp) = 2 ^ b"
  shows "\<exists>h' tmp'. transfer_loop h tmp n (nxt h p) = Inr (h', tmp') \<and> nxt h' = nxt h \<and> prv h' = prv h \<and> same_data h h' \<and>
    length tmp' = length tmp \<and> new_slots h' tmp' (rev vs @ us)"
  using assms
proof (induction vs arbitrary: h p tmp us n)
  case Nil
  then show ?case by (cases n) (auto simp: same_data_refl)
next
  case (Cons a vs)
  then obtain n' where n: "n = Suc n'" by (cases n) auto
  have a: "nxt h p = a" "a \<noteq> 0" "live h a" and dp: "dpath (nxt h) (prv h) a vs 0" using Cons.prems by auto
  let ?i = "l_tbl_index (int (length tmp)) (eh h a)" let ?j = "nat ?i"
  have "0 \<le> ?i" "?i < int (length tmp)" using Cons.prems(8) by (simp_all add: l_tbl_index_def pow2_mask)
  then have rd: "c_read tmp ?i = Inr (tmp ! ?j)" "c_write tmp ?i (Some a) = Inr (tmp[?j := Some a])" "?j < length tmp" by (simp_all add: c_mem nat_less_iff)
  obtain h1 where h1: "set_cell h a (\<lambda>e. e\<lparr>slot_next := tmp ! ?j\<rparr>) = Inr h1" "snx h1 = (snx h)(a := tmp ! ?j)" "nxt h1 = nxt h" "prv h1 = prv h" "same_data h h1"
    using set_slot_next [OF a(3)] by blast
  have l1: "live h1 = live h" and k1: "kvh h1 = kvh h" using h1(5) by (auto simp: same_data_def)
  have "a \<notin> set us" using Cons.prems(7) by auto
  from new_slots_step [OF Cons.prems(6) this refl rd(3) h1(2) k1] have ns: "new_slots h1 (tmp[?j := Some a]) (a # us)" .
  have step: "transfer_loop h tmp n (nxt h p) = transfer_loop h1 (tmp[?j := Some a]) n' (nxt h1 a)"
    using n a rd h1(1,3) l1 by (simp add: get_cell_live cell_fields get_links del: c_bind_eq_Inr_iff)
  have "\<exists>h' tmp'. transfer_loop h1 (tmp[?j := Some a]) n' (nxt h1 a) = Inr (h', tmp') \<and> nxt h' = nxt h1 \<and> prv h' = prv h1 \<and> same_data h1 h' \<and>
      length tmp' = length (tmp[?j := Some a]) \<and> new_slots h' tmp' (rev vs @ (a # us))"
  proof (rule Cons.IH)
    show "dpath (nxt h1) (prv h1) a vs 0" using dp h1 by simp
    show "0 \<notin> set vs" "distinct vs" "length vs \<le> n'" "set (a # us) \<inter> set vs = {}" using Cons.prems n by auto
    show "live h1 b" if "b \<in> set vs" for b using that Cons.prems(3) l1 by simp
    show "int (length (tmp[?j := Some a])) = 2 ^ b" using Cons.prems(8) by simp
  qed (fact ns)
  with step h1 show ?case by (auto intro: same_data_trans)
qed

lemma l_resize_wf:
  assumes wf: "l_wf h xs"
  shows "\<exists>r h' env'. l_hashtbl_resize h c env = Inr (r, h', env') \<and> l_wf h' xs \<and> entries_of h' xs = entries_of h xs \<and> conf h' = conf h \<and>
     (r = 0 \<or> r = 1 \<and> h' = h) \<and> l_table_size h \<le> l_table_size h'"
proof -
  obtain n where n: "l_resize_capacity c = Inr (2 ^ n)" "n \<le> 30" using resize_capacity_result [of c] l_resize_capacity_eq by auto
  from wf have lk: "linked h xs" and tight: "\<And>b. live h b \<Longrightarrow> b \<in> set xs" and cells: "cells h \<noteq> []" by (auto simp: l_wf_def)
  show ?thesis
  proof (cases "l_table_size h < 2 ^ n")
    case False
    then show ?thesis using wf n by (simp add: l_hashtbl_resize_def)
  next
    case True
    obtain ok env1 where m: "l_malloc_fn h (nat (2 ^ n) * sizeof_pointer) env = (ok, env1)" by fastforce
    show ?thesis
    proof (cases ok)
      case False
      then show ?thesis using wf n m True by (simp add: l_hashtbl_resize_def)
    next
      case ok: True
      let ?t = "replicate (nat (2 ^ n)) None :: ptr option list"
      have path: "dpath (nxt h) (prv h) 0 xs 0" and dist: "distinct (0 # xs)" using lk by (auto simp: linked_def)
      have "\<exists>h' tmp'. transfer_loop h ?t (length (cells h)) (nxt h 0) = Inr (h', tmp') \<and> nxt h' = nxt h \<and> prv h' = prv h \<and> same_data h h' \<and>
          length tmp' = length ?t \<and> new_slots h' tmp' (rev xs @ [])"
        by (rule transfer_path [OF path, where b = n]) (use dist linked_live [OF lk] linked_room [OF lk, of xs] in \<open>auto simp: new_slots_def\<close>)
      then obtain h1 t1 where h1: "transfer_loop h ?t (length (cells h)) (head_next h) = Inr (h1, t1)" "nxt h1 = nxt h" "prv h1 = prv h" "same_data h h1"
          "length t1 = nat (2 ^ n)" "new_slots h1 t1 (rev xs)" by (auto simp: nxt_def)
      let ?h = "h1\<lparr>l_table_size := 2 ^ n, l_resize_threshold := l_resize_threshold_of (2 ^ n) (l_max_load_factor h1), l_table := t1\<rparr>"
      have d: "kvh h1 = kvh h" "live h1 = live h" "base h1 = base h" using h1(4) by (auto simp: same_data_def)
      note f = base_fields [OF d(3)]
      have v: "nxt ?h = nxt h" "prv ?h = prv h" "kvh ?h = kvh h" "live ?h = live h" "snx ?h = snx h1"
        using h1(2,3) d by simp_all
      have cf: "conf ?h = conf h" using base_conf [OF d(3)] by (simp add: conf_def)
      have "slots_ok ?h xs" unfolding slots_ok_def
      proof (intro allI impI)
        fix i
        assume "i < length (l_table ?h)"
        then have "cpath (snx ?h) (l_table ?h ! i) (filter (\<lambda>a. home ?h a = i) (rev xs))"
          using h1(5,6) v d(1) by (simp add: new_slots_def home_def)
        moreover have "distinct (filter (\<lambda>a. home ?h a = i) (rev xs))" "set (filter (\<lambda>a. home ?h a = i) (rev xs)) = {a \<in> set xs. home ?h a = i}"
          using dist by simp_all
        ultimately show "\<exists>ys. cpath (snx ?h) (l_table ?h ! i) ys \<and> distinct ys \<and> set ys = {a \<in> set xs. home ?h a = i}" by blast
      qed
      moreover have "size_ok ?h" using lk n(2) h1(5) conf_fields [OF cf] by (auto simp: linked_def size_ok_def)
      moreover have "keys_ok ?h xs" using lk v conf_fields [OF cf] by (simp add: linked_def keys_ok_def)
      ultimately have "linked ?h xs" using path dist lk v f by (simp add: linked_def)
      moreover have "cells ?h \<noteq> []" using h1(4) cells by (auto simp: same_data_def)
      ultimately have "l_wf ?h xs" using tight v by (simp add: l_wf_def)
      moreover have "entries_of ?h xs = entries_of h xs" using v by (simp add: entries_of_def)
      ultimately show ?thesis
        using n m ok True h1(1) cf by (simp add: l_hashtbl_resize_def del: c_bind_eq_Inr_iff)
    qed
  qed
qed

section \<open>Linking an entry\<close>

lemma dpath_cong:
  assumes "\<And>x. x \<in> set (p # xs) \<Longrightarrow> nx' x = nx x" and "\<And>x. x \<in> set (xs @ [q]) \<Longrightarrow> pv' x = pv x"
  shows "dpath nx' pv' p xs q = dpath nx pv p xs q"
  using assms by (induction xs arbitrary: p) auto

lemma cpath_cong: "(\<And>x. x \<in> set ys \<Longrightarrow> sn' x = sn x) \<Longrightarrow> cpath sn' p ys = cpath sn p ys"
  by (induction ys arbitrary: p) auto

lemma slots_cong:
  assumes "slots_ok h xs" and "l_table h' = l_table h" and "l_table_size h' = l_table_size h"
    and "\<And>a. a \<in> set xs \<Longrightarrow> snx h' a = snx h a \<and> eh h' a = eh h a"
  shows "slots_ok h' xs"
  unfolding slots_ok_def
proof (intro allI impI)
  fix i
  assume "i < length (l_table h')"
  with assms(1,2) obtain ys where ys: "cpath (snx h) (l_table h ! i) ys" "distinct ys" "set ys = {a \<in> set xs. home h a = i}"
    by (auto simp: slots_ok_def)
  have hm: "home h' a = home h a" if "a \<in> set xs" for a using assms(3) assms(4) [OF that] by (simp add: home_def)
  have "cpath (snx h') (l_table h ! i) ys = cpath (snx h) (l_table h ! i) ys" using assms(4) ys(3) by (intro cpath_cong) auto
  moreover have "set ys = {a \<in> set xs. home h' a = i}" using ys(3) hm by auto
  ultimately show "\<exists>ys. cpath (snx h') (l_table h' ! i) ys \<and> distinct ys \<and> set ys = {a \<in> set xs. home h' a = i}"
    using ys(1,2) assms(2) by auto
qed

lemma linked_cong:
  assumes wf: "linked h xs" and base: "base h' = base h" and zero: "nxt h' 0 = nxt h 0" "prv h' 0 = prv h 0"
    and same: "\<And>a. a \<in> set xs \<Longrightarrow> nxt h' a = nxt h a \<and> prv h' a = prv h a \<and> snx h' a = snx h a \<and> kvh h' a = kvh h a \<and> live h' a = live h a"
  shows "linked h' xs"
proof -
  note f = base_fields [OF base]
  have "dpath (nxt h') (prv h') 0 xs 0 = dpath (nxt h) (prv h) 0 xs 0" using zero same by (intro dpath_cong) auto
  moreover have "slots_ok h xs" using wf by (simp add: linked_def)
  from slots_cong [OF this f(1,2)] same have "slots_ok h' xs" by simp
  moreover have "keys_ok h' xs" using wf same f by (simp add: linked_def keys_ok_def)
  ultimately show ?thesis using wf f by (simp add: linked_def size_ok_def)
qed

lemma new_entry_views:
  assumes "new_entry h hv k v = (a, h')"
  shows "a = length (cells h)" "base h' = base h" "nxt h' 0 = nxt h 0" "prv h' 0 = prv h 0"
    "\<And>b. b < a \<Longrightarrow> nxt h' b = nxt h b \<and> prv h' b = prv h b \<and> snx h' b = snx h b \<and> kvh h' b = kvh h b \<and> live h' b = live h b"
    "kvh h' a = (k, v, hv)" "0 < a \<Longrightarrow> live h' a" "\<And>b. live h' b \<Longrightarrow> live h b \<or> b = a"
  using assms by (auto simp: new_entry_def view_defs nth_append Let_def split: if_splits)

text \<open>A live cell that is in neither list is linked into its slot and in front of the list of all entries.\<close>

lemma slots_link:
  assumes ok: "slots_ok h xs" and n: "n \<notin> set xs" "s = home h n" "s < length (l_table h)"
    and h': "l_table h' = (l_table h)[s := Some n]" "snx h' = (snx h)(n := l_table h ! s)" "kvh h' = kvh h" "l_table_size h' = l_table_size h"
  shows "slots_ok h' (n # xs)"
  unfolding slots_ok_def
proof (intro allI impI)
  fix i
  assume "i < length (l_table h')"
  then have i: "i < length (l_table h)" using h'(1) by simp
  with ok obtain ys where ys: "cpath (snx h) (l_table h ! i) ys" "distinct ys" "set ys = {a \<in> set xs. home h a = i}"
    by (auto simp: slots_ok_def)
  have hm: "home h' = home h" using h'(3,4) by (simp add: home_def fun_eq_iff)
  have nys: "n \<notin> set ys" using ys(3) n(1) by auto
  then have old: "cpath (snx h') (l_table h ! i) ys" unfolding h'(2) using ys(1) by (simp add: cpath_update)
  show "\<exists>ys. cpath (snx h') (l_table h' ! i) ys \<and> distinct ys \<and> set ys = {a \<in> set (n # xs). home h' a = i}"
  proof (cases "i = s")
    case True
    have "cpath (snx h') (l_table h' ! i) (n # ys)" using old True n(3) h'(1,2) by simp
    moreover have "set (n # ys) = {a \<in> set (n # xs). home h' a = i}" using ys(3) True n(2) hm by auto
    ultimately show ?thesis using ys(2) nys by (metis distinct.simps(2))
  next
    case False
    then have "cpath (snx h') (l_table h' ! i) ys" using old h'(1) by simp
    moreover have "set ys = {a \<in> set (n # xs). home h' a = i}" using ys(3) False n(2) hm by auto
    ultimately show ?thesis using ys(2) by blast
  qed
qed

lemma link_front:
  assumes wf: "linked h xs" and n: "n \<notin> set (0 # xs)" "live h n" "eh h n = l_hash_fn h (ek h n)" "hv = eh h n"
    and fresh: "\<And>a. a \<in> set xs \<Longrightarrow> \<not> l_equals_fn h (ek h a) (ek h n)"
  shows "\<exists>h'. c_bind (read_ref h (l_tbl_entry_ref h hv)) (\<lambda>nx. c_bind (set_cell h n (\<lambda>e. e\<lparr>slot_next := nx\<rparr>)) (\<lambda>h1.
      c_bind (write_ref h1 (l_tbl_entry_ref h hv) (Some n)) (\<lambda>h2. list_add_before h2 n 0))) = Inr h' \<and>
    linked (h'\<lparr>l_nentries := l_nentries h' + 1\<rparr>) (n # xs) \<and> kvh h' = kvh h \<and> live h' = live h \<and> conf h' = conf h \<and>
    l_table_size h' = l_table_size h \<and> l_resize_threshold h' = l_resize_threshold h \<and> length (cells h') = length (cells h)"
proof -
  let ?i = "l_tbl_index (l_table_size h) hv" let ?s = "nat ?i"
  have sz: "size_ok h" and path: "dpath (nxt h) (prv h) 0 xs 0" and dist: "distinct (0 # xs)" and keys: "keys_ok h xs" and slots: "slots_ok h xs"
    and cnt: "l_nentries h = of_nat (length xs)" using wf by (auto simp: linked_def)
  note range = slot_range [OF sz, of hv]
  have rd: "read_ref h (l_tbl_entry_ref h hv) = Inr (l_table h ! ?s)" using range by (simp add: read_ref_def l_tbl_entry_ref_def c_mem)
  obtain h1 where h1: "set_cell h n (\<lambda>e. e\<lparr>slot_next := l_table h ! ?s\<rparr>) = Inr h1" "snx h1 = (snx h)(n := l_table h ! ?s)" "nxt h1 = nxt h" "prv h1 = prv h"
    and sd1: "same_data h h1" using set_slot_next [OF n(2)] by blast
  note f1 = base_fields [of h1 h]
  have b1: "base h1 = base h" "kvh h1 = kvh h" "live h1 = live h" using sd1 by (auto simp: same_data_def)
  note f1 = base_fields [OF b1(1)]
  have "case SlotRef ?i of SlotRef i \<Rightarrow> 0 \<le> i \<and> i < int (length (l_table h1)) | NextRef b \<Rightarrow> live h1 b" using range f1 by simp
  from write_ref_views [OF this, of "Some n"] f1 obtain h2 where h2: "write_ref h1 (l_tbl_entry_ref h hv) (Some n) = Inr h2" "nxt h2 = nxt h1" "prv h2 = prv h1"
    "kvh h2 = kvh h1" "live h2 = live h1" "conf h2 = conf h1" "l_nentries h2 = l_nentries h1" "l_table_size h2 = l_table_size h1"
    "l_resize_threshold h2 = l_resize_threshold h1" "l_table h2 = (l_table h1)[?s := Some n]" "snx h2 = snx h1"
    "length (cells h2) = length (cells h1)" by (auto simp: l_tbl_entry_ref_def)
  have "nxt h 0 \<in> set (xs @ [0])" using dpath_ends [OF path] by (cases xs) auto
  then have "nxt h2 0 = 0 \<or> live h2 (nxt h2 0)" using h2 h1 b1 linked_live [OF wf] by auto
  moreover have "live h2 n" using n(2) h2 b1 by simp
  ultimately obtain h3 where h3: "list_add_before h2 n 0 = Inr h3" "nxt h3 = (nxt h2)(n := nxt h2 0, 0 := n)" "prv h3 = (prv h2)(n := 0, nxt h2 0 := n)"
    "snx h3 = snx h2" and sd3: "same_data h2 h3" using list_add_before_views by blast
  have b3: "base h3 = base h2" "kvh h3 = kvh h" "live h3 = live h" using sd3 h2 b1 by (auto simp: same_data_def)
  note f3 = base_fields [OF b3(1)] and cf = base_conf [OF b3(1)] base_conf [OF b1(1)]
  have conf: "conf h3 = conf h" using cf h2(6) by simp
  let ?h = "h3\<lparr>l_nentries := l_nentries h3 + 1\<rparr>"
  have tbl: "l_table h3 = (l_table h)[?s := Some n]" "l_table_size h3 = l_table_size h" "l_nentries h3 = l_nentries h" "l_resize_threshold h3 = l_resize_threshold h"
    using f3 h2 f1 by simp_all
  have "linked ?h (n # xs)" unfolding linked_def
  proof (intro conjI)
    show "size_ok ?h" using sz tbl conf_fields [OF conf] by (simp add: size_ok_def)
    show "dpath (nxt ?h) (prv ?h) 0 (n # xs) 0" using dpath_add_front [OF path dist n(1)] h3(2,3) h2(2,3) h1(3,4) by simp
    show "distinct (0 # n # xs)" using dist n(1) by auto
    show "l_nentries ?h = of_nat (length (n # xs))" using tbl(3) cnt by simp
    have sym: "\<not> l_equals_fn h (ek h n) (ek h a)" if "a \<in> set xs" for a
      using fresh [OF that] sz key_fns.equals_sym unfolding size_ok_def by metis
    show "keys_ok ?h (n # xs)" using keys n(2,3) fresh sym b3(2,3) conf_fields [OF conf] by (simp add: keys_ok_def)
    show "slots_ok ?h (n # xs)"
    proof (rule slots_link [OF slots])
      show "n \<notin> set xs" "?s = home h n" "?s < length (l_table h)" using n range by (auto simp: home_def nat_less_iff)
    qed (use tbl h3(4) h2(11) h1(2) b3(2) in simp_all)
  qed
  moreover have "c_bind (read_ref h (l_tbl_entry_ref h hv)) (\<lambda>nx. c_bind (set_cell h n (\<lambda>e. e\<lparr>slot_next := nx\<rparr>)) (\<lambda>h1.
      c_bind (write_ref h1 (l_tbl_entry_ref h hv) (Some n)) (\<lambda>h2. list_add_before h2 n 0))) = Inr h3"
    using rd h1(1) h2(1) h3(1) by simp
  moreover have "length (cells h3) = length (cells h)" using sd1 sd3 h2(12) by (simp add: same_data_def)
  ultimately show ?thesis using b3 conf tbl by blast
qed

section \<open>The ordered association list\<close>

definition lru_find :: "('k \<Rightarrow> 'k \<Rightarrow> bool) \<Rightarrow> 'k \<Rightarrow> ('k \<times> 'v) list \<Rightarrow> 'v option" where
  "lru_find eq k al = map_option snd (find (\<lambda>(k', v). eq k' k) al)"

definition lru_set :: "('k \<Rightarrow> 'k \<Rightarrow> bool) \<Rightarrow> 'k \<Rightarrow> 'v \<Rightarrow> ('k \<times> 'v) list \<Rightarrow> ('k \<times> 'v) list" where
  "lru_set eq k v al = map (\<lambda>(k', w). if eq k' k then (k', v) else (k', w)) al"

definition lru_del :: "('k \<Rightarrow> 'k \<Rightarrow> bool) \<Rightarrow> 'k \<Rightarrow> ('k \<times> 'v) list \<Rightarrow> ('k \<times> 'v) list" where
  "lru_del eq k al = filter (\<lambda>(k', v). \<not> eq k' k) al"

definition lru_touch :: "('k \<Rightarrow> 'k \<Rightarrow> bool) \<Rightarrow> 'k \<Rightarrow> ('k \<times> 'v) list \<Rightarrow> ('k \<times> 'v) list" where
  "lru_touch eq k al = filter (\<lambda>(k', v). eq k' k) al @ lru_del eq k al"

text \<open>Insertion of a new key in front, and eviction from the end.\<close>

definition lru_put :: "('k \<Rightarrow> 'k \<Rightarrow> bool) \<Rightarrow> bool \<Rightarrow> 'k \<Rightarrow> 'v \<Rightarrow> ('k \<times> 'v) list \<Rightarrow> ('k \<times> 'v) list" where
  "lru_put eq evict k v al =
     (if lru_find eq k al \<noteq> None then lru_set eq k v al else if evict then butlast ((k, v) # al) else (k, v) # al)"

text \<open>The list operations on addresses are those on the entries.\<close>

lemma find_entries: "find (\<lambda>(k', v). eq k' k) (entries_of h xs) = map_option (\<lambda>a. (ek h a, ev h a)) (find (\<lambda>a. eq (ek h a) k) xs)"
  by (induction xs) (auto simp: entries_of_def)

lemma lru_find_entries: "lru_find eq k (entries_of h xs) = map_option (ev h) (find (\<lambda>a. eq (ek h a) k) xs)"
  by (simp add: lru_find_def find_entries option.map_comp comp_def)

lemma only_match:
  assumes wf: "linked h (us @ a # vs)" and a: "l_equals_fn h (ek h a) k" and b: "b \<in> set (us @ a # vs)" "l_equals_fn h (ek h b) k"
  shows "b = a"
proof -
  have "l_equals_fn h (ek h b) (ek h a)"
    using wf a b(2) key_fns.equals_trans key_fns.equals_sym unfolding linked_def size_ok_def by metis
  with wf b(1) show ?thesis by (auto simp: linked_def keys_ok_def)
qed

lemma split_match:
  assumes wf: "linked h (us @ a # vs)" and a: "l_equals_fn h (ek h a) k"
  shows "filter (\<lambda>a. l_equals_fn h (ek h a) k) (us @ a # vs) = [a]" and "filter (\<lambda>a. \<not> l_equals_fn h (ek h a) k) (us @ a # vs) = us @ vs"
    and "find (\<lambda>a. l_equals_fn h (ek h a) k) (us @ a # vs) = Some a"
proof -
  have dist: "distinct (us @ a # vs)" using wf by (simp add: linked_def)
  have no: "\<not> l_equals_fn h (ek h b) k" if "b \<in> set us \<or> b \<in> set vs" for b
    using only_match [OF wf a, of b] that dist by auto
  then have "filter (\<lambda>a. l_equals_fn h (ek h a) k) us = []" "filter (\<lambda>a. l_equals_fn h (ek h a) k) vs = []"
    "filter (\<lambda>a. \<not> l_equals_fn h (ek h a) k) us = us" "filter (\<lambda>a. \<not> l_equals_fn h (ek h a) k) vs = vs"
    by (auto simp: filter_empty_conv filter_id_conv)
  then show "filter (\<lambda>a. l_equals_fn h (ek h a) k) (us @ a # vs) = [a]" "filter (\<lambda>a. \<not> l_equals_fn h (ek h a) k) (us @ a # vs) = us @ vs"
    using a by simp_all
  show "find (\<lambda>a. l_equals_fn h (ek h a) k) (us @ a # vs) = Some a" using a only_match [OF wf a] by (intro find_unique) auto
qed

lemma filter_entries: "filter (\<lambda>(k', v). P k') (entries_of h xs) = entries_of h (filter (\<lambda>a. P (ek h a)) xs)"
  by (induction xs) (auto simp: entries_of_def)

section \<open>The operations on the list\<close>

lemma l_remove_refines:
  assumes wf: "l_wf h xs" and al: "al = entries_of h xs"
  shows "\<exists>h' env' xs'. l_hashtbl_remove h k env = Inr (if lru_find (l_equals_fn h) k al = None then 1 else 0, h', env') \<and> l_wf h' xs' \<and>
    entries_of h' xs' = lru_del (l_equals_fn h) k al \<and> conf h' = conf h \<and> l_table_size h' = l_table_size h \<and> l_resize_threshold h' = l_resize_threshold h"
proof (cases "find (\<lambda>a. l_equals_fn h (ek h a) k) xs")
  case None
  then have "filter (\<lambda>a. \<not> l_equals_fn h (ek h a) k) xs = xs" by (simp add: find_None_iff filter_id_conv)
  then have "lru_del (l_equals_fn h) k al = al" unfolding al lru_del_def filter_entries [of "\<lambda>k'. \<not> l_equals_fn h k' k"] by simp
  with None wf al l_remove_absent [OF wf None, of env] show ?thesis by (auto simp: lru_find_entries)
next
  case (Some a)
  obtain us vs h' e where r: "xs = us @ a # vs" "l_wf h' (us @ vs)" "entries_of h' (us @ vs) = entries_of h (us @ vs)" "conf h' = conf h"
    "l_table_size h' = l_table_size h" "l_resize_threshold h' = l_resize_threshold h"
    "l_hashtbl_remove h k env = Inr (0, h', l_free_fn h (LEntry a e) (release_l_entry False h e env))"
    by (rule l_remove_found [OF wf Some, of env])
  have "linked h (us @ a # vs)" "l_equals_fn h (ek h a) k" using wf r(1) Some by (auto simp: l_wf_def find_Some_iff)
  from split_match(2) [OF this] have "lru_del (l_equals_fn h) k al = entries_of h (us @ vs)"
    unfolding al r(1) lru_del_def filter_entries [of "\<lambda>k'. \<not> l_equals_fn h k' k"] by simp
  with r Some al show ?thesis by (auto simp: lru_find_entries)
qed

text \<open>Eviction removes the last entry.\<close>

lemma evict_refines:
  assumes wf: "l_wf h xs" and ne: "xs \<noteq> []" and ev: "evictor_fn h (l_nentries h) env = (b, env1)"
  shows "\<exists>h' env' xs'. evict_eldest h env = Inr (h', env') \<and> l_wf h' xs' \<and>
    entries_of h' xs' = (if b then butlast (entries_of h xs) else entries_of h xs) \<and> conf h' = conf h \<and>
    l_table_size h' = l_table_size h \<and> l_resize_threshold h' = l_resize_threshold h"
proof (cases b)
  case False
  with wf ev show ?thesis by (auto simp: evict_eldest_def)
next
  case True
  let ?a = "last xs"
  from wf have lk: "linked h xs" by (simp add: l_wf_def)
  have xs: "xs = butlast xs @ ?a # []" using ne by simp
  have "dpath (nxt h) (prv h) 0 xs 0" using lk by (simp add: linked_def)
  from dpath_ends [OF this] ne have hp: "head_prev h = ?a" by (simp add: prv_def)
  have live: "live h ?a" using linked_live [OF lk] ne by simp
  have "l_equals_fn h (ek h ?a) (ek h ?a)" using lk key_fns.equals_refl unfolding linked_def size_ok_def by metis
  note sm = split_match [of h "butlast xs" ?a "[]", folded xs, OF lk this]
  have "lru_del (l_equals_fn h) (ek h ?a) (entries_of h xs) = butlast (entries_of h xs)"
    unfolding lru_del_def filter_entries [of "\<lambda>k'. \<not> l_equals_fn h k' (ek h ?a)"] sm(2) by (simp add: entries_of_def map_butlast)
  moreover obtain h' env' xs' where "l_hashtbl_remove h (ek h ?a) env1 = Inr (if lru_find (l_equals_fn h) (ek h ?a) (entries_of h xs) = None then 1 else 0, h', env')"
    "l_wf h' xs'" "entries_of h' xs' = lru_del (l_equals_fn h) (ek h ?a) (entries_of h xs)" "conf h' = conf h" "l_table_size h' = l_table_size h"
    "l_resize_threshold h' = l_resize_threshold h"
    using l_remove_refines [OF wf refl, of "ek h ?a" env1] by blast
  ultimately show ?thesis using True ev hp live by (auto simp: evict_eldest_def get_cell_live cell_fields)
qed

lemma replace_value:
  assumes wf: "l_wf h xs" and a: "a \<in> set xs"
  shows "\<exists>h'. set_cell h a (\<lambda>e. e\<lparr>l_val := v\<rparr>) = Inr h' \<and> l_wf h' xs \<and> conf h' = conf h \<and> l_table_size h' = l_table_size h \<and>
    l_resize_threshold h' = l_resize_threshold h \<and> entries_of h' xs = map (\<lambda>b. if b = a then (ek h b, v) else (ek h b, ev h b)) xs"
proof -
  from wf have lk: "linked h xs" and tight: "\<And>b. live h b \<Longrightarrow> b \<in> set xs" and cells: "cells h \<noteq> []" by (auto simp: l_wf_def)
  have live: "live h a" using linked_live [OF lk a] .
  let ?e = "the (cells h ! a)" let ?h = "h\<lparr>cells := (cells h)[a := Some (?e\<lparr>l_val := v\<rparr>)]\<rparr>"
  note u = cell_update_views [OF live refl, of "?e\<lparr>l_val := v\<rparr>"]
  have old: "nxt h a = list_next ?e" "prv h a = list_prev ?e" "snx h a = slot_next ?e" "ek h a = l_key ?e" "eh h a = l_hash ?e"
    using live by (simp_all add: view_defs Let_def)
  have v: "nxt ?h = nxt h" "prv ?h = prv h" "snx ?h = snx h" "kvh ?h = (kvh h)(a := (ek h a, v, eh h a))" "live ?h = live h" "base ?h = base h"
    using u old by (simp_all add: fun_upd_idem)
  note f = base_fields [OF v(6)]
  have keys: "ek ?h b = ek h b" "eh ?h b = eh h b" for b unfolding v(4) by simp_all
  have "slots_ok h xs" using lk by (simp add: linked_def)
  from slots_cong [OF this f(1,2)] v(3) keys have "slots_ok ?h xs" by simp
  moreover have "keys_ok ?h xs" using lk keys v(5) f by (simp add: linked_def keys_ok_def)
  ultimately have "linked ?h xs" using lk v f by (simp add: linked_def size_ok_def)
  then have "l_wf ?h xs" using tight v(5) cells by (simp add: l_wf_def)
  moreover have "entries_of ?h xs = map (\<lambda>b. if b = a then (ek h b, v) else (ek h b, ev h b)) xs" unfolding entries_of_def v(4) by simp
  ultimately show ?thesis using live f base_conf [OF v(6)] by (simp add: set_cell_def get_cell_live)
qed

lemma insert_replaces:
  assumes wf: "l_wf h xs" and a: "find (\<lambda>a. l_equals_fn h (ek h a) k) xs = Some a"
  shows "\<exists>h' env'. l_hashtbl_insert h k v env = Inr (0, h', env') \<and> l_wf h' xs \<and> conf h' = conf h \<and> l_table_size h' = l_table_size h \<and>
    l_resize_threshold h' = l_resize_threshold h \<and> entries_of h' xs = lru_set (l_equals_fn h) k v (entries_of h xs)"
proof -
  from wf have lk: "linked h xs" by (simp add: l_wf_def)
  from a have ax: "a \<in> set xs" "l_equals_fn h (ek h a) k" by (auto simp: find_Some_iff)
  then obtain us vs where xs: "xs = us @ a # vs" by (meson split_list)
  obtain h' where h': "set_cell h a (\<lambda>e. e\<lparr>l_val := v\<rparr>) = Inr h'" "l_wf h' xs" "conf h' = conf h" "l_table_size h' = l_table_size h"
    "l_resize_threshold h' = l_resize_threshold h" "entries_of h' xs = map (\<lambda>b. if b = a then (ek h b, v) else (ek h b, ev h b)) xs"
    using replace_value [OF wf ax(1)] by blast
  have "l_equals_fn h (ek h b) k \<longleftrightarrow> b = a" if "b \<in> set xs" for b
    using only_match [OF lk [unfolded xs] ax(2), of b] that ax(2) xs by blast
  then have "entries_of h' xs = lru_set (l_equals_fn h) k v (entries_of h xs)" unfolding h'(6) by (simp add: lru_set_def entries_of_def)
  moreover have "get_cell h a = Inr (the (cells h ! a))" using get_cell_live linked_live [OF lk ax(1)] by blast
  ultimately show ?thesis using h' l_find_entry_ok [OF lk, of k] a by (simp add: l_hashtbl_insert_def Let_def)
qed

lemma insert_adds:
  assumes wf: "l_wf h xs" and none: "find (\<lambda>a. l_equals_fn h (ek h a) k) xs = None" and m: "l_malloc_fn h sizeof_l_entry env = (True, env1)"
    and ev: "evictor_fn h (of_nat (length xs + 1)) env1 = (b, env2)"
  shows "(\<exists>h' env' xs'. l_hashtbl_insert h k v env = Inr (0, h', env') \<and> l_wf h' xs' \<and> conf h' = conf h \<and>
      entries_of h' xs' = (if b then butlast ((k, v) # entries_of h xs) else (k, v) # entries_of h xs)) \<or>
    (l_auto_resize h \<and> l_table_size h = 2 ^ 30 \<and> l_hashtbl_insert h k v env = Inl SignedOverflow)"
proof -
  from wf have lk: "linked h xs" and tight: "\<And>b. live h b \<Longrightarrow> b \<in> set xs" and cells: "cells h \<noteq> []" by (auto simp: l_wf_def)
  obtain n h0 where ne: "new_entry h (l_hash_fn h k) k v = (n, h0)" by fastforce
  note nv = new_entry_views [OF ne]
  have below: "a < n" if "a \<in> set xs" for a using linked_live [OF lk that] nv(1) by (simp add: live_def)
  have n: "0 < n" "n \<notin> set (0 # xs)" "length (cells h0) = Suc n" using cells nv(1) below ne by (auto simp: new_entry_def)
  have l0: "linked h0 xs"
    using nv(5) below by (intro linked_cong [OF lk nv(2-4)]) blast
  note f0 = base_fields [OF nv(2)]
  have old: "kvh h0 a = kvh h a" if "a \<in> set xs" for a using nv(5) below that by blast
  have nk: "ek h0 n = k" "ev h0 n = v" "eh h0 n = l_hash_fn h k" using nv(6) by simp_all
  have fresh: "\<not> l_equals_fn h0 (ek h0 a) (ek h0 n)" if "a \<in> set xs" for a
    using that none old [OF that] nk f0 by (auto simp: find_None_iff)
  have "live h0 n" "eh h0 n = l_hash_fn h0 (ek h0 n)" "l_hash_fn h k = eh h0 n" using nk f0 nv(7) n(1) by simp_all
  from link_front [OF l0 n(2) this fresh] obtain h1 where
    h1: "c_bind (read_ref h0 (l_tbl_entry_ref h0 (l_hash_fn h k))) (\<lambda>nx. c_bind (set_cell h0 n (\<lambda>e. e\<lparr>slot_next := nx\<rparr>)) (\<lambda>h1.
      c_bind (write_ref h1 (l_tbl_entry_ref h0 (l_hash_fn h k)) (Some n)) (\<lambda>h2. list_add_before h2 n 0))) = Inr h1"
    "linked (h1\<lparr>l_nentries := l_nentries h1 + 1\<rparr>) (n # xs)" "kvh h1 = kvh h0" "live h1 = live h0" "conf h1 = conf h0" "l_table_size h1 = l_table_size h0"
    "l_resize_threshold h1 = l_resize_threshold h0" "length (cells h1) = length (cells h0)" by blast
  let ?h1 = "h1\<lparr>l_nentries := l_nentries h1 + 1\<rparr>"
  have cf: "conf ?h1 = conf h" using h1(5) base_conf [OF nv(2)] by simp
  note c = conf_fields [OF cf]
  have "b = n \<or> b \<in> set xs" if "live h1 b" for b using that h1(4) nv(8) tight by metis
  then have wf1: "l_wf ?h1 (n # xs)" using h1(2,8) n(3) by (auto simp: l_wf_def)
  have al1: "entries_of ?h1 (n # xs) = (k, v) # entries_of h xs" using nk h1(3) old by (simp add: entries_of_def)
  have "l_nentries ?h1 = of_nat (length (n # xs))" using wf1 unfolding l_wf_def linked_def by blast
  then have "evictor_fn ?h1 (l_nentries ?h1) env1 = (b, env2)" using ev c(10) by (simp add: add.commute)
  from evict_refines [OF wf1 _ this] al1 obtain h2 env3 xs2 where
    h2: "evict_eldest ?h1 env1 = Inr (h2, env3)" "l_wf h2 xs2" "entries_of h2 xs2 = (if b then butlast ((k, v) # entries_of h xs) else (k, v) # entries_of h xs)"
    "conf h2 = conf ?h1" "l_table_size h2 = l_table_size ?h1" by auto
  have size2: "l_table_size h2 = l_table_size h" using h2(5) h1(6) f0 by simp
  have cf2: "conf h2 = conf h" using h2(4) cf by simp
  have auto2: "l_auto_resize h2 = l_auto_resize h" using conf_fields(4) [OF cf2] .
  from h1(1) obtain nx ha hb where link: "read_ref h0 (l_tbl_entry_ref h0 (l_hash_fn h k)) = Inr nx" "set_cell h0 n (\<lambda>e. e\<lparr>slot_next := nx\<rparr>) = Inr ha"
    "write_ref ha (l_tbl_entry_ref h0 (l_hash_fn h k)) (Some n) = Inr hb" "list_add_before hb n 0 = Inr h1" by auto
  have run: "l_hashtbl_insert h k v env =
      (if l_auto_resize h2 \<and> ucast (word_of_int (l_resize_threshold h2) :: 32 word) \<le> l_nentries h2
       then c_bind (c_int (2 * l_table_size h2)) (\<lambda>c. c_bind (l_hashtbl_resize h2 c env3) (\<lambda>(_, h, env). Inr (0, h, env)))
       else Inr (0, h2, env3))"
    using l_find_entry_ok [OF lk, of k] none m ne link h2(1)
    by (simp add: l_hashtbl_insert_def Let_def del: c_bind_eq_Inr_iff)
  show ?thesis
  proof (cases "l_auto_resize h2 \<and> ucast (word_of_int (l_resize_threshold h2) :: 32 word) \<le> l_nentries h2")
    case False
    with run h2 size2 cf2 show ?thesis by auto
  next
    case True
    from lk obtain z where z: "l_table_size h = 2 ^ z" "z \<le> 30" by (auto simp: linked_def size_ok_def)
    show ?thesis
    proof (cases "z = 30")
      case full: True
      with z size2 have "c_int (2 * l_table_size h2) = Inl SignedOverflow" by (simp add: c_int_defs)
      with True run full z auto2 show ?thesis by simp
    next
      case False
      then have "(2::int) ^ z \<le> 2 ^ 29" using z(2) by (intro power_increasing) auto
      moreover have "c_int (2 * y) = Inr (2 * y)" if "0 \<le> y" "y \<le> 2 ^ 29" for y using that by (simp add: c_int_defs)
      ultimately have ok: "c_int (2 * l_table_size h2) = Inr (2 * l_table_size h)" using z size2 by simp
      obtain r h3 env4 where "l_hashtbl_resize h2 (2 * l_table_size h) env3 = Inr (r, h3, env4)" "l_wf h3 xs2" "entries_of h3 xs2 = entries_of h2 xs2" "conf h3 = conf h2"
        using l_resize_wf [OF h2(2), of "2 * l_table_size h" env3] by blast
      with True run ok h2(3) cf2 auto2 show ?thesis by auto
    qed
  qed
qed

text \<open>A lookup finds the value and, in access order, moves the entry to the front.\<close>

lemma l_lookup_refines:
  assumes wf: "l_wf h xs"
  shows "\<exists>h' xs'. l_hashtbl_lookup h k = Inr (case lru_find (l_equals_fn h) k (entries_of h xs) of None \<Rightarrow> None | Some v \<Rightarrow> v, h') \<and>
    l_wf h' xs' \<and> conf h' = conf h \<and> l_table_size h' = l_table_size h \<and>
    entries_of h' xs' = (if access_order h \<and> lru_find (l_equals_fn h) k (entries_of h xs) \<noteq> None
                         then lru_touch (l_equals_fn h) k (entries_of h xs) else entries_of h xs)"
proof -
  from wf have lk: "linked h xs" and tight: "\<And>b. live h b \<Longrightarrow> b \<in> set xs" and cells: "cells h \<noteq> []" by (auto simp: l_wf_def)
  note find = l_find_entry_ok [OF lk, of k]
  show ?thesis
  proof (cases "find (\<lambda>a. l_equals_fn h (ek h a) k) xs")
    case None
    with find wf show ?thesis by (auto simp: l_hashtbl_lookup_def Let_def lru_find_entries)
  next
    case (Some a)
    then have a: "a \<in> set xs" "l_equals_fn h (ek h a) k" by (auto simp: find_Some_iff)
    have live: "live h a" using linked_live [OF lk a(1)] .
    show ?thesis
    proof (cases "access_order h")
      case False
      with Some find wf live show ?thesis
        by (auto simp: l_hashtbl_lookup_def record_access_def Let_def lru_find_entries get_cell_live cell_fields)
    next
      case True
      obtain us vs where xs: "xs = us @ a # vs" using a(1) by (meson split_list)
      have path: "dpath (nxt h) (prv h) 0 (us @ a # vs) 0" and dist: "distinct (0 # us @ a # vs)" using lk xs by (auto simp: linked_def)
      have lives: "live h b" if "b \<in> set (us @ a # vs)" for b using linked_live [OF lk] that xs by blast
      from list_remove_views [OF live linked_neighbours [OF path dist lives]] obtain h1 where
        h1: "list_remove h a = Inr h1" "nxt h1 = (nxt h)(prv h a := nxt h a)" "prv h1 = (prv h)(nxt h a := prv h a)" "snx h1 = snx h" "same_data h h1" by blast
      have p1: "dpath (nxt h1) (prv h1) 0 (us @ vs) 0" unfolding h1(2,3) using path dist by (intro dpath_remove) auto
      have l1: "live h1 = live h" using h1(5) by (simp add: same_data_def)
      have "nxt h1 0 \<in> set (us @ vs @ [0])" using dpath_ends [OF p1] by (cases us; cases vs) auto
      then have "nxt h1 0 = 0 \<or> live h1 (nxt h1 0)" using lives l1 by auto
      then obtain h2 where h2: "list_add_before h1 a 0 = Inr h2" "nxt h2 = (nxt h1)(a := nxt h1 0, 0 := a)" "prv h2 = (prv h1)(a := 0, nxt h1 0 := a)"
        "snx h2 = snx h1" "same_data h1 h2" using list_add_before_views [of h1 a] live l1 by auto
      have sd: "same_data h h2" using h1(5) h2(5) by (rule same_data_trans)
      then have v: "kvh h2 = kvh h" "live h2 = live h" "base h2 = base h" "length (cells h2) = length (cells h)" by (auto simp: same_data_def)
      note f = base_fields [OF v(3)]
      have X: "set (a # us @ vs) = set xs" using xs by auto
      have "dpath (nxt h2) (prv h2) 0 (a # us @ vs) 0" unfolding h2(2,3) using dist by (intro dpath_add_front [OF p1]) auto
      moreover have "slots_ok h2 (a # us @ vs)"
        using lk h2(4) h1(4) v f X by (simp add: linked_def slots_ok_def home_def)
      moreover have "keys_ok h2 (a # us @ vs)" using lk v f X unfolding linked_def keys_ok_def by metis
      ultimately have "linked h2 (a # us @ vs)" using lk dist f xs by (simp add: linked_def size_ok_def)
      then have "l_wf h2 (a # us @ vs)" using tight v X cells by (auto simp: l_wf_def)
      moreover have "entries_of h2 (a # us @ vs) = lru_touch (l_equals_fn h) k (entries_of h xs)"
        unfolding lru_touch_def lru_del_def filter_entries [of "\<lambda>k'. l_equals_fn h k' k"] filter_entries [of "\<lambda>k'. \<not> l_equals_fn h k' k"]
        using split_match(1,2) [OF lk [unfolded xs] a(2)] v(1) xs by (simp add: entries_of_def)
      moreover have "l_hashtbl_lookup h k = Inr (ev h a, h2)"
        using find Some True h1(1) h2(1) live v(1,2) by (simp add: l_hashtbl_lookup_def record_access_def Let_def get_cell_live cell_fields)
      ultimately show ?thesis using Some True f(2) base_conf [OF v(3)] by (auto simp: lru_find_entries)
    qed
  qed
qed

end
