(* ===== verification/Lru_Table.thy ===== *)
theory Lru_Table
  imports Linked_Hashtbl_Correct Dictionary
begin

text \<open>
  The contract of the linked hash table: its operations as a list of entries ordered by recency, the table as a
  dictionary, the bounded cache, enumeration, clearing and creation, and the equivalence with the plain table.
\<close>

section \<open>Order of the entries\<close>

primrec walk :: "(ptr \<Rightarrow> ptr) \<Rightarrow> nat \<Rightarrow> ptr \<Rightarrow> ptr list" where
  "walk nx 0 a = []"
| "walk nx (Suc n) a = (if a = 0 then [] else a # walk nx n (nx a))"

definition order :: "('k, 'v, 'e) l_hashtbl \<Rightarrow> ptr list" where
  "order h = walk (nxt h) (length (cells h)) (head_next h)"

definition l_ok :: "('k, 'v, 'e) l_hashtbl \<Rightarrow> bool" where
  "l_ok h \<longleftrightarrow> l_wf h (order h)"

definition l_entries :: "('k, 'v, 'e) l_hashtbl \<Rightarrow> ('k \<times> 'v option) list" where
  "l_entries h = entries_of h (order h)"

lemma walk_path: "dpath nx pv p xs 0 \<Longrightarrow> 0 \<notin> set xs \<Longrightarrow> length xs \<le> n \<Longrightarrow> walk nx n (nx p) = xs"
proof (induction xs arbitrary: p n)
  case Nil
  then show ?case by (cases n) auto
next
  case (Cons x xs)
  then obtain n' where "n = Suc n'" by (cases n) auto
  with Cons show ?case by auto
qed

lemma order_wf: "l_wf h xs \<Longrightarrow> order h = xs"
proof -
  assume "l_wf h xs"
  then have lk: "linked h xs" by (simp add: l_wf_def)
  then have "dpath (nxt h) (prv h) 0 xs 0" "distinct (0 # xs)" by (auto simp: linked_def)
  with walk_path [of "nxt h" "prv h" 0 xs "length (cells h)"] linked_room [OF lk, of xs] show ?thesis by (simp add: order_def nxt_def)
qed

lemma l_wf_ok: "l_wf h xs \<Longrightarrow> l_ok h \<and> l_entries h = entries_of h xs"
  by (simp add: l_ok_def l_entries_def order_wf)

lemma l_ok_count: "l_ok h \<Longrightarrow> l_hashtbl_count h = of_nat (length (l_entries h))"
  by (simp add: l_ok_def l_wf_def linked_def l_entries_def entries_of_def l_hashtbl_count_def)

section \<open>Sequences of operations\<close>

definition l_put where
  "l_put s k v = c_bind (l_hashtbl_insert (fst s) k v (snd s)) (\<lambda>(r, h, env). Inr (r, (h, env)))"

definition l_del where
  "l_del s k = c_bind (l_hashtbl_remove (fst s) k (snd s)) (\<lambda>(r, h, env). Inr (r, (h, env)))"

definition l_get where
  "l_get s k = c_bind (l_hashtbl_lookup (fst s) k) (\<lambda>(v, h). Inr (v, (h, snd s)))"

text \<open>What a call of each operation does to the list, with the allocator's and the evictor's answers.\<close>

definition put_answer :: "('k, 'v, 'e) l_hashtbl \<Rightarrow> nat \<Rightarrow> 'e \<Rightarrow> bool \<times> bool" where
  "put_answer h n env =
     (let (ok, env) = l_malloc_fn h sizeof_l_entry env in (ok, fst (evictor_fn h (of_nat n) env)))"

lemma l_put_effect:
  assumes "l_ok (fst s)" and eq: "eq = l_equals_fn (fst s)" and al: "al = l_entries (fst s)"
    and ans: "put_answer (fst s) (length al + 1) (snd s) = (ok, evict)"
  shows "(\<exists>s'. l_put s k v = Inr (if lru_find eq k al = None \<and> \<not> ok then 1 else 0, s') \<and> l_ok (fst s') \<and> conf (fst s') = conf (fst s) \<and>
      l_entries (fst s') = (if lru_find eq k al = None \<and> \<not> ok then al else lru_put eq evict k v al)) \<or>
    (l_auto_resize (fst s) \<and> l_put s k v = Inl SignedOverflow)"
proof -
  obtain h env where s: "s = (h, env)" by fastforce
  let ?xs = "order h"
  have wf: "l_wf h ?xs" using assms(1) s by (simp add: l_ok_def)
  have al': "al = entries_of h ?xs" using al s by (simp add: l_entries_def)
  have lf: "lru_find eq k al = map_option (ev h) (find (\<lambda>a. eq (ek h a) k) ?xs)" for k unfolding al' by (rule lru_find_entries)
  show ?thesis
  proof (cases "find (\<lambda>a. l_equals_fn h (ek h a) k) ?xs")
    case (Some a)
    obtain h' env' where "l_hashtbl_insert h k v env = Inr (0, h', env')" "l_wf h' ?xs" "conf h' = conf h"
      "entries_of h' ?xs = lru_set (l_equals_fn h) k v (entries_of h ?xs)" using insert_replaces [OF wf Some] by blast
    with Some lf eq s al' l_wf_ok [of h' ?xs] show ?thesis by (auto simp: l_put_def lru_put_def)
  next
    case None
    then have absent: "lru_find eq k al = None" using lf eq s by simp
    obtain ok' env1 where m: "l_malloc_fn h sizeof_l_entry env = (ok', env1)" by fastforce
    have okk: "ok' = ok" using ans m s by (simp add: put_answer_def)
    show ?thesis
    proof (cases ok)
      case False
      have "linked h ?xs" using wf by (simp add: l_wf_def)
      from l_find_entry_ok [OF this, of k] None m okk False have "l_hashtbl_insert h k v env = Inr (1, h, env1)"
        by (simp add: l_hashtbl_insert_def Let_def)
      with absent False s assms(1) al show ?thesis by (auto simp: l_put_def)
    next
      case True
      have len: "length al = length ?xs" using al' by (simp add: entries_of_def)
      obtain b env2 where e: "evictor_fn h (of_nat (length ?xs + 1)) env1 = (b, env2)" by fastforce
      have "evict = b" using ans m okk True s e len by (simp add: put_answer_def)
      moreover from insert_adds [OF wf None _ e, of env v] m [unfolded okk] True have
        "(\<exists>h' env' xs'. l_hashtbl_insert h k v env = Inr (0, h', env') \<and> l_wf h' xs' \<and> conf h' = conf h \<and>
          entries_of h' xs' = (if b then butlast ((k, v) # entries_of h ?xs) else (k, v) # entries_of h ?xs)) \<or>
         (l_auto_resize h \<and> l_hashtbl_insert h k v env = Inl SignedOverflow)" by fastforce
      ultimately show ?thesis
        using absent True s al' l_wf_ok by (fastforce simp: l_put_def lru_put_def)
    qed
  qed
qed

lemma l_del_effect:
  assumes ok: "l_ok (fst s)" and eq: "eq = l_equals_fn (fst s)" and al: "al = l_entries (fst s)"
  shows "\<exists>s'. l_del s k = Inr (if lru_find eq k al = None then 1 else 0, s') \<and> l_ok (fst s') \<and> conf (fst s') = conf (fst s) \<and>
    l_entries (fst s') = lru_del eq k al"
proof -
  obtain h' env' xs' where "l_hashtbl_remove (fst s) k (snd s) = Inr (if lru_find eq k al = None then 1 else 0, h', env')" "l_wf h' xs'"
    "entries_of h' xs' = lru_del eq k al" "conf h' = conf (fst s)"
    using l_remove_refines [of "fst s" "order (fst s)" al k "snd s"] ok al unfolding eq l_ok_def l_entries_def by blast
  moreover from this(2) have "l_ok h' \<and> l_entries h' = entries_of h' xs'" by (rule l_wf_ok)
  ultimately show ?thesis by (intro exI [of _ "(h', env')"]) (simp add: l_del_def)
qed

lemma l_get_effect:
  assumes ok: "l_ok (fst s)" and eq: "eq = l_equals_fn (fst s)" and al: "al = l_entries (fst s)"
  shows "\<exists>s'. l_get s k = Inr (case lru_find eq k al of None \<Rightarrow> None | Some v \<Rightarrow> v, s') \<and> l_ok (fst s') \<and> conf (fst s') = conf (fst s) \<and>
    l_entries (fst s') = (if access_order (fst s) \<and> lru_find eq k al \<noteq> None then lru_touch eq k al else al)"
proof -
  obtain h' xs' where "l_hashtbl_lookup (fst s) k = Inr (case lru_find eq k al of None \<Rightarrow> None | Some v \<Rightarrow> v, h')" "l_wf h' xs'"
    "entries_of h' xs' = (if access_order (fst s) \<and> lru_find eq k al \<noteq> None then lru_touch eq k al else al)" "conf h' = conf (fst s)"
    using l_lookup_refines [of "fst s" "order (fst s)" k] ok unfolding eq al l_ok_def l_entries_def by blast
  moreover from this(2) have "l_ok h' \<and> l_entries h' = entries_of h' xs'" by (rule l_wf_ok)
  ultimately show ?thesis by (intro exI [of _ "(h', snd s)"]) (simp add: l_get_def)
qed

section \<open>The specification of a sequence\<close>

definition lru_op :: "('k \<Rightarrow> 'k \<Rightarrow> bool) \<Rightarrow> bool \<Rightarrow> (64 word \<Rightarrow> bool) \<Rightarrow> ('k, 'v option) dict_op \<Rightarrow> ('k \<times> 'v option) list
    \<Rightarrow> 'v option dict_res \<times> ('k \<times> 'v option) list" where
  "lru_op eq acc evict op al =
     (case op of
        Put k v \<Rightarrow> (Status 0, lru_put eq (evict (of_nat (length al + 1))) k v al)
      | Del k \<Rightarrow> (Status (if lru_find eq k al = None then 1 else 0), lru_del eq k al)
      | Get k \<Rightarrow> (Found (case lru_find eq k al of None \<Rightarrow> None | Some v \<Rightarrow> v),
                  if acc \<and> lru_find eq k al \<noteq> None then lru_touch eq k al else al))"

fun lru_run :: "('k \<Rightarrow> 'k \<Rightarrow> bool) \<Rightarrow> bool \<Rightarrow> (64 word \<Rightarrow> bool) \<Rightarrow> ('k, 'v option) dict_op list \<Rightarrow> ('k \<times> 'v option) list
    \<Rightarrow> 'v option dict_res list \<times> ('k \<times> 'v option) list" where
  "lru_run eq acc evict [] al = ([], al)"
| "lru_run eq acc evict (op # ops) al =
     (let (r, al) = lru_op eq acc evict op al; (rs, al) = lru_run eq acc evict ops al in (r # rs, al))"

text \<open>A table in good order whose allocator never fails and whose evictor decides by the count alone.\<close>

definition lru_state :: "('k \<Rightarrow> 'k \<Rightarrow> bool) \<Rightarrow> bool \<Rightarrow> (64 word \<Rightarrow> bool) \<Rightarrow> ('k, 'v, 'e) l_hashtbl \<times> 'e \<Rightarrow> bool" where
  "lru_state eq acc evict s \<longleftrightarrow> l_ok (fst s) \<and> l_equals_fn (fst s) = eq \<and> access_order (fst s) = acc \<and>
     (\<forall>n env. fst (l_malloc_fn (fst s) n env)) \<and> (\<forall>n env. fst (evictor_fn (fst s) n env) = evict n)"

lemma lru_state_conf: "lru_state eq acc evict s \<Longrightarrow> l_ok (fst s') \<Longrightarrow> conf (fst s') = conf (fst s) \<Longrightarrow> lru_state eq acc evict s'"
  using conf_fields [of "fst s'" "fst s"] by (simp add: lru_state_def)

lemma lru_step:
  assumes s: "lru_state eq acc evict s" and op: "lru_op eq acc evict op (l_entries (fst s)) = (r, al)"
  shows "(\<exists>s'. run_op l_put l_del l_get op s = Inr (r, s') \<and> lru_state eq acc evict s' \<and> l_auto_resize (fst s') = l_auto_resize (fst s) \<and>
      l_entries (fst s') = al) \<or>
    (l_auto_resize (fst s) \<and> run_op l_put l_del l_get op s = Inl SignedOverflow)"
proof -
  have st: "l_ok (fst s)" "eq = l_equals_fn (fst s)" "acc = access_order (fst s)" using s by (auto simp: lru_state_def)
  have keep: "lru_state eq acc evict s'" "l_auto_resize (fst s') = l_auto_resize (fst s)"
    if "l_ok (fst s')" "conf (fst s') = conf (fst s)" for s'
    using lru_state_conf [OF s that] conf_fields(4) [OF that(2)] by auto
  show ?thesis
  proof (cases op)
    case (Put k v)
    obtain ok b where ans: "put_answer (fst s) (length (l_entries (fst s)) + 1) (snd s) = (ok, b)" by fastforce
    then have "ok" "b = evict (of_nat (length (l_entries (fst s)) + 1))" using s
      by (auto simp: put_answer_def lru_state_def Let_def split: prod.splits dest: spec [of _ sizeof_l_entry])
        (metis fst_conv)+
    with l_put_effect [OF st(1,2) refl ans, of k v] Put op keep show ?thesis by (auto simp: run_op_def lru_op_def)
  next
    case (Del k)
    with l_del_effect [OF st(1,2) refl, of k] op keep show ?thesis by (auto simp: run_op_def lru_op_def)
  next
    case (Get k)
    with l_get_effect [OF st(1,2) refl, of k] op keep st(3) show ?thesis by (auto simp: run_op_def lru_op_def)
  qed
qed

lemma lru_run_refines:
  assumes "lru_state eq acc evict s" and "lru_run eq acc evict ops (l_entries (fst s)) = (rs, al)"
  shows "(\<exists>s'. run_ops l_put l_del l_get ops s = Inr (rs, s') \<and> lru_state eq acc evict s' \<and> l_entries (fst s') = al) \<or>
    (l_auto_resize (fst s) \<and> run_ops l_put l_del l_get ops s = Inl SignedOverflow)"
  using assms
proof (induction ops arbitrary: s rs)
  case (Cons op ops)
  obtain r al1 rs1 where 1: "lru_op eq acc evict op (l_entries (fst s)) = (r, al1)" and 2: "lru_run eq acc evict ops al1 = (rs1, al)"
    and rs: "rs = r # rs1" using Cons.prems(2) by (auto split: prod.splits)
  from lru_step [OF Cons.prems(1) 1] consider
    s' where "run_op l_put l_del l_get op s = Inr (r, s')" "lru_state eq acc evict s'" "l_auto_resize (fst s') = l_auto_resize (fst s)" "l_entries (fst s') = al1"
    | "l_auto_resize (fst s)" "run_op l_put l_del l_get op s = Inl SignedOverflow" by blast
  then show ?case
  proof cases
    case 1
    with Cons.IH [of s' rs1] 2 rs show ?thesis by auto
  qed simp
qed simp

section \<open>The list as a map\<close>

context key_fns
begin

lemma lru_find_same: "equals k k' \<Longrightarrow> lru_find equals k al = lru_find equals k' al"
  by (simp add: lru_find_def) (metis equals_sym equals_trans)

lemma lru_find_Cons: "lru_find equals k' ((k, v) # al) = (if equals k k' then Some v else lru_find equals k' al)"
  by (simp add: lru_find_def)

lemma lru_find_append: "lru_find eq k (al @ bl) = (case lru_find eq k al of None \<Rightarrow> lru_find eq k bl | Some v \<Rightarrow> Some v)"
  by (induction al) (auto simp: lru_find_def)

lemma equals_iff: "equals j k \<Longrightarrow> equals j k' \<longleftrightarrow> equals k k'"
  using equals_sym equals_trans by blast

lemma lru_find_Nil: "lru_find equals k [] = None"
  by (simp add: lru_find_def)

lemma lru_find_set: "lru_find equals k' (lru_set equals k v al) = (if equals k k' \<and> lru_find equals k al \<noteq> None then Some v else lru_find equals k' al)"
proof (induction al)
  case (Cons p al)
  obtain j w where p: "p = (j, w)" by fastforce
  have c: "lru_set equals k v (p # al) = (j, if equals j k then v else w) # lru_set equals k v al" by (simp add: lru_set_def p)
  show ?case using Cons unfolding c unfolding p lru_find_Cons by (cases "equals j k") (auto simp: equals_iff dest: equals_sym equals_trans)
qed (simp add: lru_set_def lru_find_Nil)

lemma lru_find_del: "lru_find equals k' (lru_del equals k al) = (if equals k k' then None else lru_find equals k' al)"
proof (induction al)
  case (Cons p al)
  obtain j w where p: "p = (j, w)" by fastforce
  show ?case using Cons by (cases "equals j k") (auto simp: lru_del_def p lru_find_Cons equals_iff dest: equals_sym equals_trans)
qed (simp add: lru_del_def lru_find_Nil)

lemma lru_find_filter: "lru_find equals k' (filter (\<lambda>(j, v). equals j k) al) = (if equals k k' then lru_find equals k' al else None)"
proof (induction al)
  case (Cons p al)
  obtain j w where p: "p = (j, w)" by fastforce
  show ?case using Cons by (cases "equals j k") (auto simp: p lru_find_Cons equals_iff dest: equals_sym equals_trans)
qed (simp add: lru_find_Nil)

lemma lru_find_touch: "lru_find equals k' (lru_touch equals k al) = lru_find equals k' al"
  by (auto simp: lru_touch_def lru_find_append lru_find_del lru_find_filter split: option.splits)

text \<open>Without eviction, one operation on the list is a step of the map it stands for.\<close>

lemma lru_op_dict_step:
  "lru_op equals acc (\<lambda>n. False) op al = (r, al') \<Longrightarrow> dict_step equals None op (\<lambda>k. lru_find equals k al) r (\<lambda>k. lru_find equals k al')"
proof (cases op)
  case (Put k v)
  assume "lru_op equals acc (\<lambda>n. False) op al = (r, al')"
  moreover have "(\<lambda>k'. lru_find equals k' (lru_put equals False k v al)) = upd_same equals k (Some v) (\<lambda>k. lru_find equals k al)"
    by (auto simp: fun_eq_iff upd_same_def lru_put_def lru_find_set lru_find_Cons)
  ultimately show ?thesis using Put dict_step.put [of equals None k v "\<lambda>k. lru_find equals k al"] by (auto simp: lru_op_def)
next
  case (Del k)
  assume a: "lru_op equals acc (\<lambda>n. False) op al = (r, al')"
  have eq: "(\<lambda>k'. lru_find equals k' (lru_del equals k al)) = upd_same equals k None (\<lambda>k. lru_find equals k al)"
    by (auto simp: fun_eq_iff upd_same_def lru_find_del)
  show ?thesis
  proof (cases "lru_find equals k al")
    case None
    then have "upd_same equals k None (\<lambda>k. lru_find equals k al) = (\<lambda>k. lru_find equals k al)"
      by (simp add: fun_eq_iff upd_same_def) (metis lru_find_same)
    with None a eq Del dict_step.del_absent [of "\<lambda>k. lru_find equals k al" k] show ?thesis by (auto simp: lru_op_def)
  next
    case Some
    with a eq Del dict_step.del [of "\<lambda>k. lru_find equals k al" k] show ?thesis by (auto simp: lru_op_def)
  qed
next
  case (Get k)
  assume "lru_op equals acc (\<lambda>n. False) op al = (r, al')"
  with Get dict_step.get [of equals None k "\<lambda>k. lru_find equals k al"] show ?thesis by (auto simp: lru_op_def lru_find_touch)
qed

end

section \<open>The table as a dictionary\<close>

definition keeps_inv :: "('k \<Rightarrow> 'k \<Rightarrow> bool) \<Rightarrow> ('k, 'v, 'e) l_hashtbl \<times> 'e \<Rightarrow> bool" where
  "keeps_inv eq s \<longleftrightarrow> l_ok (fst s) \<and> l_equals_fn (fst s) = eq \<and> (\<forall>n env. \<not> fst (evictor_fn (fst s) n env))"

definition fixed_keeps_inv :: "('k \<Rightarrow> 'k \<Rightarrow> bool) \<Rightarrow> ('k, 'v, 'e) l_hashtbl \<times> 'e \<Rightarrow> bool" where
  "fixed_keeps_inv eq s \<longleftrightarrow> keeps_inv eq s \<and> \<not> l_auto_resize (fst s)"

definition lru_map :: "('k \<Rightarrow> 'k \<Rightarrow> bool) \<Rightarrow> ('k, 'v, 'e) l_hashtbl \<times> 'e \<Rightarrow> 'k \<Rightarrow> 'v option option" where
  "lru_map eq s k = lru_find eq k (l_entries (fst s))"

lemma keeps_inv_conf:
  "keeps_inv eq s \<Longrightarrow> l_ok (fst s') \<Longrightarrow> conf (fst s') = conf (fst s) \<Longrightarrow> keeps_inv eq s' \<and> l_auto_resize (fst s') = l_auto_resize (fst s)"
  using conf_fields [of "fst s'" "fst s"] by (simp add: keeps_inv_def)

lemma keeps_inv_keys: "keeps_inv eq s \<Longrightarrow> key_fns (l_hash_fn (fst s)) eq"
  by (auto simp: keeps_inv_def l_ok_def l_wf_def linked_def size_ok_def)

lemma keeps_put:
  assumes s: "keeps_inv eq s"
  shows "(\<exists>r s'. l_put s k v = Inr (r, s') \<and> keeps_inv eq s' \<and> l_auto_resize (fst s') = l_auto_resize (fst s) \<and>
      dict_step eq None (Put k v) (lru_map eq s) (Status r) (lru_map eq s')) \<or>
    (l_auto_resize (fst s) \<and> l_put s k v = Inl SignedOverflow)"
proof -
  have st: "l_ok (fst s)" "eq = l_equals_fn (fst s)" using s by (auto simp: keeps_inv_def)
  obtain ok b where ans: "put_answer (fst s) (length (l_entries (fst s)) + 1) (snd s) = (ok, b)" by fastforce
  then have "b = False" using s by (auto simp: put_answer_def keeps_inv_def Let_def split: prod.splits)
  with l_put_effect [OF st refl ans, of k v] consider
    s' where "l_put s k v = Inr (if lru_map eq s k = None \<and> \<not> ok then 1 else 0, s')" "l_ok (fst s')" "conf (fst s') = conf (fst s)"
      "l_entries (fst s') = (if lru_map eq s k = None \<and> \<not> ok then l_entries (fst s) else lru_put eq False k v (l_entries (fst s)))"
    | "l_auto_resize (fst s)" "l_put s k v = Inl SignedOverflow" unfolding lru_map_def by blast
  then show ?thesis
  proof cases
    case 1
    have "dict_step eq None (Put k v) (lru_map eq s) (Status (if lru_map eq s k = None \<and> \<not> ok then 1 else 0)) (lru_map eq s')"
    proof (cases "lru_map eq s k = None \<and> \<not> ok")
      case True
      with 1(4) have "lru_map eq s' = lru_map eq s" by (simp add: lru_map_def fun_eq_iff)
      with True dict_step.put_fails [of "lru_map eq s" k] show ?thesis by simp
    next
      case False
      have "lru_op eq False (\<lambda>n. False) (Put k v) (l_entries (fst s)) = (Status 0, lru_put eq False k v (l_entries (fst s)))" by (simp add: lru_op_def)
      from key_fns.lru_op_dict_step [OF keeps_inv_keys [OF s] this] 1(4) show ?thesis
        unfolding if_not_P [OF False] by (simp add: lru_map_def [abs_def])
    qed
    with 1 keeps_inv_conf [OF s 1(2,3)] show ?thesis by blast
  qed simp
qed

lemma keeps_step:
  assumes s: "keeps_inv eq s" and s': "l_ok (fst s')" "conf (fst s') = conf (fst s)"
    and op: "lru_op eq (access_order (fst s)) (\<lambda>n. False) op (l_entries (fst s)) = (r, l_entries (fst s'))"
  shows "keeps_inv eq s' \<and> l_auto_resize (fst s') = l_auto_resize (fst s) \<and> dict_step eq None op (lru_map eq s) r (lru_map eq s')"
  using keeps_inv_conf [OF s s'] key_fns.lru_op_dict_step [OF keeps_inv_keys [OF s] op] by (simp add: lru_map_def [abs_def])

lemma keeps_del:
  assumes s: "keeps_inv eq s"
  shows "\<exists>r s'. l_del s k = Inr (r, s') \<and> keeps_inv eq s' \<and> l_auto_resize (fst s') = l_auto_resize (fst s) \<and>
    dict_step eq None (Del k) (lru_map eq s) (Status r) (lru_map eq s')"
proof -
  obtain s' where "l_del s k = Inr (if lru_find eq k (l_entries (fst s)) = None then 1 else 0, s')" "l_ok (fst s')" "conf (fst s') = conf (fst s)"
    "l_entries (fst s') = lru_del eq k (l_entries (fst s))" using l_del_effect [of s eq] s unfolding keeps_inv_def by blast
  with keeps_step [OF s this(2,3), of "Del k" "Status (if lru_find eq k (l_entries (fst s)) = None then 1 else 0)"] show ?thesis
    by (simp add: lru_op_def)
qed

lemma keeps_get:
  assumes s: "keeps_inv eq s"
  shows "\<exists>w s'. l_get s k = Inr (w, s') \<and> keeps_inv eq s' \<and> l_auto_resize (fst s') = l_auto_resize (fst s) \<and>
    dict_step eq None (Get k) (lru_map eq s) (Found w) (lru_map eq s')"
proof -
  let ?w = "case lru_find eq k (l_entries (fst s)) of None \<Rightarrow> None | Some v \<Rightarrow> v"
  obtain s' where "l_get s k = Inr (?w, s')" "l_ok (fst s')" "conf (fst s') = conf (fst s)"
    "l_entries (fst s') = (if access_order (fst s) \<and> lru_find eq k (l_entries (fst s)) \<noteq> None then lru_touch eq k (l_entries (fst s)) else l_entries (fst s))"
    using l_get_effect [of s eq] s unfolding keeps_inv_def by blast
  with keeps_step [OF s this(2,3), of "Get k" "Found ?w"] show ?thesis
    by (simp add: lru_op_def)
qed

interpretation ltbl: dictionary "keeps_inv eq" eq None "lru_map eq" l_put l_del l_get for eq
proof
  show "keeps_inv eq s' \<and> dict_step eq None (Put k v) (lru_map eq s) (Status r) (lru_map eq s')"
    if "keeps_inv eq s" "l_put s k v = Inr (r, s')" for s s' k v r using keeps_put [OF that(1), of k v] that(2) by auto
  show "keeps_inv eq s' \<and> dict_step eq None (Del k) (lru_map eq s) (Status r) (lru_map eq s')"
    if "keeps_inv eq s" "l_del s k = Inr (r, s')" for s s' k r using keeps_del [OF that(1), of k] that(2) by auto
  show "keeps_inv eq s' \<and> dict_step eq None (Get k) (lru_map eq s) (Found w) (lru_map eq s')"
    if "keeps_inv eq s" "l_get s k = Inr (w, s')" for s s' k w using keeps_get [OF that(1), of k] that(2) by auto
qed

interpretation fixed_ltbl: total_dictionary "fixed_keeps_inv eq" eq None "lru_map eq" l_put l_del l_get for eq
proof
  fix s s' k v r w
  assume "fixed_keeps_inv eq s"
  then have s: "keeps_inv eq s" and fixed: "\<not> l_auto_resize (fst s)" by (simp_all add: fixed_keeps_inv_def)
  note effects = keeps_put [OF s, of k v] keeps_del [OF s, of k] keeps_get [OF s, of k]
  show "fixed_keeps_inv eq s' \<and> dict_step eq None (Put k v) (lru_map eq s) (Status r) (lru_map eq s')"
    if "l_put s k v = Inr (r, s')" using effects(1) that fixed by (auto simp: fixed_keeps_inv_def)
  show "fixed_keeps_inv eq s' \<and> dict_step eq None (Del k) (lru_map eq s) (Status r) (lru_map eq s')"
    if "l_del s k = Inr (r, s')" using effects(2) that fixed by (auto simp: fixed_keeps_inv_def)
  show "fixed_keeps_inv eq s' \<and> dict_step eq None (Get k) (lru_map eq s) (Found w) (lru_map eq s')"
    if "l_get s k = Inr (w, s')" using effects(3) that fixed by (auto simp: fixed_keeps_inv_def)
  show "\<exists>r s'. l_put s k v = Inr (r, s')" using effects(1) fixed by blast
  show "\<exists>r s'. l_del s k = Inr (r, s')" using effects(2) by blast
  show "\<exists>w s'. l_get s k = Inr (w, s')" using effects(3) by blast
qed

definition reliable_keeps_inv :: "('k \<Rightarrow> 'k \<Rightarrow> bool) \<Rightarrow> ('k, 'v, 'e) l_hashtbl \<times> 'e \<Rightarrow> bool" where
  "reliable_keeps_inv eq s \<longleftrightarrow> lru_state eq (access_order (fst s)) (\<lambda>n. False) s \<and> \<not> l_auto_resize (fst s)"

lemma reliable_step:
  assumes s: "reliable_keeps_inv eq s" and run: "run_op l_put l_del l_get op s = Inr (r, s')"
  shows "reliable_keeps_inv eq s' \<and> dict_step eq None op (lru_map eq s) r (lru_map eq s') \<and> (\<forall>k v. op = Put k v \<longrightarrow> r = Status 0)"
proof -
  let ?acc = "access_order (fst s)"
  have st: "lru_state eq ?acc (\<lambda>n. False) s" "\<not> l_auto_resize (fst s)" using s by (auto simp: reliable_keeps_inv_def)
  obtain r' al where op: "lru_op eq ?acc (\<lambda>n. False) op (l_entries (fst s)) = (r', al)" by fastforce
  from lru_step [OF st(1) op] st(2) run have s': "r = r'" "lru_state eq ?acc (\<lambda>n. False) s'" "\<not> l_auto_resize (fst s')" "l_entries (fst s') = al" by auto
  have "key_fns (l_hash_fn (fst s)) eq" using st(1) by (auto simp: lru_state_def l_ok_def l_wf_def linked_def size_ok_def)
  from key_fns.lru_op_dict_step [OF this op] s' have "dict_step eq None op (lru_map eq s) r (lru_map eq s')" by (simp add: lru_map_def [abs_def])
  moreover have "reliable_keeps_inv eq s'" using s'(2,3) by (auto simp: reliable_keeps_inv_def lru_state_def)
  moreover have "\<forall>k v. op = Put k v \<longrightarrow> r = Status 0" using op s'(1) by (auto simp: lru_op_def)
  ultimately show ?thesis by blast
qed

lemma reliable_returns: "reliable_keeps_inv eq s \<Longrightarrow> \<exists>r s'. run_op l_put l_del l_get op s = Inr (r, s')"
  using lru_step [of eq "access_order (fst s)" "\<lambda>n. False" s op] surj_pair unfolding reliable_keeps_inv_def by metis

interpretation reliable_ltbl: reliable_dictionary "reliable_keeps_inv eq" eq None "lru_map eq" l_put l_del l_get for eq
proof
  fix s s' k v r w
  assume s: "reliable_keeps_inv eq s"
  show "reliable_keeps_inv eq s' \<and> dict_step eq None (Put k v) (lru_map eq s) (Status r) (lru_map eq s')" "r = 0" if "l_put s k v = Inr (r, s')"
    using reliable_step [OF s, of "Put k v" "Status r" s'] that by (auto simp: run_op_def)
  show "reliable_keeps_inv eq s' \<and> dict_step eq None (Del k) (lru_map eq s) (Status r) (lru_map eq s')" if "l_del s k = Inr (r, s')"
    using reliable_step [OF s, of "Del k" "Status r" s'] that by (auto simp: run_op_def)
  show "reliable_keeps_inv eq s' \<and> dict_step eq None (Get k) (lru_map eq s) (Found w) (lru_map eq s')" if "l_get s k = Inr (w, s')"
    using reliable_step [OF s, of "Get k" "Found w" s'] that by (auto simp: run_op_def)
  show "\<exists>r s'. l_put s k v = Inr (r, s')" "\<exists>r s'. l_del s k = Inr (r, s')" "\<exists>w s'. l_get s k = Inr (w, s')"
    using reliable_returns [OF s, of "Put k v"] reliable_returns [OF s, of "Del k"] reliable_returns [OF s, of "Get k"] by (auto simp: run_op_def)
qed

section \<open>Enumeration\<close>

text \<open>The entries an iterator delivers, in at most so many steps.\<close>

primrec l_iterate :: "('k, 'v, 'e) l_hashtbl \<Rightarrow> nat \<Rightarrow> ('k, 'v) l_hashtbl_iter \<Rightarrow> ('k option \<times> 'v option) list c_res" where
  "l_iterate h 0 it = Inr []"
| "l_iterate h (Suc n) it =
     c_bind (l_hashtbl_iter_next h it) (\<lambda>(r, it).
     if r = 0 then Inr [] else c_bind (l_iterate h n it) (\<lambda>ps. Inr ((l_iter_key it, l_iter_val it) # ps)))"

lemma iter_step:
  assumes "live h a" and "iter_pos it = a" and "iter_end it = 0"
  shows "l_hashtbl_iter_next h it = Inr (1, it\<lparr>iter_pos := (if 1 \<le> direction it then nxt h a else prv h a), l_iter_key := Some (ek h a), l_iter_val := ev h a\<rparr>)"
  using assms get_links [of a h] by (simp add: l_hashtbl_iter_next_def Let_def get_cell_live cell_fields live_def)

lemma iterate_forward:
  "dpath (nxt h) (prv h) p xs 0 \<Longrightarrow> 0 \<notin> set xs \<Longrightarrow> \<forall>a \<in> set xs. live h a \<Longrightarrow> length xs < n \<Longrightarrow> iter_pos it = nxt h p \<Longrightarrow> iter_end it = 0 \<Longrightarrow> 1 \<le> direction it \<Longrightarrow>
   l_iterate h n it = Inr (map (\<lambda>a. (Some (ek h a), ev h a)) xs)"
proof (induction xs arbitrary: p n it)
  case Nil
  then show ?case by (cases n) (auto simp: l_hashtbl_iter_next_def)
next
  case (Cons a xs)
  then obtain n' where n: "n = Suc n'" by (cases n) auto
  have "l_hashtbl_iter_next h it = Inr (1, it\<lparr>iter_pos := nxt h a, l_iter_key := Some (ek h a), l_iter_val := ev h a\<rparr>)"
    using Cons.prems iter_step [of h a it] by simp
  with n Cons.prems Cons.IH [of a n' "it\<lparr>iter_pos := nxt h a, l_iter_key := Some (ek h a), l_iter_val := ev h a\<rparr>"] show ?case
    by (simp del: c_bind_eq_Inr_iff)
qed

lemma iterate_backward:
  "dpath (nxt h) (prv h) 0 xs q \<Longrightarrow> 0 \<notin> set xs \<Longrightarrow> \<forall>a \<in> set xs. live h a \<Longrightarrow> length xs < n \<Longrightarrow> iter_pos it = prv h q \<Longrightarrow> iter_end it = 0 \<Longrightarrow> \<not> 1 \<le> direction it \<Longrightarrow>
   l_iterate h n it = Inr (map (\<lambda>a. (Some (ek h a), ev h a)) (rev xs))"
proof (induction xs arbitrary: q n it rule: rev_induct)
  case Nil
  then show ?case by (cases n) (auto simp: l_hashtbl_iter_next_def)
next
  case (snoc a xs)
  then obtain n' where n: "n = Suc n'" by (cases n) auto
  have "l_hashtbl_iter_next h it = Inr (1, it\<lparr>iter_pos := prv h a, l_iter_key := Some (ek h a), l_iter_val := ev h a\<rparr>)"
    using snoc.prems iter_step [of h a it] by (simp add: dpath_append)
  with n snoc.prems snoc.IH [of a n' "it\<lparr>iter_pos := prv h a, l_iter_key := Some (ek h a), l_iter_val := ev h a\<rparr>"] show ?case
    by (simp add: dpath_append del: c_bind_eq_Inr_iff)
qed

text \<open>The callback's run over a list: it stops after the first answer other than 1.\<close>

primrec apply_entries :: "('k \<Rightarrow> 'v option \<Rightarrow> 'e \<Rightarrow> int \<times> 'e) \<Rightarrow> ('k \<times> 'v option) list \<Rightarrow> 'e \<Rightarrow> nat \<times> 'e" where
  "apply_entries f [] env = (0, env)"
| "apply_entries f (p # al) env =
     (let (r, env) = f (fst p) (snd p) env in
      if r \<noteq> 1 then (1, env) else let (n, env) = apply_entries f al env in (Suc n, env))"

lemma l_apply_path:
  "dpath (nxt h) (prv h) p xs 0 \<Longrightarrow> 0 \<notin> set xs \<Longrightarrow> \<forall>a \<in> set xs. live h a \<Longrightarrow> length xs \<le> n \<Longrightarrow>
   l_apply_loop h f n (nxt h p) cnt env = Inr (cnt + of_nat (fst (apply_entries f (entries_of h xs) env)), snd (apply_entries f (entries_of h xs) env))"
proof (induction xs arbitrary: p n cnt env)
  case Nil
  then show ?case by (cases n) (auto simp: entries_of_def)
next
  case (Cons a xs)
  then obtain n' where n: "n = Suc n'" by (cases n) auto
  have a: "live h a" "a \<noteq> 0" "nxt h p = a" using Cons.prems by auto
  obtain r env1 where f: "f (ek h a) (ev h a) env = (r, env1)" by fastforce
  have "l_apply_loop h f n' (nxt h a) (cnt + 1) env1 =
      Inr (cnt + 1 + of_nat (fst (apply_entries f (entries_of h xs) env1)), snd (apply_entries f (entries_of h xs) env1))"
    using Cons.prems n by (intro Cons.IH) auto
  with a f n get_links(1) [of a h] show ?case
    by (auto simp: get_cell_live cell_fields entries_of_def Let_def split: prod.splits)
qed

section \<open>Clearing\<close>

text \<open>An entry as it is when it is released: all before it are gone.\<close>

definition first_cell :: "('k, 'v, 'e) l_hashtbl \<Rightarrow> ptr \<Rightarrow> ('k, 'v) l_hashtbl_entry" where
  "first_cell h a = \<lparr>list_next = nxt h a, list_prev = 0, slot_next = snx h a, l_key = ek h a, l_val = ev h a, l_hash = eh h a\<rparr>"

definition release_all :: "('k, 'v, 'e) l_hashtbl \<Rightarrow> ptr list \<Rightarrow> 'e \<Rightarrow> 'e" where
  "release_all h xs env = fold (\<lambda>a env. l_free_fn h (LEntry a (first_cell h a)) (release_l_entry True h (first_cell h a) env)) xs env"

lemma first_cell_cell: "a \<noteq> 0 \<Longrightarrow> prv h a = 0 \<Longrightarrow> the (cells h ! a) = first_cell h a"
  by (simp add: first_cell_def view_defs Let_def)

lemma release_conf: "conf h' = conf h \<Longrightarrow> release_l_entry b h' = release_l_entry b h"
  using conf_fields [of h' h] by (simp add: release_l_entry_def fun_eq_iff)

lemma clear_path:
  "dpath (nxt h) (prv h) 0 xs 0 \<Longrightarrow> distinct (0 # xs) \<Longrightarrow> \<forall>a \<in> set xs. live h a \<Longrightarrow> length xs \<le> n \<Longrightarrow>
   \<exists>h'. clear_loop n (nxt h 0) (nxt h (nxt h 0)) h env = Inr (h', release_all h xs env) \<and> conf h' = conf h \<and> l_table h' = l_table h \<and>
     l_table_size h' = l_table_size h \<and> l_nentries h' = l_nentries h - of_nat (length xs) \<and> (\<forall>b. live h' b \<longleftrightarrow> live h b \<and> b \<notin> set xs) \<and>
     length (cells h') = length (cells h)"
proof (induction xs arbitrary: h n env)
  case Nil
  then show ?case by (cases n) (auto simp: release_all_def)
next
  case (Cons a xs)
  then obtain n' where n: "n = Suc n'" by (cases n) auto
  have a: "live h a" "a \<noteq> 0" "nxt h 0 = a" "prv h a = 0" "a \<notin> set xs" using Cons.prems by auto
  have path: "dpath (nxt h) (prv h) 0 ([] @ a # xs) 0" "distinct (0 # [] @ a # xs)" "\<And>b. b \<in> set ([] @ a # xs) \<Longrightarrow> live h b"
    using Cons.prems by auto
  note nb = linked_neighbours [OF path]
  obtain h1 where h1: "list_remove h a = Inr h1" "nxt h1 = (nxt h)(0 := nxt h a)" "prv h1 = (prv h)(nxt h a := 0)" "snx h1 = snx h" "same_data h h1"
    using list_remove_views [OF a(1) nb] a(4) by auto
  have d1: "kvh h1 = kvh h" "live h1 = live h" "base h1 = base h" "length (cells h1) = length (cells h)" using h1(5) by (auto simp: same_data_def)
  have fc: "the (cells h ! a) = first_cell h a" "the (cells h1 ! a) = first_cell h a"
    using first_cell_cell [of a h] first_cell_cell [of a h1] a h1(2-4) d1(1) by (auto simp: first_cell_def)
  let ?env = "release_l_entry True h (first_cell h a) env"
  have a1: "live h1 a" using a(1) d1(2) by simp
  obtain h2 where h2: "free_cell h1 a ?env = Inr (h2, l_free_fn h1 (LEntry a (first_cell h a)) ?env)"
    "nxt h2 = (nxt h1)(a := nxt h2 a)" "prv h2 = (prv h1)(a := prv h2 a)" "snx h2 = (snx h1)(a := snx h2 a)" "kvh h2 = (kvh h1)(a := kvh h2 a)"
    "live h2 = (live h1)(a := False)" "base h2 = base h1" "length (cells h2) = length (cells h1)"
    using free_cell_views [OF a1, of ?env] unfolding fc(2) by blast
  let ?h = "h2\<lparr>l_nentries := l_nentries h2 - 1\<rparr>"
  have b2: "base h2 = base h" using h2(7) d1(3) by simp
  note f2 = base_fields [OF b2]
  have cf: "conf ?h = conf h" using base_conf [OF b2] by (simp add: conf_def)
  have other: "nxt ?h b = nxt h b" "snx ?h b = snx h b" "kvh ?h b = kvh h b" if "b \<noteq> a" "b \<noteq> 0" for b
    using that h2(2,4,5) h1(2,4) d1(1) by (metis fun_upd_other views_other_fields(1), metis fun_upd_other views_other_fields(3), metis fun_upd_other views_other_fields(4))
  have n0: "nxt ?h 0 = nxt h a" using h2(2) h1(2) a(2) by (metis fun_upd_other fun_upd_same views_other_fields(1))
  have "dpath ((nxt h)(0 := nxt h a)) ((prv h)(nxt h a := 0)) 0 ([] @ xs) 0"
    using dpath_remove [OF path(1)] path(2) a(4) by simp
  then have "dpath (nxt h1) (prv h1) 0 xs 0" using h1(2,3) by simp
  moreover have keep1: "nxt ?h b = nxt h1 b" "prv ?h b = prv h1 b" if "b \<noteq> a" for b
    using that h2(2,3) by (metis fun_upd_other views_other_fields(1), metis fun_upd_other views_other_fields(2))
  have "nxt ?h b = nxt h1 b" if "b \<in> set (0 # xs)" for b using that a(2,5) keep1(1) by (cases "b = a") auto
  moreover have "prv ?h b = prv h1 b" if "b \<in> set (xs @ [0])" for b using that a(2,5) keep1(2) by (cases "b = a") auto
  ultimately have "dpath (nxt ?h) (prv ?h) 0 xs 0" using dpath_cong [of 0 xs "nxt ?h" "nxt h1" 0 "prv ?h" "prv h1"] by blast
  moreover have "\<forall>b \<in> set xs. live ?h b" using Cons.prems(3) a(5) h2(6) d1(2) by auto
  ultimately obtain h' where h': "clear_loop n' (nxt ?h 0) (nxt ?h (nxt ?h 0)) ?h (l_free_fn h1 (LEntry a (first_cell h a)) ?env) =
      Inr (h', release_all ?h xs (l_free_fn h1 (LEntry a (first_cell h a)) ?env))" "conf h' = conf ?h" "l_table h' = l_table ?h"
    "l_table_size h' = l_table_size ?h" "l_nentries h' = l_nentries ?h - of_nat (length xs)" "\<forall>b. live h' b \<longleftrightarrow> live ?h b \<and> b \<notin> set xs"
    "length (cells h') = length (cells ?h)"
    using Cons.IH [of ?h n'] Cons.prems n by fastforce
  have "nxt h a = 0 \<or> live h2 (nxt h a)" using nb(1) path(2) h2(6) d1(2) Cons.prems(1) by (cases xs) auto
  then have "get_next h2 (nxt h a) = Inr (nxt ?h (nxt ?h 0))" using get_links(1) [of "nxt h a" h2] n0 by simp
  then have "clear_loop n (nxt h 0) (nxt h (nxt h 0)) h env = Inr (h', release_all ?h xs (l_free_fn h1 (LEntry a (first_cell h a)) ?env))"
    using n a h1(1) h2(1) h'(1) n0 by (simp add: get_cell_live fc(1) Let_def del: c_bind_eq_Inr_iff)
  moreover have "release_all ?h xs (l_free_fn h1 (LEntry a (first_cell h a)) ?env) = release_all h (a # xs) env"
  proof -
    have "first_cell ?h b = first_cell h b" if "b \<in> set xs" for b
    proof -
      have "b \<noteq> a" "b \<noteq> 0" using that a(5) Cons.prems(2) by (metis, metis distinct.simps(2) list.set_intros(2))
      from other [OF this] show ?thesis by (simp only: first_cell_def)
    qed
    moreover have "l_free_fn ?h = l_free_fn h" "l_free_fn h1 = l_free_fn h" "release_l_entry True ?h = release_l_entry True h"
      using conf_fields(7) [OF cf] base_fields(11) [OF d1(3)] release_conf [OF cf] by simp_all
    ultimately show ?thesis by (simp add: release_all_def cong: fold_cong)
  qed
  ultimately show ?case using h' cf f2 h2(6,8) d1(2,4) a(5) by auto
qed

lemma empty_linked:
  assumes "size_ok h" and "head_next h = 0" "head_prev h = 0" and "l_nentries h = 0" and "\<forall>p \<in> set (l_table h). p = None"
  shows "linked h []"
  using assms by (simp add: linked_def keys_ok_def slots_ok_def nxt_def prv_def)

lemma l_hashtbl_clear_ok:
  assumes "l_ok h"
  shows "\<exists>h'. l_hashtbl_clear h env = Inr (h', release_all h (order h) env) \<and> l_ok h' \<and> l_entries h' = [] \<and> conf h' = conf h \<and>
     l_table_size h' = l_table_size h \<and> (\<forall>a. \<not> live h' a)"
proof -
  let ?xs = "order h"
  have wf: "l_wf h ?xs" using assms by (simp add: l_ok_def)
  then have lk: "linked h ?xs" and tight: "\<And>b. live h b \<Longrightarrow> b \<in> set ?xs" and cells: "cells h \<noteq> []" by (auto simp: l_wf_def)
  have l: "size_ok h" "dpath (nxt h) (prv h) 0 ?xs 0" "distinct (0 # ?xs)" "l_nentries h = of_nat (length ?xs)" using lk by (auto simp: linked_def)
  have live: "\<forall>a \<in> set ?xs. live h a" using linked_live [OF lk] by blast
  obtain h1 where h1: "clear_loop (length (cells h)) (nxt h 0) (nxt h (nxt h 0)) h env = Inr (h1, release_all h ?xs env)" "conf h1 = conf h" "l_table h1 = l_table h"
    "l_table_size h1 = l_table_size h" "l_nentries h1 = l_nentries h - of_nat (length ?xs)" "\<forall>b. live h1 b \<longleftrightarrow> live h b \<and> b \<notin> set ?xs"
    "length (cells h1) = length (cells h)"
    using clear_path [OF l(2,3) live linked_room [OF lk _ subset_refl]] l(3) by fastforce
  have sz: "length (l_table h) = nat (l_table_size h)" using l(1) by (simp add: size_ok_def)
  let ?h = "list_init (h1\<lparr>l_table := replicate (nat (l_table_size h)) None\<rparr>)"
  have "nxt h 0 = 0 \<or> live h (nxt h 0)" using l(2) live by (cases ?xs) auto
  then have run: "l_hashtbl_clear h env = Inr (?h, release_all h ?xs env)"
    using h1(1,3,4) sz get_links(1) [of 0 h] get_links(1) [of "nxt h 0" h] by (simp add: l_hashtbl_clear_def del: c_bind_eq_Inr_iff)
  have "conf ?h = conf h1" by (simp add: conf_def list_init_def)
  then have cf: "conf ?h = conf h" using h1(2) by simp
  have "live ?h a = live h1 a" for a by (simp add: live_def list_init_def)
  then have dead: "\<not> live ?h a" for a using spec [OF h1(6), of a] tight [of a] by simp
  have "size_ok ?h" using l(1) h1(4) conf_fields(1,2) [OF h1(2)] by (simp add: size_ok_def list_init_def)
  then have "linked ?h []" using h1(5) l(4) by (intro empty_linked) (auto simp: list_init_def)
  then have "l_wf ?h []" using dead cells h1(7) by (auto simp: l_wf_def list_init_def)
  with l_wf_ok [OF this] run cf dead h1(4) show ?thesis by (auto simp: entries_of_def list_init_def)
qed

section \<open>Creation\<close>

lemma l_resize_empty:
  assumes h: "key_fns (l_hash_fn h) (l_equals_fn h)" "head_next h = 0" "head_prev h = 0" "l_nentries h = 0" "l_table_size h = 0" "l_table h = []" "cells h = [None]"
  shows "\<exists>n \<le> 30. l_resize_capacity c = Inr (2 ^ n) \<and>
     (case l_malloc_fn h (nat (2 ^ n) * sizeof_pointer) env of
        (False, env') \<Rightarrow> l_hashtbl_resize h c env = Inr (1, h, env')
      | (True, env') \<Rightarrow> \<exists>h'. l_hashtbl_resize h c env = Inr (0, h', env') \<and> l_ok h' \<and> l_entries h' = [] \<and> conf h' = conf h \<and> l_table_size h' = 2 ^ n)"
proof -
  obtain n where n: "l_resize_capacity c = Inr (2 ^ n)" "n \<le> 30" using resize_capacity_result [of c] l_resize_capacity_eq by auto
  obtain ok env' where m: "l_malloc_fn h (nat (2 ^ n) * sizeof_pointer) env = (ok, env')" by fastforce
  let ?t = "replicate (nat (2 ^ n)) None :: ptr option list"
  let ?h = "h\<lparr>l_table_size := 2 ^ n, l_resize_threshold := l_resize_threshold_of (2 ^ n) (l_max_load_factor h), l_table := ?t\<rparr>"
  have "size_ok ?h" using h(1) n(2) by (auto simp: size_ok_def)
  then have "linked ?h []" using h by (intro empty_linked) auto
  then have "l_wf ?h []" using h(7) by (auto simp: l_wf_def live_def)
  then have ok: "l_ok ?h" "l_entries ?h = []" using l_wf_ok [of ?h "[]"] by (simp_all add: entries_of_def)
  have cf: "conf ?h = conf h" by (simp add: conf_def)
  have "transfer_loop h ?t (length (cells h)) (head_next h) = Inr (h, ?t)" using h(2,7) by simp
  then have run: "l_hashtbl_resize h c env = (if ok then Inr (0, ?h, env') else Inr (1, h, env'))"
    using n(1) m h(5,6) by (simp add: l_hashtbl_resize_def split: bool.splits del: c_bind_eq_Inr_iff)
  have "l_table_size ?h = 2 ^ n" by simp
  with run ok cf m n show ?thesis by (cases ok) (auto intro!: exI [of _ n] exI [of _ ?h])
qed

lemma l_create_ok:
  assumes keys: "key_fns (case hash_f of None \<Rightarrow> \<lambda>k. hashtbl_direct_hash (addr k) | Some f \<Rightarrow> f)
      (case equals_f of None \<Rightarrow> \<lambda>a b. hashtbl_direct_equals (addr a) (addr b) | Some f \<Rightarrow> f)"
  shows "\<exists>oh env'. l_hashtbl_create addr libc_malloc libc_free c mlf auto acc hash_f equals_f key_free val_free mallocf freef evictor env = Inr (oh, env') \<and>
    (case oh of
       None \<Rightarrow> \<exists>n e. \<not> fst ((case mallocf of None \<Rightarrow> libc_malloc | Some f \<Rightarrow> f) n e)
     | Some h \<Rightarrow> l_ok h \<and> l_entries h = [] \<and> l_resize_capacity c = Inr (l_hashtbl_capacity h) \<and> (\<exists>n \<le> 30. l_hashtbl_capacity h = 2 ^ n) \<and>
         l_max_load_factor h = (if mlf < 0 then 3 / 4 else if 1 < mlf then 1 else mlf) \<and> l_auto_resize h = auto \<and> access_order h = acc \<and>
         l_equals_fn h = (case equals_f of None \<Rightarrow> \<lambda>a b. hashtbl_direct_equals (addr a) (addr b) | Some f \<Rightarrow> f) \<and>
         l_malloc_fn h = (case mallocf of None \<Rightarrow> libc_malloc | Some f \<Rightarrow> f) \<and>
         evictor_fn h = (case evictor of None \<Rightarrow> remove_eldest | Some f \<Rightarrow> f))"
proof -
  let ?malloc = "case mallocf of None \<Rightarrow> libc_malloc | Some f \<Rightarrow> f"
  let ?h = "\<lparr>head_next = 0, head_prev = 0, l_max_load_factor = if mlf < 0 then 3 / 4 else if 1 < mlf then 1 else mlf,
      l_hash_fn = case hash_f of None \<Rightarrow> \<lambda>k. hashtbl_direct_hash (addr k) | Some f \<Rightarrow> f,
      l_equals_fn = case equals_f of None \<Rightarrow> \<lambda>a b. hashtbl_direct_equals (addr a) (addr b) | Some f \<Rightarrow> f,
      l_nentries = 0, l_table_size = 0, l_resize_threshold = 0, l_auto_resize = auto, access_order = acc, l_key_free_fn = key_free,
      l_val_free_fn = val_free, l_malloc_fn = ?malloc, l_free_fn = case freef of None \<Rightarrow> libc_free | Some f \<Rightarrow> f,
      evictor_fn = case evictor of None \<Rightarrow> remove_eldest | Some f \<Rightarrow> f, l_table = [], cells = [None]\<rparr>"
  obtain ok env1 where m: "?malloc sizeof_l_hashtbl env = (ok, env1)" by fastforce
  show ?thesis
  proof (cases ok)
    case False
    then have "\<exists>n e. \<not> fst (?malloc n e)" using m by (metis fst_conv)
    with m False show ?thesis by (auto simp: l_hashtbl_create_def Let_def)
  next
    case True
    have run: "l_hashtbl_create addr libc_malloc libc_free c mlf auto acc hash_f equals_f key_free val_free mallocf freef evictor env =
      c_bind (l_hashtbl_resize ?h c env1) (\<lambda>(r, h, env). if r \<noteq> 0 then Inr (None, (case freef of None \<Rightarrow> libc_free | Some f \<Rightarrow> f) LStruct env) else Inr (Some h, env))"
      using m True by (simp add: l_hashtbl_create_def Let_def list_init_def del: c_bind_eq_Inr_iff)
    obtain n where n: "n \<le> 30" "l_resize_capacity c = Inr (2 ^ n)" and
      r: "case ?malloc (nat (2 ^ n) * sizeof_pointer) env1 of
        (False, env') \<Rightarrow> l_hashtbl_resize ?h c env1 = Inr (1, ?h, env')
      | (True, env') \<Rightarrow> \<exists>h'. l_hashtbl_resize ?h c env1 = Inr (0, h', env') \<and> l_ok h' \<and> l_entries h' = [] \<and> conf h' = conf ?h \<and> l_table_size h' = 2 ^ n"
      using l_resize_empty [of ?h c env1] keys by auto
    obtain ok2 env2 where m2: "?malloc (nat (2 ^ n) * sizeof_pointer) env1 = (ok2, env2)" by fastforce
    show ?thesis
    proof (cases ok2)
      case False
      then have "\<not> fst (?malloc (nat (2 ^ n) * sizeof_pointer) env1)" using m2 by simp
      moreover have "l_hashtbl_resize ?h c env1 = Inr (1, ?h, env2)" using r unfolding m2 using False by simp
      ultimately show ?thesis unfolding run by (auto simp del: c_bind_eq_Inr_iff)
    next
      case True
      with r m2 obtain h' where h': "l_hashtbl_resize ?h c env1 = Inr (0, h', env2)" "l_ok h'" "l_entries h' = []" "conf h' = conf ?h" "l_table_size h' = 2 ^ n"
        unfolding m2 by auto
      note f = conf_fields [OF h'(4)]
      show ?thesis unfolding run h'(1) using h'(2,3,5) f n by (auto simp: l_hashtbl_capacity_def)
    qed
  qed
qed

section \<open>A bounded cache\<close>

definition cache_inv :: "nat \<Rightarrow> ('k, 'v, 'e) l_hashtbl \<times> 'e \<Rightarrow> bool" where
  "cache_inv cap s \<longleftrightarrow> l_ok (fst s) \<and> (\<forall>n env. fst (evictor_fn (fst s) n env) \<longleftrightarrow> of_nat cap < n) \<and> length (l_entries (fst s)) \<le> cap"

lemma cache_inv_conf:
  "cache_inv cap s \<Longrightarrow> l_ok (fst s') \<Longrightarrow> conf (fst s') = conf (fst s) \<Longrightarrow> length (l_entries (fst s')) \<le> cap \<Longrightarrow> cache_inv cap s'"
  using conf_fields(10) [of "fst s'" "fst s"] by (simp add: cache_inv_def)

lemma lru_lengths:
  "length (lru_set eq k v al) = length al" "length (lru_touch eq k al) = length al" "length (lru_del eq k al) \<le> length al"
  using sum_length_filter_compl [of "\<lambda>(k', v). eq k' k" al] by (simp_all add: lru_set_def lru_touch_def lru_del_def split_def)

lemma lru_put_length:
  assumes "length al \<le> cap" and "cap + 1 < 2 ^ 64" and "evict \<longleftrightarrow> (of_nat cap :: 64 word) < of_nat (length al + 1)"
  shows "length (lru_put eq evict k v al) \<le> cap"
proof -
  have word: "unat (of_nat m :: 64 word) = m" if "m < 2 ^ 64" for m using that by (simp add: unat_of_nat take_bit_nat_eq_self)
  have "cap < 2 ^ 64" "length al + 1 < 2 ^ 64" using assms(1,2) by linarith+
  from this [THEN word] have "evict \<longleftrightarrow> cap < length al + 1" using assms(3) by (simp add: word_less_nat_alt del: of_nat_add)
  with assms(1) show ?thesis by (auto simp: lru_put_def lru_lengths)
qed

lemma cache_step:
  assumes s: "cache_inv cap s" and cap: "cap + 1 < 2 ^ 64" and run: "run_op l_put l_del l_get op s = Inr (r, s')"
  shows "cache_inv cap s'"
proof -
  let ?al = "l_entries (fst s)"
  have ok: "l_ok (fst s)" and len: "length ?al \<le> cap" using s by (simp_all add: cache_inv_def)
  show ?thesis
  proof (cases op)
    case (Put k v)
    obtain a b where ans: "put_answer (fst s) (length ?al + 1) (snd s) = (a, b)" by fastforce
    then have "b \<longleftrightarrow> (of_nat cap :: 64 word) < of_nat (length ?al + 1)"
      using s by (auto simp: put_answer_def cache_inv_def Let_def split: prod.splits)
    from lru_put_length [OF len cap this] len l_put_effect [OF ok refl refl ans, of k v] run Put show ?thesis
      by (auto simp: run_op_def split: if_splits intro: cache_inv_conf [OF s])
  next
    case (Del k)
    with l_del_effect [OF ok refl refl, of k] run le_trans [OF lru_lengths(3) len] show ?thesis
      by (auto simp: run_op_def intro: cache_inv_conf [OF s])
  next
    case (Get k)
    with l_get_effect [OF ok refl refl, of k] run len show ?thesis
      by (auto simp: run_op_def lru_lengths intro!: cache_inv_conf [OF s] split: if_splits)
  qed
qed

lemma cache_run: "cache_inv cap s \<Longrightarrow> cap + 1 < 2 ^ 64 \<Longrightarrow> run_ops l_put l_del l_get ops s = Inr (rs, s') \<Longrightarrow> cache_inv cap s'"
proof (induction ops arbitrary: s rs)
  case (Cons op ops)
  then obtain r s1 rs1 where "run_op l_put l_del l_get op s = Inr (r, s1)" "run_ops l_put l_del l_get ops s1 = Inr (rs1, s')" by auto
  with Cons.IH [of s1] cache_step [OF Cons.prems(1,2)] Cons.prems(2) show ?case by blast
qed simp

text \<open>A cache of two entries, in access order.\<close>

definition sample_cache :: "((32 word, nat, nat) l_hashtbl option \<times> nat) c_res" where
  "sample_cache = l_hashtbl_create (\<lambda>k. 0) (\<lambda>n env. (True, env + 1)) (\<lambda>b env. env - 1) 3 1 False True
     (Some hashtbl_int_hash) (Some hashtbl_int_equals) None None None None (Some (\<lambda>n env. (2 < n, env))) 0"

lemma int_key_fns: "key_fns hashtbl_int_hash hashtbl_int_equals"
  by unfold_locales (auto simp: hashtbl_int_hash_def hashtbl_int_equals_def)

lemma sample_cache_ok:
  "\<exists>h env. sample_cache = Inr (Some h, env) \<and> lru_state hashtbl_int_equals True (\<lambda>n. 2 < n) (h, env) \<and> l_entries h = [] \<and> \<not> l_auto_resize h"
proof -
  from l_create_ok [where hash_f = "Some hashtbl_int_hash" and equals_f = "Some hashtbl_int_equals" and addr = "\<lambda>k. 0"
      and libc_malloc = "\<lambda>n env. (True, env + 1)" and libc_free = "\<lambda>b env. env - 1" and c = 3 and mlf = 1 and auto = False and acc = True
      and key_free = None and val_free = None and mallocf = None and freef = None and evictor = "Some (\<lambda>n env. (2 < n, env))" and env = "0 :: nat"]
  obtain h env where "sample_cache = Inr (Some h, env)" "l_ok h" "l_entries h = []" "\<not> l_auto_resize h" "access_order h" "l_equals_fn h = hashtbl_int_equals"
    "l_malloc_fn h = (\<lambda>n env. (True, env + 1))" "evictor_fn h = (\<lambda>n env. (2 < n, env))"
    unfolding sample_cache_def using int_key_fns by (auto split: option.splits)
  then show ?thesis by (auto simp: lru_state_def)
qed

lemma sample_cache_two:
  "\<exists>h env rs s'. sample_cache = Inr (Some h, env) \<and> run_ops l_put l_del l_get [Put 1 (Some 10), Put 2 (Some 20)] (h, env) = Inr (rs, s') \<and>
     l_ok (fst s') \<and> l_entries (fst s') = [(2, Some 20), (1, Some 10)]"
proof -
  let ?ops = "[Put 1 (Some 10), Put 2 (Some 20)] :: (32 word, nat option) dict_op list"
  obtain h env where h: "sample_cache = Inr (Some h, env)" "lru_state hashtbl_int_equals True (\<lambda>n. 2 < n) (h, env)" "l_entries h = []" "\<not> l_auto_resize h"
    using sample_cache_ok by blast
  have "lru_run hashtbl_int_equals True (\<lambda>n. 2 < n) ?ops [] = ([Status 0, Status 0], [(2, Some 20), (1, Some 10)])" by code_simp
  with lru_run_refines [OF h(2), of ?ops] h(3,4) have
    "\<exists>s'. run_ops l_put l_del l_get ?ops (h, env) = Inr ([Status 0, Status 0], s') \<and> lru_state hashtbl_int_equals True (\<lambda>n. 2 < n) s' \<and>
      l_entries (fst s') = [(2, Some 20), (1, Some 10)]" unfolding fst_conv by metis
  with h(1) show ?thesis unfolding lru_state_def by blast
qed

text \<open>An empty plain table, and a linked one that keeps all entries.\<close>

definition empty_table :: "(32 word, nat, nat) hashtbl" where
  "empty_table = sample_table\<lparr>table := [[], [], [], []], nentries := 0\<rparr>"

lemma plain_empty_wf: "hashtbl_wf empty_table"
proof -
  have size: "\<exists>n \<le> 30. (4::int) = 2 ^ n" by (intro exI [of _ 2]) simp
  have "slot_ok empty_table i (table empty_table ! i)" if "i < 4" for i
  proof -
    from that consider "i = 0" | "i = 1" | "i = 2" | "i = 3" by linarith
    then show ?thesis by cases (simp_all add: slot_ok_def empty_table_def)
  qed
  with int_key_fns size show ?thesis by (simp add: hashtbl_wf_def empty_table_def)
qed

definition sample_plain_linked :: "((32 word, nat, nat) l_hashtbl option \<times> nat) c_res" where
  "sample_plain_linked = l_hashtbl_create (\<lambda>k. 0) (\<lambda>n env. (True, env + 1)) (\<lambda>b env. env - 1) 3 1 False True
     (Some hashtbl_int_hash) (Some hashtbl_int_equals) None None None None None 0"

lemma sample_plain_linked_ok:
  "\<exists>h env. sample_plain_linked = Inr (Some h, env) \<and> l_ok h \<and> l_entries h = [] \<and> \<not> l_auto_resize h \<and> l_equals_fn h = hashtbl_int_equals \<and>
     (\<forall>n e. fst (l_malloc_fn h n e)) \<and> (\<forall>n e. \<not> fst (evictor_fn h n e))"
proof -
  from l_create_ok [where hash_f = "Some hashtbl_int_hash" and equals_f = "Some hashtbl_int_equals" and addr = "\<lambda>k. 0"
      and libc_malloc = "\<lambda>n env. (True, env + 1)" and libc_free = "\<lambda>b env. env - 1" and c = 3 and mlf = 1 and auto = False and acc = True
      and key_free = None and val_free = None and mallocf = None and freef = None and evictor = None and env = "0 :: nat"]
  obtain h env where "sample_plain_linked = Inr (Some h, env)" "l_ok h" "l_entries h = []" "\<not> l_auto_resize h" "l_equals_fn h = hashtbl_int_equals"
    "l_malloc_fn h = (\<lambda>n env. (True, env + 1))" "evictor_fn h = remove_eldest"
    unfolding sample_plain_linked_def using int_key_fns by (auto split: option.splits)
  then show ?thesis by (auto simp: remove_eldest_def)
qed

section \<open>Properties\<close>

text \<open>
  Creating a table with sound key functions either fails, because an allocation did, or gives an empty table in good
  order whose capacity is the requested one brought to a power of two between 1 and \<open>2 ^ 30\<close>, and whose load factor, key
  functions, ordering and evictor are those asked for, absent arguments replaced by their defaults.
\<close>

theorem l_hashtbl_create_correct:
  assumes keys: "key_fns (case hash_f of None \<Rightarrow> \<lambda>k. hashtbl_direct_hash (addr k) | Some f \<Rightarrow> f)
      (case equals_f of None \<Rightarrow> \<lambda>a b. hashtbl_direct_equals (addr a) (addr b) | Some f \<Rightarrow> f)"
  shows "\<exists>oh env'. l_hashtbl_create addr libc_malloc libc_free c mlf auto acc hash_f equals_f key_free val_free mallocf freef evictor env = Inr (oh, env') \<and>
    (case oh of
       None \<Rightarrow> \<exists>n e. \<not> fst ((case mallocf of None \<Rightarrow> libc_malloc | Some f \<Rightarrow> f) n e)
     | Some h \<Rightarrow> l_ok h \<and> l_entries h = [] \<and> l_resize_capacity c = Inr (l_hashtbl_capacity h) \<and> (\<exists>n \<le> 30. l_hashtbl_capacity h = 2 ^ n) \<and>
         l_max_load_factor h = (if mlf < 0 then 3 / 4 else if 1 < mlf then 1 else mlf) \<and> l_auto_resize h = auto \<and> access_order h = acc \<and>
         l_equals_fn h = (case equals_f of None \<Rightarrow> \<lambda>a b. hashtbl_direct_equals (addr a) (addr b) | Some f \<Rightarrow> f) \<and>
         l_malloc_fn h = (case mallocf of None \<Rightarrow> libc_malloc | Some f \<Rightarrow> f) \<and>
         evictor_fn h = (case evictor of None \<Rightarrow> remove_eldest | Some f \<Rightarrow> f))"
  using keys by (rule l_create_ok)

theorem l_hashtbl_create_correct_witness:
  "\<exists>(h :: (32 word, nat, nat) l_hashtbl) env'. l_hashtbl_create (\<lambda>k. ucast k) (\<lambda>n env. (True, env + n)) (\<lambda>b env. env) 3 (-1) True False None None
     None None None None None 0 = Inr (Some h, env') \<and> l_ok h \<and> l_entries h = [] \<and> l_resize_capacity 3 = Inr (l_hashtbl_capacity h) \<and>
     l_max_load_factor h = 3 / 4 \<and> evictor_fn h = remove_eldest"
proof -
  have "key_fns (\<lambda>k :: 32 word. hashtbl_direct_hash (ucast k)) (\<lambda>a b. hashtbl_direct_equals (ucast a) (ucast b))"
    by unfold_locales (auto simp: hashtbl_direct_hash_def hashtbl_direct_equals_def)
  with l_hashtbl_create_correct [where hash_f = None and equals_f = None and addr = "\<lambda>k :: 32 word. ucast k" and libc_malloc = "\<lambda>n env. (True, env + n)"
      and libc_free = "\<lambda>b env. env" and c = 3 and mlf = "-1" and auto = True and acc = False and key_free = None and val_free = "None :: (nat option \<Rightarrow> nat \<Rightarrow> nat) option" and mallocf = None
      and freef = None and evictor = None and env = "0 :: nat"]
  obtain h :: "(32 word, nat, nat) l_hashtbl" and env' where "l_hashtbl_create (\<lambda>k :: 32 word. ucast k) (\<lambda>n env. (True, env + n)) (\<lambda>b env. env) 3 (-1) True False None None
     None None None None None (0 :: nat) = Inr (Some h, env')" "l_ok h" "l_entries h = []" "l_resize_capacity 3 = Inr (l_hashtbl_capacity h)"
    "l_max_load_factor h = 3 / 4" "evictor_fn h = remove_eldest"
    by (auto split: option.splits)
  then show ?thesis by blast
qed

text \<open>
  C5. When allocations succeed, a sequence of insertions, removals and lookups behaves as on a list of the entries with the most
  recent first: an insertion of a known key replaces its value in place, of a new key goes to the front and drops the last entry if the evictor says so;
  a lookup moves its entry to the front of an access-ordered table.  The sequence returns exactly the results of the list, unless
  the doubling of a table of \<open>2 ^ 30\<close> slots overflows.
\<close>

theorem l_hashtbl_refines_lru:
  assumes "lru_state eq acc evict s" and "lru_run eq acc evict ops (l_entries (fst s)) = (rs, al)"
  shows "(\<exists>s'. run_ops l_put l_del l_get ops s = Inr (rs, s') \<and> l_ok (fst s') \<and> l_entries (fst s') = al) \<or>
    (l_auto_resize (fst s) \<and> run_ops l_put l_del l_get ops s = Inl SignedOverflow)"
  using lru_run_refines [OF assms] by (auto simp: lru_state_def)

theorem l_hashtbl_refines_lru_witness:
  "\<exists>h env s'. sample_cache = Inr (Some h, env) \<and>
     run_ops l_put l_del l_get [Put 1 (Some 10), Put 2 (Some 20), Get 1, Put 3 (Some 30), Get 2, Del 2, Put 1 (Some 11)] (h, env) =
       Inr ([Status 0, Status 0, Found (Some 10), Status 0, Found None, Status 1, Status 0], s') \<and>
     l_entries (fst s') = [(3, Some 30), (1, Some 11)]"
proof -
  let ?ops = "[Put 1 (Some 10), Put 2 (Some 20), Get 1, Put 3 (Some 30), Get 2, Del 2, Put 1 (Some 11)] :: (32 word, nat option) dict_op list"
  obtain h env where h: "sample_cache = Inr (Some h, env)" "lru_state hashtbl_int_equals True (\<lambda>n. 2 < n) (h, env)" "l_entries h = []" "\<not> l_auto_resize h"
    using sample_cache_ok by blast
  have "lru_run hashtbl_int_equals True (\<lambda>n. 2 < n) ?ops [] =
      ([Status 0, Status 0, Found (Some 10), Status 0, Found None, Status 1, Status 0], [(3, Some 30), (1, Some 11)])"
    by code_simp
  with l_hashtbl_refines_lru [OF h(2), of ?ops] h(3,4) have
    "\<exists>s'. run_ops l_put l_del l_get ?ops (h, env) = Inr ([Status 0, Status 0, Found (Some 10), Status 0, Found None, Status 1, Status 0], s') \<and>
       l_ok (fst s') \<and> l_entries (fst s') = [(3, Some 30), (1, Some 11)]" unfolding fst_conv by metis
  with h(1) show ?thesis by blast
qed

text \<open>
  C31. A table whose evictor answers whether the count exceeds a limit never holds more entries than the limit,
  whatever the sequence of operations and whether or not allocations succeed, and its count is exact.
\<close>

theorem l_hashtbl_cache_bounded:
  assumes "l_ok (fst s)" and "\<forall>n env. fst (evictor_fn (fst s) n env) \<longleftrightarrow> of_nat cap < n" and "cap + 1 < 2 ^ 64" and "length (l_entries (fst s)) \<le> cap"
    and "run_ops l_put l_del l_get ops s = Inr (rs, s')"
  shows "l_ok (fst s') \<and> length (l_entries (fst s')) \<le> cap \<and> unat (l_hashtbl_count (fst s')) = length (l_entries (fst s'))"
proof -
  have "cache_inv cap s" unfolding cache_inv_def using assms(1,2,4) by blast
  from cache_run [OF this assms(3,5)] have l: "l_ok (fst s')" "length (l_entries (fst s')) \<le> cap" by (auto simp: cache_inv_def)
  then have "unat (l_hashtbl_count (fst s')) = length (l_entries (fst s'))"
    using assms(3) by (simp add: l_ok_count unat_of_nat take_bit_nat_eq_self)
  with l show ?thesis by blast
qed

theorem l_hashtbl_cache_bounded_witness:
  "\<exists>h env rs s'. sample_cache = Inr (Some h, env) \<and>
     run_ops l_put l_del l_get [Put 1 (Some 10), Put 2 (Some 20), Put 3 (Some 30)] (h, env) = Inr (rs, s') \<and>
     unat (l_hashtbl_count (fst s')) \<le> 2"
proof -
  let ?ops = "[Put 1 (Some 10), Put 2 (Some 20), Put 3 (Some 30)] :: (32 word, nat option) dict_op list"
  obtain h env where h: "sample_cache = Inr (Some h, env)" "lru_state hashtbl_int_equals True (\<lambda>n. 2 < n) (h, env)" "l_entries h = []" "\<not> l_auto_resize h"
    using sample_cache_ok by blast
  obtain rs al where "lru_run hashtbl_int_equals True (\<lambda>n. 2 < n) ?ops (l_entries (fst (h, env))) = (rs, al)" by fastforce
  from lru_run_refines [OF h(2) this] h(4) obtain s' where run: "run_ops l_put l_del l_get ?ops (h, env) = Inr (rs, s')" by auto
  from l_hashtbl_cache_bounded [of "(h, env)" 2 ?ops rs s'] run h(2,3) have "unat (l_hashtbl_count (fst s')) \<le> 2"
    by (auto simp: lru_state_def)
  with h(1) run show ?thesis by blast
qed

text \<open>
  C32. Enumeration follows the list: an iterator of positive direction delivers every entry once, in order, one of
  non-positive direction the reverse, and both then stop; \<open>l_hashtbl_apply\<close> visits the entries in order up to the first one whose callback
  does not return 1, and returns how many it visited.
\<close>

theorem l_hashtbl_enumeration:
  assumes "l_ok h" and "length (l_entries h) < n"
  shows "(1 \<le> dir \<longrightarrow> l_iterate h n (l_hashtbl_iter_init h dir) = Inr (map (\<lambda>(k, v). (Some k, v)) (l_entries h))) \<and>
    (dir < 1 \<longrightarrow> l_iterate h n (l_hashtbl_iter_init h dir) = Inr (map (\<lambda>(k, v). (Some k, v)) (rev (l_entries h)))) \<and>
    l_hashtbl_apply h f env = Inr (of_nat (fst (apply_entries f (l_entries h) env)), snd (apply_entries f (l_entries h) env))"
proof -
  let ?xs = "order h"
  have lk: "linked h ?xs" using assms(1) by (simp add: l_ok_def l_wf_def)
  then have path: "dpath (nxt h) (prv h) 0 ?xs 0" "0 \<notin> set ?xs" "distinct ?xs" by (auto simp: linked_def)
  have live: "\<forall>a \<in> set ?xs. live h a" using linked_live [OF lk] by blast
  have es: "map (\<lambda>(k, v). (Some k, v)) (l_entries h) = map (\<lambda>a. (Some (ek h a), ev h a)) ?xs" by (simp add: l_entries_def entries_of_def)
  have len: "length ?xs < n" using assms(2) by (simp add: l_entries_def entries_of_def)
  have room: "length ?xs \<le> length (cells h)" using linked_room [OF lk path(3)] by simp
  have "l_iterate h n (l_hashtbl_iter_init h dir) = Inr (map (\<lambda>a. (Some (ek h a), ev h a)) ?xs)" if "1 \<le> dir"
    using that by (intro iterate_forward [OF path(1,2) live len]) (simp_all add: l_hashtbl_iter_init_def nxt_def)
  moreover have "l_iterate h n (l_hashtbl_iter_init h dir) = Inr (map (\<lambda>a. (Some (ek h a), ev h a)) (rev ?xs))" if "dir < 1"
    using that by (intro iterate_backward [OF path(1,2) live len]) (simp_all add: l_hashtbl_iter_init_def prv_def)
  moreover have "l_hashtbl_apply h f env = Inr (of_nat (fst (apply_entries f (l_entries h) env)), snd (apply_entries f (l_entries h) env))"
    using l_apply_path [OF path(1,2) live room, of f 0 env] by (simp add: l_hashtbl_apply_def nxt_def l_entries_def)
  moreover have "map (\<lambda>a. (Some (ek h a), ev h a)) (rev ?xs) = map (\<lambda>(k, v). (Some k, v)) (rev (l_entries h))" by (simp add: es flip: rev_map)
  ultimately show ?thesis unfolding es by simp
qed

theorem l_hashtbl_enumeration_witness:
  "\<exists>h env rs s'. sample_cache = Inr (Some h, env) \<and> run_ops l_put l_del l_get [Put 1 (Some 10), Put 2 (Some 20)] (h, env) = Inr (rs, s') \<and>
     l_iterate (fst s') 3 (l_hashtbl_iter_init (fst s') (- 1)) = Inr [(Some 1, Some 10), (Some 2, Some 20)] \<and>
     l_hashtbl_apply (fst s') (\<lambda>k v env. (0, env + 1)) (5 :: nat) = Inr (1, 6)"
proof -
  obtain h env rs s' where s: "sample_cache = Inr (Some h, env)" "run_ops l_put l_del l_get [Put 1 (Some 10), Put 2 (Some 20)] (h, env) = Inr (rs, s')"
    "l_ok (fst s')" "l_entries (fst s') = [(2, Some 20), (1, Some 10)]" using sample_cache_two by blast
  from l_hashtbl_enumeration [OF s(3), of 3 "- 1" "\<lambda>k v env. (0, env + 1)" "5 :: nat"] s(4)
  have "l_iterate (fst s') 3 (l_hashtbl_iter_init (fst s') (- 1)) = Inr [(Some 1, Some 10), (Some 2, Some 20)]"
    "l_hashtbl_apply (fst s') (\<lambda>k v env. (0, env + 1)) (5 :: nat) = Inr (1, 6)" by simp_all
  with s(1,2) show ?thesis by blast
qed

text \<open>
  Clearing a table returns; the table is then empty and in good order with its capacity and configuration kept, no
  cell is left allocated, and the callbacks ran once for each entry, in the order of the list: key, value (also a null one), then the entry itself.
\<close>

theorem l_hashtbl_clear_releases:
  assumes "l_ok h"
  shows "\<exists>h'. l_hashtbl_clear h env = Inr (h', release_all h (order h) env) \<and> l_ok h' \<and> l_entries h' = [] \<and> l_hashtbl_count h' = 0 \<and>
     conf h' = conf h \<and> l_hashtbl_capacity h' = l_hashtbl_capacity h \<and> (\<forall>a. \<not> live h' a)"
  using l_hashtbl_clear_ok [OF assms, of env] l_ok_count by (fastforce simp: l_hashtbl_capacity_def)

theorem l_hashtbl_clear_releases_witness:
  "\<exists>h env rs s' h' env'. sample_cache = Inr (Some h, env) \<and> run_ops l_put l_del l_get [Put 1 (Some 10), Put 2 (Some 20)] (h, env) = Inr (rs, s') \<and>
     l_hashtbl_count (fst s') = 2 \<and> l_hashtbl_clear (fst s') (snd s') = Inr (h', env') \<and> l_hashtbl_count h' = 0 \<and> (\<forall>a. \<not> live h' a)"
proof -
  obtain h env rs s' where s: "sample_cache = Inr (Some h, env)" "run_ops l_put l_del l_get [Put 1 (Some 10), Put 2 (Some 20)] (h, env) = Inr (rs, s')"
    "l_ok (fst s')" "l_entries (fst s') = [(2, Some 20), (1, Some 10)]" using sample_cache_two by blast
  have "l_hashtbl_count (fst s') = 2" using l_ok_count [OF s(3)] s(4) by simp
  moreover obtain h' where "l_hashtbl_clear (fst s') (snd s') = Inr (h', release_all (fst s') (order (fst s')) (snd s'))" "l_hashtbl_count h' = 0" "\<forall>a. \<not> live h' a"
    using l_hashtbl_clear_releases [OF s(3), of "snd s'"] by blast
  ultimately show ?thesis using s(1,2) by blast
qed

text \<open>
  C30. The two hash tables are interchangeable: a plain table and a linked table that does not evict, of the same equality and content, both
  without automatic resizing and with allocations that succeed, answer every sequence of insertions, removals and lookups alike and
  end with the same content, whether or not the linked table is in access order.
\<close>

theorem hash_tables_equivalent:
  assumes h: "hashtbl_wf h" "\<not> auto_resize h" "\<forall>n e. fst (malloc_fn h n e)"
    and l: "l_ok l" "\<not> l_auto_resize l" "\<forall>n e. fst (l_malloc_fn l n e)" "\<forall>n e. \<not> fst (evictor_fn l n e)"
    and same: "l_equals_fn l = equals_fn h" "\<forall>k. lru_find (equals_fn h) k (l_entries l) = hmap h k"
  shows "\<exists>rs s s'. run_ops tbl_put tbl_del tbl_get ops (h, env) = Inr (rs, s) \<and> run_ops l_put l_del l_get ops (l, env') = Inr (rs, s') \<and>
    (\<forall>k. lru_find (equals_fn h) k (l_entries (fst s')) = hmap (fst s) k)"
proof -
  let ?eq = "equals_fn h"
  have "reliable_tbl_inv ?eq (h, env)" using h by (simp add: reliable_tbl_inv_def fixed_tbl_inv_def tbl_inv_def)
  from reliable_tbl.run_ops_exec [OF this, of ops] obtain s where
    s: "run_ops tbl_put tbl_del tbl_get ops (h, env) = Inr (fst (dict_run ?eq None ops (hmap h)), s)" "hmap (fst s) = snd (dict_run ?eq None ops (hmap h))" by auto
  have "reliable_keeps_inv ?eq (l, env')" using l same(1) by (simp add: reliable_keeps_inv_def lru_state_def)
  moreover have m: "lru_map ?eq (l, env') = hmap h" using same(2) by (simp add: lru_map_def fun_eq_iff)
  ultimately obtain s' where
    s': "run_ops l_put l_del l_get ops (l, env') = Inr (fst (dict_run ?eq None ops (hmap h)), s')" "lru_map ?eq s' = snd (dict_run ?eq None ops (hmap h))"
    using reliable_ltbl.run_ops_exec [of ?eq "(l, env')" ops] unfolding m by blast
  have "lru_find ?eq k (l_entries (fst s')) = hmap (fst s) k" for k
    using s(2) s'(2) by (simp add: fun_eq_iff lru_map_def)
  with s(1) s'(1) show ?thesis by blast
qed

theorem hash_tables_equivalent_witness:
  "\<exists>h env' rs s s'. sample_plain_linked = Inr (Some h, env') \<and>
     run_ops tbl_put tbl_del tbl_get [Put 5 (Some 50), Put 5 None, Del 7, Get 5] (empty_table, 0) = Inr (rs, s) \<and>
     run_ops l_put l_del l_get [Put 5 (Some 50), Put 5 None, Del 7, Get 5] (h, env') = Inr (rs, s')"
proof -
  obtain h env' where h: "sample_plain_linked = Inr (Some h, env')" "l_ok h" "l_entries h = []" "\<not> l_auto_resize h" "l_equals_fn h = hashtbl_int_equals"
    "\<forall>n e. fst (l_malloc_fn h n e)" "\<forall>n e. \<not> fst (evictor_fn h n e)" using sample_plain_linked_ok by blast
  have e: "hashtbl_wf empty_table" "\<not> auto_resize empty_table" "\<forall>n e. fst (malloc_fn empty_table n e)" "l_equals_fn h = equals_fn empty_table"
    "\<forall>k. lru_find (equals_fn empty_table) k (l_entries h) = hmap empty_table k"
    using plain_empty_wf h(3,5) by (simp_all add: empty_table_def lru_find_def hmap_def)
  from hash_tables_equivalent [OF e(1-3) h(2,4,6,7) e(4,5), of "[Put 5 (Some 50), Put 5 None, Del 7, Get 5]" 0 env'] h(1) show ?thesis by blast
qed

end
