(* ===== verification/Banker.thy ===== *)
theory Banker
  imports Prelude
begin

text \<open>
  \<^verbatim>\<open>banker.c\<close>, the banker's algorithm with its menu.  The program's global variables are
  one record; the arrays have the constant sizes of the source, and an access outside them, a
  signed overflow and a loop that never ends are results.  The input is the text not yet read;
  what the program prints is left out, except for the rows of \<open>print_info\<close>.
\<close>

section \<open>Input\<close>

datatype scan = Scanned int | NoMatch | AtEof

definition is_space :: "char \<Rightarrow> bool" where
  "is_space c \<longleftrightarrow> c \<in> {CHR '' '', CHR 0x09, CHR 0x0A, CHR 0x0B, CHR 0x0C, CHR 0x0D}"

definition is_digit :: "char \<Rightarrow> bool" where
  "is_digit c \<longleftrightarrow> (of_char c :: nat) \<in> {48..57}"

definition digits_val :: "string \<Rightarrow> int" where
  "digits_val ds = foldl (\<lambda>n d. 10 * n + (int (of_char d) - 48)) 0 ds"

text \<open>\<^verbatim>\<open>%d\<close>: white space, an optional sign, digits.  A sign without digits is consumed.\<close>

definition scan_int :: "string \<Rightarrow> scan \<times> string" where
  "scan_int inp =
     (case dropWhile is_space inp of
        [] \<Rightarrow> (AtEof, [])
      | c # cs \<Rightarrow>
          let rest = (if c = CHR ''-'' \<or> c = CHR ''+'' then cs else c # cs);
              ds = takeWhile is_digit rest
          in if ds = [] then (NoMatch, rest)
             else (Scanned (if c = CHR ''-'' then - digits_val ds else digits_val ds), dropWhile is_digit rest))"

text \<open>\<^verbatim>\<open>scanf("%d", &x)\<close> where only the effect on \<open>x\<close> matters.\<close>

definition scanf_d :: "string \<Rightarrow> int \<Rightarrow> (int \<times> string) c_res" where
  "scanf_d inp old =
     (case scan_int inp of
        (Scanned v, rest) \<Rightarrow> c_bind (c_int v) (\<lambda>v. Inr (v, rest))
      | (_, rest) \<Rightarrow> Inr (old, rest))"

lemma length_take_drop_While: "length (takeWhile P xs) + length (dropWhile P xs) = length xs"
  by (induction xs) auto

lemma scan_int_shorter:
  assumes r: "scan_int inp = (Scanned v, rest)"
  shows "length rest < length inp"
proof -
  from r obtain c cs where cs: "dropWhile is_space inp = c # cs"
    by (cases "dropWhile is_space inp") (auto simp: scan_int_def)
  define t where "t = (if c = CHR ''-'' \<or> c = CHR ''+'' then cs else c # cs)"
  have rest: "rest = dropWhile is_digit t" "takeWhile is_digit t \<noteq> []"
    using r cs by (auto simp: scan_int_def Let_def t_def split: if_splits)
  from rest(2) have "0 < length (takeWhile is_digit t)" by blast
  then have "length rest < length t"
    unfolding rest(1) using length_take_drop_While [of is_digit t] by linarith
  also have "length t \<le> length (dropWhile is_space inp)" unfolding cs t_def by simp
  also have "\<dots> \<le> length inp" by (rule length_dropWhile_le)
  finally show ?thesis .
qed

section \<open>The global state\<close>

definition M :: nat where "M = 10"

definition N :: nat where "N = 10"

record banker =
  progress_num :: int
  resource_num :: int
  req_id :: int
  Available :: "int list"
  Max_demand :: "int list list"
  Need :: "int list list"
  Allocate :: "int list list"
  Request :: "int list"
  Work :: "int list"
  Finish :: "bool list"
  work_allocation :: "int list list"
  flag :: bool
  safe :: "int list"

definition zero_matrix :: "int list list" where
  "zero_matrix = replicate M (replicate N 0)"

text \<open>The state at the start of the process: static storage is zero.\<close>

definition start_state :: banker where
  "start_state =
     \<lparr>progress_num = 0, resource_num = 0, req_id = 0, Available = replicate N 0, Max_demand = zero_matrix,
      Need = zero_matrix, Allocate = zero_matrix, Request = replicate N 0, Work = replicate N 0,
      Finish = replicate M False, work_allocation = zero_matrix, flag = False, safe = replicate M 0\<rparr>"

definition mat_read :: "int list list \<Rightarrow> int \<Rightarrow> int \<Rightarrow> int c_res" where
  "mat_read A i j = c_bind (c_read A i) (\<lambda>row. c_read row j)"

definition mat_write :: "int list list \<Rightarrow> int \<Rightarrow> int \<Rightarrow> int \<Rightarrow> int list list c_res" where
  "mat_write A i j x = c_bind (c_read A i) (\<lambda>row. c_bind (c_write row j x) (\<lambda>row. c_write A i row))"

definition procs :: "banker \<Rightarrow> nat" where "procs s = nat (progress_num s)"

definition ress :: "banker \<Rightarrow> nat" where "ress s = nat (resource_num s)"

section \<open>Initialisation\<close>

definition read_available :: "nat \<Rightarrow> string \<times> banker \<Rightarrow> (string \<times> banker) c_res" where
  "read_available i = (\<lambda>(inp, s).
     c_bind (c_read (Available s) (int i)) (\<lambda>old.
     c_bind (scanf_d inp old) (\<lambda>(v, inp).
     c_bind (c_write (Available s) (int i) v) (\<lambda>a. Inr (inp, s\<lparr>Available := a\<rparr>)))))"

definition read_max :: "nat \<Rightarrow> nat \<Rightarrow> string \<times> banker \<Rightarrow> (string \<times> banker) c_res" where
  "read_max i j = (\<lambda>(inp, s).
     c_bind (mat_read (Max_demand s) (int i) (int j)) (\<lambda>old.
     c_bind (scanf_d inp old) (\<lambda>(v, inp).
     c_bind (mat_write (Max_demand s) (int i) (int j) v) (\<lambda>a. Inr (inp, s\<lparr>Max_demand := a\<rparr>)))))"

definition read_allocate :: "nat \<Rightarrow> nat \<Rightarrow> string \<times> banker \<Rightarrow> (string \<times> banker) c_res" where
  "read_allocate i j = (\<lambda>(inp, s).
     c_bind (mat_read (Allocate s) (int i) (int j)) (\<lambda>old.
     c_bind (scanf_d inp old) (\<lambda>(v, inp).
     c_bind (mat_write (Allocate s) (int i) (int j) v) (\<lambda>a. Inr (inp, s\<lparr>Allocate := a\<rparr>)))))"

text \<open>
  The loop asking for y or n.  At the end of the input \<open>scanf\<close> reports -1, which the loop
  takes for success with the old character.
\<close>

fun answer_loop :: "string \<Rightarrow> char \<Rightarrow> (char \<times> string) c_res" where
  "answer_loop [] ch = (if ch = CHR ''n'' \<or> ch = CHR ''y'' then Inr (ch, []) else Inl NoReturn)"
| "answer_loop (c # cs) ch = (if c = CHR ''n'' \<or> c = CHR ''y'' then Inr (c, cs) else answer_loop cs c)"

definition init_need :: "nat \<Rightarrow> nat \<Rightarrow> banker \<Rightarrow> banker c_res" where
  "init_need i j s =
     c_bind (mat_read (Max_demand s) (int i) (int j)) (\<lambda>mx.
     c_bind (mat_read (Allocate s) (int i) (int j)) (\<lambda>al.
     c_bind (c_int (mx - al)) (\<lambda>nd.
     c_bind (mat_write (Need s) (int i) (int j) nd) (\<lambda>need.
     c_bind (c_read (Available s) (int j)) (\<lambda>av.
     c_bind (c_int (av - al)) (\<lambda>av.
     c_bind (c_write (Available s) (int j) av) (\<lambda>avail.
     c_bind (c_read (Work s) (int j)) (\<lambda>w.
     c_bind (c_int (al + w)) (\<lambda>wa.
     c_bind (mat_write (work_allocation s) (int i) (int j) wa) (\<lambda>wal.
     Inr (s\<lparr>Need := need, Available := avail, work_allocation := wal\<rparr>)))))))))))"

definition init_system :: "string \<Rightarrow> banker \<Rightarrow> (string \<times> banker) c_res" where
  "init_system inp s =
     c_bind (scanf_d inp (progress_num s)) (\<lambda>(p, inp). let s = s\<lparr>progress_num := p\<rparr> in
     c_bind (scanf_d inp (resource_num s)) (\<lambda>(r, inp). let s = s\<lparr>resource_num := r\<rparr> in
     c_bind (c_for read_available (ress s) (inp, s)) (\<lambda>(inp, s).
     c_bind (c_for (\<lambda>i. c_for (read_max i) (ress s)) (procs s) (inp, s)) (\<lambda>(inp, s).
     let (ch, inp) = (case inp of [] \<Rightarrow> (CHR 0xFF, []) | c # cs \<Rightarrow> (c, cs)) in
     c_bind (answer_loop inp ch) (\<lambda>(ch, inp).
     c_bind (if ch = CHR ''n'' then Inr (inp, s\<lparr>Allocate := zero_matrix, work_allocation := zero_matrix\<rparr>)
             else c_for (\<lambda>i. c_for (read_allocate i) (ress s)) (procs s) (inp, s)) (\<lambda>(inp, s).
     let s = s\<lparr>Request := replicate N 0, Work := replicate N 0, Finish := replicate M False\<rparr> in
     c_bind (c_for (\<lambda>i. c_for (init_need i) (ress s)) (procs s) s) (\<lambda>s. Inr (inp, s))))))))"

section \<open>Requests\<close>

definition set_work_allocation :: "nat \<Rightarrow> nat \<Rightarrow> banker \<Rightarrow> banker c_res" where
  "set_work_allocation i j s =
     c_bind (mat_read (Allocate s) (int i) (int j)) (\<lambda>al.
     c_bind (c_read (Work s) (int j)) (\<lambda>w.
     c_bind (c_int (al + w)) (\<lambda>wa.
     c_bind (mat_write (work_allocation s) (int i) (int j) wa) (\<lambda>wal.
     Inr (s\<lparr>work_allocation := wal\<rparr>)))))"

text \<open>The loop reading the process number, its bound as in the source.\<close>

function read_id :: "string \<Rightarrow> int \<Rightarrow> int \<Rightarrow> (int \<times> string) c_res" where
  "read_id inp old pnum =
     (case scan_int inp of
        (Scanned v, rest) \<Rightarrow>
          c_bind (c_int v) (\<lambda>v. if v < 0 \<or> pnum < v then read_id rest v pnum else Inr (v, rest))
      | (NoMatch, rest) \<Rightarrow> Inr (old, rest)
      | (AtEof, rest) \<Rightarrow> if old < 0 \<or> pnum < old then Inl NoReturn else Inr (old, rest))"
  by pat_completeness auto
termination
  by (relation "measure (\<lambda>(inp, old, pnum). length inp)") (auto dest: scan_int_shorter [OF sym])

definition read_request_entry :: "nat \<Rightarrow> string \<times> banker \<Rightarrow> (string \<times> banker) c_res" where
  "read_request_entry i = (\<lambda>(inp, s).
     c_bind (c_read (Request s) (int i)) (\<lambda>old.
     c_bind (scanf_d inp old) (\<lambda>(v, inp).
     c_bind (c_write (Request s) (int i) v) (\<lambda>a. Inr (inp, s\<lparr>Request := a\<rparr>)))))"

definition read_request :: "string \<Rightarrow> banker \<Rightarrow> (string \<times> banker) c_res" where
  "read_request inp s =
     c_bind (c_for (\<lambda>i. c_for (set_work_allocation i) (ress s)) (procs s) s) (\<lambda>s.
     c_bind (read_id inp (req_id s) (progress_num s)) (\<lambda>(i, inp).
     let s = s\<lparr>req_id := i\<rparr> in c_for read_request_entry (ress s) (inp, s)))"

text \<open>One round of the loop that checks and applies the request; \<open>ret\<close> is the pending result.\<close>

definition apply_request :: "nat \<Rightarrow> bool \<times> banker \<Rightarrow> (bool \<times> banker) c_res" where
  "apply_request i = (\<lambda>(ret, s).
     c_bind (c_read (Request s) (int i)) (\<lambda>rq.
     c_bind (mat_read (Need s) (req_id s) (int i)) (\<lambda>nd.
     c_bind (c_read (Available s) (int i)) (\<lambda>av.
     c_bind (mat_read (Allocate s) (req_id s) (int i)) (\<lambda>al.
     let ret = (if nd < rq then False else if av < rq then False else ret) in
     c_bind (c_int (av - rq)) (\<lambda>av'.
     c_bind (c_write (Available s) (int i) av') (\<lambda>avail.
     c_bind (c_int (al + rq)) (\<lambda>al'.
     c_bind (mat_write (Allocate s) (req_id s) (int i) al') (\<lambda>alloc.
     c_bind (c_int (nd - rq)) (\<lambda>nd'.
     c_bind (mat_write (Need s) (req_id s) (int i) nd') (\<lambda>need.
     Inr (ret, s\<lparr>Available := avail, Allocate := alloc, Need := need\<rparr>))))))))))))"

definition apply_requests :: "banker \<Rightarrow> (bool \<times> banker) c_res" where
  "apply_requests s = c_for apply_request (ress s) (True, s)"

definition try_allocate :: "string \<Rightarrow> banker \<Rightarrow> (bool \<times> string \<times> banker) c_res" where
  "try_allocate inp s =
     c_bind (read_request inp s) (\<lambda>(inp, s).
     c_bind (apply_requests s) (\<lambda>(ret, s). Inr (ret, inp, s)))"

definition undo_request :: "nat \<Rightarrow> banker \<Rightarrow> banker c_res" where
  "undo_request i s =
     c_bind (c_read (Request s) (int i)) (\<lambda>rq.
     c_bind (c_read (Available s) (int i)) (\<lambda>av.
     c_bind (c_int (av + rq)) (\<lambda>av'.
     c_bind (c_write (Available s) (int i) av') (\<lambda>avail.
     c_bind (mat_read (Allocate s) (req_id s) (int i)) (\<lambda>al.
     c_bind (c_int (al - rq)) (\<lambda>al'.
     c_bind (mat_write (Allocate s) (req_id s) (int i) al') (\<lambda>alloc.
     c_bind (mat_read (Need s) (req_id s) (int i)) (\<lambda>nd.
     c_bind (c_int (nd + rq)) (\<lambda>nd'.
     c_bind (mat_write (Need s) (req_id s) (int i) nd') (\<lambda>need.
     Inr (s\<lparr>Available := avail, Allocate := alloc, Need := need\<rparr>)))))))))))"

definition copy_allocation :: "nat \<Rightarrow> nat \<Rightarrow> banker \<Rightarrow> banker c_res" where
  "copy_allocation i j s =
     c_bind (mat_read (Allocate s) (int i) (int j)) (\<lambda>al.
     c_bind (mat_write (work_allocation s) (int i) (int j) al) (\<lambda>wal.
     Inr (s\<lparr>work_allocation := wal\<rparr>)))"

definition return_back :: "banker \<Rightarrow> banker c_res" where
  "return_back s =
     (let s = s\<lparr>Finish := replicate M False\<rparr> in
      c_bind (c_for undo_request (ress s) s) (\<lambda>s.
      let s = s\<lparr>work_allocation := zero_matrix\<rparr> in
      c_for (\<lambda>i. c_for (copy_allocation i) (ress s)) (procs s) s))"

section \<open>The safety check\<close>

definition start_work :: "nat \<Rightarrow> banker \<Rightarrow> banker c_res" where
  "start_work i s =
     c_bind (c_read (Available s) (int i)) (\<lambda>av.
     c_bind (c_write (Work s) (int i) av) (\<lambda>w.
     c_bind (mat_write (work_allocation s) 0 (int i) av) (\<lambda>wal.
     Inr (s\<lparr>Work := w, work_allocation := wal\<rparr>))))"

definition start_finish :: "nat \<Rightarrow> banker \<Rightarrow> banker c_res" where
  "start_finish i s = c_bind (c_write (Finish s) (int i) False) (\<lambda>f. Inr (s\<lparr>Finish := f\<rparr>))"

text \<open>Whether the inner loop runs to the end: the needs of process \<open>i\<close> from resource \<open>j\<close> on fit.\<close>

function needs_fit :: "banker \<Rightarrow> int \<Rightarrow> int \<Rightarrow> bool c_res" where
  "needs_fit s i j =
     (if j < resource_num s then
        c_bind (mat_read (Need s) i j) (\<lambda>nd.
        c_bind (c_read (Work s) j) (\<lambda>w.
        if w < nd then Inr (j = resource_num s) else needs_fit s i (j + 1)))
      else Inr (j = resource_num s))"
  by pat_completeness auto
termination
  by (relation "measure (\<lambda>(s, i, j). nat (resource_num s - j))") auto

definition give_back :: "int \<Rightarrow> nat \<Rightarrow> banker \<Rightarrow> banker c_res" where
  "give_back i j s =
     c_bind (c_read (Work s) (int j)) (\<lambda>w.
     c_bind (mat_read (Allocate s) i (int j)) (\<lambda>al.
     c_bind (c_int (w + al)) (\<lambda>w'.
     c_bind (c_write (Work s) (int j) w') (\<lambda>work.
     c_bind (mat_write (work_allocation s) i (int j) w') (\<lambda>wal.
     Inr (s\<lparr>Work := work, work_allocation := wal\<rparr>))))))"

text \<open>Process \<open>i\<close> finishes as number \<open>count\<close> of the sequence.\<close>

definition finish_process :: "banker \<Rightarrow> int \<Rightarrow> int \<Rightarrow> banker c_res" where
  "finish_process s count i =
     c_bind (c_write (safe s) count i) (\<lambda>sf.
     c_bind (c_for (give_back i) (ress s) (s\<lparr>safe := sf\<rparr>)) (\<lambda>s.
     c_bind (c_write (Finish s) i True) (\<lambda>f.
     Inr (s\<lparr>Finish := f\<rparr>))))"

lemma give_back_keeps:
  "give_back i j s = Inr s' \<Longrightarrow> Finish s' = Finish s \<and> progress_num s' = progress_num s"
  by (auto simp: give_back_def)

lemma give_back_loop_keeps:
  "c_for (give_back i) n s = Inr s' \<Longrightarrow> Finish s' = Finish s \<and> progress_num s' = progress_num s"
  by (induction n arbitrary: s') (auto dest!: give_back_keeps)

lemma finish_process_keeps:
  assumes "finish_process s count i = Inr s'"
  shows "0 \<le> i" "nat i < length (Finish s)" "Finish s' = (Finish s)[nat i := True]" "progress_num s' = progress_num s"
  using assms by (auto simp: finish_process_def c_write_Inr_iff dest!: give_back_loop_keeps)

lemma count_finish_decreases:
  "i < length fs \<Longrightarrow> \<not> fs ! i \<Longrightarrow> count_list (fs[i := True]) False < count_list fs False"
  by (induction fs arbitrary: i) (auto split: nat.split simp: nth_Cons)

text \<open>
  The scan over the processes.  Only when the last process has just finished does it start
  again from the first.
\<close>

function safe_loop :: "banker \<Rightarrow> int \<Rightarrow> int \<Rightarrow> (banker \<times> int) c_res" where
  "safe_loop s count i =
     (if i < progress_num s then
        c_bind (c_read (Finish s) i) (\<lambda>fin.
        if \<not> fin then
          c_bind (needs_fit s i 0) (\<lambda>fits.
          if fits then
            c_bind (finish_process s count i) (\<lambda>s'.
            safe_loop s' (count + 1) (if i = progress_num s - 1 then 0 else i + 1))
          else safe_loop s count (i + 1))
        else safe_loop s count (i + 1))
      else Inr (s, count))"
  by pat_completeness auto
termination
proof (relation "measures [\<lambda>(s, count, i). count_list (Finish s) False, \<lambda>(s, count, i). nat (progress_num s - i)]", goal_cases)
  case (2 s count i fin fits s')
  then show ?case
    using finish_process_keeps [of s count i s'] by (simp add: c_read_Inr_iff count_finish_decreases)
qed (auto simp: nat_less_eq_zless)

declare needs_fit.simps [simp del] safe_loop.simps [simp del] read_id.simps [simp del]

definition is_safe :: "banker \<Rightarrow> (bool \<times> banker) c_res" where
  "is_safe s =
     (let s = s\<lparr>work_allocation := zero_matrix\<rparr> in
      c_bind (c_for start_work (ress s) s) (\<lambda>s.
      c_bind (c_for start_finish (procs s) s) (\<lambda>s.
      c_bind (safe_loop s 0 0) (\<lambda>(s, _).
      if procs s \<le> length (Finish s) then Inr (list_all (\<lambda>f. f) (take (procs s) (Finish s)), s)
      else Inl OutOfBounds))))"

section \<open>Printing and the menu\<close>

text \<open>A printed row: process, Work, maximal demand, need, allocation, Work+Allocation, Finish.\<close>

type_synonym info_row = "int \<times> int list \<times> int list \<times> int list \<times> int list \<times> int list \<times> bool"

definition row_prefix :: "int list list \<Rightarrow> int \<Rightarrow> nat \<Rightarrow> int list c_res" where
  "row_prefix A i n = c_bind (c_read A i) (\<lambda>row. if n \<le> length row then Inr (take n row) else Inl OutOfBounds)"

definition info_row :: "banker \<Rightarrow> nat \<Rightarrow> info_row c_res" where
  "info_row s k =
     c_bind (if flag s then c_read (safe s) (int k) else Inr (int k)) (\<lambda>i.
     c_bind (row_prefix (work_allocation s) i (ress s)) (\<lambda>wal.
     c_bind (row_prefix (Allocate s) i (ress s)) (\<lambda>al.
     c_bind (row_prefix (Max_demand s) i (ress s)) (\<lambda>mx.
     c_bind (row_prefix (Need s) i (ress s)) (\<lambda>nd.
     c_bind (c_read (Finish s) i) (\<lambda>fin.
     if list_all c_int_ok (map2 (-) wal al) then Inr (i, map2 (-) wal al, mx, nd, al, wal, fin)
     else Inl SignedOverflow))))))"

definition print_info :: "banker \<Rightarrow> info_row list c_res" where
  "print_info s =
     c_for (\<lambda>k rows. c_bind (info_row s k) (\<lambda>row. Inr (rows @ [row]))) (procs s) []"

text \<open>Menu entry 2: what follows the attempt to allocate.\<close>

definition settle_request :: "bool \<Rightarrow> banker \<Rightarrow> banker c_res" where
  "settle_request ret s =
     (if ret then
        c_bind (is_safe s) (\<lambda>(ok, s).
        let s = s\<lparr>flag := ok\<rparr> in
        if \<not> ok then return_back s
        else c_bind (print_info s) (\<lambda>_. Inr s))
      else return_back s)"

definition request_command :: "string \<Rightarrow> banker \<Rightarrow> (string \<times> banker) c_res" where
  "request_command inp s =
     c_bind (try_allocate inp s) (\<lambda>(ret, inp, s).
     c_bind (settle_request ret s) (\<lambda>s. Inr (inp, s)))"

definition menu_command :: "int \<Rightarrow> string \<Rightarrow> banker \<Rightarrow> (string \<times> banker) c_res" where
  "menu_command choice inp s =
     (if choice = 1 then init_system inp s
      else if choice = 2 then request_command inp s
      else if choice = 3 then c_bind (print_info s) (\<lambda>_. Inr (inp, s))
      else if choice = 4 then c_bind (is_safe s) (\<lambda>(ok, s). Inr (inp, s\<lparr>flag := ok\<rparr>))
      else Inr (inp, s))"

text \<open>
  The menu loop, for at most the given number of rounds; at the end of the input the last
  choice is repeated for ever, unless it is 0.
\<close>

primrec main_loop :: "nat \<Rightarrow> string \<Rightarrow> int \<Rightarrow> banker \<Rightarrow> banker c_res" where
  "main_loop 0 inp choice s = Inl NoReturn"
| "main_loop (Suc n) inp choice s =
     c_bind (scanf_d inp choice) (\<lambda>(choice, inp).
     if choice = 0 then Inr s
     else c_bind (menu_command choice inp s) (\<lambda>(inp, s). main_loop n inp choice s))"

end
