(* ===== verification/Banker_Correct.thy ===== *)
theory Banker_Correct
  imports Banker
begin

text \<open>
  Correctness of \<^verbatim>\<open>banker.c\<close>: what the safety check certifies, that a request is granted
  into a safe state or undone completely, and that no resource is lost or made.
\<close>

section \<open>Matrices\<close>

definition mat_ok :: "int list list \<Rightarrow> bool" where
  "mat_ok A \<longleftrightarrow> length A = M \<and> (\<forall>i < M. length (A ! i) = N)"

lemma zero_matrix_ok [simp]: "mat_ok zero_matrix"
  by (simp add: mat_ok_def zero_matrix_def)

lemma mat_read_ok [c_mem]:
  "mat_ok A \<Longrightarrow> 0 \<le> i \<Longrightarrow> i < int M \<Longrightarrow> 0 \<le> j \<Longrightarrow> j < int N \<Longrightarrow> mat_read A i j = Inr (A ! nat i ! nat j)"
  by (simp add: mat_ok_def mat_read_def c_read_def nat_less_iff)

lemma mat_write_ok [c_mem]:
  "mat_ok A \<Longrightarrow> 0 \<le> i \<Longrightarrow> i < int M \<Longrightarrow> 0 \<le> j \<Longrightarrow> j < int N \<Longrightarrow>
   mat_write A i j x = Inr (A[nat i := (A ! nat i)[nat j := x]])"
  by (simp add: mat_ok_def mat_write_def c_read_def c_write_def nat_less_iff)

lemma mat_ok_update: "mat_ok A \<Longrightarrow> i < M \<Longrightarrow> length r = N \<Longrightarrow> mat_ok (A[i := r])"
  by (auto simp: mat_ok_def nth_list_update)

lemma mat_ok_row [simp]: "mat_ok A \<Longrightarrow> i < M \<Longrightarrow> length (A ! i) = N"
  by (simp add: mat_ok_def)

lemma mat_ok_length [simp]: "mat_ok A \<Longrightarrow> length A = M"
  by (simp add: mat_ok_def)

section \<open>Invariant\<close>

definition banker_shape :: "banker \<Rightarrow> bool" where
  "banker_shape s \<longleftrightarrow>
     0 \<le> progress_num s \<and> procs s \<le> M \<and> 0 \<le> resource_num s \<and> ress s \<le> N \<and>
     length (Available s) = N \<and> length (Request s) = N \<and> length (Work s) = N \<and>
     length (Finish s) = M \<and> length (safe s) = M \<and>
     mat_ok (Max_demand s) \<and> mat_ok (Need s) \<and> mat_ok (Allocate s) \<and> mat_ok (work_allocation s)"

definition total :: "banker \<Rightarrow> nat \<Rightarrow> int" where
  "total s j = Available s ! j + (\<Sum>i<procs s. Allocate s ! i ! j)"

text \<open>Nothing is owed or over-allocated, and the totals are representable.\<close>

definition banker_inv :: "banker \<Rightarrow> bool" where
  "banker_inv s \<longleftrightarrow> banker_shape s \<and>
     (\<forall>j < ress s. 0 \<le> Available s ! j \<and> total s j \<le> INT_MAX) \<and>
     (\<forall>i < procs s. \<forall>j < ress s.
        0 \<le> Allocate s ! i ! j \<and> 0 \<le> Need s ! i ! j \<and> Max_demand s ! i ! j \<le> INT_MAX \<and>
        Need s ! i ! j + Allocate s ! i ! j = Max_demand s ! i ! j)"

text \<open>Everything the safety check leaves alone.\<close>

definition same_allocation :: "banker \<Rightarrow> banker \<Rightarrow> bool" where
  "same_allocation s s' \<longleftrightarrow>
     progress_num s' = progress_num s \<and> resource_num s' = resource_num s \<and> req_id s' = req_id s \<and>
     Available s' = Available s \<and> Max_demand s' = Max_demand s \<and> Need s' = Need s \<and>
     Allocate s' = Allocate s \<and> Request s' = Request s"

lemma same_allocation_procs: "same_allocation s s' \<Longrightarrow> procs s' = procs s \<and> ress s' = ress s"
  by (simp add: same_allocation_def procs_def ress_def)

text \<open>
  A safe sequence: every process once, and each one's need covered by what is available
  together with the allocations of those before it.
\<close>

definition covers :: "banker \<Rightarrow> nat list \<Rightarrow> nat \<Rightarrow> bool" where
  "covers s done i \<longleftrightarrow> (\<forall>j < ress s. Need s ! i ! j \<le> Available s ! j + (\<Sum>p\<leftarrow>done. Allocate s ! p ! j))"

definition safe_prefix :: "banker \<Rightarrow> nat list \<Rightarrow> bool" where
  "safe_prefix s sq \<longleftrightarrow> distinct sq \<and> set sq \<subseteq> {..<procs s} \<and> (\<forall>k < length sq. covers s (take k sq) (sq ! k))"

definition safe_sequence :: "banker \<Rightarrow> nat list \<Rightarrow> bool" where
  "safe_sequence s sq \<longleftrightarrow> safe_prefix s sq \<and> set sq = {..<procs s}"

lemma safe_prefix_snoc:
  "safe_prefix s sq \<Longrightarrow> i \<notin> set sq \<Longrightarrow> i < procs s \<Longrightarrow> covers s sq i \<Longrightarrow> safe_prefix s (sq @ [i])"
  by (auto simp: safe_prefix_def nth_append less_Suc_eq)

lemma partial_sum_le_total:
  assumes "banker_inv s" and "distinct sq" "set sq \<subseteq> {..<procs s}" and "j < ress s"
  shows "0 \<le> (\<Sum>p\<leftarrow>sq. Allocate s ! p ! j)" and "Available s ! j + (\<Sum>p\<leftarrow>sq. Allocate s ! p ! j) \<le> INT_MAX"
proof -
  have nn: "0 \<le> Allocate s ! p ! j" if "p < procs s" for p using assms(1,4) that by (simp add: banker_inv_def)
  have sum: "(\<Sum>p\<leftarrow>sq. Allocate s ! p ! j) = (\<Sum>p\<in>set sq. Allocate s ! p ! j)"
    using assms(2) by (simp add: sum_list_distinct_conv_sum_set)
  show "0 \<le> (\<Sum>p\<leftarrow>sq. Allocate s ! p ! j)" unfolding sum using assms(3) nn by (intro sum_nonneg) auto
  have "(\<Sum>p\<in>set sq. Allocate s ! p ! j) \<le> (\<Sum>p<procs s. Allocate s ! p ! j)"
    using assms(3) nn by (intro sum_mono2) auto
  then show "Available s ! j + (\<Sum>p\<leftarrow>sq. Allocate s ! p ! j) \<le> INT_MAX"
    unfolding sum using assms(1,4) by (auto simp: banker_inv_def total_def intro: order_trans [rotated])
qed

section \<open>The safety check\<close>

text \<open>The state of the scan: the processes finished so far, in order.\<close>

definition scan_inv :: "banker \<Rightarrow> banker \<Rightarrow> nat list \<Rightarrow> bool" where
  "scan_inv s0 s sq \<longleftrightarrow>
     same_allocation s0 s \<and> banker_shape s \<and> safe_prefix s0 sq \<and>
     (\<forall>i < procs s0. Finish s ! i \<longleftrightarrow> i \<in> set sq) \<and>
     take (length sq) (safe s) = map int sq \<and>
     (\<forall>j < ress s0. Work s ! j = Available s0 ! j + (\<Sum>p\<leftarrow>sq. Allocate s0 ! p ! j)) \<and>
     (\<forall>i < procs s0. \<forall>j < ress s0. 0 \<le> work_allocation s ! i ! j \<and> work_allocation s ! i ! j \<le> INT_MAX)"

lemma needs_fit_eq:
  assumes "banker_shape s" and "0 \<le> i" "nat i < procs s" and "0 \<le> j" "j \<le> resource_num s"
  shows "needs_fit s i j = Inr (\<forall>k < ress s. j \<le> int k \<longrightarrow> Need s ! nat i ! k \<le> Work s ! k)"
  using assms
proof (induction s i j rule: needs_fit.induct)
  case (1 s i j)
  show ?case
  proof (cases "j < resource_num s")
    case False
    then show ?thesis unfolding needs_fit.simps [of s i j] using 1(6) by (auto simp: ress_def)
  next
    case True
    have j: "nat j < ress s" "nat j < N" "i < int M" "j < int N"
      using True 1(2-) by (auto simp: ress_def banker_shape_def procs_def)
    have rd: "mat_read (Need s) i j = Inr (Need s ! nat i ! nat j)" "c_read (Work s) j = Inr (Work s ! nat j)"
      using 1(2-) j by (simp_all add: c_mem banker_shape_def)
    show ?thesis
    proof (cases "Work s ! nat j < Need s ! nat i ! nat j")
      case less: True
      then have "\<not> (\<forall>k < ress s. j \<le> int k \<longrightarrow> Need s ! nat i ! k \<le> Work s ! k)"
        using j(1) 1(5) by (auto intro!: exI [of _ "nat j"])
      with less True rd show ?thesis by (simp add: needs_fit.simps [of s i j])
    next
      case False
      have "needs_fit s i (j + 1) = Inr (\<forall>k < ress s. j + 1 \<le> int k \<longrightarrow> Need s ! nat i ! k \<le> Work s ! k)"
        using 1(1) [OF True rd False] 1(2-) True by simp
      moreover have "j \<le> int k \<longleftrightarrow> j + 1 \<le> int k \<or> k = nat j" for k using 1(5) by auto
      then have "(\<forall>k < ress s. j \<le> int k \<longrightarrow> Need s ! nat i ! k \<le> Work s ! k) \<longleftrightarrow>
          (\<forall>k < ress s. j + 1 \<le> int k \<longrightarrow> Need s ! nat i ! k \<le> Work s ! k)"
        using False by (simp only: linorder_not_less) blast
      ultimately show ?thesis using True rd False by (simp add: needs_fit.simps [of s i j])
    qed
  qed
qed

lemma give_back_loop:
  assumes "banker_shape s" and "i < procs s" and "n \<le> ress s"
    and "\<And>j. j < n \<Longrightarrow> c_int_ok (Work s ! j + Allocate s ! i ! j)"
  shows "c_for (give_back (int i)) n s =
    Inr (s\<lparr>Work := pre_upd n (\<lambda>j w. w + Allocate s ! i ! j) (Work s),
           work_allocation := (work_allocation s)[i := pre_upd n (\<lambda>j _. Work s ! j + Allocate s ! i ! j) (work_allocation s ! i)]\<rparr>)"
proof -
  let ?F = "\<lambda>k. s\<lparr>Work := pre_upd k (\<lambda>j w. w + Allocate s ! i ! j) (Work s),
           work_allocation := (work_allocation s)[i := pre_upd k (\<lambda>j _. Work s ! j + Allocate s ! i ! j) (work_allocation s ! i)]\<rparr>"
  have i: "i < M" using assms(1,2) by (simp add: banker_shape_def)
  have "c_for (give_back (int i)) n (?F 0) = Inr (?F n)"
  proof (rule c_for_closed)
    fix k assume "k < n"
    then have k: "k < N" "c_int_ok (Work s ! k + Allocate s ! i ! k)" using assms by (auto simp: banker_shape_def)
    have wal: "mat_ok (work_allocation s)" "length (Work s) = N" "mat_ok (Allocate s)" using assms(1) by (simp_all add: banker_shape_def)
    have wal': "mat_ok ((work_allocation s)[i := pre_upd k (\<lambda>j _. Work s ! j + Allocate s ! i ! j) (work_allocation s ! i)])"
      using wal i by (simp add: mat_ok_update)
    show "give_back (int i) k (?F k) = Inr (?F (Suc k))"
      using wal wal' i k by (simp add: give_back_def c_mem c_int_def pre_upd_Suc [symmetric])
  qed
  then show ?thesis by simp
qed

lemma sum_list_snoc [simp]: "(\<Sum>p\<leftarrow>sq @ [i]. f p) = (\<Sum>p\<leftarrow>sq. f p) + (f i :: int)"
  by simp

lemma finish_process_step:
  assumes s0: "banker_inv s0" and inv: "scan_inv s0 s sq" and i: "i < procs s0" "\<not> Finish s ! i"
    and fits: "\<forall>j < ress s0. Need s ! i ! j \<le> Work s ! j"
  shows "\<exists>s'. finish_process s (int (length sq)) (int i) = Inr s' \<and> scan_inv s0 s' (sq @ [i])"
proof -
  have same: "same_allocation s0 s" and shape: "banker_shape s" and pre: "safe_prefix s0 sq" using inv by (simp_all add: scan_inv_def)
  note ps = same_allocation_procs [OF same]
  have new: "i \<notin> set sq" using inv i by (simp add: scan_inv_def)
  have work: "Work s ! j = Available s0 ! j + (\<Sum>p\<leftarrow>sq. Allocate s0 ! p ! j)" if "j < ress s0" for j
    using inv that by (simp add: scan_inv_def)
  have cov: "covers s0 sq i" using fits work same by (simp add: covers_def same_allocation_def)
  have pre': "safe_prefix s0 (sq @ [i])" by (rule safe_prefix_snoc [OF pre new i(1) cov])
  have alloc: "Allocate s = Allocate s0" using same by (simp add: same_allocation_def)
  have bound: "0 \<le> Work s ! j + Allocate s ! i ! j" "Work s ! j + Allocate s ! i ! j \<le> INT_MAX" if "j < ress s0" for j
    using partial_sum_le_total [OF s0 _ _ that, of "sq @ [i]"] pre' work [OF that] s0 that alloc
    by (auto simp: safe_prefix_def banker_inv_def)
  then have ok: "c_int_ok (Work s ! j + Allocate s ! i ! j)" if "j < ress s0" for j
    using that by (force simp: c_int_ok_def INT_MIN_def)
  have len: "length sq < M"
  proof -
    have "length (sq @ [i]) \<le> card {..<procs s0}"
      using pre' card_mono [of "{..<procs s0}" "set (sq @ [i])"] distinct_card [of "sq @ [i]"] by (simp add: safe_prefix_def)
    then show ?thesis using shape ps by (simp add: banker_shape_def)
  qed
  let ?s1 = "s\<lparr>safe := (safe s)[length sq := int i]\<rparr>"
  let ?s' = "?s1\<lparr>Work := pre_upd (ress s) (\<lambda>j w. w + Allocate s ! i ! j) (Work s),
      work_allocation := (work_allocation s)[i := pre_upd (ress s) (\<lambda>j _. Work s ! j + Allocate s ! i ! j) (work_allocation s ! i)],
      Finish := (Finish s)[i := True]\<rparr>"
  have iM: "i < M" using i shape ps by (simp add: banker_shape_def)
  have "c_for (give_back (int i)) (ress ?s1) ?s1 = Inr (?s1\<lparr>Work := pre_upd (ress s) (\<lambda>j w. w + Allocate s ! i ! j) (Work s),
      work_allocation := (work_allocation s)[i := pre_upd (ress s) (\<lambda>j _. Work s ! j + Allocate s ! i ! j) (work_allocation s ! i)]\<rparr>)"
    using give_back_loop [of ?s1 i "ress s"] shape i ps ok
    by (simp add: banker_shape_def procs_def ress_def)
  then have "finish_process s (int (length sq)) (int i) = Inr ?s'"
    using shape len iM by (simp add: finish_process_def c_mem banker_shape_def ress_def)
  moreover have "scan_inv s0 ?s' (sq @ [i])"
    unfolding scan_inv_def
  proof (intro conjI)
    show "same_allocation s0 ?s'" using same by (simp add: same_allocation_def)
    show "banker_shape ?s'" using shape iM by (simp add: banker_shape_def procs_def ress_def mat_ok_update)
    show "\<forall>k < procs s0. Finish ?s' ! k \<longleftrightarrow> k \<in> set (sq @ [i])"
      using inv shape ps iM by (auto simp: scan_inv_def banker_shape_def nth_list_update)
    show "take (length (sq @ [i])) (safe ?s') = map int (sq @ [i])"
      using inv shape len by (simp add: scan_inv_def banker_shape_def take_Suc_conv_app_nth)
    show "\<forall>j < ress s0. Work ?s' ! j = Available s0 ! j + (\<Sum>p\<leftarrow>sq @ [i]. Allocate s0 ! p ! j)"
      using work ps shape alloc by (simp add: banker_shape_def)
    show "\<forall>k < procs s0. \<forall>j < ress s0. 0 \<le> work_allocation ?s' ! k ! j \<and> work_allocation ?s' ! k ! j \<le> INT_MAX"
      using inv ps shape bound iM by (simp add: scan_inv_def banker_shape_def nth_list_update)
  qed (rule pre')
  ultimately show ?thesis by blast
qed

text \<open>
  What the scan is: one pass over the processes in order, which finishes each one whose need is covered so far, and one more pass
  just when the first one has finished the last process.
\<close>

definition visit :: "banker \<Rightarrow> nat \<Rightarrow> nat list \<Rightarrow> nat list" where
  "visit s i sq = (if i \<notin> set sq \<and> covers s sq i then sq @ [i] else sq)"

definition one_pass :: "banker \<Rightarrow> nat list \<Rightarrow> nat list" where
  "one_pass s sq = fold (visit s) [0..<procs s] sq"

definition scan_order :: "banker \<Rightarrow> nat list" where
  "scan_order s = (let sq = one_pass s [] in if procs s - 1 \<in> set sq then one_pass s sq else sq)"

lemma visit_keeps: "set sq \<subseteq> set (fold (visit s) xs sq)"
proof (induction xs arbitrary: sq)
  case (Cons x xs)
  have "set sq \<subseteq> set (visit s x sq)" by (auto simp: visit_def)
  with Cons [of "visit s x sq"] show ?case by simp
qed simp

text \<open>The rest of the scan from process \<open>i\<close> on.\<close>

definition scan_rest :: "banker \<Rightarrow> nat \<Rightarrow> nat list \<Rightarrow> nat list" where
  "scan_rest s i sq =
     (let sq' = fold (visit s) [i..<procs s] sq in if procs s - 1 \<in> set sq' \<and> procs s - 1 \<notin> set sq then one_pass s sq' else sq')"

lemma scan_rest_start: "scan_rest s 0 [] = scan_order s"
  by (simp add: scan_rest_def scan_order_def one_pass_def)

lemma scan_rest_end: "scan_rest s (procs s) sq = sq"
  by (simp add: scan_rest_def)

lemma scan_rest_skip:
  assumes "i < procs s" and "visit s i sq = sq"
  shows "scan_rest s i sq = scan_rest s (Suc i) sq"
  using assms by (simp add: scan_rest_def upt_conv_Cons)

lemma scan_rest_visit:
  assumes "i < procs s" and "visit s i sq = sq @ [i]" and "i \<notin> set sq"
  shows "scan_rest s i sq = scan_rest s (if i = procs s - 1 then 0 else Suc i) (sq @ [i])"
proof (cases "i = procs s - 1")
  case True
  have "set (sq @ [i]) \<subseteq> set (fold (visit s) [0..<procs s] (sq @ [i]))" by (rule visit_keeps)
  moreover have e: "[i..<procs s] = [i]" using assms(1) True by (simp add: upt_conv_Cons)
  ultimately show ?thesis using True assms by (simp add: scan_rest_def one_pass_def e)
qed (use assms in \<open>simp add: scan_rest_def upt_conv_Cons\<close>)

lemma covers_fits:
  assumes "scan_inv s0 s sq"
  shows "covers s0 sq i \<longleftrightarrow> (\<forall>j < ress s. Need s ! i ! j \<le> Work s ! j)"
  using assms same_allocation_procs [of s0 s] by (auto simp: scan_inv_def covers_def same_allocation_def)

lemma safe_loop_exact:
  assumes "banker_inv s0" and "scan_inv s0 s sq" and "count = int (length sq)" and "0 \<le> i" "i \<le> progress_num s"
  shows "\<exists>s' c. safe_loop s count i = Inr (s', c) \<and> scan_inv s0 s' (scan_rest s0 (nat i) sq)"
  using assms
proof (induction s count i arbitrary: sq rule: safe_loop.induct)
  case (1 s count i)
  have same: "same_allocation s0 s" and shape: "banker_shape s" using 1(5) by (simp_all add: scan_inv_def)
  note ps = same_allocation_procs [OF same]
  show ?case
  proof (cases "i < progress_num s")
    case False
    then have "nat i = procs s0" using 1(7,8) ps by (simp add: procs_def)
    with False 1(5) show ?thesis by (simp add: safe_loop.simps [of s count i] scan_rest_end)
  next
    case True
    define k where "k = nat i"
    have k: "i = int k" "k < procs s" using True 1(7) by (auto simp: k_def procs_def)
    have next_k: "nat (i + 1) = Suc k" using k(1) by simp
    have fin_iff: "Finish s ! k \<longleftrightarrow> k \<in> set sq" using 1(5) k(2) ps by (simp add: scan_inv_def)
    have rd: "c_read (Finish s) i = Inr (Finish s ! k)" using shape k by (simp add: c_mem banker_shape_def)
    have fit: "needs_fit s i 0 = Inr (covers s0 sq k)"
      using needs_fit_eq [OF shape, of i 0] k shape covers_fits [OF 1(5), of k] by (simp add: banker_shape_def)
    note loop = safe_loop.simps [of s count i, unfolded if_P [OF True] rd fit c_bind_simps]
    show ?thesis
    proof (cases "k \<notin> set sq \<and> covers s0 sq k")
      case False
      then have "visit s0 k sq = sq" by (simp add: visit_def)
      then have skip: "scan_rest s0 k sq = scan_rest s0 (Suc k) sq" using k(2) ps by (simp add: scan_rest_skip)
      have "\<exists>s' c. safe_loop s count (i + 1) = Inr (s', c) \<and> scan_inv s0 s' (scan_rest s0 (Suc k) sq)"
      proof (cases "Finish s ! k")
        case fin: True
        show ?thesis by (rule 1(3) [OF True rd _ 1(4-6), unfolded next_k]) (use fin True 1(7) in simp_all)
      next
        case nfin: False
        then have unfit: "needs_fit s i 0 = Inr False" using fit False fin_iff by simp
        show ?thesis by (rule 1(2) [OF True rd _ unfit _ 1(4-6), unfolded next_k]) (use nfin True 1(7) in simp_all)
      qed
      moreover have "safe_loop s count i = safe_loop s count (i + 1)"
        unfolding loop using False fin_iff by auto
      ultimately show ?thesis using skip k(1) by simp
    next
      case new: True
      have nfin: "\<not> Finish s ! k" using new fin_iff by simp
      have fits: "\<forall>j < ress s0. Need s ! k ! j \<le> Work s ! j" using new covers_fits [OF 1(5), of k] ps by simp
      from finish_process_step [OF 1(4,5), of k] k ps nfin fits obtain s1 where
        s1: "finish_process s count i = Inr s1" "scan_inv s0 s1 (sq @ [k])"
        using 1(6) by auto
      let ?i = "if i = progress_num s - 1 then 0 else i + 1"
      have pn: "progress_num s1 = progress_num s" using s1(2) same by (simp add: scan_inv_def same_allocation_def)
      have "visit s0 k sq = sq @ [k]" using new by (simp add: visit_def)
      then have visit: "scan_rest s0 k sq = scan_rest s0 (if k = procs s0 - 1 then 0 else Suc k) (sq @ [k])"
        using k(2) ps new by (simp add: scan_rest_visit)
      have "progress_num s = int (procs s0)" using True k(1) same by (simp add: procs_def same_allocation_def)
      then have "i = progress_num s - 1 \<longleftrightarrow> k = procs s0 - 1" using k ps by linarith
      then have ni: "nat ?i = (if k = procs s0 - 1 then 0 else Suc k)" using next_k by simp
      have "\<exists>s' c. safe_loop s1 (count + 1) ?i = Inr (s', c) \<and> scan_inv s0 s' (scan_rest s0 (nat ?i) (sq @ [k]))"
        by (rule 1(1) [OF True rd _ fit _ s1(1) 1(4) s1(2)]) (use nfin new 1(6,7) True pn in simp_all)
      moreover have "safe_loop s count i = safe_loop s1 (count + 1) ?i" unfolding loop using nfin new s1(1) by simp
      moreover have "scan_rest s0 (nat i) sq = scan_rest s0 (nat ?i) (sq @ [k])" unfolding ni using visit k(1) by simp
      ultimately show ?thesis by simp
    qed
  qed
qed

lemma start_work_loop:
  assumes "banker_shape s" and "n \<le> ress s"
  shows "c_for start_work n s =
    Inr (s\<lparr>Work := pre_upd n (\<lambda>j _. Available s ! j) (Work s),
           work_allocation := (work_allocation s)[0 := pre_upd n (\<lambda>j _. Available s ! j) (work_allocation s ! 0)]\<rparr>)"
proof -
  let ?F = "\<lambda>k. s\<lparr>Work := pre_upd k (\<lambda>j _. Available s ! j) (Work s),
           work_allocation := (work_allocation s)[0 := pre_upd k (\<lambda>j _. Available s ! j) (work_allocation s ! 0)]\<rparr>"
  have "c_for start_work n (?F 0) = Inr (?F n)"
  proof (rule c_for_closed)
    fix k assume "k < n"
    then have k: "k < N" using assms by (simp add: banker_shape_def)
    have M0: "0 < M" by (simp add: M_def)
    have wal: "mat_ok (work_allocation s)" "length (Work s) = N" "length (Available s) = N" using assms(1) by (simp_all add: banker_shape_def)
    have "mat_ok ((work_allocation s)[0 := pre_upd k (\<lambda>j _. Available s ! j) (work_allocation s ! 0)])"
      using wal M0 by (simp add: mat_ok_update)
    then show "start_work k (?F k) = Inr (?F (Suc k))"
      using wal k M0 by (simp add: start_work_def c_mem pre_upd_Suc [symmetric])
  qed
  then show ?thesis by simp
qed

lemma start_finish_loop:
  assumes "n \<le> length (Finish s)"
  shows "c_for start_finish n s = Inr (s\<lparr>Finish := pre_upd n (\<lambda>_ _. False) (Finish s)\<rparr>)"
proof -
  have "c_for start_finish n (s\<lparr>Finish := pre_upd 0 (\<lambda>_ _. False) (Finish s)\<rparr>) = Inr (s\<lparr>Finish := pre_upd n (\<lambda>_ _. False) (Finish s)\<rparr>)"
    by (rule c_for_closed) (use assms in \<open>simp add: start_finish_def c_mem pre_upd_Suc [symmetric]\<close>)
  then show ?thesis by simp
qed

lemma zero_matrix_nth [simp]: "i < M \<Longrightarrow> j < N \<Longrightarrow> zero_matrix ! i ! j = 0"
  by (simp add: zero_matrix_def)

lemma is_safe_scan:
  assumes "banker_inv s"
  shows "\<exists>s'. is_safe s = Inr (set (scan_order s) = {..<procs s}, s') \<and> scan_inv s s' (scan_order s)"
proof -
  have shape: "banker_shape s" using assms by (simp add: banker_inv_def)
  let ?s1 = "s\<lparr>work_allocation := zero_matrix\<rparr>"
  let ?s2 = "?s1\<lparr>Work := pre_upd (ress s) (\<lambda>j _. Available s ! j) (Work s),
      work_allocation := zero_matrix[0 := pre_upd (ress s) (\<lambda>j _. Available s ! j) (zero_matrix ! 0)]\<rparr>"
  let ?s3 = "?s2\<lparr>Finish := pre_upd (procs s) (\<lambda>_ _. False) (Finish s)\<rparr>"
  have M0: "0 < M" by (simp add: M_def)
  have shape1: "banker_shape ?s1" using shape by (simp add: banker_shape_def procs_def ress_def)
  have 1: "c_for start_work (ress ?s1) ?s1 = Inr ?s2"
    using start_work_loop [OF shape1, of "ress s"] by (simp add: ress_def)
  have 2: "c_for start_finish (procs ?s2) ?s2 = Inr ?s3"
    using start_finish_loop [of "procs s" ?s2] shape by (simp add: banker_shape_def procs_def)
  have av: "0 \<le> Available s ! j \<and> Available s ! j \<le> INT_MAX" if "j < ress s" for j
    using partial_sum_le_total [OF assms _ _ that, of "[]"] assms that by (simp add: banker_inv_def)
  have "scan_inv s ?s3 []"
    unfolding scan_inv_def
  proof (intro conjI)
    show "banker_shape ?s3" using shape M0 by (simp add: banker_shape_def procs_def ress_def mat_ok_update)
    show "\<forall>i < procs s. \<forall>j < ress s. 0 \<le> work_allocation ?s3 ! i ! j \<and> work_allocation ?s3 ! i ! j \<le> INT_MAX"
      using shape av M0 by (simp add: banker_shape_def nth_list_update INT_MAX_def)
  qed (use shape in \<open>auto simp: same_allocation_def safe_prefix_def banker_shape_def\<close>)
  from safe_loop_exact [OF assms this, of 0 0] shape obtain s' c where
    3: "safe_loop ?s3 0 0 = Inr (s', c)" "scan_inv s s' (scan_order s)" by (auto simp: scan_rest_start banker_shape_def)
  define sq where "sq = scan_order s"
  note 3 = 3 [folded sq_def]
  then have ps: "procs s' = procs s" and len: "length (Finish s') = M" and sub: "set sq \<subseteq> {..<procs s}"
    and fin: "\<forall>i < procs s. Finish s' ! i \<longleftrightarrow> i \<in> set sq" and pM: "procs s \<le> M"
    using same_allocation_procs shape by (auto simp: scan_inv_def banker_shape_def safe_prefix_def)
  have "is_safe s = Inr (list_all (\<lambda>f. f) (take (procs s) (Finish s')), s')"
    unfolding is_safe_def Let_def using 1 2 3(1) ps len pM by simp
  moreover have "list_all (\<lambda>f. f) (take (procs s) (Finish s')) \<longleftrightarrow> (\<forall>i < procs s. Finish s' ! i)"
    using len pM by (simp add: list_all_length)
  moreover have "(\<forall>i < procs s. Finish s' ! i) \<longleftrightarrow> set sq = {..<procs s}" using fin sub by auto
  ultimately show ?thesis using 3(2) unfolding sq_def [symmetric] by simp
qed

lemma is_safe_result:
  assumes "banker_inv s"
  shows "\<exists>r s' sq. is_safe s = Inr (r, s') \<and> scan_inv s s' sq \<and> (r \<longleftrightarrow> set sq = {..<procs s})"
  using is_safe_scan [OF assms] by blast

section \<open>Applying and undoing a request\<close>

definition after_request :: "nat \<Rightarrow> banker \<Rightarrow> banker" where
  "after_request k s =
     (let p = nat (req_id s) in
      s\<lparr>Available := pre_upd k (\<lambda>j x. x - Request s ! j) (Available s),
        Allocate := (Allocate s)[p := pre_upd k (\<lambda>j x. x + Request s ! j) (Allocate s ! p)],
        Need := (Need s)[p := pre_upd k (\<lambda>j x. x - Request s ! j) (Need s ! p)]\<rparr>)"

definition before_request :: "nat \<Rightarrow> banker \<Rightarrow> banker" where
  "before_request k s =
     (let p = nat (req_id s) in
      s\<lparr>Available := pre_upd k (\<lambda>j x. x + Request s ! j) (Available s),
        Allocate := (Allocate s)[p := pre_upd k (\<lambda>j x. x - Request s ! j) (Allocate s ! p)],
        Need := (Need s)[p := pre_upd k (\<lambda>j x. x + Request s ! j) (Need s ! p)]\<rparr>)"

definition request_fits :: "nat \<Rightarrow> banker \<Rightarrow> bool" where
  "request_fits k s \<longleftrightarrow>
     (\<forall>j < k. Request s ! j \<le> Need s ! nat (req_id s) ! j \<and> Request s ! j \<le> Available s ! j)"

lemma apply_requests_eq:
  assumes shape: "banker_shape s" and id: "0 \<le> req_id s" "req_id s < int M"
    and ok: "\<And>j. j < ress s \<Longrightarrow> c_int_ok (Available s ! j - Request s ! j) \<and>
       c_int_ok (Allocate s ! nat (req_id s) ! j + Request s ! j) \<and> c_int_ok (Need s ! nat (req_id s) ! j - Request s ! j)"
  shows "apply_requests s = Inr (request_fits (ress s) s, after_request (ress s) s)"
proof -
  let ?p = "nat (req_id s)"
  have p: "?p < M" "req_id s = int ?p" using id by auto
  have "c_for apply_request (ress s) (request_fits 0 s, after_request 0 s) = Inr (request_fits (ress s) s, after_request (ress s) s)"
  proof (rule c_for_closed)
    fix k assume k: "k < ress s"
    then have kN: "k < N" using shape by (simp add: banker_shape_def)
    have mats: "mat_ok (Need s)" "mat_ok (Allocate s)" "length (Request s) = N" "length (Available s) = N"
      using shape by (simp_all add: banker_shape_def)
    then have upd: "mat_ok ((Need s)[?p := pre_upd k (\<lambda>j x. x - Request s ! j) (Need s ! ?p)])"
      "mat_ok ((Allocate s)[?p := pre_upd k (\<lambda>j x. x + Request s ! j) (Allocate s ! ?p)])"
      using p by (simp_all add: mat_ok_update)
    have fits: "request_fits (Suc k) s \<longleftrightarrow>
        (if Need s ! ?p ! k < Request s ! k then False else if Available s ! k < Request s ! k then False else request_fits k s)"
      by (auto simp: request_fits_def less_Suc_eq)
    show "apply_request k (request_fits k s, after_request k s) = Inr (request_fits (Suc k) s, after_request (Suc k) s)"
      unfolding fits using ok [OF k] mats upd kN p id
      by (simp add: apply_request_def after_request_def Let_def c_mem c_int_def pre_upd_Suc [symmetric])
  qed
  then show ?thesis by (simp add: apply_requests_def request_fits_def after_request_def Let_def)
qed

lemma undo_requests_eq:
  assumes shape: "banker_shape s" and id: "0 \<le> req_id s" "req_id s < int M" and n: "n \<le> ress s"
    and ok: "\<And>j. j < n \<Longrightarrow> c_int_ok (Available s ! j + Request s ! j) \<and>
       c_int_ok (Allocate s ! nat (req_id s) ! j - Request s ! j) \<and> c_int_ok (Need s ! nat (req_id s) ! j + Request s ! j)"
  shows "c_for undo_request n s = Inr (before_request n s)"
proof -
  let ?p = "nat (req_id s)"
  have p: "?p < M" "req_id s = int ?p" using id by auto
  have "c_for undo_request n (before_request 0 s) = Inr (before_request n s)"
  proof (rule c_for_closed)
    fix k assume k: "k < n"
    then have kN: "k < N" using shape n by (simp add: banker_shape_def)
    have mats: "mat_ok (Need s)" "mat_ok (Allocate s)" "length (Request s) = N" "length (Available s) = N"
      using shape by (simp_all add: banker_shape_def)
    then have upd: "mat_ok ((Need s)[?p := pre_upd k (\<lambda>j x. x + Request s ! j) (Need s ! ?p)])"
      "mat_ok ((Allocate s)[?p := pre_upd k (\<lambda>j x. x - Request s ! j) (Allocate s ! ?p)])"
      using p by (simp_all add: mat_ok_update)
    show "undo_request k (before_request k s) = Inr (before_request (Suc k) s)"
      using ok [OF k] mats upd kN p id
      by (simp add: undo_request_def before_request_def Let_def c_mem c_int_def pre_upd_Suc [symmetric])
  qed
  then show ?thesis by (simp add: before_request_def Let_def)
qed

lemma after_request_shape:
  "banker_shape s \<Longrightarrow> 0 \<le> req_id s \<Longrightarrow> req_id s < int M \<Longrightarrow> banker_shape (after_request k s)"
  by (auto simp: banker_shape_def after_request_def Let_def procs_def ress_def nat_less_iff intro!: mat_ok_update)

lemma copy_loop:
  assumes "banker_shape s"
  shows "\<exists>w. c_for (\<lambda>i. c_for (copy_allocation i) (ress s)) (procs s) s = Inr (s\<lparr>work_allocation := w\<rparr>) \<and> mat_ok w"
proof -
  let ?P = "\<lambda>_ t. \<exists>w. t = s\<lparr>work_allocation := w\<rparr> \<and> mat_ok w"
  have base: "?P 0 s" using assms by (auto intro!: exI [of _ "work_allocation s"] simp: banker_shape_def)
  have step: "\<exists>t'. copy_allocation i j t = Inr t' \<and> ?P (Suc j) t'" if "i < procs s" "j < ress s" "?P j t" for i j t
  proof -
    from that(3) obtain w where w: "t = s\<lparr>work_allocation := w\<rparr>" "mat_ok w" by blast
    have "i < M" "j < N" "mat_ok (Allocate s)" using that(1,2) assms by (simp_all add: banker_shape_def)
    with w have "copy_allocation i j t = Inr (s\<lparr>work_allocation := w[i := (w ! i)[j := Allocate s ! i ! j]]\<rparr>)"
      "mat_ok (w[i := (w ! i)[j := Allocate s ! i ! j]])"
      by (simp_all add: copy_allocation_def c_mem mat_ok_update)
    then show ?thesis by blast
  qed
  have "\<exists>t. c_for (\<lambda>i. c_for (copy_allocation i) (ress s)) (procs s) s = Inr t \<and> ?P (procs s) t"
  proof (rule c_for_inv [where P = ?P, OF base])
    fix i t assume i: "i < procs s" and t: "?P i t"
    show "\<exists>t'. c_for (copy_allocation i) (ress s) t = Inr t' \<and> ?P (Suc i) t'"
      by (rule c_for_inv [where P = ?P, OF t step [OF i]])
  qed
  then show ?thesis by blast
qed

text \<open>Undoing a request restores the matrices exactly.\<close>

lemma return_back_restores:
  assumes shape: "banker_shape s" and id: "0 \<le> req_id s" "req_id s < int M"
    and ok: "\<And>j. j < ress s \<Longrightarrow> c_int_ok (Available s ! j) \<and>
       c_int_ok (Allocate s ! nat (req_id s) ! j) \<and> c_int_ok (Need s ! nat (req_id s) ! j)"
    and t: "same_allocation (after_request (ress s) s) t" "banker_shape t"
  shows "\<exists>t'. return_back t = Inr t' \<and> same_allocation s t' \<and> banker_shape t'"
proof -
  let ?p = "nat (req_id s)" let ?t = "t\<lparr>Finish := replicate M False\<rparr>"
  have p: "?p < M" using id by auto
  have same: "req_id t = req_id s" "Request t = Request s" "Available t = Available (after_request (ress s) s)"
    "Allocate t = Allocate (after_request (ress s) s)" "Need t = Need (after_request (ress s) s)"
    "progress_num t = progress_num s" "resource_num t = resource_num s" "Max_demand t = Max_demand s"
    using t(1) by (simp_all add: same_allocation_def after_request_def Let_def)
  have ps: "ress t = ress s" "procs t = procs s" using same by (simp_all add: ress_def procs_def)
  have shape': "banker_shape ?t" using t(2) by (simp add: banker_shape_def procs_def ress_def)
  have rN: "ress s \<le> N" and mats: "mat_ok (Allocate s)" "mat_ok (Need s)" "length (Available s) = N"
    using shape by (simp_all add: banker_shape_def)
  have undone: "c_for undo_request (ress ?t) ?t = Inr (before_request (ress s) ?t)"
    using undo_requests_eq [OF shape', of "ress s"] same ps id ok p rN mats
    by (simp add: after_request_def Let_def ress_def)
  let ?b = "before_request (ress s) ?t"
  have restored: "Available ?b = Available s" "Allocate ?b = Allocate s" "Need ?b = Need s"
    using same p mats by (simp_all add: before_request_def after_request_def Let_def pre_upd_inverse)
  have keep: "progress_num ?b = progress_num s" "resource_num ?b = resource_num s" "req_id ?b = req_id s"
      "Max_demand ?b = Max_demand s" "Request ?b = Request s"
    using same by (simp_all add: before_request_def Let_def)
  let ?c = "?b\<lparr>work_allocation := zero_matrix\<rparr>"
  have fields: "Work ?b = Work t" "safe ?b = safe t" "Finish ?b = replicate M False"
    by (simp_all add: before_request_def Let_def)
  have shape_c: "banker_shape ?c"
    using shape t(2) restored keep fields by (simp add: banker_shape_def procs_def ress_def)
  from copy_loop [OF this] obtain w where
    w: "c_for (\<lambda>i. c_for (copy_allocation i) (ress ?c)) (procs ?c) ?c = Inr (?c\<lparr>work_allocation := w\<rparr>)" "mat_ok w" by blast
  then have "return_back t = Inr (?c\<lparr>work_allocation := w\<rparr>)"
    unfolding return_back_def Let_def using undone by simp
  moreover have "same_allocation s (?c\<lparr>work_allocation := w\<rparr>)" using restored keep by (simp add: same_allocation_def)
  moreover have "banker_shape (?c\<lparr>work_allocation := w\<rparr>)"
    using shape_c w(2) by (simp add: banker_shape_def procs_def ress_def)
  ultimately show ?thesis by blast
qed

section \<open>A whole request\<close>

lemma row_prefix_ok [c_mem]:
  "mat_ok A \<Longrightarrow> 0 \<le> i \<Longrightarrow> i < int M \<Longrightarrow> n \<le> N \<Longrightarrow> row_prefix A i n = Inr (take n (A ! nat i))"
  by (simp add: row_prefix_def c_read_def nat_less_iff)

lemma print_info_ok:
  assumes inv: "banker_inv s" and scan: "scan_inv s t sq" and all: "set sq = {..<procs s}"
  shows "\<exists>rows. print_info (t\<lparr>flag := True\<rparr>) = Inr rows"
proof -
  let ?t = "t\<lparr>flag := True\<rparr>"
  have same: "same_allocation s t" and shape: "banker_shape t" and pre: "safe_prefix s sq"
    and sf: "take (length sq) (safe t) = map int sq"
    using scan by (simp_all add: scan_inv_def)
  note ps = same_allocation_procs [OF same]
  have len: "length sq = procs s"
    using pre all distinct_card [of sq] by (simp add: safe_prefix_def)
  have row: "\<exists>row. info_row ?t k = Inr row" if k: "k < procs s" for k
  proof -
    let ?i = "sq ! k"
    have "safe t ! k = map int sq ! k" using sf k len by (metis nth_take)
    then have i: "safe t ! k = int ?i" "?i < procs s" using k len all by (auto simp: nth_mem [of k sq, unfolded all] set_conv_nth)
    have bounds: "procs s \<le> M" "ress s \<le> N" "length (safe t) = M" "length (Finish t) = M"
      using shape ps by (simp_all add: banker_shape_def)
    have "c_int_ok (work_allocation t ! ?i ! j - Allocate t ! ?i ! j)" if j: "j < ress s" for j
    proof -
      have "0 \<le> Allocate s ! ?i ! j" "0 \<le> Need s ! ?i ! j" "Max_demand s ! ?i ! j \<le> INT_MAX"
        "Need s ! ?i ! j + Allocate s ! ?i ! j = Max_demand s ! ?i ! j"
        using inv i(2) j by (simp_all add: banker_inv_def)
      then have "0 \<le> Allocate s ! ?i ! j" "Allocate s ! ?i ! j \<le> INT_MAX" by linarith+
      moreover have "0 \<le> work_allocation t ! ?i ! j" "work_allocation t ! ?i ! j \<le> INT_MAX"
        using scan i(2) j by (simp_all add: scan_inv_def)
      ultimately show ?thesis using same by (simp add: same_allocation_def c_int_ok_def INT_MIN_def INT_MAX_def)
    qed
    then have "list_all c_int_ok (map2 (-) (take (ress s) (work_allocation t ! ?i)) (take (ress s) (Allocate t ! ?i)))"
      using bounds i(2) shape by (simp add: list_all_length banker_shape_def)
    then show ?thesis
      using i shape bounds ps k by (simp add: info_row_def c_mem banker_shape_def ress_def procs_def)
  qed
  have "\<exists>rows. c_for (\<lambda>k rows. c_bind (info_row ?t k) (\<lambda>row. Inr (rows @ [row]))) (procs s) [] = Inr rows \<and> True"
    by (rule c_for_inv [where P = "\<lambda>_ _. True"]) (use row in auto)
  then show ?thesis using ps by (simp add: print_info_def procs_def)
qed

text \<open>A request as the program reads it: an existing process, amounts that are not negative and representable.\<close>

definition valid_request :: "banker \<Rightarrow> bool" where
  "valid_request s \<longleftrightarrow> 0 \<le> req_id s \<and> req_id s < progress_num s \<and>
     (\<forall>j < ress s. 0 \<le> Request s ! j \<and> Allocate s ! nat (req_id s) ! j + Request s ! j \<le> INT_MAX)"

lemma total_after_request:
  assumes "banker_shape s" and "valid_request s" and "j < ress s"
  shows "total (after_request (ress s) s) j = total s j"
proof -
  let ?p = "nat (req_id s)"
  have p: "?p < procs s" "?p < M" "j < N" using assms by (auto simp: valid_request_def procs_def banker_shape_def)
  have "(\<Sum>i<procs s. Allocate (after_request (ress s) s) ! i ! j)
      = (\<Sum>i<procs s. Allocate s ! i ! j + (if i = ?p then Request s ! j else 0))"
    using assms p by (intro sum.cong) (auto simp: after_request_def Let_def nth_list_update banker_shape_def)
  also have "\<dots> = (\<Sum>i<procs s. Allocate s ! i ! j) + Request s ! j"
    using p by (simp add: sum.distrib)
  finally show ?thesis
    using assms p by (simp add: total_def after_request_def Let_def procs_def banker_shape_def)
qed

lemma after_request_inv:
  assumes inv: "banker_inv s" and req: "valid_request s" and fits: "request_fits (ress s) s"
  shows "banker_inv (after_request (ress s) s)"
proof -
  let ?s = "after_request (ress s) s" let ?p = "nat (req_id s)"
  have shape: "banker_shape s" using inv by (simp add: banker_inv_def)
  have p: "?p < procs s" "?p < M" "0 \<le> req_id s" "req_id s < int M"
    using shape req by (auto simp: valid_request_def procs_def banker_shape_def)
  have ps: "procs ?s = procs s" "ress ?s = ress s" by (simp_all add: after_request_def Let_def procs_def ress_def)
  have dims: "ress s \<le> N" "length (Available s) = N" "mat_ok (Allocate s)" "mat_ok (Need s)" "procs s \<le> M"
    using shape by (simp_all add: banker_shape_def)
  have shape': "banker_shape ?s" by (rule after_request_shape [OF shape p(3,4)])
  have avail: "0 \<le> Available ?s ! j \<and> total ?s j \<le> INT_MAX" if j: "j < ress s" for j
    using total_after_request [OF shape req j] inv fits j dims
    by (auto simp: after_request_def Let_def banker_inv_def request_fits_def)
  have mats: "0 \<le> Allocate ?s ! i ! j \<and> 0 \<le> Need ?s ! i ! j \<and> Max_demand ?s ! i ! j \<le> INT_MAX \<and>
      Need ?s ! i ! j + Allocate ?s ! i ! j = Max_demand ?s ! i ! j" if "i < procs s" "j < ress s" for i j
  proof -
    have old: "0 \<le> Allocate s ! i ! j" "0 \<le> Need s ! i ! j" "Max_demand s ! i ! j \<le> INT_MAX"
      "Need s ! i ! j + Allocate s ! i ! j = Max_demand s ! i ! j"
      using inv that by (auto simp: banker_inv_def)
    have "0 \<le> Request s ! j" "Request s ! j \<le> Need s ! ?p ! j"
      using req fits that by (simp_all add: valid_request_def request_fits_def)
    with old that dims p show ?thesis by (auto simp: after_request_def Let_def nth_list_update)
  qed
  show ?thesis using shape' avail mats ps by (simp add: banker_inv_def)
qed

lemma same_allocation_inv:
  assumes "banker_inv s" and "same_allocation s t" and "banker_shape t"
  shows "banker_inv t" and "total t j = total s j"
proof -
  note ps = same_allocation_procs [OF assms(2)]
  show tot: "total t j = total s j" for j using assms(2) ps by (simp add: total_def same_allocation_def)
  show "banker_inv t" using assms ps tot by (simp add: banker_inv_def same_allocation_def)
qed

lemma request_no_overflow:
  assumes inv: "banker_inv s" and req: "valid_request s" and j: "j < ress s"
  shows "c_int_ok (Available s ! j - Request s ! j) \<and> c_int_ok (Allocate s ! nat (req_id s) ! j + Request s ! j) \<and>
     c_int_ok (Need s ! nat (req_id s) ! j - Request s ! j) \<and> c_int_ok (Available s ! j) \<and>
     c_int_ok (Allocate s ! nat (req_id s) ! j) \<and> c_int_ok (Need s ! nat (req_id s) ! j)"
proof -
  let ?p = "nat (req_id s)"
  have p: "?p < procs s" using inv req by (auto simp: valid_request_def procs_def)
  have a: "0 \<le> Available s ! j" "Available s ! j \<le> INT_MAX"
    using inv j partial_sum_le_total [OF inv _ _ j, of "[]"] by (auto simp: banker_inv_def)
  have b: "0 \<le> Allocate s ! ?p ! j" "0 \<le> Need s ! ?p ! j" "Max_demand s ! ?p ! j \<le> INT_MAX"
    "Need s ! ?p ! j + Allocate s ! ?p ! j = Max_demand s ! ?p ! j"
    using inv p j by (auto simp: banker_inv_def)
  have "0 \<le> Request s ! j" "Allocate s ! ?p ! j + Request s ! j \<le> INT_MAX"
    using req j by (simp_all add: valid_request_def)
  with a b show ?thesis unfolding c_int_ok_def INT_MIN_def INT_MAX_def by linarith
qed

text \<open>The two outcomes of a request.\<close>

definition granted :: "banker \<Rightarrow> banker \<Rightarrow> bool" where
  "granted s t \<longleftrightarrow> same_allocation (after_request (ress s) s) t \<and> flag t \<and>
     (\<exists>sq. safe_sequence t sq \<and> take (procs t) (safe t) = map int sq)"

definition refused :: "banker \<Rightarrow> banker \<Rightarrow> bool" where
  "refused s t \<longleftrightarrow> same_allocation s t"

lemma safe_sequence_same: "same_allocation s t \<Longrightarrow> safe_sequence t sq = safe_sequence s sq"
  using same_allocation_procs [of s t]
  by (simp add: safe_sequence_def safe_prefix_def covers_def same_allocation_def)

lemma settle_request_ok:
  assumes inv: "banker_inv s" and req: "valid_request s"
  shows "\<exists>t. settle_request (request_fits (ress s) s) (after_request (ress s) s) = Inr t \<and> banker_inv t \<and>
     (granted s t \<or> refused s t)"
proof -
  let ?s = "after_request (ress s) s"
  have shape: "banker_shape s" using inv by (simp add: banker_inv_def)
  have id: "0 \<le> req_id s" "req_id s < int M" using req shape by (auto simp: valid_request_def banker_shape_def procs_def)
  have undo: "\<exists>t'. return_back t = Inr t' \<and> banker_inv t' \<and> refused s t'" if "same_allocation ?s t" "banker_shape t" for t
    using return_back_restores [OF shape id _ that] request_no_overflow [OF inv req] same_allocation_inv(1) [OF inv]
    by (auto simp: refused_def)
  have refl: "same_allocation ?s ?s" by (simp add: same_allocation_def)
  show ?thesis
  proof (cases "request_fits (ress s) s")
    case False
    with undo [OF refl after_request_shape [OF shape id]] show ?thesis by (auto simp: settle_request_def)
  next
    case True
    have inv': "banker_inv ?s" by (rule after_request_inv [OF inv req True])
    from is_safe_result [OF this] obtain r t sq where
      r: "is_safe ?s = Inr (r, t)" "scan_inv ?s t sq" "r \<longleftrightarrow> set sq = {..<procs ?s}" by blast
    have same: "same_allocation ?s t" "banker_shape t" using r(2) by (simp_all add: scan_inv_def)
    have flagged: "same_allocation ?s (t\<lparr>flag := b\<rparr>)" "banker_shape (t\<lparr>flag := b\<rparr>)" for b
      using same by (simp_all add: same_allocation_def banker_shape_def procs_def ress_def)
    show ?thesis
    proof (cases r)
      case False
      with undo [OF flagged, of False] True r(1) show ?thesis by (auto simp: settle_request_def)
    next
      case r': True
      let ?t = "t\<lparr>flag := True\<rparr>"
      have sq: "safe_sequence ?s sq" "length sq = procs ?s"
        using r(2,3) r' distinct_card [of sq] by (auto simp: safe_sequence_def scan_inv_def safe_prefix_def)
      moreover have "take (length sq) (safe t) = map int sq" using r(2) by (simp add: scan_inv_def)
      moreover have "procs ?t = procs ?s" using same_allocation_procs [OF flagged(1)] by simp
      ultimately have "granted s ?t"
        using flagged(1) [of True] safe_sequence_same [OF flagged(1)] by (auto simp: granted_def)
      moreover have "settle_request True ?s = Inr ?t"
        using print_info_ok [OF inv' r(2)] r r' by (auto simp: settle_request_def Let_def)
      moreover have "banker_inv ?t" by (rule same_allocation_inv(1) [OF inv' flagged])
      ultimately show ?thesis using True by auto
    qed
  qed
qed

section \<open>Reading a request\<close>

text \<open>What reading a request may change.\<close>

definition same_but_request :: "banker \<Rightarrow> banker \<Rightarrow> bool" where
  "same_but_request s t \<longleftrightarrow> banker_shape t \<and>
     progress_num t = progress_num s \<and> resource_num t = resource_num s \<and> Available t = Available s \<and>
     Max_demand t = Max_demand s \<and> Need t = Need s \<and> Allocate t = Allocate s"

lemma mat_write_shape: "mat_write A i j x = Inr B \<Longrightarrow> mat_ok A \<Longrightarrow> mat_ok B"
  by (auto simp: mat_write_def c_read_Inr_iff c_write_Inr_iff mat_ok_update)

lemma set_work_allocation_keeps:
  "set_work_allocation i j s = Inr s' \<Longrightarrow> same_but_request s0 s \<Longrightarrow> same_but_request s0 s'"
  by (auto simp: set_work_allocation_def same_but_request_def banker_shape_def procs_def ress_def dest: mat_write_shape)

lemma read_request_entry_keeps:
  "read_request_entry i (inp, s) = Inr (inp', s') \<Longrightarrow> same_but_request s0 s \<Longrightarrow> same_but_request s0 s'"
  by (auto simp: read_request_entry_def same_but_request_def banker_shape_def procs_def ress_def c_write_Inr_iff)

lemma read_request_keeps:
  assumes "read_request inp s = Inr (inp', s')" and "banker_shape s"
  shows "same_but_request s s'"
proof -
  from assms(1) obtain s1 i inp1 where
    1: "c_for (\<lambda>i. c_for (set_work_allocation i) (ress s)) (procs s) s = Inr s1"
    and 2: "c_for read_request_entry (ress (s1\<lparr>req_id := i\<rparr>)) (inp1, s1\<lparr>req_id := i\<rparr>) = Inr (inp', s')"
    by (auto simp: read_request_def Let_def)
  have "same_but_request s s1"
  proof (rule c_for_preserves [OF 1])
    show "same_but_request s s" using assms(2) by (simp add: same_but_request_def)
    show "same_but_request s t'" if "c_for (set_work_allocation i) (ress s) t = Inr t'" "same_but_request s t" for i t t'
      by (rule c_for_preserves [where P = "same_but_request s", OF that set_work_allocation_keeps])
  qed
  then have 3: "same_but_request s (snd (inp1, s1\<lparr>req_id := i\<rparr>))"
    by (auto simp: same_but_request_def banker_shape_def procs_def ress_def)
  have "same_but_request s (snd (inp', s'))"
    by (rule c_for_preserves [where P = "\<lambda>x. same_but_request s (snd x)", OF 2 3])
      (auto dest: read_request_entry_keeps)
  then show ?thesis by simp
qed

lemma same_but_request_inv:
  assumes "banker_inv s" and "same_but_request s t"
  shows "banker_inv t" and "total t j = total s j" and "procs t = procs s" and "ress t = ress s"
proof -
  show ps: "procs t = procs s" "ress t = ress s" using assms(2) by (simp_all add: same_but_request_def procs_def ress_def)
  show tot: "total t j = total s j" for j using assms(2) ps by (simp add: total_def same_but_request_def)
  show "banker_inv t" using assms ps tot by (simp add: banker_inv_def same_but_request_def)
qed

lemma request_command_ok:
  assumes inv: "banker_inv s" and rd: "read_request inp s = Inr (inp', s1)" and req: "valid_request s1"
  shows "\<exists>t. request_command inp s = Inr (inp', t) \<and> banker_inv t \<and> (granted s1 t \<or> refused s1 t) \<and>
     procs t = procs s \<and> ress t = ress s \<and> (\<forall>j < ress s. total t j = total s j)"
proof -
  have shape: "banker_shape s" using inv by (simp add: banker_inv_def)
  note s1 = same_but_request_inv [OF inv read_request_keeps [OF rd shape]]
  have shape1: "banker_shape s1" using s1(1) by (simp add: banker_inv_def)
  have id: "0 \<le> req_id s1" "req_id s1 < int M" using req shape1 by (auto simp: valid_request_def banker_shape_def procs_def)
  have app: "apply_requests s1 = Inr (request_fits (ress s1) s1, after_request (ress s1) s1)"
    using apply_requests_eq [OF shape1 id] request_no_overflow [OF s1(1) req] by blast
  obtain t where t: "settle_request (request_fits (ress s1) s1) (after_request (ress s1) s1) = Inr t" "banker_inv t"
      "granted s1 t \<or> refused s1 t"
    using settle_request_ok [OF s1(1) req] by blast
  have tot: "total t j = total s1 j \<and> procs t = procs s1 \<and> ress t = ress s1" if "j < ress s1" for j
  proof (cases "granted s1 t")
    case True
    then have same: "same_allocation (after_request (ress s1) s1) t" by (simp add: granted_def)
    have "total t j = total (after_request (ress s1) s1) j"
      using same same_allocation_procs [OF same] by (simp add: total_def same_allocation_def)
    with total_after_request [OF shape1 req that] same_allocation_procs [OF same] show ?thesis
      by (simp add: after_request_def Let_def procs_def ress_def)
  next
    case False
    with t(3) have same: "same_allocation s1 t" by (simp add: refused_def)
    with same_allocation_procs [OF same] show ?thesis by (simp add: total_def same_allocation_def)
  qed
  have ps: "procs t = procs s1 \<and> ress t = ress s1"
    using t(3) same_allocation_procs by (fastforce simp: granted_def refused_def after_request_def Let_def procs_def ress_def)
  have "request_command inp s = Inr (inp', t)"
    using rd app t(1) by (simp add: request_command_def try_allocate_def)
  with t tot s1 ps show ?thesis by auto
qed

section \<open>Properties\<close>

text \<open>
  C21. The safety check always returns on a consistent state and changes no allocation. If it says yes, the
  array \<open>safe\<close> holds a safe sequence: every process once, each one's need covered by what is available together
  with the allocations of those before it.
\<close>

theorem is_safe_sound:
  assumes "banker_inv s"
  shows "\<exists>r s'. is_safe s = Inr (r, s') \<and> same_allocation s s' \<and>
     (r \<longrightarrow> (\<exists>sq. safe_sequence s sq \<and> take (procs s) (safe s') = map int sq))"
proof -
  from is_safe_result [OF assms] obtain r s' sq where
    r: "is_safe s = Inr (r, s')" "scan_inv s s' sq" "r \<longleftrightarrow> set sq = {..<procs s}" by blast
  have "length sq = procs s" if r using that r distinct_card [of sq] by (auto simp: scan_inv_def safe_prefix_def)
  with r show ?thesis by (auto simp: scan_inv_def safe_sequence_def)
qed

text \<open>The textbook state: five processes, three resources.\<close>

definition sample_banker :: banker where
  "sample_banker =
     (let z = replicate 7 0 in
      start_state\<lparr>progress_num := 5, resource_num := 3, Available := [3,3,2] @ z,
        Max_demand := [[7,5,3] @ z, [3,2,2] @ z, [9,0,2] @ z, [2,2,2] @ z, [4,3,3] @ z] @ replicate 5 (replicate 10 0),
        Allocate := [[0,1,0] @ z, [2,0,0] @ z, [3,0,2] @ z, [2,1,1] @ z, [0,0,2] @ z] @ replicate 5 (replicate 10 0),
        Need := [[7,4,3] @ z, [1,2,2] @ z, [6,0,0] @ z, [0,1,1] @ z, [4,3,1] @ z] @ replicate 5 (replicate 10 0)\<rparr>)"

text \<open>An executable form of the invariant, for concrete states.\<close>

definition check_matrix :: "int list list \<Rightarrow> bool" where
  "check_matrix A \<longleftrightarrow> length A = M \<and> list_all (\<lambda>r. length r = N) A"

definition check_shape :: "banker \<Rightarrow> bool" where
  "check_shape s \<longleftrightarrow>
     0 \<le> progress_num s \<and> procs s \<le> M \<and> 0 \<le> resource_num s \<and> ress s \<le> N \<and>
     length (Available s) = N \<and> length (Request s) = N \<and> length (Work s) = N \<and>
     length (Finish s) = M \<and> length (safe s) = M \<and>
     check_matrix (Max_demand s) \<and> check_matrix (Need s) \<and> check_matrix (Allocate s) \<and> check_matrix (work_allocation s)"

definition check_available :: "banker \<Rightarrow> nat \<Rightarrow> bool" where
  "check_available s j \<longleftrightarrow>
     0 \<le> Available s ! j \<and> Available s ! j + sum_list (map (\<lambda>i. Allocate s ! i ! j) [0..<procs s]) \<le> INT_MAX"

definition check_cell :: "banker \<Rightarrow> nat \<Rightarrow> nat \<Rightarrow> bool" where
  "check_cell s i j \<longleftrightarrow>
     0 \<le> Allocate s ! i ! j \<and> 0 \<le> Need s ! i ! j \<and> Max_demand s ! i ! j \<le> INT_MAX \<and>
     Need s ! i ! j + Allocate s ! i ! j = Max_demand s ! i ! j"

definition banker_check :: "banker \<Rightarrow> bool" where
  "banker_check s \<longleftrightarrow> check_shape s \<and> list_all (check_available s) [0..<ress s] \<and>
     list_all (\<lambda>i. list_all (check_cell s i) [0..<ress s]) [0..<procs s]"

lemma check_matrix_ok: "check_matrix A \<Longrightarrow> mat_ok A"
  by (simp add: check_matrix_def mat_ok_def list_all_length del: mat_ok_length mat_ok_row)

lemma banker_check_inv:
  assumes "banker_check s"
  shows "banker_inv s"
proof -
  have "banker_shape s"
    using assms by (simp add: banker_check_def check_shape_def banker_shape_def check_matrix_ok)
  moreover have "total s j = Available s ! j + sum_list (map (\<lambda>i. Allocate s ! i ! j) [0..<procs s])" for j
    by (simp add: total_def interv_sum_list_conv_sum_set_nat atLeast0LessThan)
  ultimately show ?thesis
    using assms unfolding banker_check_def banker_inv_def check_available_def check_cell_def list_all_iff by simp
qed

lemma sample_banker_inv [simp]: "banker_inv sample_banker"
  by (rule banker_check_inv) code_simp

lemma sample_banker_run: "(case is_safe sample_banker of Inr (r, s) \<Rightarrow> r \<and> safe s = [1,3,4,0,2,0,0,0,0,0] | Inl _ \<Rightarrow> False)"
  by code_simp

theorem is_safe_sound_witness:
  "\<exists>s' sq. is_safe sample_banker = Inr (True, s') \<and> safe_sequence sample_banker sq \<and> take 5 (safe s') = map int sq"
proof -
  have "procs sample_banker = 5" by (simp add: sample_banker_def procs_def Let_def)
  with is_safe_sound [OF sample_banker_inv] sample_banker_run show ?thesis by (auto split: sum.splits prod.splits)
qed

text \<open>A consistent state of three processes competing for one resource.\<close>

definition missed_banker :: banker where
  "missed_banker =
     (let z = replicate 9 0 in
      start_state\<lparr>progress_num := 3, resource_num := 1, Available := 1 # z,
        Max_demand := [3 # z, 2 # z, 4 # z] @ replicate 7 (replicate 10 0),
        Allocate := [1 # z, 1 # z, 1 # z] @ replicate 7 (replicate 10 0),
        Need := [2 # z, 1 # z, 3 # z] @ replicate 7 (replicate 10 0)\<rparr>)"

lemma missed_banker_inv: "banker_inv missed_banker"
  by (rule banker_check_inv) code_simp

text \<open>
  C29. Exactly what the safety check decides: on a consistent state it visits the processes once in order, finishing each whose need is covered by then, and
  a second time just when the first visit finished the last process.  It answers yes just when that finishes every process, and \<open>safe\<close> then starts with the
  order in which they finished.  So it is not complete: the witness is a state with a safe sequence for which it answers no.
\<close>

theorem is_safe_decides:
  assumes "banker_inv s"
  shows "\<exists>s'. is_safe s = Inr (set (scan_order s) = {..<procs s}, s') \<and> take (length (scan_order s)) (safe s') = map int (scan_order s)"
  using is_safe_scan [OF assms] by (auto simp: scan_inv_def)

theorem is_safe_decides_witness:
  "safe_sequence missed_banker [1, 0, 2] \<and> (\<exists>s'. is_safe missed_banker = Inr (False, s') \<and> take 1 (safe s') = [1])"
proof
  have ps: "procs missed_banker = 3" "ress missed_banker = 1"
    by (simp_all add: missed_banker_def procs_def ress_def Let_def)
  have three: "{..<3::nat} = {1, 0, 2}" by auto
  have "covers missed_banker [] 1" "covers missed_banker [1] 0" "covers missed_banker [1, 0] 2"
    unfolding covers_def ps by (simp_all add: missed_banker_def Let_def)
  then have "covers missed_banker (take k [1, 0, 2]) ([1, 0, 2] ! k)" if "k < 3" for k
    using that by (auto simp: numeral_3_eq_3 less_Suc_eq)
  then show "safe_sequence missed_banker [1, 0, 2]"
    unfolding safe_sequence_def safe_prefix_def ps three by simp
  have "scan_order missed_banker = [1]" by code_simp
  with is_safe_decides [OF missed_banker_inv] ps(1) three
  show "\<exists>s'. is_safe missed_banker = Inr (False, s') \<and> take 1 (safe s') = [1]" by auto
qed

text \<open>
  C8. A request of an existing process for amounts that are not negative returns. It is granted into a state
  with a safe sequence, reduced and increased by exactly the amounts, or refused with all allocations as they were; either way
  the invariant holds and the total of every resource is unchanged.
\<close>

theorem request_granted_safely_or_undone:
  assumes "banker_inv s" and "read_request inp s = Inr (inp', s1)" and "valid_request s1"
  shows "\<exists>t. request_command inp s = Inr (inp', t) \<and> banker_inv t \<and> (granted s1 t \<or> refused s1 t) \<and>
     procs t = procs s \<and> ress t = ress s \<and> (\<forall>j < ress s. total t j = total s j)"
  using assms by (rule request_command_ok)

theorem request_granted_safely_or_undone_witness:
  "\<exists>s1 t. read_request ''1 1 0 2 '' sample_banker = Inr ('' '', s1) \<and>
     request_command ''1 1 0 2 '' sample_banker = Inr ('' '', t) \<and> banker_inv t \<and> (granted s1 t \<or> refused s1 t)"
proof -
  have "(case read_request ''1 1 0 2 '' sample_banker of Inr (inp, s) \<Rightarrow> inp = '' '' \<and> req_id s = 1 \<and> progress_num s = 5 \<and>
      resource_num s = 3 \<and> take 3 (Request s) = [1, 0, 2] \<and> take 3 (Allocate s ! 1) = [2, 0, 0] | Inl _ \<Rightarrow> False)"
    by code_simp
  then obtain s1 where s1: "read_request ''1 1 0 2 '' sample_banker = Inr ('' '', s1)" "req_id s1 = 1" "progress_num s1 = 5"
      "resource_num s1 = 3" "take 3 (Request s1) = [1, 0, 2]" "take 3 (Allocate s1 ! 1) = [2, 0, 0]"
    by (auto split: sum.splits prod.splits)
  have "valid_request s1"
  proof -
    have "Request s1 ! j = [1, 0, 2] ! j" "Allocate s1 ! 1 ! j = [2, 0, 0] ! j" if "j < 3" for j
      using s1(5,6) that by (metis nth_take)+
    moreover have "j = 0 \<or> j = 1 \<or> j = 2" if "j < 3" for j :: nat using that by auto
    ultimately show ?thesis using s1 by (fastforce simp: valid_request_def ress_def INT_MAX_def)
  qed
  with request_granted_safely_or_undone [OF sample_banker_inv s1(1)] s1(1) show ?thesis by blast
qed

section \<open>Runs\<close>

text \<open>
  Runs of the menu after initialisation: requests as read, provided they are valid, safety checks and printing.
\<close>

inductive menu_run :: "banker \<Rightarrow> banker \<Rightarrow> bool" for s0 where
  start: "menu_run s0 s0"
| request: "menu_run s0 s \<Longrightarrow> read_request inp s = Inr (inp', s1) \<Longrightarrow> valid_request s1 \<Longrightarrow>
     menu_command 2 inp s = Inr (inp', t) \<Longrightarrow> menu_run s0 t"
| print: "menu_run s0 s \<Longrightarrow> menu_command 3 inp s = Inr (inp', t) \<Longrightarrow> menu_run s0 t"
| check: "menu_run s0 s \<Longrightarrow> menu_command 4 inp s = Inr (inp', t) \<Longrightarrow> menu_run s0 t"

text \<open>
  C25. In every state reached from a consistent one by valid requests, checks and printing, need plus allocation is
  the maximal demand, nothing is negative, and the total of every resource is what it was at the start.
\<close>

theorem menu_run_conserves:
  assumes "menu_run s0 s" and "banker_inv s0"
  shows "banker_inv s \<and> procs s = procs s0 \<and> ress s = ress s0 \<and> (\<forall>j < ress s0. total s j = total s0 j)"
  using assms
proof (induction rule: menu_run.induct)
  case (request s inp inp' s1 t)
  with request_command_ok [of s inp inp' s1] show ?case by (auto simp: menu_command_def)
next
  case (check s inp inp' t)
  then obtain ok s1 where s1: "is_safe s = Inr (ok, s1)" "t = s1\<lparr>flag := ok\<rparr>" by (auto simp: menu_command_def)
  with is_safe_result [of s] check have "same_allocation s t" "banker_shape t"
    by (auto simp: scan_inv_def same_allocation_def banker_shape_def procs_def ress_def)
  with check same_allocation_inv [of s t] same_allocation_procs [of s t] show ?case by simp
qed (auto simp: menu_command_def)

theorem menu_run_conserves_witness:
  "\<exists>s. menu_run sample_banker s \<and> flag s \<and> banker_inv s \<and> total s 0 = total sample_banker 0"
proof -
  obtain s where s: "is_safe sample_banker = Inr (True, s)"
    using sample_banker_run by (auto split: sum.splits prod.splits)
  then have "menu_command 4 '''' sample_banker = Inr ('''', s\<lparr>flag := True\<rparr>)" by (simp add: menu_command_def)
  then have run: "menu_run sample_banker (s\<lparr>flag := True\<rparr>)" by (rule menu_run.check [OF menu_run.start])
  moreover have "ress sample_banker = 3" by (simp add: sample_banker_def ress_def Let_def)
  ultimately show ?thesis using menu_run_conserves [OF run] by (intro exI [of _ "s\<lparr>flag := True\<rparr>"]) simp
qed

section \<open>What the reading of a request lets through\<close>

text \<open>
  The loop that reads the process number accepts the number one past the last process, and leaves with any
  rejected number when the text after it is not a number.
\<close>

theorem read_id_accepts_nonexistent:
  assumes "0 \<le> pnum" and "c_int_ok pnum" and "scan_int inp = (Scanned pnum, rest)"
  shows "read_id inp old pnum = Inr (pnum, rest) \<and> read_id ''99 x'' old 3 = Inr (99, ''x'')"
proof
  show "read_id inp old pnum = Inr (pnum, rest)"
    using assms by (simp add: read_id.simps [of inp] c_int_def)
  have "scan_int ''99 x'' = (Scanned 99, '' x'')" "scan_int '' x'' = (NoMatch, ''x'')" by code_simp+
  then show "read_id ''99 x'' old 3 = Inr (99, ''x'')"
    by (simp add: read_id.simps [of "''99 x''"] read_id.simps [of "'' x''"] c_int_def c_int_ok_def INT_MAX_def INT_MIN_def)
qed

theorem read_id_accepts_nonexistent_witness: "read_id ''3'' 0 3 = Inr (3, '''')"
proof -
  have "scan_int ''3'' = (Scanned 3, '''')" by code_simp
  with read_id_accepts_nonexistent [of 3 "''3''" "''''" 0] show ?thesis by (simp add: c_int_ok_def INT_MAX_def INT_MIN_def)
qed

text \<open>
  A negative request is granted: process P0 of the sample state asks for -5 of the first resource, and the
  program then has 8 available of it where it had 3, with an allocation of -5.
\<close>

theorem negative_request_granted:
  "\<exists>t. request_command ''0 -5 0 0 '' sample_banker = Inr ('' '', t) \<and> flag t \<and>
     Available t ! 0 = 8 \<and> Allocate t ! 0 ! 0 = - 5"
proof -
  have "(case request_command ''0 -5 0 0 '' sample_banker of
      Inr (inp, t) \<Rightarrow> inp = '' '' \<and> flag t \<and> Available t ! 0 = 8 \<and> Allocate t ! 0 ! 0 = - 5 | Inl _ \<Rightarrow> False)"
    by code_simp
  then show ?thesis by (auto split: sum.splits prod.splits)
qed

end
