(* ===== verification/C_String.thy ===== *)
theory C_String
  imports Prelude
begin

text \<open>
  The parts of the C string library the HTTP code calls, on byte lists.  A \<open>char *\<close> is the
  memory from the pointer to the end of its block, so a string is what comes before the
  first zero byte, and reading on without one leaves the block.
\<close>

section \<open>Zero-terminated strings\<close>

definition c_strlen :: "byte list \<Rightarrow> int c_res" where
  "c_strlen s = (if 0 \<in> set s then Inr (int (length (takeWhile (\<lambda>c. c \<noteq> 0) s))) else Inl OutOfBounds)"

text \<open>The bytes of an ASCII literal, without the terminator, and the literal in memory.\<close>

definition bytes_of :: "string \<Rightarrow> byte list" where
  "bytes_of s = map (\<lambda>c. word_of_nat (of_char c)) s"

definition c_lit :: "string \<Rightarrow> byte list" where
  "c_lit s = bytes_of s @ [0]"

text \<open>
  \<^verbatim>\<open>strncmp\<close>: zero if the first \<open>n\<close> bytes agree up to a terminator, and else what the library
  gives for the first pair of bytes that differ.  Only the sign of that is specified: it is
  the parameter \<open>diff\<close>.
\<close>

fun c_strncmp :: "(byte \<Rightarrow> byte \<Rightarrow> int) \<Rightarrow> byte list \<Rightarrow> byte list \<Rightarrow> nat \<Rightarrow> int c_res" where
  "c_strncmp diff a b 0 = Inr 0"
| "c_strncmp diff (x # a) (y # b) (Suc n) =
     (if x \<noteq> y then Inr (diff x y) else if x = 0 then Inr 0 else c_strncmp diff a b n)"
| "c_strncmp diff _ _ (Suc n) = Inl OutOfBounds"

text \<open>The documented sign of the difference.\<close>

definition diff_ok :: "(byte \<Rightarrow> byte \<Rightarrow> int) \<Rightarrow> bool" where
  "diff_ok diff \<longleftrightarrow> (\<forall>x y. x \<noteq> y \<longrightarrow> (0 < diff x y \<longleftrightarrow> y < x) \<and> (diff x y < 0 \<longleftrightarrow> x < y))"

text \<open>\<^verbatim>\<open>strncpy\<close> of \<open>n\<close> bytes: after a terminator the rest is zero.\<close>

fun c_strncpy :: "byte list \<Rightarrow> nat \<Rightarrow> byte list c_res" where
  "c_strncpy src 0 = Inr []"
| "c_strncpy (c # cs) (Suc n) =
     (if c = 0 then Inr (replicate (Suc n) 0) else c_bind (c_strncpy cs n) (\<lambda>r. Inr (c # r)))"
| "c_strncpy [] (Suc n) = Inl OutOfBounds"

text \<open>\<^verbatim>\<open>memmem\<close>: the place of the first occurrence.\<close>

fun mem_find :: "byte list \<Rightarrow> byte list \<Rightarrow> nat option" where
  "mem_find needle [] = (if needle = [] then Some 0 else None)"
| "mem_find needle (c # cs) =
     (if take (length needle) (c # cs) = needle then Some 0 else map_option Suc (mem_find needle cs))"

text \<open>\<^verbatim>\<open>memcpy(dst + off, src, n)\<close>.\<close>

definition mem_copy :: "byte list \<Rightarrow> int \<Rightarrow> byte list \<Rightarrow> int \<Rightarrow> byte list c_res" where
  "mem_copy dst off src n =
     (if 0 \<le> n \<and> n \<le> int (length src) \<and> 0 \<le> off \<and> off + n \<le> int (length dst)
      then Inr (take (nat off) dst @ take (nat n) src @ drop (nat (off + n)) dst) else Inl OutOfBounds)"

section \<open>Lemmas\<close>

lemma c_strlen_term: "0 \<notin> set s \<Longrightarrow> c_strlen (s @ 0 # rest) = Inr (int (length s))"
proof -
  assume "0 \<notin> set s"
  then have "takeWhile (\<lambda>c. c \<noteq> 0) (s @ 0 # rest) = s" by (simp add: takeWhile_append)
  then show ?thesis by (simp add: c_strlen_def)
qed

lemma c_strncpy_take: "0 \<notin> set (take n s) \<Longrightarrow> n \<le> length s \<Longrightarrow> c_strncpy s n = Inr (take n s)"
  by (induction s n rule: c_strncpy.induct) auto

lemma c_strncpy_length: "n \<le> length s \<Longrightarrow> \<exists>r. c_strncpy s n = Inr r \<and> length r = n"
  by (induction s n rule: c_strncpy.induct) auto

lemma mem_find_Some:
  "mem_find nd hay = Some i \<Longrightarrow> i + length nd \<le> length hay \<and> take (length nd) (drop i hay) = nd"
proof (induction hay arbitrary: i)
  case (Cons c cs)
  show ?case
  proof (cases "take (length nd) (c # cs) = nd")
    case True
    then have "length nd \<le> length (c # cs)" by (metis length_take min.absorb_iff2 nat_le_linear)
    with True Cons.prems show ?thesis by auto
  next
    case False
    with Cons.prems obtain j where "mem_find nd cs = Some j" "i = Suc j" by auto
    with Cons.IH [of j] show ?thesis by simp
  qed
qed (auto split: if_splits)

text \<open>A pair of different bytes is found where the text before it has none.\<close>

fun no_pair :: "byte \<Rightarrow> byte \<Rightarrow> byte list \<Rightarrow> bool" where
  "no_pair a b (x # y # xs) \<longleftrightarrow> \<not> (x = a \<and> y = b) \<and> no_pair a b (y # xs)"
| "no_pair a b _ \<longleftrightarrow> True"

lemma mem_find_pair: "a \<noteq> b \<Longrightarrow> no_pair a b xs \<Longrightarrow> mem_find [a, b] (xs @ a # b # ys) = Some (length xs)"
  by (induction a b xs rule: no_pair.induct) (auto simp: numeral_2_eq_2)

lemma mem_find_byte: "c \<notin> set xs \<Longrightarrow> mem_find [c] (xs @ c # ys) = Some (length xs)"
  by (induction xs) auto

lemma mem_find_byte_None: "c \<notin> set xs \<Longrightarrow> mem_find [c] xs = None"
  by (induction xs) auto

lemma mem_find_pair_None: "no_pair a b xs \<Longrightarrow> mem_find [a, b] xs = None"
  by (induction a b xs rule: no_pair.induct) (auto simp: numeral_2_eq_2)

text \<open>An \<open>int\<close> that is not negative survives the way through \<open>size_t\<close> and back.\<close>

lemma word_int: "unat (word_of_int i :: 64 word) = nat i" "sint (ucast (word_of_int i :: 64 word) :: 32 word) = i" "sint (word_of_int i :: 64 word) = i"
  if "0 \<le> i" "i \<le> INT_MAX"
proof -
  show "unat (word_of_int i :: 64 word) = nat i" using that by (simp add: unat_eq_nat_uint uint_word_of_int_eq take_bit_int_eq_self INT_MAX_def)
  have "signed_take_bit 31 i = i" using that by (intro signed_take_bit_int_eq_self) (simp_all add: INT_MAX_def)
  then show "sint (ucast (word_of_int i :: 64 word) :: 32 word) = i"
    by (simp add: sint_uint uint_word_of_int_eq signed_take_bit_take_bit ucast_eq take_bit_signed_take_bit)
  show "sint (word_of_int i :: 64 word) = i"
    using that by (simp add: signed_of_int signed_take_bit_int_eq_self INT_MAX_def)
qed

end
