(* ===== verification/Line_Reader.thy ===== *)
theory Line_Reader
  imports C_String
begin

text \<open>
  \<^verbatim>\<open>httptest-geektime/lib/read.c\<close>: reading a number of bytes, a message with a header, or a line from a descriptor.
  \<open>read\<close> and \<open>recv\<close> act on a state of the system; they give the result, the bytes and \<open>errno\<close>.
\<close>

section \<open>The code\<close>

type_synonym 'o reader = "int \<Rightarrow> 'o \<Rightarrow> (int \<times> byte list \<times> int) \<times> 'o"

definition EINTR :: int where "EINTR = 4"

text \<open>\<open>readn\<close>: \<open>None\<close> of the inner option is the error; \<open>length\<close> is an \<open>int\<close> and the result a \<open>size_t\<close>.\<close>

partial_function (option) readn_loop :: "'o reader \<Rightarrow> int \<times> byte list \<times> int \<times> 'o \<Rightarrow> (int option \<times> byte list \<times> 'o) c_res option" where
  "readn_loop rd s =
     (case s of (len, buf, p, w) \<Rightarrow>
        if 0 < len then
          (case rd len w of ((result, bs, err), w) \<Rightarrow>
             if result < 0 then
               (if err = EINTR then readn_loop rd (len, buf, p, w) else Some (Inr (None, buf, w)))
             else if result = 0 then Some (Inr (Some len, buf, w))
             else (case mem_copy buf p bs result of
                 Inl e \<Rightarrow> Some (Inl e)
               | Inr buf \<Rightarrow> readn_loop rd (len - result, buf, p + result, w)))
        else Some (Inr (Some len, buf, w)))"

definition readn :: "'o reader \<Rightarrow> byte list \<Rightarrow> 64 word \<Rightarrow> 'o \<Rightarrow> (64 word \<times> byte list \<times> 'o) c_res option" where
  "readn rd buf sz w =
     map_option (\<lambda>r. c_bind r (\<lambda>(len, buf, w). Inr (case len of None \<Rightarrow> - 1 | Some len \<Rightarrow> sz - word_of_int len, buf, w)))
       (readn_loop rd (sint (ucast sz :: 32 word), buf, 0, w))"

text \<open>\<open>readline_2\<close>: a byte at a time; \<open>pos\<close> is where the next one goes.\<close>

primrec readline_2_loop :: "'o reader \<Rightarrow> nat \<Rightarrow> byte list \<Rightarrow> int \<Rightarrow> 'o \<Rightarrow> (64 word \<times> byte list \<times> 'o) c_res" where
  "readline_2_loop rcv 0 buf pos w = Inr (- 1, buf, w)"
| "readline_2_loop rcv (Suc k) buf pos w =
     (case rcv 1 w of ((n, bs, err), w) \<Rightarrow>
        if n = 1 then
          c_bind (c_read bs 0) (\<lambda>c.
          c_bind (c_write buf pos c) (\<lambda>buf.
          if c = 10 then c_bind (c_write buf (pos + 1) 0) (\<lambda>buf. Inr (word_of_int (pos + 1), buf, w))
          else readline_2_loop rcv k buf (pos + 1) w))
        else Inr (- 1, buf, w))"

definition readline_2 :: "'o reader \<Rightarrow> byte list \<Rightarrow> 64 word \<Rightarrow> 'o \<Rightarrow> (64 word \<times> byte list \<times> 'o) c_res" where
  "readline_2 rcv buf len w = readline_2_loop rcv (unat len) buf 0 w"

text \<open>\<open>readline\<close>: the buffer and the pointer into it are static, the count of bytes left in it is not.\<close>

record line_static =
  read_buffer :: "byte list"
  buffer_pointer :: int

definition READ_BUFFER :: int where "READ_BUFFER = 512"

datatype refill = Again | Return "64 word" | Refilled int line_static

definition readline_refill :: "'o reader \<Rightarrow> line_static \<Rightarrow> 'o \<Rightarrow> (refill \<times> 'o) c_res" where
  "readline_refill rcv st w =
     (case rcv READ_BUFFER w of ((nread, bs, err), w) \<Rightarrow>
        if nread < 0 then Inr (if err = EINTR then Again else Return (- 1), w)
        else if nread = 0 then Inr (Return 0, w)
        else c_bind (mem_copy (read_buffer st) 0 bs nread) (\<lambda>rb. Inr (Refilled nread (st\<lparr>read_buffer := rb, buffer_pointer := 0\<rparr>), w)))"

definition readline_char :: "line_static \<Rightarrow> byte list \<Rightarrow> int \<Rightarrow> (byte \<times> line_static \<times> byte list) c_res" where
  "readline_char st buf pos =
     c_bind (c_read (read_buffer st) (buffer_pointer st)) (\<lambda>c.
     c_bind (c_write buf pos c) (\<lambda>buf.
     Inr (c, st\<lparr>buffer_pointer := buffer_pointer st + 1\<rparr>, buf)))"

partial_function (option) readline_loop :: "'o reader \<Rightarrow> 64 word \<times> int \<times> line_static \<times> byte list \<times> int \<times> 'o
    \<Rightarrow> (64 word \<times> line_static \<times> byte list \<times> 'o) c_res option" where
  "readline_loop rcv s =
     (case s of (len, nleft, st, buf, pos, w) \<Rightarrow>
        if len - 1 = 0 then Some (Inr (- 1, st, buf, w))
        else
          (case (if nleft \<le> 0 then readline_refill rcv st w else Inr (Refilled nleft st, w)) of
             Inl e \<Rightarrow> Some (Inl e)
           | Inr (Again, w) \<Rightarrow> readline_loop rcv (len, nleft, st, buf, pos, w)
           | Inr (Return r, w) \<Rightarrow> Some (Inr (r, st, buf, w))
           | Inr (Refilled nleft st, w) \<Rightarrow>
               (case readline_char st buf pos of
                  Inl e \<Rightarrow> Some (Inl e)
                | Inr (c, st, buf) \<Rightarrow>
                    if c = 10 then Some (c_bind (c_write buf (pos + 1) 0) (\<lambda>buf. Inr (word_of_int (pos + 1), st, buf, w)))
                    else readline_loop rcv (len - 1, nleft - 1, st, buf, pos + 1, w))))"

definition readline :: "'o reader \<Rightarrow> line_static \<Rightarrow> byte list \<Rightarrow> 64 word \<Rightarrow> 'o \<Rightarrow> (64 word \<times> line_static \<times> byte list \<times> 'o) c_res option" where
  "readline rcv st buf len w = readline_loop rcv (len, 0, st, buf, 0, w)"

text \<open>A number in memory, on a little endian host, and \<open>ntohl\<close>.\<close>

definition load32 :: "byte list \<Rightarrow> 32 word" where
  "load32 bs = ucast (bs ! 0) OR push_bit 8 (ucast (bs ! 1)) OR push_bit 16 (ucast (bs ! 2)) OR push_bit 24 (ucast (bs ! 3))"

definition ntohl :: "32 word \<Rightarrow> 32 word" where
  "ntohl w = push_bit 24 w OR push_bit 16 (take_bit 8 (drop_bit 8 w)) OR push_bit 8 (take_bit 8 (drop_bit 16 w)) OR drop_bit 24 w"

text \<open>The header has two numbers; what \<open>readn\<close> yields is converted to \<open>int\<close>.\<close>

definition read_number :: "'o reader \<Rightarrow> 'o \<Rightarrow> (int \<times> 32 word \<times> 'o) c_res option" where
  "read_number rd w =
     map_option (\<lambda>r. c_bind r (\<lambda>(rc, cell, w). Inr (sint (ucast rc :: 32 word), load32 cell, w))) (readn rd (replicate 4 0) 4 w)"

definition short_read :: "int \<Rightarrow> 64 word" where
  "short_read rc = (if rc < 0 then - 1 else 0)"

definition read_message :: "'o reader \<Rightarrow> byte list \<Rightarrow> 64 word \<Rightarrow> 'o \<Rightarrow> (64 word \<times> byte list \<times> 'o) c_res option" where
  "read_message rd buf len w =
     (case read_number rd w of
        None \<Rightarrow> None
      | Some (Inl e) \<Rightarrow> Some (Inl e)
      | Some (Inr (rc, msg_length, w)) \<Rightarrow>
          if rc \<noteq> 4 then Some (Inr (short_read rc, buf, w))
          else (case read_number rd w of
              None \<Rightarrow> None
            | Some (Inl e) \<Rightarrow> Some (Inl e)
            | Some (Inr (rc, msg_type, w)) \<Rightarrow>
                if rc \<noteq> 4 then Some (Inr (short_read rc, buf, w))
                else if len < ucast (ntohl msg_length) then Some (Inr (- 1, buf, w))
                else map_option (\<lambda>r. c_bind r (\<lambda>(rc, buf, w).
                       Inr (if (ucast rc :: 32 word) \<noteq> ntohl msg_length then short_read (sint (ucast rc :: 32 word))
                            else word_of_int (sint (ucast rc :: 32 word)), buf, w)))
                     (readn rd buf (ucast (ntohl msg_length)) w)))"

text \<open>\<open>read_line\<close>: \<open>recv\<close> of one byte, which with the flag \<open>MSG_PEEK\<close> stays in the queue.\<close>

primrec read_line_loop :: "(bool \<Rightarrow> 'o \<Rightarrow> (int \<times> byte) \<times> 'o) \<Rightarrow> nat \<Rightarrow> byte list \<Rightarrow> int \<Rightarrow> 'o \<Rightarrow> (int \<times> byte list \<times> 'o) c_res" where
  "read_line_loop rcv 0 buf i w = Inr (i, buf, w)"
| "read_line_loop rcv (Suc k) buf i w =
     (let ((n, c), w) = rcv False w in
      if 0 < n then
        let (c, w) =
          (if c = 13 then
             let ((n, c), w) = rcv True w in
             if 0 < n \<and> c = 10 then (c, snd (rcv False w)) else (10, w)
           else (c, w))
        in c_bind (c_write buf i c) (\<lambda>buf.
           if c \<noteq> 10 then read_line_loop rcv k buf (i + 1) w else Inr (i + 1, buf, w))
      else Inr (i, buf, w))"

definition read_line :: "(bool \<Rightarrow> 'o \<Rightarrow> (int \<times> byte) \<times> 'o) \<Rightarrow> byte list \<Rightarrow> int \<Rightarrow> 'o \<Rightarrow> (int \<times> byte list \<times> 'o) c_res" where
  "read_line rcv buf sz w =
     c_bind (c_int (sz - 1)) (\<lambda>m.
     c_bind (read_line_loop rcv (nat m) buf 0 w) (\<lambda>(i, buf, w).
     c_bind (c_write buf i 0) (\<lambda>buf.
     Inr (i, buf, w))))"

section \<open>A descriptor as a sequence of events\<close>

text \<open>What a peer makes a descriptor do: deliver bytes, be interrupted, fail, and in the end report the end of the input.\<close>

datatype rd_event = Chunk "byte list" | Interrupted | Failed int

fun script_read :: "rd_event list reader" where
  "script_read n [] = ((0, [], 0), [])"
| "script_read n (Interrupted # es) = ((- 1, [], EINTR), es)"
| "script_read n (Failed e # es) = ((- 1, [], e), es)"
| "script_read n (Chunk bs # es) =
     (if int (length bs) \<le> n then ((int (length bs), bs, 0), es) else ((n, take (nat n) bs, 0), Chunk (drop (nat n) bs) # es))"

text \<open>The bytes that come until there are \<open>n\<close>, the input ends (also by an empty chunk) or it fails.\<close>

fun delivered :: "nat \<Rightarrow> rd_event list \<Rightarrow> bool \<times> byte list \<times> rd_event list" where
  "delivered 0 es = (True, [], es)"
| "delivered n [] = (True, [], [])"
| "delivered n (Interrupted # es) = delivered n es"
| "delivered n (Failed e # es) = (False, [], es)"
| "delivered n (Chunk bs # es) =
     (if bs = [] then (True, [], es)
      else if length bs \<le> n then (case delivered (n - length bs) es of (ok, r, es) \<Rightarrow> (ok, bs @ r, es))
      else (True, take n bs, Chunk (drop n bs) # es))"

definition no_eintr :: "rd_event list \<Rightarrow> bool" where
  "no_eintr es \<longleftrightarrow> Failed EINTR \<notin> set es"

lemma delivered_length: "delivered n es = (ok, r, es') \<Longrightarrow> length r \<le> n"
  by (induction n es arbitrary: r es' rule: delivered.induct) (auto split: if_splits prod.splits)

text \<open>The place of the copy: \<open>done\<close> is in the buffer already.\<close>

lemma mem_copy_next:
  assumes "length bs \<le> length rest"
  shows "mem_copy (before @ rest) (int (length before)) bs (int (length bs)) = Inr ((before @ bs) @ drop (length bs) rest)"
  using assms by (simp add: mem_copy_def nat_add_distrib)

lemma readn_loop_delivered:
  assumes "n \<le> length rest" and "delivered n es = (ok, bs, es')" and "no_eintr es"
  shows "readn_loop script_read (int n, before @ rest, int (length before), es) =
    Some (Inr (if ok then Some (int (n - length bs)) else None, before @ bs @ drop (length bs) rest, es'))"
  using assms
proof (induction n es arbitrary: before rest bs rule: delivered.induct)
  case (1 es)
  then show ?case by (simp add: readn_loop.simps)
next
  case (3 n es)
  then show ?case by (subst readn_loop.simps) (simp add: no_eintr_def)
next
  case (5 n c es)
  consider "c = []" | "c \<noteq> []" "length c \<le> Suc n" | "c \<noteq> []" "Suc n < length c" by linarith
  then show ?case
  proof cases
    case 2
    obtain ok' r es'' where d: "delivered (Suc n - length c) es = (ok', r, es'')" by (metis prod_cases3)
    with 5(3) 2 have e: "ok' = ok" "es'' = es'" "bs = c @ r" by auto
    from 5(4) have ne: "no_eintr es" by (simp add: no_eintr_def)
    have l: "length c \<le> length rest" "Suc n - length c \<le> length (drop (length c) rest)" using 2 5(2) by auto
    from 5(1) [OF 2(1) _ l(2) d [unfolded e] ne, of "before @ c"] 2 have
      ih: "readn_loop script_read (int (Suc n - length c), (before @ c) @ drop (length c) rest, int (length (before @ c)), es) =
       Some (Inr (if ok then Some (int (Suc n - length c - length r)) else None, (before @ c) @ r @ drop (length r) (drop (length c) rest), es'))"
      by simp
    have "readn_loop script_read (int (Suc n), before @ rest, int (length before), Chunk c # es)
        = readn_loop script_read (int (Suc n) - int (length c), (before @ c) @ drop (length c) rest, int (length before) + int (length c), es)"
      using 2 mem_copy_next [OF l(1), of before] by (subst readn_loop.simps) auto
    also have "\<dots> = readn_loop script_read (int (Suc n - length c), (before @ c) @ drop (length c) rest, int (length (before @ c)), es)"
      using 2(2) by (simp add: of_nat_diff)
    finally show ?thesis using ih by (simp add: e add.commute)
  next
    case 3
    let ?t = "take (Suc n) c"
    have t: "length ?t = Suc n" "length ?t \<le> length rest" using 3 5(2) by auto
    have "mem_copy (before @ rest) (int (length before)) ?t (int (Suc n)) = Inr ((before @ ?t) @ drop (Suc n) rest)"
      using mem_copy_next [OF t(2), of before] t(1) by simp
    with 3 5(3) show ?thesis
      by (subst readn_loop.simps) (auto simp: nat_add_distrib readn_loop.simps [where s = "(0, b, p, w)" for b p w])
  qed (use 5 in \<open>simp add: readn_loop.simps\<close>)
qed (subst readn_loop.simps, simp add: no_eintr_def)+

text \<open>A \<open>size_t\<close> that an \<open>int\<close> can hold.\<close>

definition int_sized :: "64 word \<Rightarrow> bool" where
  "int_sized sz \<longleftrightarrow> int (unat sz) \<le> INT_MAX"

lemma int_sized_value: "int_sized sz \<Longrightarrow> sint (ucast sz :: 32 word) = int (unat sz)"
proof -
  assume "int_sized sz"
  then have "int (unat sz) \<le> INT_MAX" by (simp add: int_sized_def INT_MAX_def)
  moreover have "sz = word_of_int (int (unat sz))" by simp
  ultimately show ?thesis using word_int(2) [of "int (unat sz)"] by simp
qed

lemma readn_delivered:
  assumes "int_sized sz" and "unat sz \<le> length buf" and "delivered (unat sz) es = (ok, bs, es')" and "no_eintr es"
  shows "readn script_read buf sz es = Some (Inr (if ok then word_of_nat (length bs) else - 1, bs @ drop (length bs) buf, es'))"
proof -
  have len: "length bs \<le> unat sz" using delivered_length [OF assms(3)] .
  then have "int (length bs) = int (unat sz) - int (unat sz - length bs)" by simp
  then have "(word_of_nat (length bs) :: 64 word) = word_of_int (int (unat sz)) - word_of_int (int (unat sz - length bs))"
    by (metis of_int_diff of_int_of_nat_eq)
  then have "sz - word_of_int (int (unat sz - length bs)) = word_of_nat (length bs)" by simp
  with readn_loop_delivered [of "unat sz" buf es ok bs es' "[]"] assms int_sized_value [OF assms(1)] show ?thesis
    by (cases ok) (simp_all add: readn_def)
qed

text \<open>A script of chunks and interruptions only, and the bytes it delivers.\<close>

definition steady :: "rd_event list \<Rightarrow> bool" where
  "steady es \<longleftrightarrow> list_all (\<lambda>e. case e of Chunk bs \<Rightarrow> bs \<noteq> [] | Interrupted \<Rightarrow> True | Failed _ \<Rightarrow> False) es"

definition bytes_in :: "rd_event list \<Rightarrow> byte list" where
  "bytes_in es = concat (map (\<lambda>e. case e of Chunk bs \<Rightarrow> bs | _ \<Rightarrow> []) es)"

lemma steady_delivered:
  "steady es \<Longrightarrow> \<exists>es'. delivered n es = (True, take n (bytes_in es), es') \<and> steady es' \<and> bytes_in es' = drop n (bytes_in es)"
proof (induction n es rule: delivered.induct)
  case (5 n c es)
  then show ?case
  proof (cases "length c \<le> Suc n")
    case True
    with 5 obtain es' where "delivered (Suc n - length c) es = (True, take (Suc n - length c) (bytes_in es), es')"
      "steady es'" "bytes_in es' = drop (Suc n - length c) (bytes_in es)" by (auto simp: steady_def)
    with 5(2) True show ?thesis by (auto simp: steady_def bytes_in_def)
  qed (auto simp: steady_def bytes_in_def)
qed (auto simp: steady_def bytes_in_def)

lemma steady_no_eintr: "steady es \<Longrightarrow> no_eintr es"
  by (auto simp: steady_def no_eintr_def list_all_iff)

section \<open>Messages\<close>

text \<open>A number in network byte order.\<close>

definition be32 :: "32 word \<Rightarrow> byte list" where
  "be32 w = [ucast (drop_bit 24 w), ucast (drop_bit 16 w), ucast (drop_bit 8 w), ucast w]"

lemma ntohl_load32: "ntohl (load32 (be32 w)) = w"
proof (rule bit_word_eqI)
  fix i
  assume "i < LENGTH(32)"
  then have "i = i mod 8 \<or> i = 8 + i mod 8 \<or> i = 16 + i mod 8 \<or> i = 24 + i mod 8" by simp presburger
  then obtain j where "j < 8" "i = j \<or> i = 8 + j \<or> i = 16 + j \<or> i = 24 + j" using that [of "i mod 8"] by simp
  then show "bit (ntohl (load32 (be32 w))) i = bit w i"
    by (elim disjE) (simp_all add: ntohl_def load32_def be32_def bit_simps)
qed

lemma read_number_steady:
  assumes "steady es" and "bytes_in es = be32 x @ ys"
  shows "\<exists>es'. read_number script_read es = Some (Inr (4, load32 (be32 x), es')) \<and> steady es' \<and> bytes_in es' = ys"
proof -
  have len: "length (be32 x) = 4" by (simp add: be32_def)
  obtain es' where es': "delivered 4 es = (True, be32 x, es')" "steady es'" "bytes_in es' = ys"
    using steady_delivered [OF assms(1), of 4] assms(2) len by auto
  have "readn script_read (replicate 4 0) 4 es = Some (Inr (4, be32 x, es'))"
    using readn_delivered [of 4 "replicate 4 0" es True "be32 x" es'] es'(1) steady_no_eintr [OF assms(1)] len
    by (simp add: int_sized_def INT_MAX_def)
  moreover have "sint (ucast (4 :: 64 word) :: 32 word) = 4" using word_int(2) [of 4] by (simp add: INT_MAX_def)
  ultimately have "read_number script_read es = Some (Inr (4, load32 (be32 x), es'))" by (simp add: read_number_def)
  with es'(2,3) show ?thesis by blast
qed

lemma of_nat_words:
  assumes "n \<le> 2147483647"
  shows "unat (ucast (word_of_nat n :: 32 word) :: 64 word) = n" "unat (word_of_nat n :: 64 word) = n"
    "ucast (word_of_nat n :: 64 word) = (word_of_nat n :: 32 word)" "sint (word_of_nat n :: 32 word) = int n"
proof -
  have m: "unat (word_of_nat n :: 32 word) = n" "unat (word_of_nat n :: 64 word) = n" using assms by (simp_all add: unat_of_nat take_bit_nat_eq_self)
  then show "unat (word_of_nat n :: 64 word) = n" by simp
  have le: "n < 2 ^ 64" "n < 2 ^ 32" using assms by simp_all
  then have tb: "take_bit 32 n = n" by (intro take_bit_nat_eq_self)
  show "unat (ucast (word_of_nat n :: 32 word) :: 64 word) = n" using m(1) le(1) by (simp add: unsigned_ucast_eq take_bit_nat_eq_self)
  show c: "ucast (word_of_nat n :: 64 word) = (word_of_nat n :: 32 word)"
    using m le tb by (simp add: word_unat_eq_iff unsigned_ucast_eq take_bit_nat_eq_self)
  have "sint (ucast (word_of_int (int n) :: 64 word) :: 32 word) = int n" using assms by (intro word_int) (simp_all add: INT_MAX_def)
  then show "sint (word_of_nat n :: 32 word) = int n" using c by simp
qed

text \<open>
  A line and the bytes behind it in the same chunk: the static buffer is filled, but how much of it is left is forgotten.
\<close>

lemma readline_loop_buffered:
  assumes "10 \<notin> set line" and "int (length line) < nleft" and "length line + 1 < unat len" and "0 \<le> buffer_pointer st"
    and "drop (nat (buffer_pointer st)) (read_buffer st) = line @ 10 # ys" and "length line + 2 \<le> length rest"
  shows "\<exists>st'. readline_loop rcv (len, nleft, st, before @ rest, int (length before), w) =
    Some (Inr (word_of_nat (length before + length line + 1), st', before @ line @ [10, 0] @ drop (length line + 2) rest, w))"
  using assms
proof (induction line arbitrary: len nleft st before rest)
  case Nil
  have p: "nat (buffer_pointer st) < length (read_buffer st)" "read_buffer st ! nat (buffer_pointer st) = 10"
    using Nil(5) by (auto simp: nth_via_drop dest: sym) (metis drop_eq_Nil list.distinct(1) not_le)
  have l: "len - 1 \<noteq> 0" "\<not> nleft \<le> 0" using Nil(2,3) by (auto simp: word_less_nat_alt)
  obtain a b rest' where r: "rest = a # b # rest'" using Nil(6) by (cases rest; cases "tl rest") auto
  have c: "readline_char st (before @ rest) (int (length before)) =
      Inr (10, st\<lparr>buffer_pointer := buffer_pointer st + 1\<rparr>, before @ 10 # b # rest')"
    using p Nil(4) r by (simp add: readline_char_def c_read_def c_write_def list_update_append)
  have "c_write (before @ 10 # b # rest') (int (length before) + 1) 0 = Inr (before @ 10 # 0 # rest')"
    by (simp add: c_write_def list_update_append nat_add_distrib)
  with l c r show ?case
    by (subst readline_loop.simps) (simp add: add.commute)
next
  case (Cons x line)
  have p: "nat (buffer_pointer st) < length (read_buffer st)" "read_buffer st ! nat (buffer_pointer st) = x"
    using Cons(6) by (auto simp: nth_via_drop dest: sym) (metis drop_eq_Nil list.distinct(1) not_le)
  have l: "len - 1 \<noteq> 0" "\<not> nleft \<le> 0" using Cons(3,4) by (auto simp: word_less_nat_alt)
  have "len \<noteq> 0" using Cons(4) by auto
  then have u: "unat (len - 1) = unat len - 1" by (simp add: unat_minus_one)
  obtain a rest' where r: "rest = a # rest'" using Cons(7) by (cases rest) auto
  let ?st = "st\<lparr>buffer_pointer := buffer_pointer st + 1\<rparr>"
  have c: "readline_char st (before @ rest) (int (length before)) = Inr (x, ?st, (before @ [x]) @ rest')"
    using p Cons(5) r by (simp add: readline_char_def c_read_def c_write_def list_update_append)
  have "drop (nat (buffer_pointer ?st)) (read_buffer ?st) = line @ 10 # ys"
    using Cons(5,6) by (simp add: nat_add_distrib) (metis drop_Suc list.sel(3) tl_drop)
  note nx = this
  have "length line + 1 < unat (len - 1)" using Cons(4) u by simp
  from Cons.IH [OF _ _ this _ nx, of "nleft - 1" rest' "before @ [x]"] Cons.prems r obtain st' where
    "readline_loop rcv (len - 1, nleft - 1, ?st, (before @ [x]) @ rest', int (length (before @ [x])), w) =
      Some (Inr (word_of_nat (length (before @ [x]) + length line + 1), st', (before @ [x]) @ line @ [10, 0] @ drop (length line + 2) rest', w))"
    by auto
  with l c r Cons(2) show ?case
    by (subst readline_loop.simps) (auto simp: add.commute add.left_commute)
qed

section \<open>A descriptor as a string of bytes\<close>

definition stream_read :: "byte list reader" where
  "stream_read n s = ((int (length (take (nat n) s)), take (nat n) s, 0), drop (nat n) s)"

definition stream_recv :: "bool \<Rightarrow> byte list \<Rightarrow> (int \<times> byte) \<times> byte list" where
  "stream_recv peek s = (case s of [] \<Rightarrow> ((0, 0), []) | c # cs \<Rightarrow> ((1, c), if peek then s else cs))"

lemma readline_2_loop_stream:
  assumes "10 \<notin> set line" and "length rest = k"
  shows "readline_2_loop stream_read k (before @ rest) (int (length before)) (line @ 10 # ys) =
    (if length line + 1 < k then Inr (word_of_nat (length before + length line + 1), before @ line @ [10, 0] @ drop (length line + 2) rest, ys)
     else if length line + 1 = k then Inl OutOfBounds
     else Inr (- 1, before @ take k line, drop k line @ 10 # ys))"
  using assms
proof (induction k arbitrary: before rest line)
  case 0
  then show ?case by simp
next
  case (Suc k)
  then obtain a rest' where r: "rest = a # rest'" "length rest' = k" by (cases rest) auto
  show ?case
  proof (cases line)
    case Nil
    show ?thesis
    proof (cases rest')
      case Nil
      with \<open>line = []\<close> r show ?thesis by (simp add: stream_read_def c_read_def c_write_def list_update_append)
    next
      case (Cons b rest'')
      with \<open>line = []\<close> r show ?thesis
        by (simp add: stream_read_def c_read_def c_write_def list_update_append nat_add_distrib add.commute)
    qed
  next
    case (Cons x line')
    have "readline_2_loop stream_read (Suc k) (before @ rest) (int (length before)) (line @ 10 # ys) =
        readline_2_loop stream_read k ((before @ [x]) @ rest') (int (length (before @ [x]))) (line' @ 10 # ys)"
      using Cons Suc.prems(1) r by (simp add: stream_read_def c_read_def c_write_def list_update_append add.commute)
    with Suc.IH [of line' rest' "before @ [x]"] Suc.prems(1) r Cons show ?thesis by (auto simp: add.commute add.left_commute)
  qed
qed

text \<open>The three ends of a line.\<close>

definition eol :: "byte list \<Rightarrow> byte list \<Rightarrow> bool" where
  "eol e ys \<longleftrightarrow> e = [10] \<or> e = [13, 10] \<or> (e = [13] \<and> (\<forall>zs. ys \<noteq> 10 # zs))"

lemma read_line_loop_stream:
  assumes "10 \<notin> set line" "13 \<notin> set line" and "eol e ys" and "k < length rest"
  shows "read_line_loop stream_recv k (before @ rest) (int (length before)) (line @ e @ ys) =
    (if length line < k then Inr (int (length before + length line + 1), before @ line @ 10 # drop (length line + 1) rest, ys)
     else Inr (int (length before + k), before @ take k line @ drop k rest, drop k line @ e @ ys))"
  using assms
proof (induction k arbitrary: before rest line)
  case 0
  then show ?case by simp
next
  case (Suc k)
  then obtain a rest' where r: "rest = a # rest'" "k < length rest'" by (cases rest) auto
  show ?case
  proof (cases line)
    case Nil
    have ne: "(10 :: byte) \<noteq> 13" "(13 :: byte) \<noteq> 10" by simp_all
    with Nil Suc.prems(3) r show ?thesis
      by (auto simp: eol_def stream_recv_def c_write_def list_update_append add.commute split: list.splits)
  next
    case (Cons x line')
    have "read_line_loop stream_recv (Suc k) (before @ rest) (int (length before)) (line @ e @ ys) =
        read_line_loop stream_recv k ((before @ [x]) @ rest') (int (length (before @ [x]))) (line' @ e @ ys)"
      using Cons Suc.prems(1,2) r by (simp add: stream_recv_def c_write_def list_update_append add.commute)
    with Suc.IH [of line' rest' "before @ [x]"] Suc.prems r Cons show ?thesis by (auto simp: add.commute add.left_commute)
  qed
qed

section \<open>Properties\<close>

text \<open>
  Reading a number of bytes that an \<open>int\<close> can hold: whatever the chunks and interruptions, \<open>readn\<close> returns, with the bytes that came before
  the end of the input at the front of the buffer, their number as the result, and the rest of the input untouched; or with minus one when the
  descriptor fails first.
\<close>

theorem readn_reads:
  assumes "int_sized sz" and "unat sz \<le> length buf" and "no_eintr es"
  shows "\<exists>ok bs es'. delivered (unat sz) es = (ok, bs, es') \<and>
    readn script_read buf sz es = Some (Inr (if ok then word_of_nat (length bs) else - 1, bs @ drop (length bs) buf, es'))"
proof -
  obtain ok bs es' where d: "delivered (unat sz) es = (ok, bs, es')" by (metis prod_cases3)
  with readn_delivered [OF assms(1,2) d assms(3)] show ?thesis by blast
qed

theorem readn_reads_witness:
  "readn script_read [0, 0, 0] 3 [Chunk [1], Interrupted, Chunk [2, 3, 4]] = Some (Inr (3, [1, 2, 3], [Chunk [4]])) \<and>
   readn script_read [0, 0, 0] 3 [Chunk [1], Failed 5] = Some (Inr (- 1, [1, 0, 0], []))"
proof -
  have d: "delivered 3 [Chunk [1], Interrupted, Chunk [2, 3, 4]] = (True, [1, 2, 3], [Chunk [4]])" "delivered 3 [Chunk [1], Failed 5] = (False, [1], [])"
    by code_simp+
  have "int_sized 3" "unat (3 :: 64 word) = 3" "no_eintr [Chunk [1], Interrupted, Chunk [2, 3, 4]]" "no_eintr [Chunk [1], Failed 5]"
    by (simp_all add: int_sized_def INT_MAX_def no_eintr_def EINTR_def)
  with readn_reads [of 3 "[0, 0, 0]" "[Chunk [1], Interrupted, Chunk [2, 3, 4]]"] readn_reads [of 3 "[0, 0, 0]" "[Chunk [1], Failed 5]"] d
  show ?thesis by auto
qed

text \<open>
  C15. A message is read back: from a descriptor that delivers, in whatever chunks, the length and the type of a message in network byte order and
  then its bytes, \<open>read_message\<close> puts exactly these into a buffer with room for them, returns their number and leaves what follows; when the buffer is
  said to be shorter it returns minus one without reading them.
\<close>

theorem read_message_roundtrip:
  assumes "steady es" and "bytes_in es = be32 (word_of_nat (length msg)) @ be32 type @ msg @ rest" and "length msg \<le> 2147483647"
    and "unat len \<le> length buf"
  shows "\<exists>es'. read_message script_read buf len es =
      Some (Inr (if length msg \<le> unat len then (word_of_nat (length msg), msg @ drop (length msg) buf, es') else (- 1, buf, es'))) \<and>
    steady es' \<and> bytes_in es' = (if length msg \<le> unat len then rest else msg @ rest)"
proof -
  let ?n = "word_of_nat (length msg) :: 32 word"
  note w = of_nat_words [OF assms(3)]
  obtain es1 where 1: "read_number script_read es = Some (Inr (4, load32 (be32 ?n), es1))" "steady es1" "bytes_in es1 = be32 type @ msg @ rest"
    using read_number_steady [OF assms(1,2)] by blast
  obtain es2 where 2: "read_number script_read es1 = Some (Inr (4, load32 (be32 type), es2))" "steady es2" "bytes_in es2 = msg @ rest"
    using read_number_steady [OF 1(2,3)] by blast
  have lt: "len < ucast ?n \<longleftrightarrow> \<not> length msg \<le> unat len" using w(1) by (simp add: word_less_nat_alt not_le)
  show ?thesis
  proof (cases "length msg \<le> unat len")
    case False
    then show ?thesis using 1 2 lt by (simp add: read_message_def ntohl_load32)
  next
    case True
    obtain es3 where es3: "delivered (length msg) es2 = (True, msg, es3)" "steady es3" "bytes_in es3 = rest"
      using steady_delivered [OF 2(2), of "length msg"] 2(3) by auto
    have "readn script_read buf (ucast ?n) es2 = Some (Inr (word_of_nat (length msg), msg @ drop (length msg) buf, es3))"
      using readn_delivered [of "ucast ?n" buf es2 True msg es3] es3(1) w(1) True assms(3,4) steady_no_eintr [OF 2(2)]
      by (simp add: int_sized_def INT_MAX_def)
    moreover have "word_of_int (int (length msg)) = (word_of_nat (length msg) :: 64 word)" by simp
    ultimately have "read_message script_read buf len es = Some (Inr (word_of_nat (length msg), msg @ drop (length msg) buf, es3))"
      using 1(1) 2(1) lt True w(3,4) by (simp add: read_message_def ntohl_load32)
    with True es3(2,3) show ?thesis by auto
  qed
qed

theorem read_message_roundtrip_witness:
  "\<exists>es'. read_message script_read [7, 7, 7] 3 [Chunk [0, 0], Interrupted, Chunk [0, 2, 0, 0], Chunk [0, 9, 65, 66, 67]] = Some (Inr (2, [65, 66, 7], es')) \<and>
     bytes_in es' = [67]"
proof -
  let ?es = "[Chunk [0, 0], Interrupted, Chunk [0, 2, 0, 0], Chunk [0, 9, 65, 66, 67]] :: rd_event list"
  have "be32 (word_of_nat (length [65 :: byte, 66])) = [0, 0, 0, 2]" "be32 9 = [0, 0, 0, 9]" by code_simp+
  then have "bytes_in ?es = be32 (word_of_nat (length [65 :: byte, 66])) @ be32 9 @ [65, 66] @ [67]" by (simp add: bytes_in_def)
  from read_message_roundtrip [OF _ this, of 3 "[7, 7, 7]"] show ?thesis by (auto simp: steady_def)
qed

text \<open>
  C38. \<open>readline\<close> loses input: it returns the first line of a chunk, terminated, but the bytes that came behind it in the same chunk are gone, since the
  count of what is left in the static buffer is a local variable; the next call finds the end of the input.
\<close>

theorem readline_loses_rest:
  assumes "10 \<notin> set line" and "length line + 1 + length ys \<le> 512" and "length line + 1 < unat len" "length line + 2 \<le> length buf"
    and "length (read_buffer st) = 512" and "1 < len2"
  shows "\<exists>st'. readline script_read st buf len [Chunk (line @ 10 # ys)] =
      Some (Inr (word_of_nat (length line + 1), st', line @ [10, 0] @ drop (length line + 2) buf, [])) \<and>
    readline script_read st' buf2 len2 [] = Some (Inr (0, st', buf2, []))"
proof -
  let ?c = "line @ 10 # ys"
  let ?st = "st\<lparr>read_buffer := ?c @ drop (length ?c) (read_buffer st), buffer_pointer := 0\<rparr>"
  have "int (length ?c) \<le> 512" using assms(2) by simp
  then have rf: "readline_refill script_read st [Chunk ?c] = Inr (Refilled (int (length ?c)) ?st, [])"
    using assms(2,5) by (simp add: readline_refill_def READ_BUFFER_def mem_copy_def nat_add_distrib)
  have "len - 1 \<noteq> 0" using assms(3) by auto
  moreover have "readline_loop script_read (len, int (length ?c), ?st, buf, 0, []) = readline_loop script_read (len, 0, st, buf, 0, [Chunk ?c])"
    if "len - 1 \<noteq> 0"
    using that rf by (subst (1 2) readline_loop.simps) simp
  moreover obtain st' where "readline_loop script_read (len, int (length ?c), ?st, buf, 0, []) =
      Some (Inr (word_of_nat (length line + 1), st', line @ [10, 0] @ drop (length line + 2) buf, []))"
    using readline_loop_buffered [of line "int (length ?c)" len ?st "ys @ drop (length ?c) (read_buffer st)" buf script_read "[]" "[]"] assms by auto
  ultimately have "readline script_read st buf len [Chunk ?c] =
      Some (Inr (word_of_nat (length line + 1), st', line @ [10, 0] @ drop (length line + 2) buf, []))" by (simp add: readline_def)
  moreover have "readline script_read st' buf2 len2 [] = Some (Inr (0, st', buf2, []))"
    using assms(6) by (simp add: readline_def readline_loop.simps readline_refill_def)
  ultimately show ?thesis by blast
qed

theorem readline_loses_rest_witness:
  "\<exists>st'. readline script_read \<lparr>read_buffer = replicate 512 0, buffer_pointer = 0\<rparr> (replicate 4 0) 8 [Chunk [65, 10, 66, 10]] = Some (Inr (2, st', [65, 10, 0, 0], [])) \<and>
     readline script_read st' (replicate 4 0) 8 [] = Some (Inr (0, st', replicate 4 0, []))"
  using readline_loses_rest [of "[65]" "[66, 10]" 8 "replicate 4 0" "\<lparr>read_buffer = replicate 512 0, buffer_pointer = 0\<rparr>" 8 "replicate 4 0"]
  by simp

text \<open>
  \<open>readline_2\<close> with a buffer of exactly the given length: shorter lines are returned terminated and what follows stays unread; a line that fills the buffer
  with its line feed makes it write the terminator behind the buffer; of a longer one it returns minus one after consuming as much as fits.
\<close>

theorem readline_2_outcomes:
  assumes "10 \<notin> set line" and "length buf = unat len"
  shows "readline_2 stream_read buf len (line @ 10 # ys) =
    (if length line + 1 < unat len then Inr (word_of_nat (length line + 1), line @ [10, 0] @ drop (length line + 2) buf, ys)
     else if length line + 1 = unat len then Inl OutOfBounds
     else Inr (- 1, take (unat len) line, drop (unat len) line @ 10 # ys))"
  using readline_2_loop_stream [OF assms, of "[]" ys] by (simp add: readline_2_def)

theorem readline_2_outcomes_witness:
  "readline_2 stream_read [0, 0] 2 [65, 10] = Inl OutOfBounds \<and> readline_2 stream_read [0, 0] 2 [65, 66, 10] = Inr (- 1, [65, 66], [10])"
  using readline_2_outcomes [of "[65]" "[0, 0]" 2 "[]"] readline_2_outcomes [of "[65, 66]" "[0, 0]" 2 "[]"] by simp

text \<open>
  C39. \<open>read_line\<close> in a buffer of the given positive size: a line that ends in a line feed, a carriage return or both is stored with a single line feed and a
  terminator, its length returned and the rest left unread; of a line that does not fit, as much as fits is stored and the rest is there for the
  next call.  With a size that is not positive the terminator is written all the same.
\<close>

theorem read_line_reads_line:
  assumes "10 \<notin> set line" "13 \<notin> set line" and "eol e ys" and "int (length buf) = max 0 n" and "INT_MIN < n" "n \<le> INT_MAX"
  shows "read_line stream_recv buf n (line @ e @ ys) =
    (if n \<le> 0 then Inl OutOfBounds
     else if int (length line) + 1 < n then Inr (int (length line) + 1, line @ [10, 0] @ drop (length line + 2) buf, ys)
     else Inr (n - 1, take (nat n - 1) line @ [0], drop (nat n - 1) line @ e @ ys))"
proof (cases "n \<le> 0")
  case True
  with assms(4-6) show ?thesis by (simp add: read_line_def c_int_defs c_write_def)
next
  case False
  let ?k = "nat (n - 1)"
  have k: "?k < length buf" "length buf = Suc ?k" using False assms(4) by auto
  have ci: "c_int (n - 1) = Inr (n - 1)" using False assms(6) by (simp add: c_int_defs)
  have loop: "read_line_loop stream_recv ?k buf 0 (line @ e @ ys) =
      (if length line < ?k then Inr (int (length line + 1), line @ 10 # drop (length line + 1) buf, ys)
       else Inr (int ?k, take ?k line @ drop ?k buf, drop ?k line @ e @ ys))"
    using read_line_loop_stream [OF assms(1-3) k(1), of "[]"] by simp
  show ?thesis
  proof (cases "length line < ?k")
    case True
    then have "drop (length line + 1) buf \<noteq> []" using k by simp
    then obtain b bs where b: "drop (length line + 1) buf = b # bs" by (cases "drop (length line + 1) buf") auto
    then have "bs = drop (length line + 2) buf" by (metis drop_Suc list.sel(3) tl_drop add_2_eq_Suc' Suc_eq_plus1)
    moreover have "int (length line) + 1 < n" using True by linarith
    ultimately show ?thesis
      using False ci loop True b by (simp add: read_line_def c_write_def list_update_append nat_add_distrib)
  next
    case no: False
    have "drop ?k buf \<noteq> []" using k by simp
    then obtain b where b: "drop ?k buf = [b]" using k(2) by (cases "drop ?k buf") (auto dest: arg_cong [where f = length])
    moreover have "\<not> int (length line) + 1 < n" "nat n - 1 = ?k" using no False by linarith+
    moreover have "length (take ?k line) = ?k" using no by simp
    ultimately show ?thesis using False ci loop no by (simp add: read_line_def c_write_def list_update_append)
  qed
qed

theorem read_line_reads_line_witness:
  "read_line stream_recv [7, 7, 7, 7] 4 ([65] @ [13, 10] @ [66]) = Inr (2, [65, 10, 0, 7], [66]) \<and>
   read_line stream_recv [7, 7] 2 ([65, 66] @ [10] @ []) = Inr (1, [65, 0], [66, 10])"
  using read_line_reads_line [of "[65]" "[13, 10]" "[66]" "[7, 7, 7, 7]" 4] read_line_reads_line [of "[65, 66]" "[10]" "[]" "[7, 7]" 2]
  by (simp add: eol_def INT_MIN_def INT_MAX_def)

end
