(* ===== verification/Buffer.thy ===== *)
theory Buffer
  imports C_String
begin

text \<open>
  \<^verbatim>\<open>httptest-geektime/lib/buffer.c\<close>: the byte buffer between the sockets and the HTTP code.
  \<open>data\<close> is the allocated block, null being the empty one; \<open>realloc\<close> and \<open>readv\<close> are
  parameters.  A buffer stands for the bytes between its two indices.
\<close>

section \<open>The code\<close>

record buffer =
  data :: "byte list"
  readIndex :: int
  writeIndex :: int
  total_size :: int

definition INIT_BUFFER_SIZE :: nat where "INIT_BUFFER_SIZE = 65536"

definition CRLF :: "byte list" where "CRLF = [13, 10]"

text \<open>
  \<open>mstruct\<close> tells whether the first \<open>malloc\<close> succeeds, \<open>mdata\<close> is the result of the
  second, whose failure is not looked at.
\<close>

definition buffer_new :: "bool \<Rightarrow> byte list option \<Rightarrow> buffer option" where
  "buffer_new mstruct mdata =
     (if \<not> mstruct then None
      else Some \<lparr>data = (case mdata of None \<Rightarrow> [] | Some d \<Rightarrow> d), readIndex = 0, writeIndex = 0,
                 total_size = int INIT_BUFFER_SIZE\<rparr>)"

definition buffer_writeable_size :: "buffer \<Rightarrow> int" where
  "buffer_writeable_size b = total_size b - writeIndex b"

definition buffer_readable_size :: "buffer \<Rightarrow> int" where
  "buffer_readable_size b = writeIndex b - readIndex b"

definition buffer_front_spare_size :: "buffer \<Rightarrow> int" where
  "buffer_front_spare_size b = readIndex b"

text \<open>One byte of the move to the front.\<close>

definition move_byte :: "nat \<Rightarrow> buffer \<Rightarrow> buffer c_res" where
  "move_byte i b =
     c_bind (c_read (data b) (readIndex b + int i)) (\<lambda>c.
     c_bind (c_write (data b) (int i) c) (\<lambda>d. Inr (b\<lparr>data := d\<rparr>)))"

definition make_room :: "(byte list \<Rightarrow> int \<Rightarrow> byte list option) \<Rightarrow> buffer \<Rightarrow> int \<Rightarrow> buffer c_res" where
  "make_room realloc b sz =
     (if sz \<le> buffer_writeable_size b then Inr b
      else if sz \<le> buffer_front_spare_size b + buffer_writeable_size b then
        let readable = buffer_readable_size b in
        c_bind (c_for move_byte (nat readable) b) (\<lambda>b.
        Inr (b\<lparr>readIndex := 0, writeIndex := readable\<rparr>))
      else
        c_bind (c_int (total_size b + sz)) (\<lambda>n.
        case realloc (data b) n of
          None \<Rightarrow> Inr b
        | Some tmp \<Rightarrow> Inr (b\<lparr>data := tmp, total_size := n\<rparr>)))"

text \<open>\<open>src\<close> is the memory at the data pointer, \<open>None\<close> for null; it may be longer than \<open>sz\<close>.\<close>

definition buffer_append :: "(byte list \<Rightarrow> int \<Rightarrow> byte list option) \<Rightarrow> buffer \<Rightarrow> byte list option \<Rightarrow> int \<Rightarrow> buffer c_res" where
  "buffer_append realloc b src sz =
     (case src of None \<Rightarrow> Inr b
      | Some s \<Rightarrow>
          c_bind (make_room realloc b sz) (\<lambda>b.
          c_bind (mem_copy (data b) (writeIndex b) s sz) (\<lambda>d.
          c_bind (c_int (writeIndex b + sz)) (\<lambda>w.
          Inr (b\<lparr>data := d, writeIndex := w\<rparr>)))))"

definition buffer_append_char :: "(byte list \<Rightarrow> int \<Rightarrow> byte list option) \<Rightarrow> buffer \<Rightarrow> byte \<Rightarrow> buffer c_res" where
  "buffer_append_char realloc b c =
     c_bind (make_room realloc b 1) (\<lambda>b.
     c_bind (c_write (data b) (writeIndex b) c) (\<lambda>d.
     c_bind (c_int (writeIndex b + 1)) (\<lambda>w.
     Inr (b\<lparr>data := d, writeIndex := w\<rparr>))))"

definition buffer_append_string :: "(byte list \<Rightarrow> int \<Rightarrow> byte list option) \<Rightarrow> buffer \<Rightarrow> byte list option \<Rightarrow> buffer c_res" where
  "buffer_append_string realloc b src =
     (case src of None \<Rightarrow> Inr b
      | Some s \<Rightarrow> c_bind (c_strlen s) (\<lambda>sz. buffer_append realloc b (Some s) sz))"

text \<open>
  \<^verbatim>\<open>readv(fd, vec, 2)\<close>, given the room in both vectors, yields the result and the bytes it
  stored, the first of them in the buffer's spare room, the rest in \<open>additional_buffer\<close>.
\<close>

definition buffer_socket_read :: "(byte list \<Rightarrow> int \<Rightarrow> byte list option) \<Rightarrow> (int \<Rightarrow> int \<times> byte list) \<Rightarrow> buffer
    \<Rightarrow> (int \<times> buffer) c_res" where
  "buffer_socket_read realloc readv b =
     (let max_writable = buffer_writeable_size b;
          (result, bytes) = readv (max_writable + int INIT_BUFFER_SIZE)
      in if result < 0 then Inr (- 1, b)
         else c_bind (mem_copy (data b) (writeIndex b) bytes (min result max_writable)) (\<lambda>d.
           let b = b\<lparr>data := d\<rparr> in
           if result \<le> max_writable then Inr (result, b\<lparr>writeIndex := writeIndex b + result\<rparr>)
           else
             let b = b\<lparr>writeIndex := total_size b\<rparr> in
             c_bind (buffer_append realloc b (Some (drop (nat max_writable) bytes)) (result - max_writable)) (\<lambda>b.
             Inr (result, b))))"

definition buffer_read_char :: "buffer \<Rightarrow> (byte \<times> buffer) c_res" where
  "buffer_read_char b =
     c_bind (c_read (data b) (readIndex b)) (\<lambda>c. Inr (c, b\<lparr>readIndex := readIndex b + 1\<rparr>))"

text \<open>The place of the line end, as an index into \<open>data\<close>.\<close>

definition buffer_find_CRLF :: "buffer \<Rightarrow> int option c_res" where
  "buffer_find_CRLF b =
     (if 0 \<le> readIndex b \<and> 0 \<le> buffer_readable_size b \<and> writeIndex b \<le> int (length (data b))
      then Inr (map_option (\<lambda>i. readIndex b + int i)
                  (mem_find CRLF (take (nat (buffer_readable_size b)) (drop (nat (readIndex b)) (data b)))))
      else Inl OutOfBounds)"

section \<open>The bytes a buffer stands for\<close>

definition buffer_inv :: "buffer \<Rightarrow> bool" where
  "buffer_inv b \<longleftrightarrow> 0 \<le> readIndex b \<and> readIndex b \<le> writeIndex b \<and> writeIndex b \<le> total_size b \<and>
     total_size b = int (length (data b)) \<and> total_size b \<le> INT_MAX"

definition content :: "buffer \<Rightarrow> byte list" where
  "content b = take (nat (buffer_readable_size b)) (drop (nat (readIndex b)) (data b))"

text \<open>What \<open>realloc\<close> documents: a larger block that starts with the old contents.\<close>

definition realloc_ok :: "(byte list \<Rightarrow> int \<Rightarrow> byte list option) \<Rightarrow> bool" where
  "realloc_ok realloc \<longleftrightarrow>
     (\<forall>d n d'. realloc d n = Some d' \<longrightarrow> int (length d) \<le> n \<longrightarrow> int (length d') = n \<and> take (length d) d' = d)"

lemma content_length: "buffer_inv b \<Longrightarrow> int (length (content b)) = buffer_readable_size b"
  by (auto simp: buffer_inv_def content_def buffer_readable_size_def min_def)

lemma content_from_start: "readIndex b = 0 \<Longrightarrow> content b = take (nat (writeIndex b)) (data b)"
  by (simp add: content_def buffer_readable_size_def)

lemma move_bytes:
  assumes "buffer_inv b" and "n \<le> nat (buffer_readable_size b)"
  shows "c_for move_byte n b = Inr (b\<lparr>data := take n (content b) @ drop n (data b)\<rparr>)"
proof -
  let ?r = "nat (readIndex b)"
  let ?F = "\<lambda>k. b\<lparr>data := take k (content b) @ drop k (data b)\<rparr>"
  have len: "?r + length (content b) \<le> length (data b)" "n \<le> length (content b)" "0 \<le> readIndex b"
    using assms content_length [OF assms(1)] by (auto simp: buffer_inv_def buffer_readable_size_def)
  have "c_for move_byte n (?F 0) = Inr (?F n)"
  proof (rule c_for_closed)
    fix k assume k: "k < n"
    have kd: "k < length (data b)" "?r + k < length (data b)" "k < length (content b)" using k len by linarith+
    have "(take k (content b) @ drop k (data b)) ! (?r + k) = content b ! k"
      using kd len by (simp add: nth_append content_def nth_drop [OF less_imp_le [OF kd(1)]] add.commute)
    moreover have "(take k (content b) @ drop k (data b))[k := content b ! k] = take (Suc k) (content b) @ drop (Suc k) (data b)"
      using kd by (simp add: list_update_append take_Suc_conv_app_nth Cons_nth_drop_Suc [symmetric])
    moreover have "nat (readIndex b + int k) = ?r + k" using len(3) by simp
    ultimately show "move_byte k (?F k) = Inr (?F (Suc k))"
      using kd len(3) by (simp add: move_byte_def c_read_def c_write_def)
  qed
  then show ?thesis by simp
qed

text \<open>After making room the contents are the same, and the room is there unless memory ran out.\<close>

lemma make_room_ok:
  assumes inv: "buffer_inv b" and re: "realloc_ok realloc" and sz: "0 \<le> sz" "total_size b + sz \<le> INT_MAX"
  shows "\<exists>b'. make_room realloc b sz = Inr b' \<and> buffer_inv b' \<and> content b' = content b \<and>
     ((\<forall>d n. realloc d n \<noteq> None) \<longrightarrow> sz \<le> buffer_writeable_size b') \<and>
     (sz \<le> buffer_writeable_size b' \<or> b' = b) \<and> total_size b' \<le> total_size b + sz"
proof (cases "sz \<le> buffer_writeable_size b")
  case True
  with inv sz show ?thesis by (simp add: make_room_def)
next
  case nroom: False
  show ?thesis
  proof (cases "sz \<le> buffer_front_spare_size b + buffer_writeable_size b")
    case True
    let ?n = "nat (buffer_readable_size b)"
    let ?b = "b\<lparr>data := content b @ drop ?n (data b), readIndex := 0, writeIndex := buffer_readable_size b\<rparr>"
    have len: "length (content b) = ?n" using content_length [OF inv] by linarith
    have rs: "0 \<le> buffer_readable_size b" "buffer_readable_size b \<le> total_size b" using inv by (auto simp: buffer_inv_def buffer_readable_size_def)
    have "make_room realloc b sz = Inr ?b"
      using move_bytes [OF inv order_refl] nroom True len by (simp add: make_room_def Let_def)
    moreover have "buffer_inv ?b" using inv rs len by (simp add: buffer_inv_def)
    moreover have "content ?b = content b" using len by (simp add: content_from_start)
    moreover have "sz \<le> buffer_writeable_size ?b"
      using True by (simp add: buffer_writeable_size_def buffer_front_spare_size_def buffer_readable_size_def)
    moreover have "total_size ?b \<le> total_size b + sz" using sz by simp
    ultimately show ?thesis by blast
  next
    case False
    have ok: "c_int (total_size b + sz) = Inr (total_size b + sz)"
      using sz inv by (simp add: c_int_defs buffer_inv_def INT_MAX_def)
    show ?thesis
    proof (cases "realloc (data b) (total_size b + sz)")
      case None
      with nroom False ok inv sz show ?thesis by (auto simp: make_room_def)
    next
      case (Some d)
      let ?b = "b\<lparr>data := d, total_size := total_size b + sz\<rparr>"
      have "int (length (data b)) \<le> total_size b + sz" using inv sz by (simp add: buffer_inv_def)
      then have d: "int (length d) = total_size b + sz" "take (length (data b)) d = data b"
        using re Some by (auto simp: realloc_ok_def)
      have "make_room realloc b sz = Inr ?b" using nroom False ok Some by (simp add: make_room_def)
      moreover have "buffer_inv ?b" using inv d sz by (simp add: buffer_inv_def)
      moreover have "content ?b = content b"
      proof -
        have "nat (readIndex b) + nat (buffer_readable_size b) \<le> length (data b)"
          using inv by (auto simp: buffer_inv_def buffer_readable_size_def)
        then have "take (nat (buffer_readable_size b)) (drop (nat (readIndex b)) d)
            = take (nat (buffer_readable_size b)) (drop (nat (readIndex b)) (take (length (data b)) d))"
          by (simp add: take_drop min_def)
        with d(2) show ?thesis by (simp add: content_def buffer_readable_size_def)
      qed
      moreover have "sz \<le> buffer_writeable_size ?b" using inv by (simp add: buffer_writeable_size_def buffer_inv_def)
      moreover have "total_size ?b \<le> total_size b + sz" by simp
      ultimately show ?thesis by blast
    qed
  qed
qed

lemma mem_copy_at_end:
  assumes "buffer_inv b" and "0 \<le> n" "n \<le> int (length s)" "n \<le> buffer_writeable_size b"
  shows "\<exists>d. mem_copy (data b) (writeIndex b) s n = Inr d \<and>
     buffer_inv (b\<lparr>data := d, writeIndex := writeIndex b + n\<rparr>) \<and>
     content (b\<lparr>data := d, writeIndex := writeIndex b + n\<rparr>) = content b @ take (nat n) s"
proof -
  let ?w = "nat (writeIndex b)" let ?r = "nat (readIndex b)"
  let ?d = "take ?w (data b) @ take (nat n) s @ drop (nat (writeIndex b + n)) (data b)"
  have ix: "0 \<le> readIndex b" "readIndex b \<le> writeIndex b" "writeIndex b + n \<le> int (length (data b))"
    using assms by (auto simp: buffer_inv_def buffer_writeable_size_def)
  have copy: "mem_copy (data b) (writeIndex b) s n = Inr ?d" using ix assms(2,3) by (simp add: mem_copy_def)
  have len: "length ?d = length (data b)" using ix assms(2,3) by simp
  have inv: "buffer_inv (b\<lparr>data := ?d, writeIndex := writeIndex b + n\<rparr>)"
    using assms ix by (auto simp: buffer_inv_def buffer_writeable_size_def min_def)
  have rw: "?r \<le> ?w" "?w \<le> length (data b)" "nat n \<le> length s" using ix assms(2,3) by auto
  have "content (b\<lparr>data := ?d, writeIndex := writeIndex b + n\<rparr>)
      = take (nat (writeIndex b + n - readIndex b)) (drop ?r ?d)"
    by (simp add: content_def buffer_readable_size_def)
  also have "drop ?r ?d = drop ?r (take ?w (data b)) @ take (nat n) s @ drop (nat (writeIndex b + n)) (data b)"
    using rw by simp
  also have "nat (writeIndex b + n - readIndex b) = (?w - ?r) + nat n" using ix assms(2) by auto
  also have "take ((?w - ?r) + nat n) (drop ?r (take ?w (data b)) @ take (nat n) s @ drop (nat (writeIndex b + n)) (data b))
      = drop ?r (take ?w (data b)) @ take (nat n) s"
    using rw by (simp add: le_diff_conv2)
  also have "drop ?r (take ?w (data b)) = content b"
    using ix by (simp add: content_def buffer_readable_size_def drop_take nat_diff_distrib)
  finally show ?thesis using copy inv by blast
qed

definition realloc_total :: "(byte list \<Rightarrow> int \<Rightarrow> byte list option) \<Rightarrow> bool" where
  "realloc_total realloc \<longleftrightarrow> realloc_ok realloc \<and> (\<forall>d n. realloc d n \<noteq> None)"

text \<open>
  Appending adds exactly the given bytes, unless memory ran out: then it writes past the
  end of the block.
\<close>

lemma buffer_append_ok:
  assumes inv: "buffer_inv b" and re: "realloc_ok realloc"
    and sz: "0 \<le> sz" "sz \<le> int (length s)" "total_size b + sz \<le> INT_MAX"
  shows "(\<exists>b'. buffer_append realloc b (Some s) sz = Inr b' \<and> buffer_inv b' \<and>
            content b' = content b @ take (nat sz) s \<and> total_size b' \<le> total_size b + sz) \<or>
     (buffer_append realloc b (Some s) sz = Inl OutOfBounds \<and> (\<exists>d n. realloc d n = None))"
proof -
  obtain b1 where b1: "make_room realloc b sz = Inr b1" "buffer_inv b1" "content b1 = content b"
      "(\<forall>d n. realloc d n \<noteq> None) \<longrightarrow> sz \<le> buffer_writeable_size b1" "total_size b1 \<le> total_size b + sz"
    using make_room_ok [OF inv re sz(1,3)] by blast
  show ?thesis
  proof (cases "sz \<le> buffer_writeable_size b1")
    case True
    from mem_copy_at_end [OF b1(2) sz(1,2) True] obtain d where
      d: "mem_copy (data b1) (writeIndex b1) s sz = Inr d"
        "buffer_inv (b1\<lparr>data := d, writeIndex := writeIndex b1 + sz\<rparr>)"
        "content (b1\<lparr>data := d, writeIndex := writeIndex b1 + sz\<rparr>) = content b1 @ take (nat sz) s" by blast
    have "c_int (writeIndex b1 + sz) = Inr (writeIndex b1 + sz)"
      using d(2) by (simp add: buffer_inv_def c_int_defs INT_MAX_def)
    with b1 d show ?thesis by (simp add: buffer_append_def)
  next
    case False
    then have "mem_copy (data b1) (writeIndex b1) s sz = Inl OutOfBounds"
      using b1(2) by (auto simp: mem_copy_def buffer_writeable_size_def buffer_inv_def)
    with b1 False show ?thesis by (auto simp: buffer_append_def)
  qed
qed

lemma buffer_append_total:
  assumes "buffer_inv b" and "realloc_total realloc"
    and "0 \<le> sz" "sz \<le> int (length s)" "total_size b + sz \<le> INT_MAX"
  shows "\<exists>b'. buffer_append realloc b (Some s) sz = Inr b' \<and> buffer_inv b' \<and>
     content b' = content b @ take (nat sz) s \<and> total_size b' \<le> total_size b + sz"
  using buffer_append_ok [of b realloc sz s] assms by (metis realloc_total_def)

section \<open>The buffer as a sink of bytes\<close>

text \<open>
  What the clients that fill a buffer rely on: while there is room for \<open>n\<close> more bytes, storing
  bytes the sink takes appends them and uses up no more room than they need.
\<close>

locale byte_sink =
  fixes inv :: "'s \<Rightarrow> bool"
    and bytes :: "'s \<Rightarrow> byte list"
    and room :: "'s \<Rightarrow> nat \<Rightarrow> bool"
    and takes :: "byte list \<Rightarrow> bool"
    and put :: "'s \<Rightarrow> byte list \<Rightarrow> 's c_res"
  assumes put_law: "inv s \<Longrightarrow> takes xs \<Longrightarrow> room s (length xs + n) \<Longrightarrow>
      \<exists>s'. put s xs = Inr s' \<and> inv s' \<and> bytes s' = bytes s @ xs \<and> room s' n"
begin

primrec put_all :: "byte list list \<Rightarrow> 's \<Rightarrow> 's c_res" where
  "put_all [] s = Inr s"
| "put_all (xs # xss) s = c_bind (put s xs) (put_all xss)"

lemma put_all_appends:
  "inv s \<Longrightarrow> list_all takes xss \<Longrightarrow> room s (length (concat xss) + n) \<Longrightarrow>
   \<exists>s'. put_all xss s = Inr s' \<and> inv s' \<and> bytes s' = bytes s @ concat xss \<and> room s' n"
proof (induction xss arbitrary: s)
  case (Cons xs xss)
  then obtain s1 where "put s xs = Inr s1" "inv s1" "bytes s1 = bytes s @ xs" "room s1 (length (concat xss) + n)"
    using put_law [of s xs "length (concat xss) + n"] by (auto simp: add.assoc)
  with Cons.IH [of s1] Cons.prems(2) show ?case by auto
qed simp

end

definition buffer_room :: "buffer \<Rightarrow> nat \<Rightarrow> bool" where
  "buffer_room b n \<longleftrightarrow> total_size b + int n \<le> INT_MAX"

definition string_free :: "byte list \<Rightarrow> bool" where
  "string_free xs \<longleftrightarrow> 0 \<notin> set xs"

text \<open>A realloc that never fails: the new part is zero.\<close>

definition zero_realloc :: "byte list \<Rightarrow> int \<Rightarrow> byte list option" where
  "zero_realloc d n = Some (d @ replicate (nat n - length d) 0)"

lemma zero_realloc_total: "realloc_total zero_realloc"
  by (auto simp: realloc_total_def realloc_ok_def zero_realloc_def)

lemma append_sink_law:
  assumes "buffer_inv b \<and> realloc_total realloc" and "buffer_room b (length xs + n)" and "length xs \<le> length ys" "take (length xs) ys = xs"
  shows "\<exists>b'. buffer_append realloc b (Some ys) (int (length xs)) = Inr b' \<and> (buffer_inv b' \<and> realloc_total realloc) \<and>
     content b' = content b @ xs \<and> buffer_room b' n"
  using buffer_append_total [of b realloc "int (length xs)" ys] assms by (auto simp: buffer_room_def)

interpretation block_sink: byte_sink "\<lambda>b. buffer_inv b \<and> realloc_total realloc" content buffer_room "\<lambda>xs. True"
  "\<lambda>b xs. buffer_append realloc b (Some xs) (int (length xs))" for realloc
  by unfold_locales (rule append_sink_law, auto)

interpretation string_sink: byte_sink "\<lambda>b. buffer_inv b \<and> realloc_total realloc" content buffer_room string_free
  "\<lambda>b xs. buffer_append_string realloc b (Some (xs @ [0]))" for realloc
proof unfold_locales
  fix b xs n
  assume "buffer_inv b \<and> realloc_total realloc" "string_free xs" "buffer_room b (length xs + n)"
  then show "\<exists>b'. buffer_append_string realloc b (Some (xs @ [0])) = Inr b' \<and> (buffer_inv b' \<and> realloc_total realloc) \<and>
      content b' = content b @ xs \<and> buffer_room b' n"
    using append_sink_law [of b realloc xs n "xs @ [0]"]
    by (simp add: buffer_append_string_def string_free_def c_strlen_term [of xs "[]"])
qed

section \<open>Properties\<close>

text \<open>
  C18. Appending to a consistent buffer keeps it consistent and its contents become the old bytes followed by the
  given ones, whether there is room, the bytes are moved to the front, or the block is enlarged. If enlarging fails the copy runs past the block.
\<close>

theorem buffer_append_refines:
  assumes "buffer_inv b" and "realloc_ok realloc"
    and "0 \<le> sz" and "sz \<le> int (length s)" and "total_size b + sz \<le> INT_MAX"
  shows "(\<exists>b'. buffer_append realloc b (Some s) sz = Inr b' \<and> buffer_inv b' \<and> content b' = content b @ take (nat sz) s) \<or>
     (buffer_append realloc b (Some s) sz = Inl OutOfBounds \<and> (\<exists>d n. realloc d n = None))"
  using buffer_append_ok [OF assms] by blast

definition small_buffer :: buffer where
  "small_buffer = \<lparr>data = [1, 2, 3, 4], readIndex = 2, writeIndex = 4, total_size = 4\<rparr>"

lemma small_buffer_inv [simp]: "buffer_inv small_buffer"
  by (simp add: small_buffer_def buffer_inv_def INT_MAX_def)

theorem buffer_append_refines_witness:
  "\<exists>b'. buffer_append zero_realloc small_buffer (Some [7, 8]) 2 = Inr b' \<and> content b' = [3, 4, 7, 8]"
proof -
  have "realloc_ok zero_realloc" "zero_realloc d n \<noteq> None" for d n
    using zero_realloc_total by (auto simp: realloc_total_def)
  moreover have "total_size small_buffer = 4" "content small_buffer = [3, 4]"
    by (simp_all add: small_buffer_def content_def buffer_readable_size_def)
  ultimately show ?thesis
    using buffer_append_refines [of small_buffer zero_realloc 2 "[7, 8]"] by (simp add: INT_MAX_def zero_realloc_def) blast
qed

lemma buffer_socket_read_refines_aux:
  assumes inv: "buffer_inv b" and re: "realloc_total realloc"
    and rv: "readv (buffer_writeable_size b + int INIT_BUFFER_SIZE) = (result, bs)"
    and doc: "0 \<le> result \<Longrightarrow> result = int (length bs) \<and> result \<le> buffer_writeable_size b + int INIT_BUFFER_SIZE"
    and room: "total_size b + int INIT_BUFFER_SIZE \<le> INT_MAX"
  shows "if result < 0 then buffer_socket_read realloc readv b = Inr (- 1, b)
    else \<exists>b'. buffer_socket_read realloc readv b = Inr (result, b') \<and> buffer_inv b' \<and> content b' = content b @ bs"
proof (cases "result < 0")
  case True
  then show ?thesis using rv by (simp add: buffer_socket_read_def)
next
  case False
  let ?mw = "buffer_writeable_size b"
  have mw: "0 \<le> ?mw" using inv by (simp add: buffer_writeable_size_def buffer_inv_def)
  have len: "result = int (length bs)" "result \<le> ?mw + int INIT_BUFFER_SIZE" using False doc by simp_all
  obtain d where d: "mem_copy (data b) (writeIndex b) bs (min result ?mw) = Inr d"
      "buffer_inv (b\<lparr>data := d, writeIndex := writeIndex b + min result ?mw\<rparr>)"
      "content (b\<lparr>data := d, writeIndex := writeIndex b + min result ?mw\<rparr>) = content b @ take (nat (min result ?mw)) bs"
    using mem_copy_at_end [OF inv, of "min result ?mw" bs] False mw len by auto
  show ?thesis
  proof (cases "result \<le> ?mw")
    case True
    with d len False rv show ?thesis by (simp add: buffer_socket_read_def min_def)
  next
    case more: False
    let ?b = "b\<lparr>data := d, writeIndex := total_size b\<rparr>"
    have full: "b\<lparr>data := d, writeIndex := writeIndex b + min result ?mw\<rparr> = ?b"
      using more by (simp add: buffer_writeable_size_def)
    have "\<exists>b'. buffer_append realloc ?b (Some (drop (nat ?mw) bs)) (result - ?mw) = Inr b' \<and> buffer_inv b' \<and>
        content b' = content ?b @ take (nat (result - ?mw)) (drop (nat ?mw) bs)"
      using buffer_append_total [OF d(2) [unfolded full] re, of "result - ?mw" "drop (nat ?mw) bs"] more len room mw
      by auto
    moreover have "take (nat (result - ?mw)) (drop (nat ?mw) bs) = drop (nat ?mw) bs" using len by auto
    moreover have "content ?b = content b @ take (nat ?mw) bs" using d(3) more unfolding full by (simp add: min_def)
    ultimately obtain b' where "buffer_append realloc ?b (Some (drop (nat ?mw) bs)) (result - ?mw) = Inr b'" "buffer_inv b'"
        "content b' = content b @ bs" by auto
    with d(1) more False rv show ?thesis by (simp add: buffer_socket_read_def Let_def)
  qed
qed

text \<open>
  C26. Reading from the socket appends exactly the bytes that \<open>readv\<close> delivered, also when they overflow the
  buffer's spare room into the additional buffer, and reports their number; a failing \<open>readv\<close> changes nothing.
\<close>

theorem buffer_socket_read_refines:
  assumes inv: "buffer_inv b" and re: "realloc_total realloc"
    and rv: "readv (buffer_writeable_size b + int INIT_BUFFER_SIZE) = (result, bs)"
    and doc: "0 \<le> result \<Longrightarrow> result = int (length bs) \<and> result \<le> buffer_writeable_size b + int INIT_BUFFER_SIZE"
    and room: "total_size b + int INIT_BUFFER_SIZE \<le> INT_MAX"
  shows "if result < 0 then buffer_socket_read realloc readv b = Inr (- 1, b)
    else \<exists>b'. buffer_socket_read realloc readv b = Inr (result, b') \<and> buffer_inv b' \<and> content b' = content b @ bs"
  using assms by (rule buffer_socket_read_refines_aux)

theorem buffer_socket_read_refines_witness:
  "\<exists>b'. buffer_socket_read zero_realloc (\<lambda>n. (3, [5, 6, 7])) small_buffer = Inr (3, b') \<and> content b' = [3, 4, 5, 6, 7]"
proof -
  have "content small_buffer = [3, 4]" by (simp add: small_buffer_def content_def buffer_readable_size_def)
  with buffer_socket_read_refines [OF small_buffer_inv zero_realloc_total, of "\<lambda>n. (3, [5, 6, 7])" 3 "[5, 6, 7]"] show ?thesis
    by (auto simp: small_buffer_def buffer_writeable_size_def INIT_BUFFER_SIZE_def INT_MAX_def)
qed
end
