(* ===== verification/Http_Response.thy ===== *)
theory Http_Response
  imports Buffer
begin

text \<open>
  \<^verbatim>\<open>httptest-geektime/lib/http_response.c\<close>: the response object and its encoding into a buffer.
\<close>

section \<open>The code\<close>

datatype HttpStatusCode = Unknown | OK | MovedPermanently | BadRequest | NotFound

primrec status_number :: "HttpStatusCode \<Rightarrow> nat" where
  "status_number Unknown = 0"
| "status_number OK = 200"
| "status_number MovedPermanently = 301"
| "status_number BadRequest = 400"
| "status_number NotFound = 404"

record response_header =
  rkey :: "byte list option"
  rval :: "byte list option"

record http_response =
  statusCode :: HttpStatusCode
  statusMessage :: "byte list option"
  contentType :: "byte list option"
  body :: "byte list option"
  response_headers :: "response_header list option"
  response_headers_number :: int
  keep_connected :: int

text \<open>\<open>ctype\<close> is what the uninitialised \<open>contentType\<close> happens to be, \<open>cells\<close> the header array.\<close>

definition http_response_new :: "byte list option \<Rightarrow> response_header list option \<Rightarrow> http_response" where
  "http_response_new ctype cells =
     \<lparr>statusCode = Unknown, statusMessage = None, contentType = ctype, body = None,
      response_headers = cells, response_headers_number = 0, keep_connected = 0\<rparr>"

text \<open>Decimal digits, and \<open>snprintf\<close> into an array of 32 bytes.\<close>

fun decimal :: "nat \<Rightarrow> byte list" where
  "decimal n = (if n < 10 then [word_of_nat (48 + n)] else decimal (n div 10) @ [word_of_nat (48 + n mod 10)])"

declare decimal.simps [simp del]

definition snprintf32 :: "byte list \<Rightarrow> byte list" where
  "snprintf32 text = take 31 text @ [0]"

definition append_lit :: "(byte list \<Rightarrow> int \<Rightarrow> byte list option) \<Rightarrow> buffer \<Rightarrow> string \<Rightarrow> buffer c_res" where
  "append_lit realloc b s = buffer_append_string realloc b (Some (c_lit s))"

definition encode_header :: "(byte list \<Rightarrow> int \<Rightarrow> byte list option) \<Rightarrow> response_header list \<Rightarrow> nat \<Rightarrow> buffer \<Rightarrow> buffer c_res" where
  "encode_header realloc hs i b =
     c_bind (c_read hs (int i)) (\<lambda>h.
     c_bind (buffer_append_string realloc b (rkey h)) (\<lambda>b.
     c_bind (append_lit realloc b '': '') (\<lambda>b.
     c_bind (buffer_append_string realloc b (rval h)) (\<lambda>b.
     buffer_append_string realloc b (Some (CRLF @ [0]))))))"

definition http_response_encode_buffer :: "(byte list \<Rightarrow> int \<Rightarrow> byte list option) \<Rightarrow> http_response \<Rightarrow> buffer \<Rightarrow> buffer c_res" where
  "http_response_encode_buffer realloc r output =
     c_bind (buffer_append_string realloc output (Some (snprintf32 (bytes_of ''HTTP/1.1 '' @ decimal (status_number (statusCode r)) @ [32])))) (\<lambda>output.
     c_bind (buffer_append_string realloc output (statusMessage r)) (\<lambda>output.
     c_bind (buffer_append_string realloc output (Some (CRLF @ [0]))) (\<lambda>output.
     c_bind
       (if keep_connected r \<noteq> 0 then buffer_append_string realloc output (Some (bytes_of ''Connection: close'' @ CRLF @ [0]))
        else
          c_bind (case body r of None \<Rightarrow> Inl NullDeref | Some s \<Rightarrow> c_strlen s) (\<lambda>n.
          c_bind (buffer_append_string realloc output (Some (snprintf32 (bytes_of ''Content-Length: '' @ decimal (nat n) @ CRLF)))) (\<lambda>output.
          buffer_append_string realloc output (Some (bytes_of ''Connection: Keep-Alive'' @ CRLF @ [0]))))) (\<lambda>output.
     c_bind
       (case response_headers r of None \<Rightarrow> Inr output
        | Some hs \<Rightarrow> if 0 < response_headers_number r then c_for (encode_header realloc hs) (nat (response_headers_number r)) output
                     else Inr output) (\<lambda>output.
     c_bind (buffer_append_string realloc output (Some (CRLF @ [0]))) (\<lambda>output.
     buffer_append_string realloc output (body r)))))))"

section \<open>The bytes of a response\<close>

definition str_of :: "byte list option \<Rightarrow> byte list" where
  "str_of s = (case s of None \<Rightarrow> [] | Some s \<Rightarrow> takeWhile (\<lambda>c. c \<noteq> 0) s)"

definition str_ok :: "byte list option \<Rightarrow> bool" where
  "str_ok s \<longleftrightarrow> (case s of None \<Rightarrow> True | Some s \<Rightarrow> 0 \<in> set s)"

definition header_text :: "response_header \<Rightarrow> byte list" where
  "header_text h = str_of (rkey h) @ bytes_of '': '' @ str_of (rval h) @ CRLF"

definition headers_used :: "http_response \<Rightarrow> response_header list" where
  "headers_used r = (case response_headers r of None \<Rightarrow> [] | Some hs \<Rightarrow> take (nat (response_headers_number r)) hs)"

definition response_ok :: "http_response \<Rightarrow> bool" where
  "response_ok r \<longleftrightarrow> str_ok (statusMessage r) \<and> str_ok (body r) \<and>
     list_all (\<lambda>h. str_ok (rkey h) \<and> str_ok (rval h)) (headers_used r) \<and>
     (\<forall>hs. response_headers r = Some hs \<longrightarrow> response_headers_number r \<le> int (length hs)) \<and>
     length (str_of (body r)) < 10 ^ 13"

definition response_text :: "http_response \<Rightarrow> byte list" where
  "response_text r =
     bytes_of ''HTTP/1.1 '' @ decimal (status_number (statusCode r)) @ [32] @ str_of (statusMessage r) @ CRLF @
     (if keep_connected r \<noteq> 0 then bytes_of ''Connection: close'' @ CRLF
      else bytes_of ''Content-Length: '' @ decimal (length (str_of (body r))) @ CRLF @ bytes_of ''Connection: Keep-Alive'' @ CRLF) @
     concat (map header_text (headers_used r)) @ CRLF @ str_of (body r)"

section \<open>Appending strings\<close>

text \<open>Appending a terminated string in the sense of the sink.\<close>

lemma append_string_law:
  assumes "buffer_inv b \<and> realloc_total realloc" and "str_ok s" and "buffer_room b (length (str_of s) + n)"
  shows "\<exists>b'. buffer_append_string realloc b s = Inr b' \<and> (buffer_inv b' \<and> realloc_total realloc) \<and>
     content b' = content b @ str_of s \<and> buffer_room b' n"
proof (cases s)
  case None
  then show ?thesis using assms by (simp add: buffer_append_string_def str_of_def)
next
  case (Some t)
  let ?x = "takeWhile (\<lambda>c. c \<noteq> 0) t"
  have t: "0 \<in> set t" "str_of s = ?x" using assms(2) Some by (simp_all add: str_ok_def str_of_def)
  have "take (length ?x) t = ?x" by (metis takeWhile_eq_take)
  moreover have "length ?x \<le> length t" by (rule length_takeWhile_le)
  ultimately show ?thesis
    using append_sink_law [of b realloc ?x n t] assms t Some by (simp add: buffer_append_string_def c_strlen_def)
qed

lemma str_of_lit [simp]: "0 \<notin> set xs \<Longrightarrow> str_of (Some (xs @ [0])) = xs"
  by (simp add: str_of_def takeWhile_append)

lemma str_ok_simps [simp]: "str_ok (Some xs) \<longleftrightarrow> 0 \<in> set xs" "str_ok None"
  by (simp_all add: str_ok_def)

lemma decimal_bytes: "c \<in> set (decimal n) \<Longrightarrow> c \<noteq> 0"
proof (induction n rule: decimal.induct)
  case (1 n)
  have digit: "(word_of_nat (48 + k) :: byte) \<noteq> 0" if "k < 10" for k
  proof
    assume "(word_of_nat (48 + k) :: byte) = 0"
    then have "unat (word_of_nat (48 + k) :: byte) = 0" by simp
    then show False using that by (simp only: unat_of_nat) simp
  qed
  show ?case
  proof (cases "n < 10")
    case True
    with 1(2) show ?thesis using digit by (auto simp: decimal.simps [of n])
  next
    case False
    with 1 digit [of "n mod 10"] show ?thesis by (auto simp: decimal.simps [of n])
  qed
qed

lemma decimal_length: "n < 10 ^ k \<Longrightarrow> 0 < k \<Longrightarrow> length (decimal n) \<le> k"
proof (induction k arbitrary: n)
  case (Suc k)
  show ?case
  proof (cases "n < 10")
    case False
    with Suc.prems(1) have "0 < k" by (cases k) auto
    moreover have "n div 10 < 10 ^ k" using Suc.prems(1) by (simp add: div_less_iff_less_mult)
    ultimately show ?thesis using Suc.IH [of "n div 10"] False by (simp add: decimal.simps [of n])
  qed (simp add: decimal.simps [of n])
qed simp
text \<open>A buffer that has received the text so far, with room for the rest of a known total.\<close>

definition filled :: "(byte list \<Rightarrow> int \<Rightarrow> byte list option) \<Rightarrow> byte list \<Rightarrow> nat \<Rightarrow> byte list \<Rightarrow> buffer \<Rightarrow> bool" where
  "filled realloc old tot txt b \<longleftrightarrow>
     (buffer_inv b \<and> realloc_total realloc) \<and> content b = old @ txt \<and> length txt \<le> tot \<and> buffer_room b (tot - length txt)"

lemma filled_append:
  assumes "filled realloc old tot txt b" and "str_ok s" and "length (txt @ str_of s) \<le> tot"
  shows "\<exists>b'. buffer_append_string realloc b s = Inr b' \<and> filled realloc old tot (txt @ str_of s) b'"
proof -
  have "buffer_room b (length (str_of s) + (tot - length (txt @ str_of s)))"
    using assms(1,3) by (simp add: filled_def)
  with append_string_law [OF _ assms(2), of b realloc] assms show ?thesis by (fastforce simp: filled_def)
qed

lemma filled_bind:
  assumes "filled realloc old tot txt b" and "str_ok s" and "length (txt @ str_of s) \<le> tot"
    and "\<And>b'. filled realloc old tot (txt @ str_of s) b' \<Longrightarrow> \<exists>c. f b' = Inr c \<and> Q c"
  shows "\<exists>c. c_bind (buffer_append_string realloc b s) f = Inr c \<and> Q c"
  using filled_append [OF assms(1-3)] assms(4) by auto

lemma encode_header_ok:
  assumes "filled realloc old tot txt b" and "i < length hs" and "str_ok (rkey (hs ! i))" "str_ok (rval (hs ! i))"
    and "length (txt @ header_text (hs ! i)) \<le> tot"
  shows "\<exists>b'. encode_header realloc hs i b = Inr b' \<and> filled realloc old tot (txt @ header_text (hs ! i)) b'"
proof -
  have nz: "0 \<notin> set (bytes_of '': '')" "0 \<notin> set CRLF" by code_simp+
  have "\<exists>b'. c_bind (buffer_append_string realloc b (rkey (hs ! i))) (\<lambda>b.
     c_bind (buffer_append_string realloc b (Some (bytes_of '': '' @ [0]))) (\<lambda>b.
     c_bind (buffer_append_string realloc b (rval (hs ! i))) (\<lambda>b.
     buffer_append_string realloc b (Some (CRLF @ [0]))))) = Inr b' \<and> filled realloc old tot (txt @ header_text (hs ! i)) b'"
    apply (rule filled_bind [OF assms(1,3)])
     apply (use assms(5) in \<open>simp add: header_text_def\<close>)
    apply (erule filled_bind)
      apply simp
     apply (use assms(5) nz in \<open>simp add: header_text_def\<close>)
    apply (erule filled_bind [OF _ assms(4)])
     apply (use assms(5) nz in \<open>simp add: header_text_def\<close>)
    apply (drule filled_append [of _ _ _ _ _ "Some (CRLF @ [0])"])
      apply (use assms(5) nz in \<open>simp_all add: header_text_def\<close>)
    done
  with assms(2) show ?thesis by (simp add: encode_header_def append_lit_def c_lit_def c_mem)
qed

lemma encode_headers_ok:
  assumes "filled realloc old tot txt b" and "n \<le> length hs"
    and "list_all (\<lambda>h. str_ok (rkey h) \<and> str_ok (rval h)) (take n hs)"
    and "length (txt @ concat (map header_text (take n hs))) \<le> tot"
  shows "\<exists>b'. c_for (encode_header realloc hs) n b = Inr b' \<and> filled realloc old tot (txt @ concat (map header_text (take n hs))) b'"
proof (rule c_for_inv [where P = "\<lambda>k b. filled realloc old tot (txt @ concat (map header_text (take k hs))) b"])
  show "filled realloc old tot (txt @ concat (map header_text (take 0 hs))) b" using assms(1) by simp
next
  fix k c
  assume k: "k < n" and c: "filled realloc old tot (txt @ concat (map header_text (take k hs))) c"
  have kl: "k < length hs" using k assms(2) by simp
  have split: "take n hs = take k hs @ hs ! k # drop (Suc k) (take n hs)"
    using id_take_nth_drop [of k "take n hs"] k kl by (simp add: min_def)
  have "length ((txt @ concat (map header_text (take k hs))) @ header_text (hs ! k)) \<le> tot"
    using assms(4) by (subst (asm) split) simp
  moreover have "str_ok (rkey (hs ! k))" "str_ok (rval (hs ! k))"
    using assms(3) k kl by (simp_all add: list_all_length)
  ultimately show "\<exists>c'. encode_header realloc hs k c = Inr c' \<and> filled realloc old tot (txt @ concat (map header_text (take (Suc k) hs))) c'"
    using encode_header_ok [OF c kl] kl by (simp add: take_Suc_conv_app_nth)
qed

lemma literals_nz:
  "0 \<notin> set CRLF" "0 \<notin> set (bytes_of ''HTTP/1.1 '')" "0 \<notin> set (bytes_of ''Content-Length: '')"
  "0 \<notin> set (bytes_of ''Connection: close'')" "0 \<notin> set (bytes_of ''Connection: Keep-Alive'')"
  by code_simp+

lemma literals_length: "length CRLF = 2" "length (bytes_of ''HTTP/1.1 '') = 9" "length (bytes_of ''Content-Length: '') = 16"
  by code_simp+

lemma snprintf_status:
  "snprintf32 (bytes_of ''HTTP/1.1 '' @ decimal (status_number c) @ [32]) = (bytes_of ''HTTP/1.1 '' @ decimal (status_number c) @ [32]) @ [0]"
proof -
  have "status_number c < 10 ^ 3" by (cases c) simp_all
  then have "length (decimal (status_number c)) \<le> 3" by (rule decimal_length) simp
  then show ?thesis by (simp add: snprintf32_def literals_length)
qed

lemma snprintf_length:
  assumes "n < 10 ^ 13"
  shows "snprintf32 (bytes_of ''Content-Length: '' @ decimal n @ CRLF) = (bytes_of ''Content-Length: '' @ decimal n @ CRLF) @ [0]"
proof -
  have "length (decimal n) \<le> 13" using assms by (rule decimal_length) simp
  then show ?thesis by (simp add: snprintf32_def literals_length)
qed

definition status_text :: "http_response \<Rightarrow> byte list" where
  "status_text r = bytes_of ''HTTP/1.1 '' @ decimal (status_number (statusCode r)) @ [32] @ str_of (statusMessage r) @ CRLF"

definition connection_text :: "http_response \<Rightarrow> byte list" where
  "connection_text r =
     (if keep_connected r \<noteq> 0 then bytes_of ''Connection: close'' @ CRLF
      else bytes_of ''Content-Length: '' @ decimal (length (str_of (body r))) @ CRLF @ bytes_of ''Connection: Keep-Alive'' @ CRLF)"

lemma response_text_parts:
  "response_text r = status_text r @ connection_text r @ concat (map header_text (headers_used r)) @ CRLF @ str_of (body r)"
  by (simp add: response_text_def status_text_def connection_text_def)

lemma nz_decimal [simp]: "0 \<notin> set (decimal n)"
  using decimal_bytes by blast

lemma encode_status:
  assumes "filled realloc old tot [] b" and "str_ok (statusMessage r)" and "length (status_text r) \<le> tot"
    and "\<And>b'. filled realloc old tot (status_text r) b' \<Longrightarrow> \<exists>c. f b' = Inr c \<and> Q c"
  shows "\<exists>c. c_bind (buffer_append_string realloc b (Some (snprintf32 (bytes_of ''HTTP/1.1 '' @ decimal (status_number (statusCode r)) @ [32])))) (\<lambda>output.
     c_bind (buffer_append_string realloc output (statusMessage r)) (\<lambda>output.
     c_bind (buffer_append_string realloc output (Some (CRLF @ [0]))) f)) = Inr c \<and> Q c"
  unfolding snprintf_status
proof (rule filled_bind [OF assms(1)])
  let ?t = "bytes_of ''HTTP/1.1 '' @ decimal (status_number (statusCode r)) @ [32]"
  have t: "str_of (Some (?t @ [0])) = ?t" by (rule str_of_lit) (simp add: literals_nz)
  show "str_ok (Some (?t @ [0]))" by simp
  show "length ([] @ str_of (Some (?t @ [0]))) \<le> tot" unfolding t using assms(3) by (simp add: status_text_def)
  show "\<exists>c. c_bind (buffer_append_string realloc b1 (statusMessage r)) (\<lambda>output. c_bind (buffer_append_string realloc output (Some (CRLF @ [0]))) f) = Inr c \<and> Q c"
    if "filled realloc old tot ([] @ str_of (Some (?t @ [0]))) b1" for b1
  proof (rule filled_bind [OF that assms(2)])
    show "length (([] @ str_of (Some (?t @ [0]))) @ str_of (statusMessage r)) \<le> tot"
      unfolding t using assms(3) by (simp add: status_text_def)
    show "\<exists>c. c_bind (buffer_append_string realloc b2 (Some (CRLF @ [0]))) f = Inr c \<and> Q c"
      if "filled realloc old tot (([] @ str_of (Some (?t @ [0]))) @ str_of (statusMessage r)) b2" for b2
      by (rule filled_bind [OF that [unfolded t]]) (use assms(3,4) in \<open>simp_all add: literals_nz status_text_def\<close>)
  qed
qed

lemma encode_connection:
  assumes "filled realloc old tot txt b" and "response_ok r" and "keep_connected r \<noteq> 0 \<or> body r \<noteq> None"
    and "length (txt @ connection_text r) \<le> tot"
  shows "\<exists>b'. (if keep_connected r \<noteq> 0 then buffer_append_string realloc b (Some (bytes_of ''Connection: close'' @ CRLF @ [0]))
        else
          c_bind (case body r of None \<Rightarrow> Inl NullDeref | Some s \<Rightarrow> c_strlen s) (\<lambda>n.
          c_bind (buffer_append_string realloc b (Some (snprintf32 (bytes_of ''Content-Length: '' @ decimal (nat n) @ CRLF)))) (\<lambda>output.
          buffer_append_string realloc output (Some (bytes_of ''Connection: Keep-Alive'' @ CRLF @ [0]))))) = Inr b' \<and>
     filled realloc old tot (txt @ connection_text r) b'"
proof (cases "keep_connected r \<noteq> 0")
  case True
  with filled_append [OF assms(1), of "Some ((bytes_of ''Connection: close'' @ CRLF) @ [0])"] assms(4) show ?thesis
    using str_of_lit [of "bytes_of ''Connection: close'' @ CRLF"] by (simp add: connection_text_def literals_nz)
next
  case False
  then obtain s where s: "body r = Some s" using assms(3) by auto
  let ?n = "length (str_of (body r))"
  let ?l = "bytes_of ''Content-Length: '' @ decimal ?n @ CRLF" let ?k = "bytes_of ''Connection: Keep-Alive'' @ CRLF"
  have n: "c_strlen s = Inr (int ?n)" "?n < 10 ^ 13"
    using assms(2) s by (simp_all add: response_ok_def str_ok_def str_of_def c_strlen_def)
  have l: "str_of (Some (?l @ [0])) = ?l" by (rule str_of_lit) (simp add: literals_nz)
  have k: "str_of (Some (?k @ [0])) = ?k" by (rule str_of_lit) (simp add: literals_nz)
  have "\<exists>c. c_bind (buffer_append_string realloc b (Some (?l @ [0]))) (\<lambda>output. buffer_append_string realloc output (Some (?k @ [0]))) = Inr c \<and>
      filled realloc old tot (txt @ connection_text r) c"
  proof (rule filled_bind [OF assms(1)])
    show "length (txt @ str_of (Some (?l @ [0]))) \<le> tot" unfolding l using assms(4) False by (simp add: connection_text_def)
    show "\<exists>c. buffer_append_string realloc b1 (Some (?k @ [0])) = Inr c \<and> filled realloc old tot (txt @ connection_text r) c"
      if "filled realloc old tot (txt @ str_of (Some (?l @ [0]))) b1" for b1
    proof -
      have "length ((txt @ ?l) @ ?k) \<le> tot" using assms(4) False by (simp add: connection_text_def)
      with filled_append [OF that, of "Some (?k @ [0])"] show ?thesis
        unfolding l k using False by (simp add: connection_text_def)
    qed
  qed simp
  with False s n show ?thesis by (simp add: snprintf_length)
qed

lemma encode_header_part:
  assumes b: "filled realloc old tot txt b" and ok: "response_ok r"
    and len: "length (txt @ concat (map header_text (headers_used r))) \<le> tot"
  shows "\<exists>c. (case response_headers r of None \<Rightarrow> Inr b
      | Some hs \<Rightarrow> if 0 < response_headers_number r then c_for (encode_header realloc hs) (nat (response_headers_number r)) b else Inr b) = Inr c \<and>
     filled realloc old tot (txt @ concat (map header_text (headers_used r))) c"
proof (cases "response_headers r")
  case (Some hs)
  have n: "nat (response_headers_number r) \<le> length hs" "list_all (\<lambda>h. str_ok (rkey h) \<and> str_ok (rval h)) (take (nat (response_headers_number r)) hs)"
    using ok Some by (auto simp: response_ok_def headers_used_def)
  have "headers_used r = take (nat (response_headers_number r)) hs" using Some by (simp add: headers_used_def)
  with len have loop: "\<exists>c. c_for (encode_header realloc hs) (nat (response_headers_number r)) b = Inr c \<and>
      filled realloc old tot (txt @ concat (map header_text (headers_used r))) c"
    using encode_headers_ok [OF b n] by (simp only:)
  show ?thesis
  proof (cases "0 < response_headers_number r")
    case False
    then have "nat (response_headers_number r) = 0" by simp
    with loop Some False show ?thesis by simp
  qed (use loop Some in simp)
qed (use b in \<open>simp add: headers_used_def\<close>)

lemma encode_end:
  assumes b: "filled realloc old tot txt b" and ok: "response_ok r" and len: "length (txt @ CRLF @ str_of (body r)) \<le> tot"
  shows "\<exists>c. c_bind (buffer_append_string realloc b (Some (CRLF @ [0]))) (\<lambda>output. buffer_append_string realloc output (body r)) = Inr c \<and>
     filled realloc old tot (txt @ CRLF @ str_of (body r)) c"
proof (rule filled_bind [OF b])
  show "length (txt @ str_of (Some (CRLF @ [0]))) \<le> tot" using len by (simp add: literals_nz)
  show "\<exists>c. buffer_append_string realloc b1 (body r) = Inr c \<and> filled realloc old tot (txt @ CRLF @ str_of (body r)) c"
    if "filled realloc old tot (txt @ str_of (Some (CRLF @ [0]))) b1" for b1
    using filled_append [OF that, of "body r"] ok len by (simp add: response_ok_def literals_nz)
qed simp

lemma encode_response_text_aux:
  assumes "buffer_inv b" and "realloc_total realloc" and "response_ok r"
    and "total_size b + int (length (response_text r)) \<le> INT_MAX"
  shows "if keep_connected r \<noteq> 0 \<or> body r \<noteq> None
    then \<exists>b'. http_response_encode_buffer realloc r b = Inr b' \<and> buffer_inv b' \<and> content b' = content b @ response_text r
    else http_response_encode_buffer realloc r b = Inl NullDeref"
proof -
  let ?tot = "length (response_text r)"
  have start: "filled realloc (content b) ?tot [] b" using assms by (simp add: filled_def buffer_room_def)
  have msg: "str_ok (statusMessage r)" using assms(3) by (simp add: response_ok_def)
  have len: "length (status_text r) \<le> ?tot" by (simp add: response_text_parts)
  show ?thesis
  proof (cases "keep_connected r \<noteq> 0 \<or> body r \<noteq> None")
    case False
    have "\<exists>c. c_bind (buffer_append_string realloc b (Some (snprintf32 (bytes_of ''HTTP/1.1 '' @ decimal (status_number (statusCode r)) @ [32])))) (\<lambda>output.
       c_bind (buffer_append_string realloc output (statusMessage r)) (\<lambda>output.
       c_bind (buffer_append_string realloc output (Some (CRLF @ [0]))) (\<lambda>b. Inr b))) = Inr c \<and> True"
      by (rule encode_status [OF start msg len]) simp
    with False show ?thesis by (auto simp: http_response_encode_buffer_def)
  next
    case True
    have "\<exists>c. http_response_encode_buffer realloc r b = Inr c \<and> filled realloc (content b) ?tot (response_text r) c"
      unfolding http_response_encode_buffer_def
    proof (rule encode_status [OF start msg len], goal_cases)
      case (1 b1)
      have "length (status_text r @ connection_text r) \<le> ?tot" by (simp add: response_text_parts)
      from encode_connection [OF 1 assms(3) True this] obtain b2 where
        b2: "(if keep_connected r \<noteq> 0 then buffer_append_string realloc b1 (Some (bytes_of ''Connection: close'' @ CRLF @ [0]))
          else c_bind (case body r of None \<Rightarrow> Inl NullDeref | Some s \<Rightarrow> c_strlen s) (\<lambda>n.
            c_bind (buffer_append_string realloc b1 (Some (snprintf32 (bytes_of ''Content-Length: '' @ decimal (nat n) @ CRLF)))) (\<lambda>output.
            buffer_append_string realloc output (Some (bytes_of ''Connection: Keep-Alive'' @ CRLF @ [0]))))) = Inr b2"
          "filled realloc (content b) ?tot (status_text r @ connection_text r) b2" by blast
      from encode_header_part [OF b2(2) assms(3)] obtain b3 where
        b3: "(case response_headers r of None \<Rightarrow> Inr b2
          | Some hs \<Rightarrow> if 0 < response_headers_number r then c_for (encode_header realloc hs) (nat (response_headers_number r)) b2 else Inr b2) = Inr b3"
          "filled realloc (content b) ?tot ((status_text r @ connection_text r) @ concat (map header_text (headers_used r))) b3"
        by (auto simp: response_text_parts)
      show ?case
        unfolding b2(1) c_bind_simps b3(1) using encode_end [OF b3(2) assms(3)] by (simp add: response_text_parts)
    qed
    with True show ?thesis by (auto simp: filled_def)
  qed
qed

text \<open>
  C23. Encoding a response appends exactly its text to the buffer: status line, either the close header or the length
  of the body and the keep-alive header, the other headers, an empty line and the body. Without a body, and not marked to be
  closed, the program follows a null pointer. The content type is never sent.
\<close>

theorem encode_response_text:
  assumes "buffer_inv b" and "realloc_total realloc" and "response_ok r"
    and "total_size b + int (length (response_text r)) \<le> INT_MAX"
  shows "if keep_connected r \<noteq> 0 \<or> body r \<noteq> None
    then \<exists>b'. http_response_encode_buffer realloc r b = Inr b' \<and> buffer_inv b' \<and> content b' = content b @ response_text r
    else http_response_encode_buffer realloc r b = Inl NullDeref"
  using assms by (rule encode_response_text_aux)

definition sample_response :: http_response where
  "sample_response = (http_response_new None None)\<lparr>statusCode := OK, statusMessage := Some (c_lit ''OK''), body := Some (c_lit ''hello'')\<rparr>"

theorem encode_response_text_witness:
  "\<exists>b'. http_response_encode_buffer zero_realloc sample_response \<lparr>data = replicate 8 0, readIndex = 0, writeIndex = 0, total_size = 8\<rparr> = Inr b' \<and>
     content b' = bytes_of ''HTTP/1.1 200 OK'' @ CRLF @ bytes_of ''Content-Length: 5'' @ CRLF @
       bytes_of ''Connection: Keep-Alive'' @ CRLF @ CRLF @ bytes_of ''hello''"
proof -
  let ?b = "\<lparr>data = replicate 8 0, readIndex = 0, writeIndex = 0, total_size = 8\<rparr>"
  have rt: "response_text sample_response = bytes_of ''HTTP/1.1 200 OK'' @ CRLF @ bytes_of ''Content-Length: 5'' @ CRLF @
      bytes_of ''Connection: Keep-Alive'' @ CRLF @ CRLF @ bytes_of ''hello''" by code_simp
  have "length (str_of (body sample_response)) = 5" "0 \<in> set (c_lit ''OK'')" "0 \<in> set (c_lit ''hello'')" by code_simp+
  then have "response_ok sample_response"
    by (simp add: response_ok_def headers_used_def) (simp add: sample_response_def http_response_new_def)
  moreover have "buffer_inv ?b" "content ?b = []" by (simp_all add: buffer_inv_def content_def buffer_readable_size_def INT_MAX_def)
  moreover have "length (response_text sample_response) = 67" unfolding rt by code_simp
  moreover have "body sample_response \<noteq> None" by (simp add: sample_response_def)
  ultimately show ?thesis
    using encode_response_text [of ?b zero_realloc sample_response] zero_realloc_total rt by (simp add: INT_MAX_def) blast
qed

end
