(* ===== verification/Channel.thy ===== *)
theory Channel
  imports Prelude
begin

text \<open>
  \<^verbatim>\<open>httptest-geektime/lib/channel.c\<close> and \<^verbatim>\<open>channel_map.c\<close>: a channel is a descriptor with the
  events it waits for, the callbacks and the object they are called with; the channel map
  is an array indexed by descriptor.  Channels are shared objects: a \<open>chan_ptr\<close> is an address.
\<close>

section \<open>Channels\<close>

definition EVENT_TIMEOUT :: "32 word" where "EVENT_TIMEOUT = 0x01"

definition EVENT_READ :: "32 word" where "EVENT_READ = 0x02"

definition EVENT_WRITE :: "32 word" where "EVENT_WRITE = 0x04"

definition EVENT_SIGNAL :: "32 word" where "EVENT_SIGNAL = 0x08"

type_synonym chan_ptr = nat

text \<open>The functions the program installs as callbacks, and what a channel's \<open>data\<close> points to.\<close>

datatype callback = HandleWakeup | HandleConnectionEstablished | HandleRead | HandleWrite

datatype chan_data = LoopPtr nat | ServerPtr nat | ConnPtr nat

record channel =
  cfd :: int
  events :: "32 word"
  eventReadCallback :: "callback option"
  eventWriteCallback :: "callback option"
  cdata :: chan_data

definition channel_new :: "int \<Rightarrow> 32 word \<Rightarrow> callback option \<Rightarrow> callback option \<Rightarrow> chan_data \<Rightarrow> channel" where
  "channel_new fd ev rd wr d = \<lparr>cfd = fd, events = ev, eventReadCallback = rd, eventWriteCallback = wr, cdata = d\<rparr>"

definition channel_write_event_is_enabled :: "channel \<Rightarrow> 32 word" where
  "channel_write_event_is_enabled c = events c AND EVENT_WRITE"

text \<open>The assignments of \<open>channel_write_event_enable\<close> and \<open>channel_write_event_disable\<close>.\<close>

definition set_write_event :: "channel \<Rightarrow> channel" where
  "set_write_event c = c\<lparr>events := events c OR EVENT_WRITE\<rparr>"

definition clear_write_event :: "channel \<Rightarrow> channel" where
  "clear_write_event c = c\<lparr>events := events c AND NOT EVENT_WRITE\<rparr>"

text \<open>What a channel waits for: reading, writing.\<close>

definition interest :: "channel \<Rightarrow> bool \<times> bool" where
  "interest c = (events c AND EVENT_READ \<noteq> 0, events c AND EVENT_WRITE \<noteq> 0)"

section \<open>The channel map\<close>

record channel_map =
  entries :: "chan_ptr option list"
  nentries :: int

function grow_entries :: "int \<Rightarrow> int \<Rightarrow> int c_res" where
  "grow_entries slot n =
     (if n \<le> slot then if n < 1 then Inl NoReturn else c_bind (c_int (2 * n)) (grow_entries slot) else Inr n)"
  by pat_completeness auto
termination
  by (relation "measure (\<lambda>(slot, n). nat (slot + 1 - n))") (auto simp: c_int_def split: if_splits)

declare grow_entries.simps [simp del]

text \<open>\<open>alloc\<close> tells whether \<open>realloc\<close> to that many bytes succeeds; the cells it adds are set to null.\<close>

definition map_make_space :: "(int \<Rightarrow> bool) \<Rightarrow> channel_map \<Rightarrow> int \<Rightarrow> int \<Rightarrow> (int \<times> channel_map) c_res" where
  "map_make_space alloc m slot msize =
     (if nentries m \<le> slot then
        c_bind (grow_entries slot (if nentries m \<noteq> 0 then nentries m else 32)) (\<lambda>n.
        c_bind (c_int (n * msize)) (\<lambda>bytes.
        if \<not> alloc bytes then Inr (- 1, m)
        else Inr (0, m\<lparr>entries := entries m @ replicate (nat (n - nentries m)) None, nentries := n\<rparr>)))
      else Inr (0, m))"

definition map_init :: channel_map where
  "map_init = \<lparr>entries = [], nentries = 0\<rparr>"

text \<open>The channels freed, and the cleared map.\<close>

definition map_clear :: "channel_map \<Rightarrow> chan_ptr list \<times> channel_map" where
  "map_clear m = (List.map_filter (\<lambda>e. e) (take (nat (nentries m)) (entries m)), \<lparr>entries = [], nentries = 0\<rparr>)"

section \<open>Growth of the map\<close>

definition map_inv :: "channel_map \<Rightarrow> bool" where
  "map_inv m \<longleftrightarrow> nentries m = int (length (entries m))"

definition map_entry :: "channel_map \<Rightarrow> int \<Rightarrow> chan_ptr option" where
  "map_entry m fd = (if 0 \<le> fd \<and> fd < int (length (entries m)) then entries m ! nat fd else None)"

lemma map_init_inv [simp]: "map_inv map_init"
  by (simp add: map_inv_def map_init_def)

lemma grow_entries_result:
  assumes "0 < n" and "n \<le> slot" and "slot < 2 ^ 27"
  shows "\<exists>k. grow_entries slot n = Inr k \<and> slot < k \<and> k \<le> 2 * slot \<and> n < k"
  using assms
proof (induction slot n rule: grow_entries.induct)
  case (1 slot n)
  have ok: "c_int (2 * n) = Inr (2 * n)" using 1 by (simp add: c_int_defs)
  show ?case
  proof (cases "2 * n \<le> slot")
    case True
    from 1(1) [OF 1(3) _ ok] True 1 obtain k where "grow_entries slot (2 * n) = Inr k" "slot < k" "k \<le> 2 * slot" "2 * n < k" by auto
    with ok 1 show ?thesis by (intro exI [of _ k]) (simp add: grow_entries.simps [of slot n])
  next
    case False
    then have "grow_entries slot (2 * n) = Inr (2 * n)" by (simp add: grow_entries.simps [of slot "2 * n"])
    with ok 1 False show ?thesis by (intro exI [of _ "2 * n"]) (simp add: grow_entries.simps [of slot n])
  qed
qed

lemma map_make_space_ok:
  assumes inv: "map_inv m" and slot: "0 \<le> slot" "slot < 2 ^ 27"
  shows "(\<exists>m'. map_make_space alloc m slot 8 = Inr (0, m') \<and> map_inv m' \<and> slot < nentries m' \<and> nentries m \<le> nentries m' \<and>
       (\<forall>fd. map_entry m' fd = map_entry m fd)) \<or>
    (map_make_space alloc m slot 8 = Inr (- 1, m) \<and> (\<exists>n. \<not> alloc n))"
proof (cases "nentries m \<le> slot")
  case False
  with inv show ?thesis by (auto simp: map_make_space_def)
next
  case True
  let ?n0 = "if nentries m \<noteq> 0 then nentries m else 32"
  have n0: "0 < ?n0" "nentries m \<le> ?n0" using inv by (auto simp: map_inv_def)
  obtain n where n: "grow_entries slot ?n0 = Inr n" "slot < n" "n < 2 ^ 28" "?n0 \<le> n"
  proof (cases "?n0 \<le> slot")
    case True
    from grow_entries_result [OF n0(1) True slot(2)] slot(2) that show ?thesis by force
  next
    case False
    have "?n0 < 2 ^ 28" using \<open>nentries m \<le> slot\<close> slot(2) by simp
    with that [of ?n0] False show ?thesis by (simp add: grow_entries.simps [of slot])
  qed
  have ok: "c_int (n * 8) = Inr (n * 8)" using n(2,3) slot(1) by (simp add: c_int_defs)
  let ?m = "m\<lparr>entries := entries m @ replicate (nat (n - nentries m)) None, nentries := n\<rparr>"
  have nm: "nentries m \<le> n" using n0(2) n(4) by linarith
  have "map_make_space alloc m slot 8 = (if \<not> alloc (n * 8) then Inr (- 1, m) else Inr (0, ?m))"
    using True n(1) ok by (simp add: map_make_space_def)
  moreover have "map_inv ?m" using inv nm by (simp add: map_inv_def)
  moreover have "map_entry ?m fd = map_entry m fd" for fd by (auto simp: map_entry_def nth_append)
  ultimately show ?thesis using n(2) nm by auto
qed

end
