(* ===== verification/Dispatcher.thy ===== *)
theory Dispatcher
  imports Channel
begin

text \<open>
  The event dispatchers: \<^verbatim>\<open>event_dispatcher.h\<close> is the interface, \<^verbatim>\<open>poll_dispatcher.c\<close> keeps the
  descriptors in an array it hands to \<open>poll\<close>, \<^verbatim>\<open>epoll_dispatcher.c\<close> in the kernel.  The locale
  states what the event loop relies on; both implementations satisfy it.  \<open>poll\<close>, \<open>epoll_ctl\<close> and
  \<open>epoll_wait\<close> are parameters, as is the activation of a channel while events are dispatched.
\<close>

section \<open>The interface\<close>

record 'd event_dispatcher =
  disp_add :: "channel \<Rightarrow> 'd \<Rightarrow> (int \<times> 'd) c_res"
  disp_del :: "channel \<Rightarrow> 'd \<Rightarrow> (int \<times> 'd) c_res"
  disp_update :: "channel \<Rightarrow> 'd \<Rightarrow> (int \<times> 'd) c_res"

locale dispatcher =
  fixes D :: "'d event_dispatcher"
    and inv :: "'d \<Rightarrow> bool"
    and reg :: "'d \<Rightarrow> int \<Rightarrow> (bool \<times> bool) option"
    and room :: "int set \<Rightarrow> int \<Rightarrow> bool"
  assumes add_law: "inv d \<Longrightarrow> 0 \<le> cfd c \<Longrightarrow> reg d (cfd c) = None \<Longrightarrow> room (dom (reg d)) (cfd c) \<Longrightarrow>
      \<exists>d'. disp_add D c d = Inr (0, d') \<and> inv d' \<and> reg d' = (reg d)(cfd c \<mapsto> interest c)"
    and del_law: "inv d \<Longrightarrow> 0 \<le> cfd c \<Longrightarrow> reg d (cfd c) \<noteq> None \<Longrightarrow>
      \<exists>d'. disp_del D c d = Inr (0, d') \<and> inv d' \<and> reg d' = (reg d)(cfd c := None)"
    and update_law: "inv d \<Longrightarrow> 0 \<le> cfd c \<Longrightarrow> reg d (cfd c) \<noteq> None \<Longrightarrow>
      \<exists>d'. disp_update D c d = Inr (0, d') \<and> inv d' \<and> reg d' = (reg d)(cfd c \<mapsto> interest c)"

text \<open>The event mask a dispatcher passes on, and what it means.\<close>

definition event_mask :: "32 word \<Rightarrow> 32 word \<Rightarrow> channel \<Rightarrow> 32 word" where
  "event_mask rd wr c =
     (let ev = 0;
          ev = (if events c AND EVENT_READ \<noteq> 0 then ev OR rd else ev);
          ev = (if events c AND EVENT_WRITE \<noteq> 0 then ev OR wr else ev)
      in ev)"

definition mask_interest :: "32 word \<Rightarrow> 32 word \<Rightarrow> 32 word \<Rightarrow> bool \<times> bool" where
  "mask_interest rd wr m = (m AND rd \<noteq> 0, m AND wr \<noteq> 0)"

section \<open>poll\<close>

definition INIT_POLL_SIZE :: nat where "INIT_POLL_SIZE = 1024"

definition POLLRDNORM :: "32 word" where "POLLRDNORM = 0x40"

definition POLLWRNORM :: "32 word" where "POLLWRNORM = 0x100"

record pollfd =
  pfd :: int
  pevents :: "16 word"
  revents :: "16 word"

record poll_dispatcher_data =
  p_event_count :: int
  p_nfds :: int
  p_realloc_copy :: int
  event_set :: "pollfd list"

text \<open>\<open>cells\<close> is what the allocation of the array yields.\<close>

definition poll_init :: "pollfd list \<Rightarrow> poll_dispatcher_data c_res" where
  "poll_init cells =
     c_bind (c_for (\<lambda>i es. c_bind (c_read es (int i)) (\<lambda>p. c_write es (int i) (p\<lparr>pfd := - 1\<rparr>))) INIT_POLL_SIZE cells) (\<lambda>es.
     Inr \<lparr>p_event_count = 0, p_nfds = 0, p_realloc_copy = 0, event_set = es\<rparr>)"

text \<open>The loops that look for the first cell with a property.\<close>

fun first_index :: "('a \<Rightarrow> bool) \<Rightarrow> 'a list \<Rightarrow> nat option" where
  "first_index P [] = None"
| "first_index P (x # xs) = (if P x then Some 0 else map_option Suc (first_index P xs))"

text \<open>A full array, or a descriptor that is not there, goes unnoticed: the test after the loop asks for an index that cannot be reached.\<close>

definition poll_add :: "channel \<Rightarrow> poll_dispatcher_data \<Rightarrow> (int \<times> poll_dispatcher_data) c_res" where
  "poll_add c d =
     (let ev = event_mask POLLRDNORM POLLWRNORM c in
      case first_index (\<lambda>p. pfd p < 0) (take INIT_POLL_SIZE (event_set d)) of
        None \<Rightarrow> if length (event_set d) < INIT_POLL_SIZE then Inl OutOfBounds else Inr (0, d)
      | Some i \<Rightarrow> Inr (0, d\<lparr>event_set := (event_set d)[i := (event_set d ! i)\<lparr>pfd := cfd c, pevents := ucast ev\<rparr>]\<rparr>))"

definition poll_del :: "channel \<Rightarrow> poll_dispatcher_data \<Rightarrow> (int \<times> poll_dispatcher_data) c_res" where
  "poll_del c d =
     (case first_index (\<lambda>p. pfd p = cfd c) (take INIT_POLL_SIZE (event_set d)) of
        None \<Rightarrow> if length (event_set d) < INIT_POLL_SIZE then Inl OutOfBounds else Inr (0, d)
      | Some i \<Rightarrow> Inr (0, d\<lparr>event_set := (event_set d)[i := (event_set d ! i)\<lparr>pfd := - 1\<rparr>]\<rparr>))"

definition poll_update :: "channel \<Rightarrow> poll_dispatcher_data \<Rightarrow> (int \<times> poll_dispatcher_data) c_res" where
  "poll_update c d =
     (let ev = event_mask POLLRDNORM POLLWRNORM c in
      case first_index (\<lambda>p. pfd p = cfd c) (take INIT_POLL_SIZE (event_set d)) of
        None \<Rightarrow> if length (event_set d) < INIT_POLL_SIZE then Inl OutOfBounds else Inr (0, d)
      | Some i \<Rightarrow> Inr (0, d\<lparr>event_set := (event_set d)[i := (event_set d ! i)\<lparr>pevents := ucast ev\<rparr>]\<rparr>))"

text \<open>
  The loop over the array after \<open>poll\<close> returned, its bound as in the source.  \<open>get\<close> reads the
  dispatcher's data from the program state, which the callbacks may change.
\<close>

function poll_loop :: "('s \<Rightarrow> poll_dispatcher_data) \<Rightarrow> (int \<Rightarrow> 32 word \<Rightarrow> 's \<Rightarrow> 's c_res) \<Rightarrow> nat \<Rightarrow> int \<Rightarrow> 's \<Rightarrow> 's c_res" where
  "poll_loop get activate i ready s =
     (if INIT_POLL_SIZE < i then Inr s
      else
        c_bind (c_read (event_set (get s)) (int i)) (\<lambda>p.
        if pfd p < 0 then poll_loop get activate (Suc i) ready s
        else if 0 < sint (revents p) then
          c_bind (if scast (revents p) AND POLLRDNORM \<noteq> 0 then activate (pfd p) EVENT_READ s else Inr s) (\<lambda>s.
          c_bind (if scast (revents p) AND POLLWRNORM \<noteq> 0 then activate (pfd p) EVENT_WRITE s else Inr s) (\<lambda>s.
          if ready - 1 \<le> 0 then Inr s else poll_loop get activate (Suc i) (ready - 1) s))
        else poll_loop get activate (Suc i) ready s))"
  by pat_completeness auto
termination
  by (relation "measure (\<lambda>(get, activate, i, ready, s). Suc INIT_POLL_SIZE - i)") auto

declare poll_loop.simps [simp del]

text \<open>\<open>poll\<close> yields the number of ready descriptors and the state with their \<open>revents\<close> filled in.\<close>

definition poll_dispatch :: "('s \<Rightarrow> poll_dispatcher_data) \<Rightarrow> (int \<Rightarrow> 32 word \<Rightarrow> 's \<Rightarrow> 's c_res) \<Rightarrow> ('s \<Rightarrow> int \<times> 's)
    \<Rightarrow> 's \<Rightarrow> (int \<times> 's) c_res" where
  "poll_dispatch get activate poll s =
     (let (ready, s) = poll s in
      if ready < 0 then Inl (Exit 1)
      else if ready \<le> 0 then Inr (0, s)
      else c_bind (poll_loop get activate 0 ready s) (\<lambda>s. Inr (0, s)))"

definition poll_dispatcher :: "poll_dispatcher_data event_dispatcher" where
  "poll_dispatcher = \<lparr>disp_add = poll_add, disp_del = poll_del, disp_update = poll_update\<rparr>"

section \<open>epoll\<close>

definition MAXEVENTS :: nat where "MAXEVENTS = 128"

definition EPOLLIN :: "32 word" where "EPOLLIN = 0x001"

definition EPOLLOUT :: "32 word" where "EPOLLOUT = 0x004"

definition EPOLLERR :: "32 word" where "EPOLLERR = 0x008"

definition EPOLLHUP :: "32 word" where "EPOLLHUP = 0x010"

datatype ctl_op = EPOLL_CTL_ADD | EPOLL_CTL_DEL | EPOLL_CTL_MOD

text \<open>\<open>kernel\<close> is the kernel object behind \<open>efd\<close>.\<close>

record 'k epoll_dispatcher_data =
  e_event_count :: int
  e_nfds :: int
  e_realloc_copy :: int
  efd :: int
  kernel :: 'k

definition epoll_init :: "int \<times> 'k \<Rightarrow> 'k epoll_dispatcher_data c_res" where
  "epoll_init created =
     (let d = \<lparr>e_event_count = 0, e_nfds = 0, e_realloc_copy = 0, efd = fst created, kernel = snd created\<rparr>
      in if efd d = - 1 then Inl (Exit 1) else Inr d)"

definition epoll_control :: "(ctl_op \<Rightarrow> int \<Rightarrow> 32 word \<Rightarrow> 'k \<Rightarrow> int \<times> 'k) \<Rightarrow> ctl_op \<Rightarrow> channel \<Rightarrow> 'k epoll_dispatcher_data
    \<Rightarrow> (int \<times> 'k epoll_dispatcher_data) c_res" where
  "epoll_control ctl op c d =
     (let (r, k) = ctl op (cfd c) (event_mask EPOLLIN EPOLLOUT c) (kernel d)
      in if r = - 1 then Inl (Exit 1) else Inr (0, d\<lparr>kernel := k\<rparr>))"

definition epoll_add where "epoll_add ctl = epoll_control ctl EPOLL_CTL_ADD"

definition epoll_del where "epoll_del ctl = epoll_control ctl EPOLL_CTL_DEL"

definition epoll_update where "epoll_update ctl = epoll_control ctl EPOLL_CTL_MOD"

text \<open>
  The loop over the events \<open>epoll_wait\<close> delivered; \<open>close_fd\<close> is the closing of a descriptor
  reported broken.
\<close>

fun epoll_loop :: "(int \<Rightarrow> 32 word \<Rightarrow> 's \<Rightarrow> 's c_res) \<Rightarrow> (int \<Rightarrow> 's \<Rightarrow> 's) \<Rightarrow> (int \<times> 32 word) list \<Rightarrow> 's \<Rightarrow> 's c_res" where
  "epoll_loop activate close_fd [] s = Inr s"
| "epoll_loop activate close_fd ((fd, ev) # evs) s =
     (if ev AND EPOLLERR \<noteq> 0 \<or> ev AND EPOLLHUP \<noteq> 0 then epoll_loop activate close_fd evs (close_fd fd s)
      else
        c_bind (if ev AND EPOLLIN \<noteq> 0 then activate fd EVENT_READ s else Inr s) (\<lambda>s.
        c_bind (if ev AND EPOLLOUT \<noteq> 0 then activate fd EVENT_WRITE s else Inr s) (\<lambda>s.
        epoll_loop activate close_fd evs s)))"

definition epoll_dispatch :: "(int \<Rightarrow> 32 word \<Rightarrow> 's \<Rightarrow> 's c_res) \<Rightarrow> (int \<Rightarrow> 's \<Rightarrow> 's) \<Rightarrow> ('s \<Rightarrow> int \<times> (int \<times> 32 word) list)
    \<Rightarrow> 's \<Rightarrow> (int \<times> 's) c_res" where
  "epoll_dispatch activate close_fd wait s =
     (let (n, evs) = wait s in
      if int (min MAXEVENTS (length evs)) < n then Inl OutOfBounds
      else c_bind (epoll_loop activate close_fd (take (nat n) evs) s) (\<lambda>s. Inr (0, s)))"

definition epoll_dispatcher :: "(ctl_op \<Rightarrow> int \<Rightarrow> 32 word \<Rightarrow> 'k \<Rightarrow> int \<times> 'k) \<Rightarrow> 'k epoll_dispatcher_data event_dispatcher" where
  "epoll_dispatcher ctl = \<lparr>disp_add = epoll_add ctl, disp_del = epoll_del ctl, disp_update = epoll_update ctl\<rparr>"

section \<open>Masks\<close>

definition cell_interest :: "pollfd \<Rightarrow> bool \<times> bool" where
  "cell_interest p = mask_interest POLLRDNORM POLLWRNORM (scast (pevents p))"

lemma poll_mask [simp]:
  "cell_interest (p\<lparr>pevents := ucast (event_mask POLLRDNORM POLLWRNORM c)\<rparr>) = interest c"
  "cell_interest (p\<lparr>pfd := x\<rparr>) = cell_interest p"
  by (simp_all add: cell_interest_def mask_interest_def event_mask_def interest_def POLLRDNORM_def POLLWRNORM_def)

lemma epoll_mask: "mask_interest EPOLLIN EPOLLOUT (event_mask EPOLLIN EPOLLOUT c) = interest c"
  by (simp add: mask_interest_def event_mask_def interest_def EPOLLIN_def EPOLLOUT_def)

section \<open>The poll array as a registry\<close>

lemma first_index_None: "first_index P xs = None \<longleftrightarrow> (\<forall>i < length xs. \<not> P (xs ! i))"
  by (induction xs) (auto simp: nth_Cons split: nat.split)

lemma first_index_Some: "first_index P xs = Some i \<Longrightarrow> i < length xs \<and> P (xs ! i)"
  by (induction xs arbitrary: i) (auto split: if_splits)

definition poll_inv :: "poll_dispatcher_data \<Rightarrow> bool" where
  "poll_inv d \<longleftrightarrow> length (event_set d) = INIT_POLL_SIZE \<and>
     (\<forall>i < INIT_POLL_SIZE. \<forall>j < INIT_POLL_SIZE. i \<noteq> j \<longrightarrow> 0 \<le> pfd (event_set d ! i) \<longrightarrow> pfd (event_set d ! i) \<noteq> pfd (event_set d ! j))"

definition poll_reg :: "poll_dispatcher_data \<Rightarrow> int \<Rightarrow> (bool \<times> bool) option" where
  "poll_reg d fd =
     (if fd < 0 then None
      else map_option cell_interest (find (\<lambda>p. pfd p = fd) (event_set d)))"

definition poll_room :: "int set \<Rightarrow> int \<Rightarrow> bool" where
  "poll_room fds fd \<longleftrightarrow> card fds < INIT_POLL_SIZE"

lemma poll_unique:
  assumes "poll_inv d" and "i < INIT_POLL_SIZE" "j < INIT_POLL_SIZE" and "pfd (event_set d ! i) = pfd (event_set d ! j)"
    and "0 \<le> pfd (event_set d ! i)"
  shows "i = j"
  using assms unfolding poll_inv_def by metis

lemma poll_reg_Some:
  assumes "poll_inv d" and "0 \<le> fd"
  shows "poll_reg d fd = Some x \<longleftrightarrow>
    (\<exists>i < INIT_POLL_SIZE. pfd (event_set d ! i) = fd \<and> cell_interest (event_set d ! i) = x)"
proof -
  have unique: "i = j" if "i < INIT_POLL_SIZE" "j < INIT_POLL_SIZE" "pfd (event_set d ! i) = fd" "pfd (event_set d ! j) = fd" for i j
    using assms(2) that poll_unique [OF assms(1) that(1,2)] by fastforce
  have len: "length (event_set d) = INIT_POLL_SIZE" using assms(1) by (simp add: poll_inv_def)
  show ?thesis
  proof
    assume "poll_reg d fd = Some x"
    then show "\<exists>i < INIT_POLL_SIZE. pfd (event_set d ! i) = fd \<and> cell_interest (event_set d ! i) = x"
      using len by (auto simp: poll_reg_def find_Some_iff split: if_splits)
  next
    assume "\<exists>i < INIT_POLL_SIZE. pfd (event_set d ! i) = fd \<and> cell_interest (event_set d ! i) = x"
    then obtain i where i: "i < INIT_POLL_SIZE" "pfd (event_set d ! i) = fd" "cell_interest (event_set d ! i) = x"
      by blast
    have "find (\<lambda>p. pfd p = fd) (event_set d) = Some (event_set d ! i)"
      unfolding find_Some_iff using i len unique by (metis nat_less_le order.strict_trans)
    with i assms(2) show "poll_reg d fd = Some x" by (simp add: poll_reg_def)
  qed
qed

lemma poll_free_cell:
  assumes "poll_inv d" and "poll_room (dom (poll_reg d)) fd"
  shows "\<exists>i < INIT_POLL_SIZE. pfd (event_set d ! i) < 0"
proof (rule ccontr)
  let ?f = "\<lambda>i. pfd (event_set d ! i)"
  assume "\<not> ?thesis"
  then have pos: "0 \<le> ?f i" if "i < INIT_POLL_SIZE" for i using that by force
  then have "inj_on ?f {..<INIT_POLL_SIZE}"
    using poll_unique [OF assms(1)] by (auto simp: inj_on_def)
  moreover have "?f ` {..<INIT_POLL_SIZE} \<subseteq> dom (poll_reg d)"
  proof
    fix x
    assume "x \<in> ?f ` {..<INIT_POLL_SIZE}"
    then obtain i where "i < INIT_POLL_SIZE" "?f i = x" by auto
    then have "poll_reg d x = Some (cell_interest (event_set d ! i))"
      using pos [of i] poll_reg_Some [OF assms(1), of x] by blast
    then show "x \<in> dom (poll_reg d)" by (simp add: domI)
  qed
  moreover have "finite (dom (poll_reg d))"
  proof (rule finite_subset)
    show "dom (poll_reg d) \<subseteq> pfd ` set (event_set d)"
      by (auto simp: poll_reg_def find_Some_iff split: if_splits)
  qed simp
  ultimately have "INIT_POLL_SIZE \<le> card (dom (poll_reg d))"
    by (metis card_image card_lessThan card_mono)
  with assms(2) show False by (simp add: poll_room_def)
qed

lemma poll_reg_negative: "fd < 0 \<Longrightarrow> poll_reg d fd = None"
  by (simp add: poll_reg_def)

text \<open>Two registries agree when they have the same registrations.\<close>

lemma reg_eqI:
  assumes "\<And>fd x. f fd = Some x \<longleftrightarrow> g fd = Some x"
  shows "f = g"
  by (rule ext) (metis assms option.exhaust)

text \<open>Changing the cell \<open>i\<close> to another descriptor or mask.\<close>

lemma poll_cell_update:
  assumes inv: "poll_inv d" and i: "i < INIT_POLL_SIZE"
    and free: "\<And>j. j < INIT_POLL_SIZE \<Longrightarrow> j \<noteq> i \<Longrightarrow> 0 \<le> fd \<Longrightarrow> pfd (event_set d ! j) \<noteq> fd"
    and d': "d' = d\<lparr>event_set := (event_set d)[i := q]\<rparr>" and q: "pfd q = fd"
  shows "poll_inv d'" and "poll_reg d' x =
    (if x = fd \<and> 0 \<le> fd then Some (cell_interest q)
     else if x = pfd (event_set d ! i) then None else poll_reg d x)"
proof -
  have len: "length (event_set d) = INIT_POLL_SIZE" using inv by (simp add: poll_inv_def)
  have "a = b" if "a < INIT_POLL_SIZE" "b < INIT_POLL_SIZE" "pfd (event_set d' ! a) = pfd (event_set d' ! b)"
      "0 \<le> pfd (event_set d' ! a)" for a b
    using that free [of a] free [of b] poll_unique [OF inv that(1,2)] i q len
    by (auto simp: d' nth_list_update split: if_splits)
  then show inv': "poll_inv d'"
    unfolding poll_inv_def using len by (metis d' length_list_update poll_dispatcher_data.select_convs(4) poll_dispatcher_data.surjective poll_dispatcher_data.update_convs(4))
  show "poll_reg d' x = (if x = fd \<and> 0 \<le> fd then Some (cell_interest q)
     else if x = pfd (event_set d ! i) then None else poll_reg d x)"
  proof (cases "0 \<le> x")
    case False
    then show ?thesis by (simp add: poll_reg_negative)
  next
    case True
    have cells: "event_set d' ! j = (if j = i then q else event_set d ! j)" if "j < INIT_POLL_SIZE" for j
      using that len by (simp add: d' nth_list_update)
    have split: "poll_reg d' x = Some y \<longleftrightarrow> x = fd \<and> cell_interest q = y \<or>
        (\<exists>j < INIT_POLL_SIZE. j \<noteq> i \<and> pfd (event_set d ! j) = x \<and> cell_interest (event_set d ! j) = y)" for y
      unfolding poll_reg_Some [OF inv' True] using cells i q by metis
    have "poll_reg d' x = Some y \<longleftrightarrow>
        (if x = fd \<and> 0 \<le> fd then Some (cell_interest q)
         else if x = pfd (event_set d ! i) then None else poll_reg d x) = Some y" for y
    proof -
      consider "x = fd" | "x \<noteq> fd" "x = pfd (event_set d ! i)" | "x \<noteq> fd" "x \<noteq> pfd (event_set d ! i)" by blast
      then show ?thesis
      proof cases
        case 1
        with True split [of y] free show ?thesis by auto
      next
        case 2
        have "pfd (event_set d ! j) \<noteq> x" if "j < INIT_POLL_SIZE" "j \<noteq> i" for j
          using poll_unique [OF inv that(1) i] that(2) 2(2) True by auto
        with 2 split [of y] show ?thesis by auto
      next
        case 3
        from 3(2) have "poll_reg d x = Some y \<longleftrightarrow> (\<exists>j < INIT_POLL_SIZE. j \<noteq> i \<and> pfd (event_set d ! j) = x \<and>
            cell_interest (event_set d ! j) = y)"
          using poll_reg_Some [OF inv True, of y] by blast
        with 3 split [of y] show ?thesis by simp
      qed
    qed
    then show ?thesis by (metis option.exhaust)
  qed
qed

lemma poll_add_law:
  assumes "poll_inv d" and "0 \<le> cfd c" and "poll_reg d (cfd c) = None" and "poll_room (dom (poll_reg d)) (cfd c)"
  shows "\<exists>d'. poll_add c d = Inr (0, d') \<and> poll_inv d' \<and> poll_reg d' = (poll_reg d)(cfd c \<mapsto> interest c)"
proof -
  have len: "length (event_set d) = INIT_POLL_SIZE" using assms(1) by (simp add: poll_inv_def)
  obtain i where i: "first_index (\<lambda>p. pfd p < 0) (take INIT_POLL_SIZE (event_set d)) = Some i"
    using poll_free_cell [OF assms(1,4)] len first_index_None [of "\<lambda>p. pfd p < 0" "event_set d"] by auto
  then have iN: "i < INIT_POLL_SIZE" "pfd (event_set d ! i) < 0"
    using first_index_Some [OF i] len by simp_all
  have free: "pfd (event_set d ! j) \<noteq> cfd c" if "j < INIT_POLL_SIZE" for j
    using assms(3) poll_reg_Some [OF assms(1,2)] that by (metis option.distinct(1))
  let ?q = "(event_set d ! i)\<lparr>pfd := cfd c, pevents := ucast (event_mask POLLRDNORM POLLWRNORM c)\<rparr>"
  let ?d = "d\<lparr>event_set := (event_set d)[i := ?q]\<rparr>"
  note upd = poll_cell_update [OF assms(1) iN(1), of "cfd c" ?d ?q]
  have "poll_add c d = Inr (0, ?d)" using i by (simp add: poll_add_def)
  moreover have "poll_inv ?d" using upd(1) free by simp
  moreover have "poll_reg ?d = (poll_reg d)(cfd c \<mapsto> interest c)"
    using upd(2) free iN(2) assms(2) by (auto simp: poll_reg_negative fun_eq_iff)
  ultimately show ?thesis by blast
qed

lemma poll_found:
  assumes "poll_inv d" and "0 \<le> fd" and "poll_reg d fd \<noteq> None"
  obtains i where "first_index (\<lambda>p. pfd p = fd) (take INIT_POLL_SIZE (event_set d)) = Some i"
    "i < INIT_POLL_SIZE" "pfd (event_set d ! i) = fd"
proof -
  have len: "length (event_set d) = INIT_POLL_SIZE" using assms(1) by (simp add: poll_inv_def)
  from assms(3) obtain j where "j < INIT_POLL_SIZE" "pfd (event_set d ! j) = fd"
    using poll_reg_Some [OF assms(1,2)] by auto
  then obtain i where i: "first_index (\<lambda>p. pfd p = fd) (take INIT_POLL_SIZE (event_set d)) = Some i"
    using len first_index_None [of "\<lambda>p. pfd p = fd" "event_set d"] by auto
  with that first_index_Some [OF i] len show thesis by simp
qed

lemma poll_del_law:
  assumes "poll_inv d" and "0 \<le> cfd c" and "poll_reg d (cfd c) \<noteq> None"
  shows "\<exists>d'. poll_del c d = Inr (0, d') \<and> poll_inv d' \<and> poll_reg d' = (poll_reg d)(cfd c := None)"
proof -
  obtain i where i: "first_index (\<lambda>p. pfd p = cfd c) (take INIT_POLL_SIZE (event_set d)) = Some i"
    "i < INIT_POLL_SIZE" "pfd (event_set d ! i) = cfd c" by (rule poll_found [OF assms])
  let ?q = "(event_set d ! i)\<lparr>pfd := - 1\<rparr>" let ?d = "d\<lparr>event_set := (event_set d)[i := ?q]\<rparr>"
  note upd = poll_cell_update [OF assms(1) i(2), of "- 1" ?d ?q]
  have "poll_reg ?d = (poll_reg d)(cfd c := None)" "poll_inv ?d" using upd i(3) by (auto simp: fun_eq_iff)
  with i(1) show ?thesis by (simp add: poll_del_def)
qed

lemma poll_update_law:
  assumes "poll_inv d" and "0 \<le> cfd c" and "poll_reg d (cfd c) \<noteq> None"
  shows "\<exists>d'. poll_update c d = Inr (0, d') \<and> poll_inv d' \<and> poll_reg d' = (poll_reg d)(cfd c \<mapsto> interest c)"
proof -
  obtain i where i: "first_index (\<lambda>p. pfd p = cfd c) (take INIT_POLL_SIZE (event_set d)) = Some i"
    "i < INIT_POLL_SIZE" "pfd (event_set d ! i) = cfd c" by (rule poll_found [OF assms])
  let ?q = "(event_set d ! i)\<lparr>pevents := ucast (event_mask POLLRDNORM POLLWRNORM c)\<rparr>" let ?d = "d\<lparr>event_set := (event_set d)[i := ?q]\<rparr>"
  have free: "pfd (event_set d ! j) \<noteq> cfd c" if "j < INIT_POLL_SIZE" "j \<noteq> i" for j
    using poll_unique [OF assms(1) that(1) i(2)] i(3) assms(2) that(2) by auto
  note upd = poll_cell_update [OF assms(1) i(2), of "cfd c" ?d ?q]
  have "poll_reg ?d = (poll_reg d)(cfd c \<mapsto> interest c)" "poll_inv ?d"
    using upd i(3) free assms(2) by (auto simp: fun_eq_iff)
  with i(1) show ?thesis by (simp add: poll_update_def)
qed

interpretation poll: dispatcher poll_dispatcher poll_inv poll_reg poll_room
  by unfold_locales (auto simp: poll_dispatcher_def intro: poll_add_law poll_del_law poll_update_law)

lemma poll_init_law:
  assumes "length cells = INIT_POLL_SIZE"
  shows "\<exists>d. poll_init cells = Inr d \<and> poll_inv d \<and> poll_reg d = (\<lambda>fd. None)"
proof -
  let ?f = "\<lambda>i p. p\<lparr>pfd := - 1\<rparr>" let ?es = "pre_upd INIT_POLL_SIZE ?f cells"
  have "c_for (\<lambda>i es. c_bind (c_read es (int i)) (\<lambda>p. c_write es (int i) (?f i p))) INIT_POLL_SIZE (pre_upd 0 ?f cells) = Inr ?es"
    by (rule c_for_closed) (use assms pre_upd_Suc [of _ cells ?f] in \<open>simp add: c_mem\<close>)
  then have "poll_init cells = Inr \<lparr>p_event_count = 0, p_nfds = 0, p_realloc_copy = 0, event_set = ?es\<rparr>"
    by (simp add: poll_init_def)
  moreover have "pfd p = - 1" if "p \<in> set ?es" for p
    using that assms by (auto simp: in_set_conv_nth)
  ultimately show ?thesis
    using assms by (auto simp: poll_inv_def poll_reg_def fun_eq_iff find_None_iff)
qed

text \<open>A full array: the channel is dropped and the caller is told nothing.\<close>

lemma poll_add_full:
  assumes "length (event_set d) = INIT_POLL_SIZE" and "\<forall>p \<in> set (event_set d). 0 \<le> pfd p"
  shows "poll_add c d = Inr (0, d)"
proof -
  have "first_index (\<lambda>p. pfd p < 0) (event_set d) = None"
    using assms(2) by (auto simp: first_index_None not_less)
  with assms(1) show ?thesis by (simp add: poll_add_def)
qed

section \<open>Dispatching the ready descriptors\<close>

definition is_ready :: "pollfd \<Rightarrow> bool" where
  "is_ready p \<longleftrightarrow> 0 \<le> pfd p \<and> 0 < sint (revents p)"

fun activate_cells :: "(int \<Rightarrow> 32 word \<Rightarrow> 's \<Rightarrow> 's c_res) \<Rightarrow> pollfd list \<Rightarrow> 's \<Rightarrow> 's c_res" where
  "activate_cells activate [] s = Inr s"
| "activate_cells activate (p # ps) s =
     c_bind (if scast (revents p) AND POLLRDNORM \<noteq> 0 then activate (pfd p) EVENT_READ s else Inr s) (\<lambda>s.
     c_bind (if scast (revents p) AND POLLWRNORM \<noteq> 0 then activate (pfd p) EVENT_WRITE s else Inr s)
       (activate_cells activate ps))"

text \<open>
  The callbacks of one descriptor may add channels and remove their own, but they leave the
  results of \<open>poll\<close> and the cells of the other ready descriptors alone.
\<close>

definition keeps_ready :: "('s \<Rightarrow> poll_dispatcher_data) \<Rightarrow> (int \<Rightarrow> 32 word \<Rightarrow> 's \<Rightarrow> 's c_res) \<Rightarrow> bool" where
  "keeps_ready get activate \<longleftrightarrow> (\<forall>fd ev s s'. activate fd ev s = Inr s' \<longrightarrow>
     length (event_set (get s')) = length (event_set (get s)) \<and>
     (\<forall>j < length (event_set (get s)). revents (event_set (get s') ! j) = revents (event_set (get s) ! j) \<and>
        (is_ready (event_set (get s) ! j) \<and> pfd (event_set (get s) ! j) \<noteq> fd \<longrightarrow>
           pfd (event_set (get s') ! j) = pfd (event_set (get s) ! j))))"

text \<open>The cells from \<open>i\<close> on are, as far as they are ready, those \<open>poll\<close> filled in.\<close>

definition same_ready :: "pollfd list \<Rightarrow> nat \<Rightarrow> pollfd list \<Rightarrow> bool" where
  "same_ready es i es' \<longleftrightarrow> length es' = length es \<and>
     (\<forall>j < length es. revents (es' ! j) = revents (es ! j) \<and> (i \<le> j \<and> is_ready (es ! j) \<longrightarrow> pfd (es' ! j) = pfd (es ! j)))"

lemma same_ready_activate:
  assumes "keeps_ready get activate" and "activate fd ev s = Inr s'" and "same_ready es i (event_set (get s))"
    and "\<And>j. i \<le> j \<Longrightarrow> j < length es \<Longrightarrow> is_ready (es ! j) \<Longrightarrow> pfd (es ! j) \<noteq> fd"
  shows "same_ready es i (event_set (get s'))"
proof -
  let ?e = "event_set (get s)" let ?e' = "event_set (get s')"
  have keep: "length ?e' = length ?e" and kept: "\<And>j. j < length ?e \<Longrightarrow> revents (?e' ! j) = revents (?e ! j) \<and>
      (is_ready (?e ! j) \<and> pfd (?e ! j) \<noteq> fd \<longrightarrow> pfd (?e' ! j) = pfd (?e ! j))"
    using assms(1,2) unfolding keeps_ready_def by blast+
  have len: "length ?e = length es" and same: "\<And>j. j < length es \<Longrightarrow> revents (?e ! j) = revents (es ! j) \<and>
      (i \<le> j \<and> is_ready (es ! j) \<longrightarrow> pfd (?e ! j) = pfd (es ! j))"
    using assms(3) unfolding same_ready_def by blast+
  have "revents (?e' ! j) = revents (es ! j) \<and> (i \<le> j \<and> is_ready (es ! j) \<longrightarrow> pfd (?e' ! j) = pfd (es ! j))"
    if "j < length es" for j
    using that kept [of j] same [of j] assms(4) [of j] len by (auto simp: is_ready_def)
  with keep len show ?thesis by (simp add: same_ready_def)
qed

lemma poll_loop_ready:
  fixes es activate get
  defines "rdy i \<equiv> filter is_ready (drop i es)"
  assumes len: "length es = INIT_POLL_SIZE" and keep: "keeps_ready get activate"
    and free: "\<And>p. p \<in> set es \<Longrightarrow> pfd p < 0 \<Longrightarrow> revents p = 0"
    and dist: "distinct (map pfd (filter is_ready es))"
  shows "i \<le> INIT_POLL_SIZE \<Longrightarrow> same_ready es i (event_set (get s)) \<Longrightarrow> rdy i \<noteq> [] \<Longrightarrow>
    poll_loop get activate i (int (length (rdy i))) s = activate_cells activate (rdy i) s"
proof (induction "INIT_POLL_SIZE - i" arbitrary: i s)
  case 0
  then show ?case using len by (simp add: rdy_def)
next
  case (Suc n)
  then have i: "i < length es" using len by simp
  let ?p = "event_set (get s) ! i"
  have same: "same_ready es (Suc i) (event_set (get s))"
    using Suc.prems(2) by (auto simp: same_ready_def)
  have next_round: "poll_loop get activate (Suc i) (int (length (rdy (Suc i)))) t = activate_cells activate (rdy (Suc i)) t"
    if "same_ready es (Suc i) (event_set (get t))" "rdy (Suc i) \<noteq> []" for t
    using Suc.hyps(1) [of "Suc i" t] Suc.hyps(2) i len that by auto
  have rev: "revents ?p = revents (es ! i)" and lens: "length (event_set (get s)) = length es"
    using Suc.prems(2) i by (auto simp: same_ready_def)
  have cons: "rdy i = (if is_ready (es ! i) then es ! i # rdy (Suc i) else rdy (Suc i))"
    using i by (simp add: rdy_def Cons_nth_drop_Suc [symmetric])
  note step = poll_loop.simps [of get activate i]
  show ?case
  proof (cases "is_ready (es ! i)")
    case False
    then have "pfd ?p < 0 \<or> \<not> 0 < sint (revents ?p)"
      using rev free [of "es ! i"] i by (force simp: is_ready_def not_le)
    then have "poll_loop get activate i (int (length (rdy i))) s = poll_loop get activate (Suc i) (int (length (rdy i))) s"
      using i len lens by (auto simp: step c_mem)
    with False cons next_round [OF same] Suc.prems(3) show ?thesis by simp
  next
    case True
    have p: "pfd ?p = pfd (es ! i)" using Suc.prems(2) i True by (simp add: same_ready_def)
    have drest: "distinct (map pfd (rdy i))" unfolding rdy_def
      by (metis append_take_drop_id dist distinct_append filter_append map_append)
    have others: "pfd (es ! j) \<noteq> pfd (es ! i)" if "Suc i \<le> j" "j < length es" "is_ready (es ! j)" for j
    proof -
      have "es ! j \<in> set (drop (Suc i) es)"
        using that(1,2) nth_mem [of "j - Suc i" "drop (Suc i) es"] by simp
      then have "pfd (es ! j) \<in> pfd ` set (rdy (Suc i))" using that(3) by (simp add: rdy_def)
      with drest show ?thesis unfolding cons using True by auto
    qed
    have kept: "same_ready es (Suc i) (event_set (get t'))"
      if "activate (pfd (es ! i)) ev t = Inr t'" "same_ready es (Suc i) (event_set (get t))" for ev t t'
      using same_ready_activate [OF keep that] others by blast
    have "poll_loop get activate i (int (length (rdy i))) s =
        c_bind (if scast (revents ?p) AND POLLRDNORM \<noteq> 0 then activate (pfd ?p) EVENT_READ s else Inr s) (\<lambda>s.
        c_bind (if scast (revents ?p) AND POLLWRNORM \<noteq> 0 then activate (pfd ?p) EVENT_WRITE s else Inr s) (\<lambda>t.
        if int (length (rdy i)) - 1 \<le> 0 then Inr t else poll_loop get activate (Suc i) (int (length (rdy i)) - 1) t))"
      using i len lens True p rev by (simp add: step c_mem is_ready_def)
    also have "\<dots> = activate_cells activate (rdy i) s"
      using same kept unfolding p rev cons
      by (auto simp: True next_round intro!: c_bind_cong split: if_splits)
    finally show ?thesis .
  qed
qed

text \<open>
  C33.  \<open>poll_dispatch\<close> activates exactly the descriptors \<open>poll\<close> reported, in the order of the array,
  each for reading, then for writing, and stays inside the array, provided the callbacks of one
  descriptor leave the cells of the other ready descriptors alone.
\<close>

theorem poll_dispatch_ready:
  assumes polled: "poll s = (int (length (filter is_ready (event_set (get t)))), t)" and len: "length (event_set (get t)) = INIT_POLL_SIZE"
    and keep: "keeps_ready get activate"
    and free: "\<forall>p \<in> set (event_set (get t)). pfd p < 0 \<longrightarrow> revents p = 0"
    and dist: "distinct (map pfd (filter is_ready (event_set (get t))))"
  shows "poll_dispatch get activate poll s =
    c_bind (activate_cells activate (filter is_ready (event_set (get t))) t) (\<lambda>u. Inr (0, u))"
proof (cases "filter is_ready (event_set (get t)) = []")
  case True
  then show ?thesis by (simp add: poll_dispatch_def polled)
next
  case False
  have "same_ready (event_set (get t)) 0 (event_set (get t))" by (simp add: same_ready_def)
  with False poll_loop_ready [OF len keep _ dist, of 0 t] free show ?thesis
    by (simp add: poll_dispatch_def polled)
qed

theorem poll_dispatch_ready_witness:
  "poll_dispatch fst (\<lambda>fd ev (d, log). Inr (d, log @ [(fd, ev)]))
     (\<lambda>s. (1, \<lparr>p_event_count = 0, p_nfds = 0, p_realloc_copy = 0,
         event_set = \<lparr>pfd = 5, pevents = 0x40, revents = 0x40\<rparr> # replicate 1023 \<lparr>pfd = - 1, pevents = 0, revents = 0\<rparr>\<rparr>, [])) (\<lparr>p_event_count = 0, p_nfds = 0, p_realloc_copy = 0, event_set = []\<rparr>, []) =
   Inr (0, \<lparr>p_event_count = 0, p_nfds = 0, p_realloc_copy = 0,
         event_set = \<lparr>pfd = 5, pevents = 0x40, revents = 0x40\<rparr> # replicate 1023 \<lparr>pfd = - 1, pevents = 0, revents = 0\<rparr>\<rparr>, [(5, EVENT_READ)])"
  (is "poll_dispatch fst ?act (\<lambda>s. (1, (?d, []))) ?s = _")
proof -
  have "filter is_ready (event_set ?d) = [\<lparr>pfd = 5, pevents = 0x40, revents = 0x40\<rparr>]" by (simp add: is_ready_def)
  moreover have "keeps_ready fst ?act" by (auto simp: keeps_ready_def)
  ultimately show ?thesis
    using poll_dispatch_ready [of "\<lambda>s. (1, (?d, []))" ?s fst "(?d, [])" ?act]
    by (simp add: INIT_POLL_SIZE_def POLLRDNORM_def POLLWRNORM_def)
qed

section \<open>epoll as a registry\<close>

text \<open>
  What \<open>epoll_ctl\<close> documents of the interest list: modifying and deleting succeed for a
  descriptor that is there, an addition that succeeds adds it, and one that \<open>addable\<close> allows
  (the limits of the kernel, the kind of the descriptor) succeeds.
\<close>

definition epoll_ctl_ok :: "(ctl_op \<Rightarrow> int \<Rightarrow> 32 word \<Rightarrow> 'k \<Rightarrow> int \<times> 'k) \<Rightarrow> ('k \<Rightarrow> int \<Rightarrow> 32 word option) \<Rightarrow> (int set \<Rightarrow> int \<Rightarrow> bool) \<Rightarrow> bool" where
  "epoll_ctl_ok ctl reg addable \<longleftrightarrow>
     (\<forall>k fd ev. reg k fd = None \<longrightarrow> addable (dom (reg k)) fd \<longrightarrow> fst (ctl EPOLL_CTL_ADD fd ev k) \<noteq> - 1) \<and>
     (\<forall>k fd ev r k'. reg k fd = None \<longrightarrow> ctl EPOLL_CTL_ADD fd ev k = (r, k') \<longrightarrow> r \<noteq> - 1 \<longrightarrow> reg k' = (reg k)(fd \<mapsto> ev)) \<and>
     (\<forall>k fd ev. reg k fd \<noteq> None \<longrightarrow> fst (ctl EPOLL_CTL_DEL fd ev k) = 0 \<and> reg (snd (ctl EPOLL_CTL_DEL fd ev k)) = (reg k)(fd := None)) \<and>
     (\<forall>k fd ev. reg k fd \<noteq> None \<longrightarrow> fst (ctl EPOLL_CTL_MOD fd ev k) = 0 \<and> reg (snd (ctl EPOLL_CTL_MOD fd ev k)) = (reg k)(fd \<mapsto> ev))"

definition epoll_reg :: "('k \<Rightarrow> int \<Rightarrow> 32 word option) \<Rightarrow> 'k epoll_dispatcher_data \<Rightarrow> int \<Rightarrow> (bool \<times> bool) option" where
  "epoll_reg reg d fd = map_option (mask_interest EPOLLIN EPOLLOUT) (reg (kernel d) fd)"

interpretation epoll: dispatcher "epoll_dispatcher ctl" "\<lambda>d. epoll_ctl_ok ctl reg addable" "epoll_reg reg" addable for ctl reg addable
proof
  fix d :: "'a epoll_dispatcher_data" and c
  let ?ev = "event_mask EPOLLIN EPOLLOUT c"
  assume ok: "epoll_ctl_ok ctl reg addable"
  obtain r k where add: "ctl EPOLL_CTL_ADD (cfd c) ?ev (kernel d) = (r, k)" by fastforce
  obtain r1 k1 where del: "ctl EPOLL_CTL_DEL (cfd c) ?ev (kernel d) = (r1, k1)" by fastforce
  obtain r2 k2 where upd: "ctl EPOLL_CTL_MOD (cfd c) ?ev (kernel d) = (r2, k2)" by fastforce
  show "\<exists>d'. disp_add (epoll_dispatcher ctl) c d = Inr (0, d') \<and> epoll_ctl_ok ctl reg addable \<and> epoll_reg reg d' = (epoll_reg reg d)(cfd c \<mapsto> interest c)"
    if "epoll_reg reg d (cfd c) = None" "addable (dom (epoll_reg reg d)) (cfd c)"
  proof -
    have doms: "dom (epoll_reg reg d) = dom (reg (kernel d))" by (auto simp: epoll_reg_def dom_def)
    have "reg (kernel d) (cfd c) = None" using that(1) by (simp add: epoll_reg_def)
    moreover from this have "r \<noteq> - 1" using ok that(2) add unfolding epoll_ctl_ok_def doms by (metis fst_conv)
    ultimately have "reg k = (reg (kernel d))(cfd c \<mapsto> ?ev)" "r \<noteq> - 1" using ok add unfolding epoll_ctl_ok_def by blast+
    with ok add show ?thesis
      by (auto simp: epoll_dispatcher_def epoll_add_def epoll_control_def epoll_reg_def fun_eq_iff epoll_mask)
  qed
  show "\<exists>d'. disp_del (epoll_dispatcher ctl) c d = Inr (0, d') \<and> epoll_ctl_ok ctl reg addable \<and> epoll_reg reg d' = (epoll_reg reg d)(cfd c := None)"
    if "epoll_reg reg d (cfd c) \<noteq> None"
  proof -
    have "reg (kernel d) (cfd c) \<noteq> None" using that by (auto simp: epoll_reg_def)
    then have "r1 = 0" "reg k1 = (reg (kernel d))(cfd c := None)" using ok del unfolding epoll_ctl_ok_def by (metis fst_conv, metis snd_conv)
    with ok del show ?thesis
      by (auto simp: epoll_dispatcher_def epoll_del_def epoll_control_def epoll_reg_def fun_eq_iff)
  qed
  show "\<exists>d'. disp_update (epoll_dispatcher ctl) c d = Inr (0, d') \<and> epoll_ctl_ok ctl reg addable \<and> epoll_reg reg d' = (epoll_reg reg d)(cfd c \<mapsto> interest c)"
    if "epoll_reg reg d (cfd c) \<noteq> None"
  proof -
    have "reg (kernel d) (cfd c) \<noteq> None" using that by (auto simp: epoll_reg_def)
    then have "r2 = 0" "reg k2 = (reg (kernel d))(cfd c \<mapsto> ?ev)" using ok upd unfolding epoll_ctl_ok_def by (metis fst_conv, metis snd_conv)
    with ok upd show ?thesis
      by (auto simp: epoll_dispatcher_def epoll_update_def epoll_control_def epoll_reg_def fun_eq_iff epoll_mask)
  qed
qed
end
