(* ===== verification/Event_Loop.thy ===== *)
theory Event_Loop
  imports Dispatcher
begin

text \<open>
  \<^verbatim>\<open>httptest-geektime/lib/event_loop.c\<close>, with \<^verbatim>\<open>utils.c\<close> and the functions of \<^verbatim>\<open>channel.c\<close> that call
  it: the queue of pending channel operations, their handling by the thread of the loop, the
  activation of a channel, the wake-up pipe and the loop itself.  An operation that other threads
  submit and the owner handles later has the effect of the same operation on a registry.
\<close>

section \<open>State\<close>

record channel_element =
  etype :: int
  echannel :: "chan_ptr option"
  enext :: "nat option"

text \<open>
  \<open>elements\<close> are the cells allocated for the pending list, which are never freed: a pointer is
  an index.  \<open>mutex\<close> tells whether the mutex is held, \<open>wakeups\<close> counts the bytes in the socket
  pair.  The channels live in a store of their own, from addresses to channels.
\<close>

record 'd event_loop =
  quit :: int
  event_dispatcher_data :: "'d option"
  channelMap :: channel_map
  is_handle_pending :: int
  pending_head :: "nat option"
  pending_tail :: "nat option"
  elements :: "channel_element list"
  owner_thread_id :: nat
  mutex :: bool
  socketPair :: "int \<times> int"
  thread_name :: string
  wakeups :: nat

type_synonym chan_store = "chan_ptr \<Rightarrow> channel option"

definition load :: "chan_store \<Rightarrow> chan_ptr option \<Rightarrow> channel c_res" where
  "load chans p =
     (case p of None \<Rightarrow> Inl NullDeref | Some a \<Rightarrow> (case chans a of None \<Rightarrow> Inl OutOfBounds | Some c \<Rightarrow> Inr c))"

section \<open>Threads\<close>

definition isInSameThread :: "nat \<Rightarrow> 'd event_loop \<Rightarrow> bool" where
  "isInSameThread self el \<longleftrightarrow> owner_thread_id el = self"

definition assertInSameThread :: "nat \<Rightarrow> 'd event_loop \<Rightarrow> unit c_res" where
  "assertInSameThread self el = (if owner_thread_id el \<noteq> self then Inl (Exit (- 1)) else Inr ())"

text \<open>Locking a mutex that is held never returns to the thread that holds it.\<close>

definition lock :: "'d event_loop \<Rightarrow> 'd event_loop c_res" where
  "lock el = (if mutex el then Inl NoReturn else Inr (el\<lparr>mutex := True\<rparr>))"

definition unlock :: "'d event_loop \<Rightarrow> 'd event_loop" where
  "unlock el = el\<lparr>mutex := False\<rparr>"

section \<open>Handling one operation\<close>

definition call_dispatcher :: "(channel \<Rightarrow> 'd \<Rightarrow> (int \<times> 'd) c_res) \<Rightarrow> channel \<Rightarrow> 'd event_loop \<Rightarrow> (int \<times> 'd event_loop) c_res" where
  "call_dispatcher op c el =
     (case event_dispatcher_data el of
        None \<Rightarrow> Inl NullDeref
      | Some d \<Rightarrow> c_bind (op c d) (\<lambda>(r, d). Inr (r, el\<lparr>event_dispatcher_data := Some d\<rparr>)))"

definition set_entry :: "'d event_loop \<Rightarrow> int \<Rightarrow> chan_ptr option \<Rightarrow> 'd event_loop c_res" where
  "set_entry el fd p =
     c_bind (c_write (entries (channelMap el)) fd p) (\<lambda>es. Inr (el\<lparr>channelMap := (channelMap el)\<lparr>entries := es\<rparr>\<rparr>))"

definition event_loop_handle_pending_add :: "(int \<Rightarrow> bool) \<Rightarrow> 'd event_dispatcher \<Rightarrow> chan_store \<Rightarrow> 'd event_loop \<Rightarrow> int
    \<Rightarrow> chan_ptr option \<Rightarrow> (int \<times> 'd event_loop) c_res" where
  "event_loop_handle_pending_add alloc D chans el fd p =
     (if fd < 0 then Inr (0, el)
      else
        c_bind (if nentries (channelMap el) \<le> fd
                then c_bind (map_make_space alloc (channelMap el) fd 8) (\<lambda>(r, m). Inr (r, el\<lparr>channelMap := m\<rparr>))
                else Inr (0, el)) (\<lambda>(r, el).
        if r = - 1 then Inr (- 1, el)
        else
          c_bind (c_read (entries (channelMap el)) fd) (\<lambda>e.
          if e = None then
            c_bind (set_entry el fd p) (\<lambda>el.
            c_bind (load chans p) (\<lambda>c.
            c_bind (call_dispatcher (disp_add D) c el) (\<lambda>(_, el).
            Inr (1, el))))
          else Inr (0, el))))"

definition event_loop_handle_pending_remove :: "'d event_dispatcher \<Rightarrow> chan_store \<Rightarrow> 'd event_loop \<Rightarrow> int \<Rightarrow> chan_ptr option
    \<Rightarrow> (int \<times> 'd event_loop) c_res" where
  "event_loop_handle_pending_remove D chans el fd p =
     c_bind (load chans p) (\<lambda>c1.
     if fd \<noteq> cfd c1 then Inl AssertionFailed
     else if fd < 0 then Inr (0, el)
     else if nentries (channelMap el) \<le> fd then Inr (- 1, el)
     else
       c_bind (c_read (entries (channelMap el)) fd) (\<lambda>channel2.
       c_bind (load chans channel2) (\<lambda>c2.
       c_bind (call_dispatcher (disp_del D) c2 el) (\<lambda>(r, el).
       c_bind (set_entry el fd None) (\<lambda>el.
       Inr (if r = - 1 then - 1 else 1, el))))))"

text \<open>The last branch of the source returns no value; nobody uses it.\<close>

definition event_loop_handle_pending_update :: "'d event_dispatcher \<Rightarrow> chan_store \<Rightarrow> 'd event_loop \<Rightarrow> int \<Rightarrow> chan_ptr option
    \<Rightarrow> (int option \<times> 'd event_loop) c_res" where
  "event_loop_handle_pending_update D chans el fd p =
     (if fd < 0 then Inr (Some 0, el)
      else
        c_bind (c_read (entries (channelMap el)) fd) (\<lambda>e.
        if e = None then Inr (Some (- 1), el)
        else
          c_bind (load chans p) (\<lambda>c.
          c_bind (call_dispatcher (disp_update D) c el) (\<lambda>(_, el).
          Inr (None, el)))))"

section \<open>The pending list\<close>

definition handle_pending :: "(int \<Rightarrow> bool) \<Rightarrow> 'd event_dispatcher \<Rightarrow> chan_store \<Rightarrow> int \<times> chan_ptr option \<Rightarrow> 'd event_loop \<Rightarrow> 'd event_loop c_res" where
  "handle_pending alloc D chans = (\<lambda>(type, p) el.
     c_bind (load chans p) (\<lambda>c.
     let fd = cfd c in
     if type = 1 then c_bind (event_loop_handle_pending_add alloc D chans el fd p) (\<lambda>(_, el). Inr el)
     else if type = 2 then c_bind (event_loop_handle_pending_remove D chans el fd p) (\<lambda>(_, el). Inr el)
     else if type = 3 then c_bind (event_loop_handle_pending_update D chans el fd p) (\<lambda>(_, el). Inr el)
     else Inr el))"

text \<open>
  The walk along the list.  The fuel is the number of cells: the handlers leave the list alone,
  so a walk of more steps than there are cells meets a cell twice and never ends.
\<close>

primrec pending_loop :: "(int \<Rightarrow> bool) \<Rightarrow> 'd event_dispatcher \<Rightarrow> chan_store \<Rightarrow> nat \<Rightarrow> nat option \<Rightarrow> 'd event_loop \<Rightarrow> 'd event_loop c_res" where
  "pending_loop alloc D chans 0 e el = (case e of None \<Rightarrow> Inr el | Some a \<Rightarrow> Inl NoReturn)"
| "pending_loop alloc D chans (Suc n) e el =
     (case e of
        None \<Rightarrow> Inr el
      | Some a \<Rightarrow>
          c_bind (c_read (elements el) (int a)) (\<lambda>ce.
          c_bind (handle_pending alloc D chans (etype ce, echannel ce) el) (\<lambda>el.
          c_bind (c_read (elements el) (int a)) (\<lambda>ce.
          pending_loop alloc D chans n (enext ce) el))))"

definition event_loop_handle_pending_channel :: "(int \<Rightarrow> bool) \<Rightarrow> 'd event_dispatcher \<Rightarrow> chan_store \<Rightarrow> 'd event_loop
    \<Rightarrow> (int \<times> 'd event_loop) c_res" where
  "event_loop_handle_pending_channel alloc D chans el =
     c_bind (lock el) (\<lambda>el.
     let el = el\<lparr>is_handle_pending := 1\<rparr> in
     c_bind (pending_loop alloc D chans (length (elements el)) (pending_head el) el) (\<lambda>el.
     let el = el\<lparr>pending_head := None, pending_tail := None\<rparr>; el = el\<lparr>is_handle_pending := 0\<rparr> in
     Inr (0, unlock el)))"

definition event_loop_channel_buffer_nolock :: "'d event_loop \<Rightarrow> int \<Rightarrow> chan_ptr option \<Rightarrow> int \<Rightarrow> 'd event_loop c_res" where
  "event_loop_channel_buffer_nolock el fd p type =
     (let a = length (elements el);
          el = el\<lparr>elements := elements el @ [\<lparr>etype = type, echannel = p, enext = None\<rparr>]\<rparr>
      in if pending_head el = None then Inr (el\<lparr>pending_head := Some a, pending_tail := Some a\<rparr>)
         else (case pending_tail el of
             None \<Rightarrow> Inl NullDeref
           | Some t \<Rightarrow>
               c_bind (c_read (elements el) (int t)) (\<lambda>ce.
               c_bind (c_write (elements el) (int t) (ce\<lparr>enext := Some a\<rparr>)) (\<lambda>es.
               Inr (el\<lparr>pending_tail := Some a, elements := es\<rparr>)))))"

text \<open>\<open>sent\<close> tells whether the write to the socket pair succeeds; a failure is logged.\<close>

definition event_loop_wakeup :: "bool \<Rightarrow> 'd event_loop \<Rightarrow> 'd event_loop" where
  "event_loop_wakeup sent el = (if sent then el\<lparr>wakeups := wakeups el + 1\<rparr> else el)"

text \<open>Reading from an empty socket pair blocks.\<close>

definition handleWakeup :: "'d event_loop \<Rightarrow> 'd event_loop c_res" where
  "handleWakeup el = (if wakeups el = 0 then Inl NoReturn else Inr (el\<lparr>wakeups := wakeups el - 1\<rparr>))"

text \<open>The locked part of \<open>event_loop_do_channel_event\<close>, then the whole.\<close>

definition buffer_locked :: "'d event_loop \<Rightarrow> int \<Rightarrow> chan_ptr option \<Rightarrow> int \<Rightarrow> 'd event_loop c_res" where
  "buffer_locked el fd p type =
     c_bind (lock el) (\<lambda>el.
     if is_handle_pending el \<noteq> 0 then Inl AssertionFailed
     else c_bind (event_loop_channel_buffer_nolock el fd p type) (\<lambda>el. Inr (unlock el)))"

definition event_loop_do_channel_event :: "(int \<Rightarrow> bool) \<Rightarrow> 'd event_dispatcher \<Rightarrow> chan_store \<Rightarrow> nat \<Rightarrow> bool \<Rightarrow> 'd event_loop \<Rightarrow> int
    \<Rightarrow> chan_ptr option \<Rightarrow> int \<Rightarrow> (int \<times> 'd event_loop) c_res" where
  "event_loop_do_channel_event alloc D chans self sent el fd p type =
     c_bind (buffer_locked el fd p type) (\<lambda>el.
     if \<not> isInSameThread self el then Inr (0, event_loop_wakeup sent el)
     else c_bind (event_loop_handle_pending_channel alloc D chans el) (\<lambda>(_, el). Inr (0, el)))"

definition event_loop_add_channel_event where
  "event_loop_add_channel_event alloc D chans self sent el fd p = event_loop_do_channel_event alloc D chans self sent el fd p 1"

definition event_loop_remove_channel_event where
  "event_loop_remove_channel_event alloc D chans self sent el fd p = event_loop_do_channel_event alloc D chans self sent el fd p 2"

definition event_loop_update_channel_event where
  "event_loop_update_channel_event alloc D chans self sent el fd p = event_loop_do_channel_event alloc D chans self sent el fd p 3"

section \<open>Write events of a channel\<close>

text \<open>
  The object the channel belongs to is used as an event loop; \<open>self_ptr\<close> is the address of the
  loop at hand, and another object is a wrong cast.
\<close>

definition change_write_event :: "(channel \<Rightarrow> channel) \<Rightarrow> (int \<Rightarrow> bool) \<Rightarrow> 'd event_dispatcher \<Rightarrow> nat \<Rightarrow> bool \<Rightarrow> nat \<Rightarrow> chan_store
    \<Rightarrow> 'd event_loop \<Rightarrow> chan_ptr \<Rightarrow> (chan_store \<times> 'd event_loop) c_res" where
  "change_write_event f alloc D self sent self_ptr chans el p =
     c_bind (load chans (Some p)) (\<lambda>c.
     let chans = chans(p \<mapsto> f c) in
     if cdata c \<noteq> LoopPtr self_ptr then Inl BadCast
     else c_bind (event_loop_update_channel_event alloc D chans self sent el (cfd c) (Some p)) (\<lambda>(_, el). Inr (chans, el)))"

definition channel_write_event_enable where
  "channel_write_event_enable = change_write_event set_write_event"

definition channel_write_event_disable where
  "channel_write_event_disable = change_write_event clear_write_event"

section \<open>Activation of a channel\<close>

text \<open>
  The callbacks act on the whole state \<open>'s\<close> of the program, from which \<open>get\<close> and \<open>store\<close> read the
  loop and the channels; \<open>run\<close> calls one.
\<close>

definition channel_event_activate :: "('s \<Rightarrow> 'd event_loop) \<Rightarrow> ('s \<Rightarrow> chan_store) \<Rightarrow> (callback \<Rightarrow> chan_data \<Rightarrow> 's \<Rightarrow> 's c_res) \<Rightarrow> int
    \<Rightarrow> 32 word \<Rightarrow> 's \<Rightarrow> (int \<times> 's) c_res" where
  "channel_event_activate get store run fd rev_events s =
     (if fd < 0 then Inr (0, s)
      else if nentries (channelMap (get s)) \<le> fd then Inr (- 1, s)
      else
        c_bind (c_read (entries (channelMap (get s))) fd) (\<lambda>p.
        c_bind (load (store s) p) (\<lambda>c.
        if fd \<noteq> cfd c then Inl AssertionFailed
        else
          c_bind (if rev_events AND EVENT_READ \<noteq> 0
                  then (case eventReadCallback c of None \<Rightarrow> Inr s | Some f \<Rightarrow> run f (cdata c) s) else Inr s) (\<lambda>s.
          c_bind (if rev_events AND EVENT_WRITE \<noteq> 0
                  then c_bind (load (store s) p) (\<lambda>c.
                       case eventWriteCallback c of None \<Rightarrow> Inr s | Some f \<Rightarrow> run f (cdata c) s) else Inr s) (\<lambda>s.
          Inr (0, s))))))"

section \<open>Creating and running a loop\<close>

text \<open>
  \<open>init\<close> is the result of the dispatcher's \<open>init\<close>, \<open>pair\<close> the socket pair (its failure is only
  logged), \<open>self_ptr\<close> the address of the loop, \<open>p\<close> that of the new channel.
\<close>

definition event_loop_init_with_name :: "(int \<Rightarrow> bool) \<Rightarrow> 'd event_dispatcher \<Rightarrow> 'd c_res \<Rightarrow> nat \<Rightarrow> int \<times> int \<Rightarrow> nat \<Rightarrow> chan_ptr \<Rightarrow> chan_store
    \<Rightarrow> string option \<Rightarrow> (chan_store \<times> 'd event_loop) c_res" where
  "event_loop_init_with_name alloc D init self pair self_ptr p chans name =
     c_bind init (\<lambda>d.
     let el = \<lparr>quit = 0, event_dispatcher_data = Some d, channelMap = map_init, is_handle_pending = 0,
               pending_head = None, pending_tail = None, elements = [], owner_thread_id = self, mutex = False,
               socketPair = pair, thread_name = (case name of None \<Rightarrow> ''main thread'' | Some n \<Rightarrow> n), wakeups = 0\<rparr>;
         chans = chans(p \<mapsto> channel_new (snd (socketPair el)) EVENT_READ (Some HandleWakeup) None (LoopPtr self_ptr))
     in c_bind (event_loop_add_channel_event alloc D chans self True el (snd (socketPair el)) (Some p)) (\<lambda>(_, el). Inr (chans, el)))"

definition event_loop_init where
  "event_loop_init alloc D init self pair self_ptr p chans = event_loop_init_with_name alloc D init self pair self_ptr p chans None"

text \<open>
  One round of the loop: \<open>dispatch\<close> is the dispatcher's, with the activation of the channels, and
  \<open>put\<close> writes the loop back into the state.
\<close>

definition loop_round :: "('s \<Rightarrow> 'd event_loop) \<Rightarrow> ('d event_loop \<Rightarrow> 's \<Rightarrow> 's) \<Rightarrow> ('s \<Rightarrow> chan_store) \<Rightarrow> (int \<Rightarrow> bool) \<Rightarrow> 'd event_dispatcher
    \<Rightarrow> ('s \<Rightarrow> (int \<times> 's) c_res) \<Rightarrow> 's \<Rightarrow> 's c_res" where
  "loop_round get put store alloc D dispatch s =
     c_bind (dispatch s) (\<lambda>(_, s).
     c_bind (event_loop_handle_pending_channel alloc D (store s) (get s)) (\<lambda>(_, el).
     Inr (put el s)))"

partial_function (option) while_not_quit :: "('s \<Rightarrow> bool) \<Rightarrow> ('s \<Rightarrow> 's c_res) \<Rightarrow> 's \<Rightarrow> 's c_res option" where
  "while_not_quit stop body s =
     (if stop s then Some (Inr s)
      else (case body s of Inl e \<Rightarrow> Some (Inl e) | Inr t \<Rightarrow> while_not_quit stop body t))"

definition event_loop_run :: "('s \<Rightarrow> 'd event_loop) \<Rightarrow> ('d event_loop \<Rightarrow> 's \<Rightarrow> 's) \<Rightarrow> ('s \<Rightarrow> chan_store) \<Rightarrow> (int \<Rightarrow> bool) \<Rightarrow> 'd event_dispatcher
    \<Rightarrow> ('s \<Rightarrow> (int \<times> 's) c_res) \<Rightarrow> nat \<Rightarrow> 's \<Rightarrow> 's c_res option" where
  "event_loop_run get put store alloc D dispatch self s =
     (if owner_thread_id (get s) \<noteq> self then Some (Inl (Exit 1))
      else while_not_quit (\<lambda>s. quit (get s) \<noteq> 0) (loop_round get put store alloc D dispatch) s)"

section \<open>Releasing the dispatcher\<close>

text \<open>What the dispatchers' \<open>clear\<close> leaves; the epoll descriptor is closed, and is the first component.\<close>

definition poll_clear :: "poll_dispatcher_data event_loop \<Rightarrow> poll_dispatcher_data event_loop c_res" where
  "poll_clear el =
     (case event_dispatcher_data el of None \<Rightarrow> Inl NullDeref | Some d \<Rightarrow> Inr (el\<lparr>event_dispatcher_data := None\<rparr>))"

definition epoll_clear :: "'k epoll_dispatcher_data event_loop \<Rightarrow> (int \<times> 'k epoll_dispatcher_data event_loop) c_res" where
  "epoll_clear el =
     (case event_dispatcher_data el of None \<Rightarrow> Inl NullDeref | Some d \<Rightarrow> Inr (efd d, el\<lparr>event_dispatcher_data := None\<rparr>))"

section \<open>The pending list as a queue\<close>

text \<open>\<open>chain\<close>: the addresses from a cell on; \<open>pending_inv el q\<close>: the list holds the operations \<open>q\<close>.\<close>

fun chain :: "channel_element list \<Rightarrow> nat option \<Rightarrow> nat list \<Rightarrow> bool" where
  "chain cells e [] \<longleftrightarrow> e = None"
| "chain cells e (a # as) \<longleftrightarrow> e = Some a \<and> a < length cells \<and> chain cells (enext (cells ! a)) as"

definition pending_inv :: "'d event_loop \<Rightarrow> (int \<times> chan_ptr option) list \<Rightarrow> bool" where
  "pending_inv el q \<longleftrightarrow> (\<exists>as. chain (elements el) (pending_head el) as \<and> distinct as \<and>
     (as \<noteq> [] \<longrightarrow> pending_tail el = Some (last as)) \<and>
     q = map (\<lambda>a. (etype (elements el ! a), echannel (elements el ! a))) as)"

definition idle :: "'d event_loop \<Rightarrow> bool" where
  "idle el \<longleftrightarrow> \<not> mutex el \<and> is_handle_pending el = 0"

lemma chain_bounds: "chain cells e as \<Longrightarrow> set as \<subseteq> {..<length cells}"
  by (induction as arbitrary: e) auto

lemma chain_length: "chain cells e as \<Longrightarrow> distinct as \<Longrightarrow> length as \<le> length cells"
  using chain_bounds [of cells e as] card_mono [of "{..<length cells}" "set as"] by (simp add: distinct_card)

lemma chain_append_cell: "chain cells e as \<Longrightarrow> chain (cells @ ys) e as"
  by (induction as arbitrary: e) (auto simp: nth_append)

lemma chain_link:
  assumes "chain cells e as" and "distinct as" and "as \<noteq> []" and "b < length cells" and "b \<notin> set as" and "enext (cells ! b) = None"
  shows "chain (cells[last as := (cells ! last as)\<lparr>enext := Some b\<rparr>]) e (as @ [b])"
  using assms
proof (induction as arbitrary: e)
  case (Cons a as)
  show ?case
  proof (cases "as = []")
    case True
    with Cons.prems show ?thesis by simp
  next
    case False
    then have "last as \<noteq> a" using Cons.prems(2) last_in_set by auto
    with False Cons.prems Cons.IH [of "enext (cells ! a)"] show ?thesis by auto
  qed
qed simp

lemma buffer_appends:
  assumes "pending_inv el q"
  shows "\<exists>el'. event_loop_channel_buffer_nolock el fd p type = Inr el' \<and> pending_inv el' (q @ [(type, p)]) \<and>
    (\<exists>h t es. el' = el\<lparr>pending_head := h, pending_tail := t, elements := es\<rparr>)"
proof -
  let ?a = "length (elements el)" let ?cells = "elements el @ [\<lparr>etype = type, echannel = p, enext = None\<rparr>]"
  from assms obtain as where as: "chain (elements el) (pending_head el) as" "distinct as"
    "as \<noteq> [] \<longrightarrow> pending_tail el = Some (last as)"
    "q = map (\<lambda>a. (etype (elements el ! a), echannel (elements el ! a))) as" by (auto simp: pending_inv_def)
  have fresh: "?a \<notin> set as" and old: "\<And>a. a \<in> set as \<Longrightarrow> a < ?a" using chain_bounds [OF as(1)] by auto
  show ?thesis
  proof (cases "as = []")
    case True
    let ?el = "el\<lparr>pending_head := Some ?a, pending_tail := Some ?a, elements := ?cells\<rparr>"
    have "event_loop_channel_buffer_nolock el fd p type = Inr ?el"
      using as(1) True by (simp add: event_loop_channel_buffer_nolock_def Let_def)
    moreover have "pending_inv ?el (q @ [(type, p)])"
      unfolding pending_inv_def using as(4) True by (intro exI [of _ "[?a]"]) simp
    ultimately show ?thesis by blast
  next
    case False
    let ?t = "last as" let ?es = "?cells[?t := (?cells ! ?t)\<lparr>enext := Some ?a\<rparr>]"
    have t: "?t < ?a" using old [OF last_in_set [OF False]] .
    have "chain ?es (pending_head el) (as @ [?a])"
      using chain_link [OF chain_append_cell [OF as(1)] as(2) False _ fresh] by simp
    moreover have "map (\<lambda>a. (etype (?es ! a), echannel (?es ! a))) (as @ [?a]) = q @ [(type, p)]"
      using as(4) t old by (auto simp: nth_append nth_list_update)
    moreover have "pending_head el \<noteq> None" using as(1) False by (cases as) auto
    moreover let ?el = "el\<lparr>pending_head := pending_head el, pending_tail := Some ?a, elements := ?es\<rparr>"
    have "event_loop_channel_buffer_nolock el fd p type = Inr ?el"
      using \<open>pending_head el \<noteq> None\<close> as(3) False t by (auto simp: event_loop_channel_buffer_nolock_def Let_def c_mem)
    ultimately have "event_loop_channel_buffer_nolock el fd p type = Inr ?el \<and> pending_inv ?el (q @ [(type, p)])"
      using as(2) fresh unfolding pending_inv_def by (intro conjI exI [of _ "as @ [?a]"]) auto
    then show ?thesis by blast
  qed
qed

text \<open>The handlers touch the channel map and the dispatcher's data only.\<close>

definition same_frame :: "'d event_loop \<Rightarrow> 'd event_loop \<Rightarrow> bool" where
  "same_frame el el' \<longleftrightarrow> el' = el\<lparr>event_dispatcher_data := event_dispatcher_data el', channelMap := channelMap el'\<rparr>"

lemma same_frameI:
  "same_frame el el"
  "same_frame el el' \<Longrightarrow> same_frame el (el'\<lparr>channelMap := m\<rparr>)"
  "same_frame el el' \<Longrightarrow> same_frame el (el'\<lparr>event_dispatcher_data := d\<rparr>)"
  by (cases el; cases el'; simp add: same_frame_def)+

lemma same_frame_fields:
  assumes "same_frame el el'"
  shows "quit el' = quit el" "is_handle_pending el' = is_handle_pending el" "pending_head el' = pending_head el"
    "pending_tail el' = pending_tail el" "elements el' = elements el" "owner_thread_id el' = owner_thread_id el"
    "mutex el' = mutex el" "socketPair el' = socketPair el" "thread_name el' = thread_name el" "wakeups el' = wakeups el"
  using assms by (cases el; cases el'; simp add: same_frame_def)+

lemma same_frame_trans: "same_frame el el1 \<Longrightarrow> same_frame el1 el2 \<Longrightarrow> same_frame el el2"
  by (cases el; cases el1; cases el2) (simp add: same_frame_def)

lemma handle_pending_frame: "handle_pending alloc D chans op el = Inr el' \<Longrightarrow> same_frame el el'"
  by (auto simp: handle_pending_def event_loop_handle_pending_add_def event_loop_handle_pending_remove_def
      event_loop_handle_pending_update_def set_entry_def call_dispatcher_def Let_def intro!: same_frameI
      split: prod.splits if_splits option.splits)

text \<open>The walk handles the operations in the order of the list.\<close>

fun handle_all :: "(int \<Rightarrow> bool) \<Rightarrow> 'd event_dispatcher \<Rightarrow> chan_store \<Rightarrow> (int \<times> chan_ptr option) list \<Rightarrow> 'd event_loop \<Rightarrow> 'd event_loop c_res" where
  "handle_all alloc D chans [] el = Inr el"
| "handle_all alloc D chans (op # ops) el = c_bind (handle_pending alloc D chans op el) (handle_all alloc D chans ops)"

lemma pending_loop_handles:
  "chain (elements el) e as \<Longrightarrow> length as \<le> n \<Longrightarrow>
   pending_loop alloc D chans n e el = handle_all alloc D chans (map (\<lambda>a. (etype (elements el ! a), echannel (elements el ! a))) as) el"
proof (induction as arbitrary: e n el)
  case Nil
  then show ?case by (cases n) auto
next
  case (Cons a as)
  from Cons.prems(2) obtain n' where n: "n = Suc n'" by (cases n) auto
  have "c_bind (c_read (elements el') (int a)) (\<lambda>ce. pending_loop alloc D chans n' (enext ce) el') =
      handle_all alloc D chans (map (\<lambda>a. (etype (elements el ! a), echannel (elements el ! a))) as) el'"
    if "handle_pending alloc D chans op el = Inr el'" for op el'
    using Cons.IH [of el' "enext (elements el' ! a)" n'] Cons.prems n same_frame_fields(5) [OF handle_pending_frame [OF that]]
    by (auto simp: c_mem)
  with n Cons.prems(1) show ?case by (auto simp: c_mem intro!: c_bind_cong)
qed

lemma pending_loop_frame: "pending_loop alloc D chans n e el = Inr el' \<Longrightarrow> same_frame el el'"
proof (induction n arbitrary: e el)
  case (Suc n)
  then show ?case
    by (auto simp: same_frameI split: option.splits dest!: handle_pending_frame intro: same_frame_trans)
qed (simp add: same_frameI split: option.splits)

lemma handle_all_frame: "handle_all alloc D chans ops el = Inr el' \<Longrightarrow> same_frame el el'"
proof (induction ops arbitrary: el)
  case (Cons op ops)
  then obtain el1 where "same_frame el el1" "same_frame el1 el'" by (auto dest: handle_pending_frame)
  then show ?case by (rule same_frame_trans)
qed (simp add: same_frameI)

lemma handle_pending_channel_handles:
  assumes "pending_inv el q" and "\<not> mutex el" and "handle_all alloc D chans q (el\<lparr>mutex := True, is_handle_pending := 1\<rparr>) = Inr el1"
  shows "event_loop_handle_pending_channel alloc D chans el =
    Inr (0, el\<lparr>event_dispatcher_data := event_dispatcher_data el1, channelMap := channelMap el1, is_handle_pending := 0,
               pending_head := None, pending_tail := None, mutex := False\<rparr>)"
proof -
  let ?el = "el\<lparr>mutex := True, is_handle_pending := 1\<rparr>"
  from assms(1) obtain as where as: "chain (elements el) (pending_head el) as" "distinct as"
    "q = map (\<lambda>a. (etype (elements el ! a), echannel (elements el ! a))) as" by (auto simp: pending_inv_def)
  have "pending_loop alloc D chans (length (elements el)) (pending_head el) ?el = handle_all alloc D chans q ?el"
    using pending_loop_handles [of ?el "pending_head el" as] as chain_length [OF as(1,2)] by simp
  with assms(2,3) have "event_loop_handle_pending_channel alloc D chans el =
      Inr (0, el1\<lparr>pending_head := None, pending_tail := None, is_handle_pending := 0, mutex := False\<rparr>)"
    by (simp add: event_loop_handle_pending_channel_def lock_def unlock_def)
  with handle_all_frame [OF assms(3)] show ?thesis
    by (cases el; cases el1) (simp add: same_frame_def)
qed

section \<open>The registry an event loop implements\<close>

text \<open>
  The registry has, for every descriptor, its channel and what the dispatcher waits for.  An
  operation the code cannot carry out (no room, a channel that is not there) has no result.
\<close>

type_synonym registry = "(int \<Rightarrow> chan_ptr option) \<times> (int \<Rightarrow> (bool \<times> bool) option)"

definition reg_step :: "(int set \<Rightarrow> int \<Rightarrow> bool) \<Rightarrow> chan_store \<Rightarrow> int \<times> chan_ptr option \<Rightarrow> registry \<Rightarrow> registry option" where
  "reg_step room chans = (\<lambda>(type, p) (M, R).
     case load chans p of
       Inl _ \<Rightarrow> None
     | Inr c \<Rightarrow>
         let fd = cfd c in
         if fd < 0 then Some (M, R)
         else if type = 1 then
           if M fd \<noteq> None then Some (M, R)
           else if room (dom R) fd \<and> fd < 2 ^ 27 then Some (M(fd := p), R(fd \<mapsto> interest c)) else None
         else if type = 2 then if M fd = None then None else Some (M(fd := None), R(fd := None))
         else if type = 3 then if M fd = None then None else Some (M, R(fd \<mapsto> interest c))
         else Some (M, R))"

fun reg_run :: "(int set \<Rightarrow> int \<Rightarrow> bool) \<Rightarrow> chan_store \<Rightarrow> (int \<times> chan_ptr option) list \<Rightarrow> registry \<Rightarrow> registry option" where
  "reg_run room chans [] r = Some r"
| "reg_run room chans (op # ops) r = Option.bind (reg_step room chans op r) (reg_run room chans ops)"

definition loop_reg :: "('d \<Rightarrow> int \<Rightarrow> (bool \<times> bool) option) \<Rightarrow> 'd event_loop \<Rightarrow> registry" where
  "loop_reg reg el = (map_entry (channelMap el), reg (the (event_dispatcher_data el)))"

definition loop_inv :: "('d \<Rightarrow> bool) \<Rightarrow> ('d \<Rightarrow> int \<Rightarrow> (bool \<times> bool) option) \<Rightarrow> chan_store \<Rightarrow> 'd event_loop \<Rightarrow> bool" where
  "loop_inv dok reg chans el \<longleftrightarrow>
     map_inv (channelMap el) \<and>
     (\<exists>d. event_dispatcher_data el = Some d \<and> dok d \<and> dom (reg d) = dom (map_entry (channelMap el))) \<and>
     (\<forall>fd p. map_entry (channelMap el) fd = Some p \<longrightarrow> (\<exists>c. chans p = Some c \<and> cfd c = fd))"

lemma reg_run_append: "reg_run room chans (xs @ ys) r = Option.bind (reg_run room chans xs r) (reg_run room chans ys)"
  by (induction xs arbitrary: r) (auto split: Option.bind_split)

lemma map_init_empty: "map_entry map_init = (\<lambda>fd. None)"
  by (auto simp: map_entry_def map_init_def fun_eq_iff)

lemma map_entry_update:
  assumes "0 \<le> fd" and "fd < int (length (entries m))"
  shows "map_entry (m\<lparr>entries := (entries m)[nat fd := p]\<rparr>) = (map_entry m)(fd := p)"
  using assms by (auto simp: map_entry_def fun_eq_iff nth_list_update)

lemma entry_access:
  assumes "map_inv m" and "0 \<le> fd" and "fd < nentries m"
  shows "c_read (entries m) fd = Inr (map_entry m fd)"
    and "c_write (entries m) fd p = Inr ((entries m)[nat fd := p])"
    and "map_entry (m\<lparr>entries := (entries m)[nat fd := p]\<rparr>) = (map_entry m)(fd := p)"
    and "map_inv (m\<lparr>entries := (entries m)[nat fd := p]\<rparr>)"
  using assms map_entry_update by (simp_all add: map_inv_def c_mem map_entry_def)

lemma map_entry_in_range: "map_inv m \<Longrightarrow> map_entry m fd \<noteq> None \<Longrightarrow> 0 \<le> fd \<and> fd < nentries m"
  by (auto simp: map_entry_def map_inv_def split: if_splits)

lemma load_Inr: "load chans p = Inr c \<longleftrightarrow> (\<exists>a. p = Some a \<and> chans a = Some c)"
  by (auto simp: load_def split: option.splits)

context dispatcher
begin

lemma add_refines:
  assumes inv: "loop_inv inv reg chans el" and c: "load chans p = Inr c" and fd: "0 \<le> cfd c" "cfd c < 2 ^ 27"
    and absent: "map_entry (channelMap el) (cfd c) = None" and room: "room (dom (snd (loop_reg reg el))) (cfd c)" and alloc: "\<forall>n. alloc n"
  shows "\<exists>r el'. event_loop_handle_pending_add alloc D chans el (cfd c) p = Inr (r, el') \<and> loop_inv inv reg chans el' \<and>
    loop_reg reg el' = ((map_entry (channelMap el))(cfd c := p), (snd (loop_reg reg el))(cfd c \<mapsto> interest c))"
proof -
  let ?fd = "cfd c" let ?m = "channelMap el"
  from inv obtain d where d: "event_dispatcher_data el = Some d" "inv d" "dom (reg d) = dom (map_entry ?m)" and m: "map_inv ?m"
    and sane: "\<And>fd p. map_entry ?m fd = Some p \<Longrightarrow> \<exists>c. chans p = Some c \<and> cfd c = fd"
    by (auto simp: loop_inv_def)
  obtain m' where m': "map_inv m'" "?fd < nentries m'" "map_entry m' = map_entry ?m" and
    grown: "(if nentries ?m \<le> ?fd then c_bind (map_make_space alloc ?m ?fd 8) (\<lambda>(r, m). Inr (r, el\<lparr>channelMap := m\<rparr>)) else Inr (0, el)) =
      Inr (0, el\<lparr>channelMap := m'\<rparr>)"
  proof (cases "nentries ?m \<le> ?fd")
    case True
    from map_make_space_ok [OF m fd, of alloc] alloc obtain m' where
      "map_make_space alloc ?m ?fd 8 = Inr (0, m')" "map_inv m'" "?fd < nentries m'" "\<forall>fd. map_entry m' fd = map_entry ?m fd" by blast
    with True that [of m'] show ?thesis by auto
  next
    case False
    with that [of ?m] m show ?thesis by simp
  qed
  from absent d(3) have "reg d ?fd = None" by (metis domIff)
  with add_law [OF d(2) fd(1)] room obtain d' where d': "disp_add D c d = Inr (0, d')" "inv d'" "reg d' = (reg d)(?fd \<mapsto> interest c)"
    by (auto simp: loop_reg_def d(1))
  let ?m' = "m'\<lparr>entries := (entries m')[nat ?fd := p]\<rparr>"
  let ?el = "el\<lparr>event_dispatcher_data := Some d', channelMap := ?m'\<rparr>"
  note acc = entry_access [OF m'(1) fd(1) m'(2)]
  have "event_loop_handle_pending_add alloc D chans el ?fd p = Inr (1, ?el)"
    using fd(1) grown absent c d(1) d'(1) m'(3)
    by (simp add: event_loop_handle_pending_add_def acc set_entry_def call_dispatcher_def del: c_bind_eq_Inr_iff)
  moreover have "map_entry ?m' = (map_entry ?m)(?fd := p)" using acc(3) m'(3) by simp
  moreover from this have "loop_inv inv reg chans ?el"
    using d'(2,3) d(3) acc(4) sane c by (auto simp: loop_inv_def load_Inr)
  ultimately show ?thesis using d'(3) d(1) by (auto simp: loop_reg_def)
qed

lemma remove_refines:
  assumes inv: "loop_inv inv reg chans el" and c: "load chans p = Inr c" and here: "map_entry (channelMap el) (cfd c) \<noteq> None"
  shows "\<exists>r el'. event_loop_handle_pending_remove D chans el (cfd c) p = Inr (r, el') \<and> loop_inv inv reg chans el' \<and>
    loop_reg reg el' = ((map_entry (channelMap el))(cfd c := None), (snd (loop_reg reg el))(cfd c := None))"
proof -
  let ?fd = "cfd c" let ?m = "channelMap el"
  from inv obtain d where d: "event_dispatcher_data el = Some d" "inv d" "dom (reg d) = dom (map_entry ?m)" and m: "map_inv ?m"
    and sane: "\<And>fd p. map_entry ?m fd = Some p \<Longrightarrow> \<exists>c. chans p = Some c \<and> cfd c = fd"
    by (auto simp: loop_inv_def)
  from here obtain p2 where p2: "map_entry ?m ?fd = Some p2" by auto
  from sane [OF p2] obtain c2 where c2: "chans p2 = Some c2" "cfd c2 = ?fd" by auto
  note range = map_entry_in_range [OF m here]
  note acc = entry_access [OF m range [THEN conjunct1] range [THEN conjunct2]]
  from here d(3) have "reg d (cfd c2) \<noteq> None" unfolding c2(2) by (metis domIff)
  with del_law [OF d(2), of c2] range obtain d' where d': "disp_del D c2 d = Inr (0, d')" "inv d'" "reg d' = (reg d)(?fd := None)"
    by (auto simp: c2(2))
  let ?m' = "?m\<lparr>entries := (entries ?m)[nat ?fd := None]\<rparr>"
  let ?el = "el\<lparr>event_dispatcher_data := Some d', channelMap := ?m'\<rparr>"
  have "event_loop_handle_pending_remove D chans el ?fd p = Inr (1, ?el)"
    using range c c2 d(1) d'(1) p2
    by (simp add: event_loop_handle_pending_remove_def acc set_entry_def call_dispatcher_def load_def [of _ "Some p2"] del: c_bind_eq_Inr_iff)
  moreover have "loop_inv inv reg chans ?el"
    using d'(2,3) d(3) acc(3,4) sane by (auto simp: loop_inv_def)
  ultimately show ?thesis using d'(3) d(1) acc(3) by (auto simp: loop_reg_def)
qed

lemma update_refines:
  assumes inv: "loop_inv inv reg chans el" and c: "load chans p = Inr c" and here: "map_entry (channelMap el) (cfd c) \<noteq> None"
  shows "\<exists>r el'. event_loop_handle_pending_update D chans el (cfd c) p = Inr (r, el') \<and> loop_inv inv reg chans el' \<and>
    loop_reg reg el' = (map_entry (channelMap el), (snd (loop_reg reg el))(cfd c \<mapsto> interest c))"
proof -
  let ?fd = "cfd c" let ?m = "channelMap el"
  from inv obtain d where d: "event_dispatcher_data el = Some d" "inv d" "dom (reg d) = dom (map_entry ?m)" and m: "map_inv ?m"
    by (auto simp: loop_inv_def)
  note range = map_entry_in_range [OF m here]
  note acc = entry_access [OF m range [THEN conjunct1] range [THEN conjunct2]]
  from here d(3) have "reg d ?fd \<noteq> None" by (metis domIff)
  with update_law [OF d(2)] range obtain d' where d': "disp_update D c d = Inr (0, d')" "inv d'" "reg d' = (reg d)(?fd \<mapsto> interest c)"
    by auto
  let ?el = "el\<lparr>event_dispatcher_data := Some d'\<rparr>"
  have "event_loop_handle_pending_update D chans el ?fd p = Inr (None, ?el)"
    using range c d(1) d'(1) here
    by (simp add: event_loop_handle_pending_update_def acc call_dispatcher_def del: c_bind_eq_Inr_iff)
  moreover have "loop_inv inv reg chans ?el"
    using d' d(3) inv here by (auto simp: loop_inv_def)
  ultimately show ?thesis using d'(3) d(1) by (auto simp: loop_reg_def)
qed

lemma step_refines:
  assumes inv: "loop_inv inv reg chans el" and spec: "reg_step room chans op (loop_reg reg el) = Some r" and alloc: "\<forall>n. alloc n"
  shows "\<exists>el'. handle_pending alloc D chans op el = Inr el' \<and> loop_inv inv reg chans el' \<and> loop_reg reg el' = r"
proof -
  obtain type p where op: "op = (type, p)" by fastforce
  from spec obtain c where c: "load chans p = Inr c" by (auto simp: op reg_step_def loop_reg_def split: sum.splits)
  consider (neg) "cfd c < 0" | (add) "0 \<le> cfd c" "type = 1" | (rem) "0 \<le> cfd c" "type = 2" | (upd) "0 \<le> cfd c" "type = 3"
    | (other) "type \<notin> {1, 2, 3}" by fastforce
  then show ?thesis
  proof cases
    case neg
    with c have "handle_pending alloc D chans op el = Inr el"
      by (simp add: op handle_pending_def Let_def event_loop_handle_pending_add_def
          event_loop_handle_pending_remove_def event_loop_handle_pending_update_def)
    with neg spec inv c show ?thesis by (simp add: op reg_step_def loop_reg_def)
  next
    case add
    show ?thesis
    proof (cases "map_entry (channelMap el) (cfd c) = None")
      case True
      with add spec c have room: "cfd c < 2 ^ 27" "room (dom (snd (loop_reg reg el))) (cfd c)"
        and r: "r = ((map_entry (channelMap el))(cfd c := p), (snd (loop_reg reg el))(cfd c \<mapsto> interest c))"
        by (auto simp: op reg_step_def loop_reg_def Let_def split: if_splits)
      from add_refines [OF inv c add(1) room(1) True room(2) alloc] add c r show ?thesis
        by (auto simp: op handle_pending_def)
    next
      case False
      have m: "map_inv (channelMap el)" using inv by (simp add: loop_inv_def)
      from False add spec c inv map_entry_in_range [OF m False] entry_access(1) [OF m add(1)] show ?thesis
        by (auto simp: op handle_pending_def reg_step_def loop_reg_def event_loop_handle_pending_add_def)
    qed
  next
    case rem
    with spec c have here: "map_entry (channelMap el) (cfd c) \<noteq> None"
      and r: "r = ((map_entry (channelMap el))(cfd c := None), (snd (loop_reg reg el))(cfd c := None))"
      by (auto simp: op reg_step_def loop_reg_def Let_def split: if_splits)
    from remove_refines [OF inv c here] rem c r show ?thesis by (auto simp: op handle_pending_def)
  next
    case upd
    with spec c have here: "map_entry (channelMap el) (cfd c) \<noteq> None"
      and r: "r = (map_entry (channelMap el), (snd (loop_reg reg el))(cfd c \<mapsto> interest c))"
      by (auto simp: op reg_step_def loop_reg_def Let_def split: if_splits)
    from update_refines [OF inv c here] upd c r show ?thesis by (auto simp: op handle_pending_def)
  next
    case other
    with spec inv c show ?thesis by (auto simp: op handle_pending_def reg_step_def loop_reg_def Let_def split: if_splits)
  qed
qed

lemma run_refines:
  assumes "\<forall>n. alloc n"
  shows "loop_inv inv reg chans el \<Longrightarrow> reg_run room chans ops (loop_reg reg el) = Some r \<Longrightarrow>
    \<exists>el'. handle_all alloc D chans ops el = Inr el' \<and> loop_inv inv reg chans el' \<and> loop_reg reg el' = r"
proof (induction ops arbitrary: el)
  case (Cons op ops)
  then obtain r1 where r1: "reg_step room chans op (loop_reg reg el) = Some r1" "reg_run room chans ops r1 = Some r"
    by (auto split: Option.bind_splits)
  from step_refines [OF Cons.prems(1) r1(1) assms] obtain el1 where
    "handle_pending alloc D chans op el = Inr el1" "loop_inv inv reg chans el1" "loop_reg reg el1 = r1" by blast
  with Cons.IH [of el1] r1(2) show ?case by auto
qed simp

text \<open>The owner handles the list: the operations take effect in their order, and the list is empty.\<close>

lemma handle_refines:
  assumes inv: "loop_inv inv reg chans el" and q: "pending_inv el q" and idle: "idle el" and alloc: "\<forall>n. alloc n"
    and spec: "reg_run room chans q (loop_reg reg el) = Some r"
  shows "\<exists>el'. event_loop_handle_pending_channel alloc D chans el = Inr (0, el') \<and> loop_inv inv reg chans el' \<and>
    loop_reg reg el' = r \<and> pending_inv el' [] \<and> idle el' \<and> owner_thread_id el' = owner_thread_id el \<and> wakeups el' = wakeups el"
proof -
  let ?el = "el\<lparr>mutex := True, is_handle_pending := 1\<rparr>"
  have "loop_inv inv reg chans ?el" "loop_reg reg ?el = loop_reg reg el" using inv by (simp_all add: loop_inv_def loop_reg_def)
  with run_refines [OF alloc, of chans ?el q r] spec obtain el1 where el1: "handle_all alloc D chans q ?el = Inr el1"
    "loop_inv inv reg chans el1" "loop_reg reg el1 = r" by auto
  have "event_loop_handle_pending_channel alloc D chans el =
    Inr (0, el\<lparr>event_dispatcher_data := event_dispatcher_data el1, channelMap := channelMap el1, is_handle_pending := 0,
               pending_head := None, pending_tail := None, mutex := False\<rparr>)"
    by (rule handle_pending_channel_handles [OF q _ el1(1)]) (use idle in \<open>simp add: idle_def\<close>)
  with el1(2,3) show ?thesis by (simp add: loop_inv_def loop_reg_def pending_inv_def idle_def)
qed

end

section \<open>Interleaved threads\<close>

text \<open>
  What happens to a loop, as a sequence of atomic steps: an operation is put into the list under
  the lock, by any thread; a byte is written to wake the owner up, or read by it; the owner
  handles the list.
\<close>

datatype loop_action = Submit int "chan_ptr option" int | Wake bool | Woken | Handle

fun exec_action :: "(int \<Rightarrow> bool) \<Rightarrow> 'd event_dispatcher \<Rightarrow> chan_store \<Rightarrow> loop_action \<Rightarrow> 'd event_loop \<Rightarrow> 'd event_loop c_res" where
  "exec_action alloc D chans (Submit fd p type) el = buffer_locked el fd p type"
| "exec_action alloc D chans (Wake sent) el = Inr (event_loop_wakeup sent el)"
| "exec_action alloc D chans Woken el = handleWakeup el"
| "exec_action alloc D chans Handle el = c_bind (event_loop_handle_pending_channel alloc D chans el) (\<lambda>(_, el). Inr el)"

fun exec_actions :: "(int \<Rightarrow> bool) \<Rightarrow> 'd event_dispatcher \<Rightarrow> chan_store \<Rightarrow> loop_action list \<Rightarrow> 'd event_loop \<Rightarrow> 'd event_loop c_res" where
  "exec_actions alloc D chans [] el = Inr el"
| "exec_actions alloc D chans (a # as) el = c_bind (exec_action alloc D chans a el) (exec_actions alloc D chans as)"

fun submitted :: "loop_action list \<Rightarrow> (int \<times> chan_ptr option) list" where
  "submitted [] = []"
| "submitted (Submit fd p type # as) = (type, p) # submitted as"
| "submitted (_ # as) = submitted as"

text \<open>A byte is read only where one has been written.\<close>

fun wakes_ok :: "nat \<Rightarrow> loop_action list \<Rightarrow> bool" where
  "wakes_ok n [] \<longleftrightarrow> True"
| "wakes_ok n (Wake sent # as) \<longleftrightarrow> wakes_ok (if sent then Suc n else n) as"
| "wakes_ok n (Woken # as) \<longleftrightarrow> 0 < n \<and> wakes_ok (n - 1) as"
| "wakes_ok n (_ # as) \<longleftrightarrow> wakes_ok n as"

lemma do_channel_event_actions:
  "event_loop_do_channel_event alloc D chans self sent el fd p type =
   c_bind (exec_actions alloc D chans [Submit fd p type, if isInSameThread self el then Handle else Wake sent] el) (\<lambda>el. Inr (0, el))"
proof (cases "buffer_locked el fd p type")
  case (Inr el1)
  then have "owner_thread_id el1 = owner_thread_id el"
    by (auto simp: buffer_locked_def lock_def unlock_def event_loop_channel_buffer_nolock_def Let_def split: if_splits option.splits)
  with Inr show ?thesis
    by (simp add: event_loop_do_channel_event_def isInSameThread_def c_bind_def split: sum.split prod.split)
qed (simp add: event_loop_do_channel_event_def)

lemma exec_actions_append:
  "exec_actions alloc D chans (as @ bs) el = c_bind (exec_actions alloc D chans as el) (exec_actions alloc D chans bs)"
  by (induction as arbitrary: el) (auto simp: c_bind_def split: sum.split)

lemma submit_queues:
  assumes "pending_inv el q" and "idle el"
  shows "\<exists>el'. buffer_locked el fd p type = Inr el' \<and> pending_inv el' (q @ [(type, p)]) \<and> idle el' \<and>
    event_dispatcher_data el' = event_dispatcher_data el \<and> channelMap el' = channelMap el \<and> wakeups el' = wakeups el"
proof -
  let ?el = "el\<lparr>mutex := True\<rparr>"
  have "pending_inv ?el q" using assms(1) by (simp add: pending_inv_def)
  from buffer_appends [OF this, of fd p type] obtain el1 h t es where
    el1: "event_loop_channel_buffer_nolock ?el fd p type = Inr el1" "pending_inv el1 (q @ [(type, p)])"
    "el1 = ?el\<lparr>pending_head := h, pending_tail := t, elements := es\<rparr>" by auto
  from el1(1) assms(2) have "buffer_locked el fd p type = Inr (el1\<lparr>mutex := False\<rparr>)"
    by (simp add: buffer_locked_def lock_def unlock_def idle_def)
  moreover have "pending_inv (el1\<lparr>mutex := False\<rparr>) (q @ [(type, p)])" using el1(2) by (simp add: pending_inv_def)
  ultimately show ?thesis using assms(2) el1(3) by (simp add: idle_def)
qed

context dispatcher
begin

text \<open>Whatever the interleaving, the operations take effect in the order in which they got the lock.\<close>

lemma actions_linearize:
  assumes alloc: "\<forall>n. alloc n"
  shows "loop_inv inv reg chans el \<Longrightarrow> pending_inv el q \<Longrightarrow> idle el \<Longrightarrow> wakes_ok (wakeups el) as \<Longrightarrow>
    reg_run room chans (q @ submitted as) (loop_reg reg el) = Some r \<Longrightarrow>
    \<exists>el' q'. exec_actions alloc D chans as el = Inr el' \<and> loop_inv inv reg chans el' \<and> pending_inv el' q' \<and> idle el' \<and>
      reg_run room chans q' (loop_reg reg el') = Some r"
proof (induction as arbitrary: el q)
  case (Cons a as)
  note step = Cons.IH Cons.prems
  show ?case
  proof (cases a)
    case (Submit fd p type)
    from submit_queues [OF Cons.prems(2,3), of fd p type] obtain el1 where
      el1: "buffer_locked el fd p type = Inr el1" "pending_inv el1 (q @ [(type, p)])" "idle el1"
      "event_dispatcher_data el1 = event_dispatcher_data el" "channelMap el1 = channelMap el" "wakeups el1 = wakeups el" by blast
    from el1(4,5) Cons.prems(1) have "loop_inv inv reg chans el1" "loop_reg reg el1 = loop_reg reg el"
      by (simp_all add: loop_inv_def loop_reg_def)
    with Cons.IH [of el1 "q @ [(type, p)]"] el1 Cons.prems(4,5) Submit show ?thesis by simp
  next
    case (Wake sent)
    let ?el = "event_loop_wakeup sent el"
    have "loop_inv inv reg chans ?el" "pending_inv ?el q" "idle ?el" "loop_reg reg ?el = loop_reg reg el"
      using Cons.prems(1-3) by (simp_all add: event_loop_wakeup_def loop_inv_def pending_inv_def idle_def loop_reg_def)
    with Cons.IH [of ?el q] Cons.prems(4,5) Wake show ?thesis by (cases sent) (simp_all add: event_loop_wakeup_def)
  next
    case Woken
    let ?el = "el\<lparr>wakeups := wakeups el - 1\<rparr>"
    have "loop_inv inv reg chans ?el" "pending_inv ?el q" "idle ?el" "loop_reg reg ?el = loop_reg reg el"
      using Cons.prems(1-3) by (simp_all add: loop_inv_def pending_inv_def idle_def loop_reg_def)
    with Cons.IH [of ?el q] Cons.prems(4,5) Woken show ?thesis by (simp add: handleWakeup_def)
  next
    case Handle
    from Cons.prems(5) Handle obtain r1 where r1: "reg_run room chans q (loop_reg reg el) = Some r1"
      "reg_run room chans (submitted as) r1 = Some r" by (auto simp: reg_run_append split: Option.bind_splits)
    from handle_refines [OF Cons.prems(1-3) alloc r1(1)] obtain el1 where
      "event_loop_handle_pending_channel alloc D chans el = Inr (0, el1)" "loop_inv inv reg chans el1"
      "loop_reg reg el1 = r1" "pending_inv el1 []" "idle el1" "wakeups el1 = wakeups el" by blast
    with Cons.IH [of el1 "[]"] r1(2) Cons.prems(4) Handle show ?thesis by simp
  qed
qed auto

lemma actions_then_handle:
  assumes "\<forall>n. alloc n" and "loop_inv inv reg chans el" and "pending_inv el q" and "idle el" and "wakes_ok (wakeups el) as"
    and "reg_run room chans (q @ submitted as) (loop_reg reg el) = Some r"
  shows "\<exists>el'. exec_actions alloc D chans (as @ [Handle]) el = Inr el' \<and> loop_inv inv reg chans el' \<and> pending_inv el' [] \<and> idle el' \<and>
    loop_reg reg el' = r"
proof -
  from actions_linearize [OF assms] obtain el1 q1 where
    "exec_actions alloc D chans as el = Inr el1" "loop_inv inv reg chans el1" "pending_inv el1 q1" "idle el1"
    "reg_run room chans q1 (loop_reg reg el1) = Some r" by blast
  with handle_refines [of chans el1 q1 alloc r] assms(1) show ?thesis by (auto simp: exec_actions_append)
qed

text \<open>A new loop has its wake-up channel registered.\<close>

lemma init_registers:
  fixes p chans self_ptr and pair :: "int \<times> int"
  defines "chans' \<equiv> chans(p \<mapsto> channel_new (snd pair) EVENT_READ (Some HandleWakeup) None (LoopPtr self_ptr))"
  assumes alloc: "\<forall>n. alloc n" and d: "inv d" "reg d = (\<lambda>fd. None)" and room: "room {} (snd pair)" and fd: "0 \<le> snd pair" "snd pair < 2 ^ 27"
  shows "\<exists>el. event_loop_init_with_name alloc D (Inr d) self pair self_ptr p chans name = Inr (chans', el) \<and>
    loop_inv inv reg chans' el \<and> pending_inv el [] \<and> idle el \<and> loop_reg reg el = ([snd pair \<mapsto> p], [snd pair \<mapsto> (True, False)])"
proof -
  let ?el = "\<lparr>quit = 0, event_dispatcher_data = Some d, channelMap = map_init, is_handle_pending = 0,
      pending_head = None, pending_tail = None, elements = [], owner_thread_id = self, mutex = False,
      socketPair = pair, thread_name = (case name of None \<Rightarrow> ''main thread'' | Some n \<Rightarrow> n), wakeups = 0\<rparr>"
  have inv0: "loop_inv inv reg chans' ?el" using d by (simp add: loop_inv_def map_init_empty)
  moreover have "pending_inv ?el []" "idle ?el" by (simp_all add: pending_inv_def idle_def)
  moreover have "reg_run room chans' ([] @ submitted [Submit (snd pair) (Some p) 1]) (loop_reg reg ?el) =
      Some ([snd pair \<mapsto> p], [snd pair \<mapsto> (True, False)])"
    using room fd d(2)
    by (simp add: reg_step_def loop_reg_def load_def chans'_def channel_new_def map_init_empty interest_def EVENT_READ_def EVENT_WRITE_def Let_def)
  ultimately obtain el where el: "exec_actions alloc D chans' ([Submit (snd pair) (Some p) 1] @ [Handle]) ?el = Inr el"
    "loop_inv inv reg chans' el" "pending_inv el []" "idle el" "loop_reg reg el = ([snd pair \<mapsto> p], [snd pair \<mapsto> (True, False)])"
    using actions_then_handle [OF alloc, of chans' ?el "[]" "[Submit (snd pair) (Some p) 1]"] by (simp del: exec_actions.simps) blast
  have "event_loop_init_with_name alloc D (Inr d) self pair self_ptr p chans name = Inr (chans', el)"
    using el(1) by (simp add: event_loop_init_with_name_def event_loop_add_channel_event_def do_channel_event_actions
        isInSameThread_def chans'_def del: exec_actions.simps c_bind_eq_Inr_iff)
  with el show ?thesis by blast
qed

end


section \<open>The poll and the epoll loop\<close>

lemmas poll_linearize = poll.actions_then_handle
lemmas epoll_linearize = epoll.actions_then_handle

text \<open>
  C4.  Operations that any threads submit to a loop over \<open>poll\<close>, interleaved in any way with
  wake-ups and with the owner handling the pending list, have, once the owner has handled the list,
  the effect of carrying them out one after the other on a registry of channels, in the order in
  which they entered the list.  The channel map and the \<open>poll\<close> array agree afterwards, the list is
  empty and the mutex is free.  The operations are such that each can be carried out: a removed or
  updated descriptor is registered, an added one below \<open>2 ^ 27\<close> and the array not full.
\<close>

theorem poll_loop_linearizes:
  assumes "\<forall>n. alloc n" and "loop_inv poll_inv poll_reg chans el" and "pending_inv el q" and "idle el"
    and "wakes_ok (wakeups el) as" and "reg_run poll_room chans (q @ submitted as) (loop_reg poll_reg el) = Some r"
  shows "\<exists>el'. exec_actions alloc poll_dispatcher chans (as @ [Handle]) el = Inr el' \<and> loop_inv poll_inv poll_reg chans el' \<and>
    pending_inv el' [] \<and> idle el' \<and> loop_reg poll_reg el' = r"
  by (rule poll_linearize [OF assms])

text \<open>A new loop over an empty array, and a channel that waits for input.\<close>

definition empty_loop :: "'d \<Rightarrow> 'd event_loop" where
  "empty_loop d = \<lparr>quit = 0, event_dispatcher_data = Some d, channelMap = map_init, is_handle_pending = 0, pending_head = None,
     pending_tail = None, elements = [], owner_thread_id = 1, mutex = False, socketPair = (3, 4), thread_name = [], wakeups = 0\<rparr>"

definition empty_poll :: poll_dispatcher_data where
  "empty_poll = \<lparr>p_event_count = 0, p_nfds = 0, p_realloc_copy = 0, event_set = replicate INIT_POLL_SIZE \<lparr>pfd = - 1, pevents = 0, revents = 0\<rparr>\<rparr>"

definition read_channel :: "int \<Rightarrow> channel" where
  "read_channel fd = channel_new fd EVENT_READ (Some HandleRead) None (ConnPtr 0)"

lemma empty_loop_facts:
  "pending_inv (empty_loop d) []" "idle (empty_loop d)" "wakeups (empty_loop d) = 0"
  "ok d \<Longrightarrow> reg d = (\<lambda>fd. None) \<Longrightarrow> loop_inv ok reg chans (empty_loop d)"
  "loop_reg reg (empty_loop d) = (\<lambda>fd. None, reg d)"
  by (auto simp: empty_loop_def pending_inv_def idle_def loop_inv_def map_init_empty loop_reg_def)

lemma empty_poll_facts: "poll_inv empty_poll" "poll_reg empty_poll = (\<lambda>fd. None)"
  by (auto simp: empty_poll_def poll_inv_def poll_reg_def fun_eq_iff find_None_iff)

lemma read_channel_facts: "cfd (read_channel fd) = fd" "interest (read_channel fd) = (True, False)"
  by (simp_all add: read_channel_def channel_new_def interest_def EVENT_READ_def EVENT_WRITE_def)

theorem poll_loop_linearizes_witness:
  "\<exists>el'. exec_actions (\<lambda>n. True) poll_dispatcher [7 \<mapsto> read_channel 5] ([Submit 5 (Some 7) 1, Wake True, Woken] @ [Handle]) (empty_loop empty_poll) =
     Inr el' \<and> loop_reg poll_reg el' = ([5 \<mapsto> 7], [5 \<mapsto> (True, False)])"
proof -
  have "reg_run poll_room [7 \<mapsto> read_channel 5] ([] @ submitted [Submit 5 (Some 7) 1, Wake True, Woken])
      (loop_reg poll_reg (empty_loop empty_poll)) = Some ([5 \<mapsto> 7], [5 \<mapsto> (True, False)])"
    by (simp add: empty_loop_facts empty_poll_facts read_channel_facts reg_step_def load_def poll_room_def INIT_POLL_SIZE_def)
  then show ?thesis
    using poll_loop_linearizes [of "\<lambda>n. True" "[7 \<mapsto> read_channel 5]" "empty_loop empty_poll" "[]" "[Submit 5 (Some 7) 1, Wake True, Woken]"]
    by (simp add: empty_loop_facts empty_poll_facts del: exec_actions.simps) blast
qed

text \<open>
  C34.  The same for a loop over \<open>epoll\<close>, for every kernel whose \<open>epoll_ctl\<close> keeps its interest list as documented.
\<close>

theorem epoll_loop_linearizes:
  assumes "\<forall>n. alloc n" and "loop_inv (\<lambda>d. epoll_ctl_ok ctl reg addable) (epoll_reg reg) chans el" and "pending_inv el q" and "idle el"
    and "wakes_ok (wakeups el) as" and "reg_run addable chans (q @ submitted as) (loop_reg (epoll_reg reg) el) = Some r"
  shows "\<exists>el'. exec_actions alloc (epoll_dispatcher ctl) chans (as @ [Handle]) el = Inr el' \<and>
    loop_inv (\<lambda>d. epoll_ctl_ok ctl reg addable) (epoll_reg reg) chans el' \<and> pending_inv el' [] \<and> idle el' \<and> loop_reg (epoll_reg reg) el' = r"
  by (rule epoll_linearize [OF assms])

text \<open>A kernel that is just an interest list.\<close>

definition list_ctl :: "ctl_op \<Rightarrow> int \<Rightarrow> 32 word \<Rightarrow> (int \<Rightarrow> 32 word option) \<Rightarrow> int \<times> (int \<Rightarrow> 32 word option)" where
  "list_ctl op fd ev k =
     (case op of
        EPOLL_CTL_ADD \<Rightarrow> if k fd = None then (0, k(fd \<mapsto> ev)) else (- 1, k)
      | EPOLL_CTL_DEL \<Rightarrow> if k fd = None then (- 1, k) else (0, k(fd := None))
      | EPOLL_CTL_MOD \<Rightarrow> if k fd = None then (- 1, k) else (0, k(fd \<mapsto> ev)))"

definition empty_epoll :: "(int \<Rightarrow> 32 word option) epoll_dispatcher_data" where
  "empty_epoll = \<lparr>e_event_count = 0, e_nfds = 0, e_realloc_copy = 0, efd = 3, kernel = (\<lambda>fd. None)\<rparr>"

lemma list_ctl_ok: "epoll_ctl_ok list_ctl (\<lambda>k. k) (\<lambda>fds fd. True)"
  by (auto simp: epoll_ctl_ok_def list_ctl_def split: if_splits)

theorem epoll_loop_linearizes_witness:
  "\<exists>el'. exec_actions (\<lambda>n. True) (epoll_dispatcher list_ctl) [7 \<mapsto> read_channel 5] ([Submit 5 (Some 7) 1, Submit 5 (Some 7) 2] @ [Handle])
     (empty_loop empty_epoll) = Inr el' \<and> loop_reg (epoll_reg (\<lambda>k. k)) el' = (\<lambda>fd. None, \<lambda>fd. None)"
proof -
  have reg: "epoll_reg (\<lambda>k. k) empty_epoll = (\<lambda>fd. None)" by (simp add: epoll_reg_def empty_epoll_def fun_eq_iff)
  have "reg_run (\<lambda>fds fd. True) [7 \<mapsto> read_channel 5] ([] @ submitted [Submit 5 (Some 7) 1, Submit 5 (Some 7) 2])
      (loop_reg (epoll_reg (\<lambda>k. k)) (empty_loop empty_epoll)) = Some (\<lambda>fd. None, \<lambda>fd. None)"
    by (simp add: empty_loop_facts reg read_channel_facts reg_step_def load_def fun_eq_iff)
  then show ?thesis
    using epoll_loop_linearizes [of "\<lambda>n. True" list_ctl "\<lambda>k. k" "\<lambda>fds fd. True" "[7 \<mapsto> read_channel 5]" "empty_loop empty_epoll" "[]"
        "[Submit 5 (Some 7) 1, Submit 5 (Some 7) 2]"] list_ctl_ok
    by (simp add: empty_loop_facts reg del: exec_actions.simps) blast
qed

text \<open>
  Creating a loop over \<open>poll\<close> returns, with exactly the reading end of its socket pair registered,
  for reading and with \<open>handleWakeup\<close> as callback; the channel map and the array agree, the
  pending list is empty and the mutex is free.
\<close>

theorem poll_loop_init:
  assumes "\<forall>n. alloc n" and "length cells = INIT_POLL_SIZE" and "0 \<le> snd pair" and "snd pair < 2 ^ 27"
  shows "\<exists>el chans'. event_loop_init_with_name alloc poll_dispatcher (poll_init cells) self pair self_ptr p chans name = Inr (chans', el) \<and>
    chans' = chans(p \<mapsto> channel_new (snd pair) EVENT_READ (Some HandleWakeup) None (LoopPtr self_ptr)) \<and>
    loop_inv poll_inv poll_reg chans' el \<and> pending_inv el [] \<and> idle el \<and> loop_reg poll_reg el = ([snd pair \<mapsto> p], [snd pair \<mapsto> (True, False)])"
proof -
  from poll_init_law [OF assms(2)] obtain d where d: "poll_init cells = Inr d" "poll_inv d" "poll_reg d = (\<lambda>fd. None)" by blast
  have "poll_room {} (snd pair)" by (simp add: poll_room_def INIT_POLL_SIZE_def)
  from poll.init_registers [OF assms(1) d(2,3) this assms(3,4), of self self_ptr p chans name] d(1) show ?thesis by auto
qed

theorem poll_loop_init_witness:
  "\<exists>el chans'. event_loop_init_with_name (\<lambda>n. True) poll_dispatcher (poll_init (replicate 1024 \<lparr>pfd = 9, pevents = 0, revents = 0\<rparr>)) 1 (3, 4) 0 7
     (\<lambda>a. None) None = Inr (chans', el) \<and> loop_reg poll_reg el = ([4 \<mapsto> 7], [4 \<mapsto> (True, False)])"
  using poll_loop_init [of "\<lambda>n. True" "replicate 1024 \<lparr>pfd = 9, pevents = 0, revents = 0\<rparr>" "(3, 4)" 1 0 7 "\<lambda>a. None" None]
  by (auto simp: INIT_POLL_SIZE_def)

section \<open>Operations on a channel that is not registered\<close>

text \<open>
  Handling the removal or the update of a descriptor that is not registered: a descriptor past the
  channel map is refused by the removal, but the update reads outside the map; one inside the map
  makes the removal hand a null channel to the dispatcher, which follows it.
\<close>

theorem unregistered_operations:
  assumes "map_inv (channelMap el)" and "load chans p = Inr c" and "0 \<le> cfd c" and "map_entry (channelMap el) (cfd c) = None"
  shows "event_loop_handle_pending_remove D chans el (cfd c) p =
      (if nentries (channelMap el) \<le> cfd c then Inr (- 1, el) else Inl NullDeref) \<and>
    event_loop_handle_pending_update D chans el (cfd c) p =
      (if nentries (channelMap el) \<le> cfd c then Inl OutOfBounds else Inr (Some (- 1), el))"
proof (cases "nentries (channelMap el) \<le> cfd c")
  case True
  moreover have "c_read (entries (channelMap el)) (cfd c) = Inl OutOfBounds"
    using True assms(1) by (simp add: c_read_def map_inv_def)
  ultimately show ?thesis
    using assms(2,3) by (simp add: event_loop_handle_pending_remove_def event_loop_handle_pending_update_def)
next
  case False
  then have "c_read (entries (channelMap el)) (cfd c) = Inr None"
    using entry_access(1) [OF assms(1,3)] assms(4) by simp
  with False assms(2,3) show ?thesis
    by (simp add: event_loop_handle_pending_remove_def event_loop_handle_pending_update_def load_def [of _ None])
qed

theorem unregistered_operations_witness:
  "event_loop_handle_pending_remove poll_dispatcher [7 \<mapsto> read_channel 5] (empty_loop empty_poll) 5 (Some 7) = Inr (- 1, empty_loop empty_poll) \<and>
   event_loop_handle_pending_update poll_dispatcher [7 \<mapsto> read_channel 5] (empty_loop empty_poll) 5 (Some 7) = Inl OutOfBounds"
  using unregistered_operations [of "empty_loop empty_poll" "[7 \<mapsto> read_channel 5]" "Some 7" "read_channel 5" poll_dispatcher]
  by (simp add: empty_loop_def map_init_empty load_def read_channel_facts) (simp add: map_init_def)

text \<open>
  C35.  When a descriptor is ready for reading and for writing and its read callback removes the
  channel from the loop, as closing the connection does, the activation for writing follows the
  null pointer left in the channel map.
\<close>

theorem closed_then_write_crashes:
  assumes ready: "scast (revents cell) AND POLLRDNORM \<noteq> 0" "scast (revents cell) AND POLLWRNORM \<noteq> 0" and fd: "0 \<le> pfd cell"
    and reg: "map_entry (channelMap (get s)) (pfd cell) = Some a" "map_inv (channelMap (get s))" "store s a = Some c" "cfd c = pfd cell"
    and closed: "eventReadCallback c = Some f" "run f (cdata c) s = Inr t"
      "map_inv (channelMap (get t))" "pfd cell < nentries (channelMap (get t))" "map_entry (channelMap (get t)) (pfd cell) = None"
  shows "activate_cells (\<lambda>fd ev s. c_bind (channel_event_activate get store run fd ev s) (\<lambda>(_, s). Inr s)) (cell # cells) s = Inl NullDeref"
proof -
  have "pfd cell < nentries (channelMap (get s))" using map_entry_in_range [OF reg(2)] reg(1) by auto
  note acc = entry_access(1) [OF reg(2) fd this] entry_access(1) [OF closed(3) fd closed(4)]
  have "channel_event_activate get store run (pfd cell) EVENT_READ s = Inr (0, t)"
    using acc(1) fd reg closed(1,2) \<open>pfd cell < nentries (channelMap (get s))\<close>
    by (simp add: channel_event_activate_def load_def EVENT_READ_def EVENT_WRITE_def)
  moreover have "channel_event_activate get store run (pfd cell) EVENT_WRITE t = Inl NullDeref"
    using acc(2) fd closed(4,5) by (simp add: channel_event_activate_def load_def)
  ultimately show ?thesis using ready by simp
qed

theorem closed_then_write_crashes_witness:
  "activate_cells (\<lambda>fd ev s. c_bind (channel_event_activate (\<lambda>el. el) (\<lambda>el. [7 \<mapsto> read_channel 0])
       (\<lambda>f d el. Inr (el\<lparr>channelMap := \<lparr>entries = [None], nentries = 1\<rparr>\<rparr>)) fd ev s) (\<lambda>(_, s). Inr s))
     [\<lparr>pfd = 0, pevents = 0x140, revents = 0x140\<rparr>] ((empty_loop ())\<lparr>channelMap := \<lparr>entries = [Some 7], nentries = 1\<rparr>\<rparr>) = Inl NullDeref"
  by (rule closed_then_write_crashes [where a = 7 and c = "read_channel 0" and f = HandleRead and
        t = "(empty_loop ())\<lparr>channelMap := \<lparr>entries = [None], nentries = 1\<rparr>\<rparr>"])
    (simp_all add: POLLRDNORM_def POLLWRNORM_def map_entry_def map_inv_def read_channel_def channel_new_def)

text \<open>
  A channel that belongs to a connection cannot have its write event switched: the connection is used as
  an event loop.
\<close>

lemma write_event_of_connection:
  assumes "chans p = Some c" and "cdata c = ConnPtr k"
  shows "channel_write_event_enable alloc D self sent self_ptr chans el p = Inl BadCast"
    and "channel_write_event_disable alloc D self sent self_ptr chans el p = Inl BadCast"
  using assms by (simp_all add: channel_write_event_enable_def channel_write_event_disable_def change_write_event_def load_def)

section \<open>The loop does not end\<close>

lemma while_not_quit_None:
  assumes "\<And>s. P s \<Longrightarrow> \<not> stop s \<and> (\<exists>t. body s = Inr t \<and> P t)" and "P s"
  shows "while_not_quit stop body s = None"
proof -
  have "st = stop \<longrightarrow> bd = body \<longrightarrow> \<not> P u" if "while_not_quit st bd u = Some r" for st bd u r
    using that
  proof (rule while_not_quit.raw_induct [of "\<lambda>st bd u r. st = stop \<longrightarrow> bd = body \<longrightarrow> \<not> P u", rotated])
    fix rec st bd u r
    assume IH: "\<And>st bd u r. rec st bd u = Some r \<Longrightarrow> st = stop \<longrightarrow> bd = body \<longrightarrow> \<not> P u"
      and step: "(if st u then Some (Inr u) else case bd u of Inl e \<Rightarrow> Some (Inl e) | Inr t \<Rightarrow> rec st bd t) = Some r"
    show "st = stop \<longrightarrow> bd = body \<longrightarrow> \<not> P u"
    proof (intro impI notI)
      assume "st = stop" "bd = body" "P u"
      with assms(1) [of u] IH step show False by auto
    qed
  qed
  with assms(2) show ?thesis by (metis not_Some_eq)
qed

text \<open>
  As long as dispatching leaves the loop with no pending operation and the mutex free, the loop never
  returns: nothing in the program sets \<open>quit\<close>.  Run by a thread that does not own the loop, it
  ends the process.
\<close>

theorem event_loop_runs_forever:
  assumes "\<forall>s. quit (get s) = 0 \<and> idle (get s) \<and> pending_inv (get s) [] \<longrightarrow>
      (\<exists>t. dispatch s = Inr (0, t) \<and> quit (get t) = 0 \<and> idle (get t) \<and> pending_inv (get t) [])"
    and "\<forall>s el. get (put el s) = el" and "quit (get s) = 0" and "idle (get s)" and "pending_inv (get s) []"
  shows "event_loop_run get put store alloc D dispatch self s = (if owner_thread_id (get s) = self then None else Some (Inl (Exit 1)))"
proof -
  let ?P = "\<lambda>s. quit (get s) = 0 \<and> idle (get s) \<and> pending_inv (get s) []"
  have "while_not_quit (\<lambda>s. quit (get s) \<noteq> 0) (loop_round get put store alloc D dispatch) s = None"
  proof (rule while_not_quit_None [where P = ?P])
    show "\<not> quit (get s) \<noteq> 0 \<and> (\<exists>t. loop_round get put store alloc D dispatch s = Inr t \<and> ?P t)" if P: "?P s" for s
    proof -
      from assms(1) P obtain t where t: "dispatch s = Inr (0, t)" "?P t" by blast
      then have "event_loop_handle_pending_channel alloc D (store t) (get t) =
          Inr (0, (get t)\<lparr>is_handle_pending := 0, pending_head := None, pending_tail := None, mutex := False\<rparr>)"
        using handle_pending_channel_handles [of "get t" "[]"] by (simp add: idle_def)
      with t assms(2) P show ?thesis by (simp add: loop_round_def idle_def pending_inv_def)
    qed
  qed (use assms(3-5) in simp)
  then show ?thesis by (simp add: event_loop_run_def)
qed

theorem event_loop_runs_forever_witness:
  "event_loop_run (\<lambda>el. el) (\<lambda>el s. el) (\<lambda>s a. None) (\<lambda>n. True) poll_dispatcher (\<lambda>s. Inr (0, s)) 1 (empty_loop empty_poll) = None"
  using event_loop_runs_forever [of "\<lambda>el. el" "\<lambda>s. Inr (0, s)" "\<lambda>el s. el" "empty_loop empty_poll" "\<lambda>s a. None" "\<lambda>n. True" poll_dispatcher 1]
  by (simp add: empty_loop_facts) (simp add: empty_loop_def)

end
