(* ===== verification/Sockets.thy ===== *)
theory Sockets
  imports Http_Response Event_Loop
begin

text \<open>
  The operating system as the network code of \<^verbatim>\<open>httptest-geektime/lib\<close> sees it, and the functions that only prepare
  sockets: \<^verbatim>\<open>acceptor.c\<close>, \<^verbatim>\<open>tcp_client.c\<close>, the listening functions of \<^verbatim>\<open>tcp_server.c\<close>,
  \<^verbatim>\<open>sock_ntop.c\<close> and \<open>error\<close> of \<^verbatim>\<open>log.c\<close>.
\<close>

section \<open>Addresses\<close>

definition AF_INET :: int where "AF_INET = 2"

definition INADDR_ANY :: "32 word" where "INADDR_ANY = 0"

definition SERV_PORT :: int where "SERV_PORT = 43211"

definition LISTENQ :: int where "LISTENQ = 1024"

text \<open>Host and network byte order of a 16 bit value; the host is little endian.\<close>

definition htons :: "16 word \<Rightarrow> 16 word" where
  "htons w = push_bit 8 w OR drop_bit 8 w"

definition ntohs :: "16 word \<Rightarrow> 16 word" where
  "ntohs w = push_bit 8 w OR drop_bit 8 w"

record sockaddr_in =
  sin_family :: int
  sin_port :: "16 word"
  sin_addr :: "32 word"

text \<open>\<^verbatim>\<open>bzero\<close> and the assignments of the server functions; the port is converted to 16 bits.\<close>

definition server_address :: "int \<Rightarrow> sockaddr_in" where
  "server_address port = \<lparr>sin_family = AF_INET, sin_port = htons (word_of_int port), sin_addr = INADDR_ANY\<rparr>"

section \<open>The operating system\<close>

text \<open>
  Each call takes and yields the state \<open>'o\<close> of the system.  A call whose result the code ignores yields
  only the state; \<open>sys_write\<close> and \<open>sys_readv\<close> give the result, then \<open>errno\<close> or the bytes.
\<close>

record 'o sys =
  sys_socket :: "'o \<Rightarrow> int \<times> 'o"
  sys_nonblock :: "int \<Rightarrow> 'o \<Rightarrow> 'o"
  sys_reuseaddr :: "int \<Rightarrow> 'o \<Rightarrow> 'o"
  sys_bind :: "int \<Rightarrow> sockaddr_in \<Rightarrow> 'o \<Rightarrow> int \<times> 'o"
  sys_listen :: "int \<Rightarrow> int \<Rightarrow> 'o \<Rightarrow> int \<times> 'o"
  sys_accept :: "int \<Rightarrow> 'o \<Rightarrow> int \<times> 'o"
  sys_connect :: "int \<Rightarrow> sockaddr_in \<Rightarrow> 'o \<Rightarrow> int \<times> 'o"
  sys_ignore_sigpipe :: "'o \<Rightarrow> 'o"
  sys_pton :: "byte list \<Rightarrow> 32 word option"
  sys_ntop :: "32 word \<Rightarrow> byte list option"
  sys_readv :: "int \<Rightarrow> int \<Rightarrow> 'o \<Rightarrow> (int \<times> byte list) \<times> 'o"
  sys_write :: "int \<Rightarrow> byte list \<Rightarrow> 'o \<Rightarrow> (int \<times> int) \<times> 'o"
  sys_shutdown :: "int \<Rightarrow> 'o \<Rightarrow> int \<times> 'o"
  sys_socketpair :: "'o \<Rightarrow> (int \<times> int) \<times> 'o"
  sys_thread :: "'o \<Rightarrow> bool \<times> 'o"
  sys_malloc :: "nat \<Rightarrow> 'o \<Rightarrow> bool \<times> 'o"

section \<open>Preparing sockets\<close>

definition make_nonblocking :: "'o sys \<Rightarrow> int \<Rightarrow> 'o \<Rightarrow> 'o" where
  "make_nonblocking S fd w = sys_nonblock S fd w"

text \<open>\<open>error(status, err, ...)\<close> prints and, with a non-zero status, ends the process.\<close>

definition c_exit_error :: "int \<Rightarrow> 'a \<Rightarrow> 'a c_res" where
  "c_exit_error status w = (if status \<noteq> 0 then Inl (Exit status) else Inr w)"

definition bind_and_listen :: "'o sys \<Rightarrow> int \<Rightarrow> int \<Rightarrow> 'o \<Rightarrow> 'o c_res" where
  "bind_and_listen S fd port w =
     (let server_addr = server_address port;
          w = sys_reuseaddr S fd w;
          (rt1, w) = sys_bind S fd server_addr w
      in c_bind (if rt1 < 0 then c_exit_error 1 w else Inr w) (\<lambda>w.
         let (rt2, w) = sys_listen S fd LISTENQ w in
         if rt2 < 0 then c_exit_error 1 w else Inr w))"

definition tcp_server_listen :: "'o sys \<Rightarrow> int \<Rightarrow> 'o \<Rightarrow> (int \<times> 'o) c_res" where
  "tcp_server_listen S port w =
     (let (listenfd, w) = sys_socket S w in
      c_bind (bind_and_listen S listenfd port w) (\<lambda>w.
      Inr (listenfd, sys_ignore_sigpipe S w)))"

definition tcp_nonblocking_server_listen :: "'o sys \<Rightarrow> int \<Rightarrow> 'o \<Rightarrow> (int \<times> 'o) c_res" where
  "tcp_nonblocking_server_listen S port w =
     (let (listenfd, w) = sys_socket S w;
          w = make_nonblocking S listenfd w in
      c_bind (bind_and_listen S listenfd port w) (\<lambda>w.
      Inr (listenfd, sys_ignore_sigpipe S w)))"

definition tcp_server :: "'o sys \<Rightarrow> int \<Rightarrow> 'o \<Rightarrow> (int \<times> 'o) c_res" where
  "tcp_server S port w =
     (let (listenfd, w) = sys_socket S w in
      c_bind (bind_and_listen S listenfd port w) (\<lambda>w.
      let w = sys_ignore_sigpipe S w;
          (connfd, w) = sys_accept S listenfd w
      in if connfd < 0 then c_exit_error 1 (connfd, w) else Inr (connfd, w)))"

record acceptor =
  listen_port :: int
  listen_fd :: int

text \<open>The result of \<open>malloc\<close> is used without a test.\<close>

definition must_malloc :: "'o sys \<Rightarrow> nat \<Rightarrow> 'o \<Rightarrow> 'o c_res" where
  "must_malloc S n w = (case sys_malloc S n w of (True, w) \<Rightarrow> Inr w | (False, w) \<Rightarrow> Inl NullDeref)"

definition sizeof_acceptor :: nat where "sizeof_acceptor = 8"

definition acceptor_init :: "'o sys \<Rightarrow> int \<Rightarrow> 'o \<Rightarrow> (acceptor \<times> 'o) c_res" where
  "acceptor_init S port w =
     c_bind (must_malloc S sizeof_acceptor w) (\<lambda>w.
     let (fd, w) = sys_socket S w;
         acceptor1 = \<lparr>listen_port = port, listen_fd = fd\<rparr>;
         w = make_nonblocking S (listen_fd acceptor1) w
     in c_bind (bind_and_listen S (listen_fd acceptor1) port w) (\<lambda>w. Inr (acceptor1, w)))"

text \<open>An address that \<open>inet_pton\<close> cannot read leaves the zero address.\<close>

definition tcp_client :: "'o sys \<Rightarrow> byte list \<Rightarrow> int \<Rightarrow> 'o \<Rightarrow> (int \<times> 'o) c_res" where
  "tcp_client S address port w =
     (let (socket_fd, w) = sys_socket S w;
          server_addr = \<lparr>sin_family = AF_INET, sin_port = htons (word_of_int port),
                         sin_addr = (case sys_pton S address of None \<Rightarrow> 0 | Some a \<Rightarrow> a)\<rparr>;
          (connect_rt, w) = sys_connect S socket_fd server_addr w
      in c_bind (if connect_rt < 0 then c_exit_error 1 w else Inr w) (\<lambda>w. Inr (socket_fd, w)))"

section \<open>Printing an address\<close>

text \<open>\<open>str\<close> has 128 bytes and \<open>portstr\<close> 8; \<open>inet_ntop\<close> yields a string that fits.\<close>

definition snprintf_n :: "nat \<Rightarrow> byte list \<Rightarrow> byte list" where
  "snprintf_n n text = take (n - 1) text"

definition sock_ntop :: "'o sys \<Rightarrow> sockaddr_in \<Rightarrow> byte list option c_res" where
  "sock_ntop S sa =
     (case sys_ntop S (sin_addr sa) of
        None \<Rightarrow> Inr None
      | Some str \<Rightarrow>
          if 128 \<le> length str then Inl OutOfBounds
          else if ntohs (sin_port sa) \<noteq> 0 then
            let portstr = snprintf_n 8 (bytes_of '':'' @ decimal (unat (ntohs (sin_port sa)))) in
            if 128 \<le> length str + length portstr then Inl OutOfBounds else Inr (Some (str @ portstr))
          else Inr (Some str))"

section \<open>Byte order and the listening socket\<close>

lemma ntohs_htons [simp]: "ntohs (htons w) = w"
  by (simp add: ntohs_def htons_def) (rule bit_word_eqI, auto simp: bit_simps)

lemma htons_ntohs [simp]: "htons (ntohs w) = w"
  using ntohs_htons by (simp add: ntohs_def htons_def)

text \<open>A port is always printed in full: the eight bytes are enough.\<close>

lemma sock_ntop_text:
  assumes "sys_ntop S (sin_addr sa) = Some str" and "length str < 120"
  shows "sock_ntop S sa = Inr (Some (if sin_port sa = 0 then str else str @ bytes_of '':'' @ decimal (unat (ntohs (sin_port sa)))))"
proof -
  have "htons 0 = 0" "ntohs 0 = 0" by (simp_all add: htons_def ntohs_def)
  then have z: "ntohs (sin_port sa) = 0 \<longleftrightarrow> sin_port sa = 0" by (metis htons_ntohs)
  have "unat (ntohs (sin_port sa)) < 10 ^ 5" using unsigned_less [of "ntohs (sin_port sa)", where 'a = nat] by simp
  from decimal_length [OF this] have "length (decimal (unat (ntohs (sin_port sa)))) \<le> 5" by simp
  with assms z show ?thesis by (auto simp: sock_ntop_def snprintf_n_def Let_def bytes_of_def)
qed

end
