(* ===== verification/Logging.thy ===== *)
theory Logging
  imports Sockets
begin

text \<open>
  \<^verbatim>\<open>httptest-geektime/lib/log.c\<close>: the log lines.  What a format and its arguments expand to is a parameter \<open>text\<close>;
  the functions decide how much of it reaches the output.
\<close>

section \<open>The code\<close>

definition MAXLINE :: nat where "MAXLINE = 4096"

definition severity_str :: "int \<Rightarrow> string" where
  "severity_str severity =
     (if severity = 0 then ''debug'' else if severity = 1 then ''msg'' else if severity = 2 then ''warn''
      else if severity = 3 then ''err'' else ''???'')"

text \<open>What is printed on the standard output.\<close>

definition yolanda_log :: "int \<Rightarrow> byte list \<Rightarrow> byte list" where
  "yolanda_log severity msg = bytes_of ''['' @ bytes_of (severity_str severity) @ bytes_of ''] '' @ msg @ [10]"

text \<open>\<open>buf\<close> has 1024 bytes; \<open>text\<close> is \<open>None\<close> for a null format.\<close>

definition yolanda_logx :: "int \<Rightarrow> byte list option \<Rightarrow> byte list option \<Rightarrow> byte list" where
  "yolanda_logx severity errstr text =
     (let buf = (case text of Some t \<Rightarrow> snprintf_n 1024 t | None \<Rightarrow> []);
          buf = (case errstr of
                   None \<Rightarrow> buf
                 | Some e \<Rightarrow> if length buf < 1024 - 3 then buf @ snprintf_n (1024 - length buf) (bytes_of '': '' @ e) else buf)
      in yolanda_log severity buf)"

definition yolanda_msgx :: "byte list option \<Rightarrow> byte list" where
  "yolanda_msgx text = yolanda_logx 1 None text"

definition yolanda_debugx :: "byte list option \<Rightarrow> byte list" where
  "yolanda_debugx text = yolanda_logx 0 None text"

text \<open>The end of \<open>buf\<close>, \<open>MAXLINE + 1\<close> bytes, must hold the line feed and the terminator.\<close>

definition c_strcat :: "nat \<Rightarrow> byte list \<Rightarrow> byte list \<Rightarrow> byte list c_res" where
  "c_strcat cap s t = (if length s + length t < cap then Inr (s @ t) else Inl OutOfBounds)"

definition err_doit :: "int \<Rightarrow> byte list \<Rightarrow> byte list \<Rightarrow> byte list c_res" where
  "err_doit errnoflag strerror text =
     (let buf = snprintf_n MAXLINE text;
          buf = (if errnoflag \<noteq> 0 then buf @ snprintf_n (MAXLINE - length buf) (bytes_of '': '' @ strerror) else buf)
      in c_strcat (MAXLINE + 1) buf [10])"

section \<open>Properties\<close>

lemma two_cuts: "snprintf_n (Suc n) text @ snprintf_n (Suc n - length (snprintf_n (Suc n) text)) x = take n (text @ x)"
  by (simp add: snprintf_n_def min_def)

text \<open>
  The text of a log line is cut so that it always fits: of a diagnostic the first 4095 bytes, the error string included, and a line feed, which just fit the
  buffer; of a log message the first 1023 bytes, and the error string only if at least three bytes are left for it.
\<close>

theorem log_lines_fit:
  "err_doit flag strerror text = Inr (take 4095 (text @ (if flag \<noteq> 0 then bytes_of '': '' @ strerror else [])) @ [10]) \<and>
   yolanda_logx severity errstr (Some text) = yolanda_log severity
     (take 1023 (text @ (case errstr of Some e \<Rightarrow> if length text < 1021 then bytes_of '': '' @ e else [] | None \<Rightarrow> [])))"
proof
  have e: "snprintf_n 4096 text @ snprintf_n (4096 - length (snprintf_n 4096 text)) x = take 4095 (text @ x)" for x
    using two_cuts [of 4095 "text" x] by (simp del: take_append)
  have n: "snprintf_n 4096 text = take 4095 text" by (simp add: snprintf_n_def)
  have room: "c_strcat 4097 (take 4095 x) [10] = Inr (take 4095 x @ [10])" for x by (simp add: c_strcat_def min_def)
  show "err_doit flag strerror text = Inr (take 4095 (text @ (if flag \<noteq> 0 then bytes_of '': '' @ strerror else [])) @ [10])"
    using e [of "bytes_of '': '' @ strerror"] n room by (cases "flag = 0") (simp_all add: err_doit_def MAXLINE_def Let_def n del: take_append)
next
  have l: "snprintf_n 1024 text @ snprintf_n (1024 - length (snprintf_n 1024 text)) x = take 1023 (text @ x)" for x
    using two_cuts [of 1023 "text" x] by (simp del: take_append)
  have n: "snprintf_n 1024 text = take 1023 text" by (simp add: snprintf_n_def)
  have short: "length text < 1021 \<Longrightarrow> text @ snprintf_n (1024 - length text) x = take 1023 (text @ x)" for x
    using l [of x] n by (simp del: take_append)
  have c: "length (snprintf_n 1024 text) < 1021 \<longleftrightarrow> length text < 1021" unfolding n by (simp add: min_def)
  show "yolanda_logx severity errstr (Some text) = yolanda_log severity
     (take 1023 (text @ (case errstr of Some e \<Rightarrow> if length text < 1021 then bytes_of '': '' @ e else [] | None \<Rightarrow> [])))"
    using short n c by (cases errstr) (simp_all add: yolanda_logx_def Let_def del: take_append)
qed

end
