(* ===== verification/Http_Request.thy ===== *)
theory Http_Request
  imports C_String
begin

text \<open>
  \<^verbatim>\<open>httptest-geektime/lib/http_request.c\<close>: the request object.  A \<open>char *\<close> field is the
  memory it points to, \<open>None\<close> for null; the header array is the list of its cells.
\<close>

section \<open>The code\<close>

datatype http_request_state = REQUEST_STATUS | REQUEST_HEADERS | REQUEST_BODY | REQUEST_DONE

record request_header =
  hkey :: "byte list"
  hval :: "byte list"

record http_request =
  version :: "byte list option"
  req_method :: "byte list option"
  url :: "byte list option"
  current_state :: http_request_state
  request_headers :: "request_header list option"
  request_headers_number :: int

definition INIT_REQUEST_HEADER_SIZE :: nat where "INIT_REQUEST_HEADER_SIZE = 128"

text \<open>
  The cells the allocation has room for: it multiplies the number by the size of the request,
  48 bytes, where a header takes 16.
\<close>

definition header_room :: nat where "header_room = 48 * INIT_REQUEST_HEADER_SIZE div 16"

definition HTTP10 :: "byte list" where "HTTP10 = c_lit ''HTTP/1.0''"

definition KEEP_ALIVE :: "byte list" where "KEEP_ALIVE = c_lit ''Keep-Alive''"

definition CLOSE :: "byte list" where "CLOSE = c_lit ''close''"

text \<open>\<open>cells\<close> is what the allocation of the header array yields.\<close>

definition http_request_new :: "request_header list option \<Rightarrow> http_request" where
  "http_request_new cells =
     \<lparr>version = None, req_method = None, url = None, current_state = REQUEST_STATUS,
      request_headers = cells, request_headers_number = 0\<rparr>"

text \<open>The strings that are freed with the request.\<close>

definition http_request_clear :: "http_request \<Rightarrow> byte list list c_res" where
  "http_request_clear r =
     (case request_headers r of
        None \<Rightarrow> Inr []
      | Some hs \<Rightarrow>
          if request_headers_number r \<le> int (length hs)
          then Inr (concat (map (\<lambda>h. [hkey h, hval h]) (take (nat (request_headers_number r)) hs)))
          else Inl OutOfBounds)"

definition http_request_reset :: "http_request \<Rightarrow> http_request" where
  "http_request_reset r =
     r\<lparr>req_method := None, current_state := REQUEST_STATUS, version := None, url := None, request_headers_number := 0\<rparr>"

definition http_request_add_header :: "http_request \<Rightarrow> byte list \<Rightarrow> byte list \<Rightarrow> http_request c_res" where
  "http_request_add_header r k v =
     (case request_headers r of
        None \<Rightarrow> Inl NullDeref
      | Some hs \<Rightarrow>
          c_bind (c_write hs (request_headers_number r) \<lparr>hkey = k, hval = v\<rparr>) (\<lambda>hs.
          c_bind (c_int (request_headers_number r + 1)) (\<lambda>n.
          Inr (r\<lparr>request_headers := Some hs, request_headers_number := n\<rparr>))))"

fun header_loop :: "(byte \<Rightarrow> byte \<Rightarrow> int) \<Rightarrow> byte list \<Rightarrow> nat \<Rightarrow> request_header list \<Rightarrow> byte list option c_res" where
  "header_loop diff k 0 hs = Inr None"
| "header_loop diff k (Suc n) (h # hs) =
     c_bind (c_strlen k) (\<lambda>len.
     c_bind (c_strncmp diff (hkey h) k (nat len)) (\<lambda>c.
     if c = 0 then Inr (Some (hval h)) else header_loop diff k n hs))"
| "header_loop diff k (Suc n) [] = Inl OutOfBounds"

definition http_request_get_header :: "(byte \<Rightarrow> byte \<Rightarrow> int) \<Rightarrow> http_request \<Rightarrow> byte list \<Rightarrow> byte list option c_res" where
  "http_request_get_header diff r k =
     (case request_headers r of None \<Rightarrow> Inr None
      | Some hs \<Rightarrow> header_loop diff k (nat (request_headers_number r)) hs)"

definition http_request_current_state :: "http_request \<Rightarrow> http_request_state" where
  "http_request_current_state r = current_state r"

text \<open>\<^verbatim>\<open>strncmp(s, lit, strlen(lit))\<close>, where the first pointer may be null.\<close>

definition strncmp_lit :: "(byte \<Rightarrow> byte \<Rightarrow> int) \<Rightarrow> byte list option \<Rightarrow> byte list \<Rightarrow> int c_res" where
  "strncmp_lit diff s lit =
     (case s of None \<Rightarrow> Inl NullDeref
      | Some s \<Rightarrow> c_bind (c_strlen lit) (\<lambda>n. c_strncmp diff s lit (nat n)))"

definition http_request_close_connection :: "(byte \<Rightarrow> byte \<Rightarrow> int) \<Rightarrow> http_request \<Rightarrow> int c_res" where
  "http_request_close_connection diff r =
     c_bind (http_request_get_header diff r (c_lit ''Connection'')) (\<lambda>connection.
     c_bind (if connection \<noteq> None then c_bind (strncmp_lit diff connection CLOSE) (\<lambda>c. Inr (c = 0)) else Inr False) (\<lambda>close.
     if close then Inr 1
     else
       c_bind (if version r \<noteq> None
               then c_bind (strncmp_lit diff (version r) HTTP10) (\<lambda>c.
                    if c = 0 then c_bind (strncmp_lit diff connection KEEP_ALIVE) (\<lambda>c. Inr (c = 1)) else Inr False)
               else Inr False) (\<lambda>old.
       Inr (if old then 1 else 0))))"

section \<open>Comparing prefixes\<close>

definition c_string :: "byte list \<Rightarrow> byte list" where
  "c_string s = takeWhile (\<lambda>c. c \<noteq> 0) s"

definition terminated :: "byte list \<Rightarrow> bool" where
  "terminated s \<longleftrightarrow> 0 \<in> set s"

definition starts_with :: "byte list \<Rightarrow> byte list \<Rightarrow> bool" where
  "starts_with s p \<longleftrightarrow> take (length p) s = p"

lemma strncmp_prefix:
  assumes "terminated s" and "0 \<notin> set p" and "diff_ok diff"
  shows "\<exists>c. c_strncmp diff s (p @ [0]) (length p) = Inr c \<and> (c = 0 \<longleftrightarrow> starts_with (c_string s) p)"
  using assms(1,2)
proof (induction p arbitrary: s)
  case Nil
  then show ?case by (simp add: starts_with_def)
next
  case (Cons y p)
  then obtain x s' where s: "s = x # s'" by (cases s) (auto simp: terminated_def)
  show ?case
  proof (cases "x = y")
    case True
    with Cons.prems have "x \<noteq> 0" "terminated s'" by (auto simp: s terminated_def)
    with Cons.IH [of s'] Cons.prems True show ?thesis by (auto simp: s starts_with_def c_string_def)
  next
    case False
    then have "diff x y \<noteq> 0" using assms(3) by (metis diff_ok_def less_irrefl linorder_less_linear)
    with False Cons.prems show ?thesis by (auto simp: s starts_with_def c_string_def)
  qed
qed

lemma c_strlen_lit [simp]: "0 \<notin> set p \<Longrightarrow> c_strlen (p @ [0]) = Inr (int (length p))"
  using c_strlen_term [of p "[]"] by simp

definition headers_ok :: "http_request \<Rightarrow> bool" where
  "headers_ok r \<longleftrightarrow> (\<exists>hs. request_headers r = Some hs \<and> 0 \<le> request_headers_number r \<and>
     request_headers_number r \<le> int (length hs) \<and>
     list_all (\<lambda>h. terminated (hkey h) \<and> terminated (hval h)) (take (nat (request_headers_number r)) hs))"

definition headers_of :: "http_request \<Rightarrow> request_header list" where
  "headers_of r = (case request_headers r of None \<Rightarrow> [] | Some hs \<Rightarrow> take (nat (request_headers_number r)) hs)"

lemma header_loop_find:
  assumes "0 \<notin> set p" and "diff_ok diff" and "n \<le> length hs" and "list_all (\<lambda>h. terminated (hkey h)) (take n hs)"
  shows "header_loop diff (p @ [0]) n hs =
    Inr (map_option hval (find (\<lambda>h. starts_with (c_string (hkey h)) p) (take n hs)))"
  using assms(3,4)
proof (induction n arbitrary: hs)
  case (Suc n)
  then obtain h hs' where hs: "hs = h # hs'" by (cases hs) auto
  then obtain c where "c_strncmp diff (hkey h) (p @ [0]) (length p) = Inr c" "c = 0 \<longleftrightarrow> starts_with (c_string (hkey h)) p"
    using strncmp_prefix [of "hkey h" p diff] Suc.prems assms(1,2) by auto
  with Suc hs assms(1) show ?case by auto
qed simp

lemma get_header_find:
  assumes "headers_ok r" and "0 \<notin> set p" and "diff_ok diff"
  shows "http_request_get_header diff r (p @ [0]) =
    Inr (map_option hval (find (\<lambda>h. starts_with (c_string (hkey h)) p) (headers_of r)))"
proof -
  obtain hs where hs: "request_headers r = Some hs" "nat (request_headers_number r) \<le> length hs"
      "list_all (\<lambda>h. terminated (hkey h) \<and> terminated (hval h)) (take (nat (request_headers_number r)) hs)"
    using assms(1) by (auto simp: headers_ok_def)
  then have "list_all (\<lambda>h. terminated (hkey h)) (take (nat (request_headers_number r)) hs)" by (simp add: list_all_iff)
  with header_loop_find [OF assms(2,3) hs(2)] hs(1) show ?thesis
    by (simp add: http_request_get_header_def headers_of_def)
qed

lemma get_header_terminated:
  assumes "headers_ok r" and "find P (headers_of r) = Some h"
  shows "terminated (hval h)"
proof -
  have "h \<in> set (headers_of r)" using assms(2) by (auto simp: find_Some_iff)
  with assms(1) show ?thesis by (auto simp: headers_ok_def headers_of_def list_all_iff)
qed

lemma strncmp_lit_prefix:
  assumes "terminated s" and "0 \<notin> set p" and "diff_ok diff"
  shows "\<exists>c. strncmp_lit diff (Some s) (p @ [0]) = Inr c \<and> (c = 0 \<longleftrightarrow> starts_with (c_string s) p)"
  using strncmp_prefix [OF assms] assms(2) by (simp add: strncmp_lit_def)

section \<open>Properties\<close>

text \<open>
  Looking up a header yields the value of the first header whose name starts with the given key, so a
  longer name that comes first wins.
\<close>

theorem get_header_is_prefix_lookup:
  assumes "headers_ok r" and "0 \<notin> set p" and "diff_ok diff"
  shows "http_request_get_header diff r (p @ [0]) =
    Inr (map_option hval (find (\<lambda>h. starts_with (c_string (hkey h)) p) (headers_of r)))"
  using assms by (rule get_header_find)

definition byte_diff :: "byte \<Rightarrow> byte \<Rightarrow> int" where
  "byte_diff x y = uint x - uint y"

lemma byte_diff_ok [simp]: "diff_ok byte_diff"
  by (auto simp: diff_ok_def byte_diff_def word_less_alt)

definition sample_request :: http_request where
  "sample_request = (http_request_new (Some [\<lparr>hkey = c_lit ''Hostname'', hval = c_lit ''a''\<rparr>, \<lparr>hkey = c_lit ''Host'', hval = c_lit ''b''\<rparr>]))
     \<lparr>request_headers_number := 2, version := Some (c_lit ''HTTP/1.0'')\<rparr>"

lemma sample_request_ok [simp]: "headers_ok sample_request"
  by (simp add: headers_ok_def sample_request_def http_request_new_def terminated_def c_lit_def)

theorem get_header_is_prefix_lookup_witness:
  "http_request_get_header byte_diff sample_request (bytes_of ''Host'' @ [0]) = Inr (Some (c_lit ''a''))"
proof -
  have "0 \<notin> set (bytes_of ''Host'')" by code_simp
  moreover have "map_option hval (find (\<lambda>h. starts_with (c_string (hkey h)) (bytes_of ''Host'')) (headers_of sample_request)) = Some (c_lit ''a'')"
    by code_simp
  ultimately show ?thesis using get_header_is_prefix_lookup [OF sample_request_ok _ byte_diff_ok, of "bytes_of ''Host''"] by simp
qed

text \<open>
  Whether to close the connection: yes if the Connection header starts with close; a request of version 1.0
  without a Connection header makes the program follow a null pointer; and with another version the answer is no.
\<close>

theorem close_connection_cases:
  assumes ok: "headers_ok r" and d: "diff_ok diff" and v: "\<forall>v. version r = Some v \<longrightarrow> terminated v"
    and conn: "conn = map_option hval (find (\<lambda>h. starts_with (c_string (hkey h)) (bytes_of ''Connection'')) (headers_of r))"
  shows "(\<forall>c. conn = Some c \<longrightarrow> starts_with (c_string c) (bytes_of ''close'') \<longrightarrow> http_request_close_connection diff r = Inr 1) \<and>
    (\<forall>v. conn = None \<longrightarrow> version r = Some v \<longrightarrow> starts_with (c_string v) (bytes_of ''HTTP/1.0'') \<longrightarrow>
       http_request_close_connection diff r = Inl NullDeref) \<and>
    ((\<forall>c. conn = Some c \<longrightarrow> \<not> starts_with (c_string c) (bytes_of ''close'')) \<longrightarrow>
     (\<forall>v. version r = Some v \<longrightarrow> \<not> starts_with (c_string v) (bytes_of ''HTTP/1.0'')) \<longrightarrow>
       http_request_close_connection diff r = Inr 0)"
proof -
  have nz: "0 \<notin> set (bytes_of ''Connection'')" "0 \<notin> set (bytes_of ''close'')" "0 \<notin> set (bytes_of ''HTTP/1.0'')"
    by code_simp+
  have get: "http_request_get_header diff r (c_lit ''Connection'') = Inr conn"
    using get_header_find [OF ok nz(1) d] conn by (simp add: c_lit_def)
  have cl: "\<exists>k. strncmp_lit diff conn CLOSE = Inr k \<and> (k = 0 \<longleftrightarrow> starts_with (c_string c) (bytes_of ''close''))"
    if "conn = Some c" for c
  proof -
    have "terminated c" using get_header_terminated [OF ok] conn that by force
    from strncmp_lit_prefix [OF this nz(2) d] that show ?thesis by (simp add: CLOSE_def c_lit_def)
  qed
  have ver: "\<exists>k. strncmp_lit diff (version r) HTTP10 = Inr k \<and> (k = 0 \<longleftrightarrow> starts_with (c_string w) (bytes_of ''HTTP/1.0''))"
    if "version r = Some w" for w
    using strncmp_lit_prefix [OF _ nz(3) d, of w] v that by (auto simp: HTTP10_def c_lit_def)
  show ?thesis
  proof (intro conjI allI impI)
    show "http_request_close_connection diff r = Inr 1" if "conn = Some c" "starts_with (c_string c) (bytes_of ''close'')" for c
      using get cl [OF that(1)] that by (auto simp: http_request_close_connection_def)
    show "http_request_close_connection diff r = Inl NullDeref"
      if "conn = None" "version r = Some w" "starts_with (c_string w) (bytes_of ''HTTP/1.0'')" for w
      using get ver [OF that(2)] that by (auto simp: http_request_close_connection_def strncmp_lit_def)
    show "http_request_close_connection diff r = Inr 0"
      if "\<forall>c. conn = Some c \<longrightarrow> \<not> starts_with (c_string c) (bytes_of ''close'')"
        "\<forall>v. version r = Some v \<longrightarrow> \<not> starts_with (c_string v) (bytes_of ''HTTP/1.0'')"
      using get cl ver that by (cases conn; cases "version r") (fastforce simp: http_request_close_connection_def)+
  qed
qed

theorem close_connection_cases_witness:
  "http_request_close_connection byte_diff sample_request = Inl NullDeref"
proof -
  have "find (\<lambda>h. starts_with (c_string (hkey h)) (bytes_of ''Connection'')) (headers_of sample_request) = None"
    "starts_with (c_string (c_lit ''HTTP/1.0'')) (bytes_of ''HTTP/1.0'')" "terminated (c_lit ''HTTP/1.0'')"
    by code_simp+
  moreover have "version sample_request = Some (c_lit ''HTTP/1.0'')" by (simp add: sample_request_def)
  ultimately show ?thesis using close_connection_cases [OF sample_request_ok byte_diff_ok _ refl] by simp
qed
end
