(* ===== verification/Net_State.thy ===== *)
theory Net_State
  imports Sockets Http_Request
begin

text \<open>
  The objects of the network layer of \<^verbatim>\<open>httptest-geektime/lib\<close>, from \<^verbatim>\<open>event_loop_thread.h\<close>, \<^verbatim>\<open>thread_pool.h\<close>,
  \<^verbatim>\<open>tcp_connection.h\<close>, \<^verbatim>\<open>tcp_server.h\<close> and \<^verbatim>\<open>http_server.h\<close>, and the memory they live in.
  Shared objects are at addresses; objects with one owner are part of it.
\<close>

section \<open>Objects\<close>

text \<open>A field of an object from \<open>malloc\<close>: never set, null, or set.\<close>

datatype 'a slot = Unset | Null | At 'a

definition slot_value :: "'a slot \<Rightarrow> 'a c_res" where
  "slot_value x = (case x of Unset \<Rightarrow> Inl Uninitialised | Null \<Rightarrow> Inl NullDeref | At a \<Rightarrow> Inr a)"

record event_loop_thread =
  elt_eventLoop :: "nat option"
  thread_tid :: nat
  elt_thread_name :: "byte list"
  thread_count :: int

record thread_pool =
  mainLoop :: nat
  started :: int
  thread_number :: int
  eventLoopThreads :: "event_loop_thread list"
  position :: int

text \<open>The functions the program passes as callbacks of a connection.\<close>

datatype conn_callback = Http_onConnectionCompleted | Http_onMessage | Http_onWriteCompleted | Http_onConnectionClosed

record tcp_connection =
  tc_eventLoop :: nat
  tc_channel :: chan_ptr
  tc_name :: "byte list"
  input_buffer :: "buffer option"
  output_buffer :: "buffer option"
  tc_connectionCompletedCallBack :: "conn_callback option"
  tc_messageCallBack :: "conn_callback option"
  tc_writeCompletedCallBack :: "conn_callback option"
  tc_connectionClosedCallBack :: "conn_callback option"
  tc_data :: "nat slot"
  tc_request :: "http_request slot"
  tc_response :: "http_response slot"

record TCPserver =
  sv_port :: "int slot"
  sv_eventLoop :: nat
  sv_acceptor :: acceptor
  sv_connectionCompletedCallBack :: "conn_callback option"
  sv_messageCallBack :: "conn_callback option"
  sv_writeCompletedCallBack :: "conn_callback option"
  sv_connectionClosedCallBack :: "conn_callback option"
  threadNum :: int
  threadPool :: thread_pool
  sv_data :: "nat option"

record http_server =
  tcpServer :: nat
  has_requestCallback :: bool

section \<open>Memory\<close>

text \<open>
  \<open>brk\<close> is the next free address: objects are never at the same place.  \<open>tids\<close> is the next thread
  identifier.  \<open>stray\<close> counts the accesses past the end of a block that go unnoticed.
\<close>

record ('d, 'o) net =
  loops :: "nat \<Rightarrow> 'd event_loop option"
  chans :: chan_store
  conns :: "nat \<Rightarrow> tcp_connection option"
  servers :: "nat \<Rightarrow> TCPserver option"
  hservers :: "nat \<Rightarrow> http_server option"
  brk :: nat
  tids :: nat
  stray :: nat
  os :: 'o

text \<open>
  What the code relies on besides the system calls: the dispatcher, its \<open>init\<close>, whether a wake-up is
  written, \<open>realloc\<close> for channel maps and buffers, the content of fresh blocks and what lies behind them, and the differences \<open>strncmp\<close> yields.
\<close>

record ('d, 'o) plat =
  pl_sys :: "'o sys"
  pl_dispatcher :: "'d event_dispatcher"
  pl_init :: "'d c_res"
  pl_sent :: bool
  pl_alloc :: "int \<Rightarrow> bool"
  pl_realloc :: "byte list \<Rightarrow> int \<Rightarrow> byte list option"
  pl_block :: "nat \<Rightarrow> byte list"
  pl_cells :: "request_header list"
  pl_rcells :: "response_header list"
  pl_behind :: "nat \<Rightarrow> byte list"
  pl_ctype :: "byte list option"
  pl_diff :: "byte \<Rightarrow> byte \<Rightarrow> int"

definition get_loop :: "('d, 'o) net \<Rightarrow> nat \<Rightarrow> 'd event_loop c_res" where
  "get_loop w a = (case loops w a of None \<Rightarrow> Inl OutOfBounds | Some el \<Rightarrow> Inr el)"

definition get_conn :: "('d, 'o) net \<Rightarrow> nat \<Rightarrow> tcp_connection c_res" where
  "get_conn w a = (case conns w a of None \<Rightarrow> Inl OutOfBounds | Some c \<Rightarrow> Inr c)"

definition get_server :: "('d, 'o) net \<Rightarrow> nat \<Rightarrow> TCPserver c_res" where
  "get_server w a = (case servers w a of None \<Rightarrow> Inl OutOfBounds | Some s \<Rightarrow> Inr s)"

definition get_hserver :: "('d, 'o) net \<Rightarrow> nat \<Rightarrow> http_server c_res" where
  "get_hserver w a = (case hservers w a of None \<Rightarrow> Inl OutOfBounds | Some s \<Rightarrow> Inr s)"

definition set_conn :: "nat \<Rightarrow> tcp_connection \<Rightarrow> ('d, 'o) net \<Rightarrow> ('d, 'o) net" where
  "set_conn a c w = w\<lparr>conns := (conns w)(a \<mapsto> c)\<rparr>"

definition set_loop :: "nat \<Rightarrow> 'd event_loop \<Rightarrow> ('d, 'o) net \<Rightarrow> ('d, 'o) net" where
  "set_loop a el w = w\<lparr>loops := (loops w)(a \<mapsto> el)\<rparr>"

definition set_server :: "nat \<Rightarrow> TCPserver \<Rightarrow> ('d, 'o) net \<Rightarrow> ('d, 'o) net" where
  "set_server a sv w = w\<lparr>servers := (servers w)(a \<mapsto> sv)\<rparr>"

text \<open>\<open>malloc\<close> of an object whose pointer is used without a test.\<close>

definition new_object :: "('d, 'o) plat \<Rightarrow> nat \<Rightarrow> ('d, 'o) net \<Rightarrow> (nat \<times> ('d, 'o) net) c_res" where
  "new_object P n w = c_bind (must_malloc (pl_sys P) n (os w)) (\<lambda>o'. Inr (brk w, w\<lparr>brk := brk w + 1, os := o'\<rparr>))"

text \<open>Adding or removing the channel at \<open>p\<close>, by the thread \<open>self\<close>.\<close>

definition add_channel :: "('d, 'o) plat \<Rightarrow> nat \<Rightarrow> nat \<Rightarrow> int \<Rightarrow> chan_ptr \<Rightarrow> ('d, 'o) net \<Rightarrow> ('d, 'o) net c_res" where
  "add_channel P self l fd p w =
     c_bind (get_loop w l) (\<lambda>el.
     c_bind (event_loop_add_channel_event (pl_alloc P) (pl_dispatcher P) (chans w) self (pl_sent P) el fd (Some p)) (\<lambda>(_, el).
     Inr (set_loop l el w)))"

definition remove_channel :: "('d, 'o) plat \<Rightarrow> nat \<Rightarrow> nat \<Rightarrow> int \<Rightarrow> chan_ptr \<Rightarrow> ('d, 'o) net \<Rightarrow> ('d, 'o) net c_res" where
  "remove_channel P self l fd p w =
     c_bind (get_loop w l) (\<lambda>el.
     c_bind (event_loop_remove_channel_event (pl_alloc P) (pl_dispatcher P) (chans w) self (pl_sent P) el fd (Some p)) (\<lambda>(_, el).
     Inr (set_loop l el w)))"

text \<open>
  \<open>channel_write_event_enable\<close> and \<open>channel_write_event_disable\<close> on a channel of the memory: the object the channel belongs to is
  taken for the loop.
\<close>

definition write_event :: "((int \<Rightarrow> bool) \<Rightarrow> 'd event_dispatcher \<Rightarrow> nat \<Rightarrow> bool \<Rightarrow> nat \<Rightarrow> chan_store \<Rightarrow> 'd event_loop \<Rightarrow> chan_ptr \<Rightarrow> (chan_store \<times> 'd event_loop) c_res)
    \<Rightarrow> ('d, 'o) plat \<Rightarrow> nat \<Rightarrow> chan_ptr \<Rightarrow> ('d, 'o) net \<Rightarrow> ('d, 'o) net c_res" where
  "write_event change P self p w =
     c_bind (load (chans w) (Some p)) (\<lambda>c.
     case cdata c of
       LoopPtr l \<Rightarrow>
         c_bind (get_loop w l) (\<lambda>el.
         c_bind (change (pl_alloc P) (pl_dispatcher P) self (pl_sent P) l (chans w) el p) (\<lambda>(ch, el).
         Inr (set_loop l el (w\<lparr>chans := ch\<rparr>))))
     | _ \<Rightarrow> Inl BadCast)"

section \<open>Lemmas\<close>

lemma slot_value_simps [simp]: "slot_value (At a) = Inr a" "slot_value Null = Inl NullDeref" "slot_value Unset = Inl Uninitialised"
  by (simp_all add: slot_value_def)

lemma get_simps [simp]:
  "loops w a = Some el \<Longrightarrow> get_loop w a = Inr el" "conns w a = Some c \<Longrightarrow> get_conn w a = Inr c"
  "servers w a = Some sv \<Longrightarrow> get_server w a = Inr sv" "hservers w a = Some hs \<Longrightarrow> get_hserver w a = Inr hs"
  by (simp_all add: get_loop_def get_conn_def get_server_def get_hserver_def)

lemma set_simps [simp]:
  "conns (set_conn a c w) = (conns w)(a \<mapsto> c)" "loops (set_conn a c w) = loops w" "chans (set_conn a c w) = chans w"
  "servers (set_conn a c w) = servers w" "hservers (set_conn a c w) = hservers w" "brk (set_conn a c w) = brk w" "tids (set_conn a c w) = tids w" "os (set_conn a c w) = os w"
  "loops (set_loop l el w) = (loops w)(l \<mapsto> el)" "conns (set_loop l el w) = conns w" "chans (set_loop l el w) = chans w"
  "servers (set_loop l el w) = servers w" "hservers (set_loop l el w) = hservers w" "brk (set_loop l el w) = brk w" "tids (set_loop l el w) = tids w" "os (set_loop l el w) = os w"
  "servers (set_server a sv w) = (servers w)(a \<mapsto> sv)" "conns (set_server a sv w) = conns w" "loops (set_server a sv w) = loops w" "chans (set_server a sv w) = chans w"
  "hservers (set_server a sv w) = hservers w" "brk (set_server a sv w) = brk w" "tids (set_server a sv w) = tids w" "os (set_server a sv w) = os w"
  by (simp_all add: set_conn_def set_loop_def set_server_def)

section \<open>A sample platform\<close>

text \<open>
  A system with one peer, for concrete runs: its state is the input the peer has sent, what was written to it, and the descriptors whose
  writing side was shut down.
\<close>

definition sample_sys :: "(byte list \<times> byte list \<times> int list) sys" where
  "sample_sys = \<lparr>sys_socket = (\<lambda>w. (3, w)), sys_nonblock = (\<lambda>fd w. w), sys_reuseaddr = (\<lambda>fd w. w),
     sys_bind = (\<lambda>fd sa w. (0, w)), sys_listen = (\<lambda>fd n w. (0, w)), sys_accept = (\<lambda>fd w. (7, w)), sys_connect = (\<lambda>fd sa w. (0, w)),
     sys_ignore_sigpipe = (\<lambda>w. w), sys_pton = (\<lambda>s. None), sys_ntop = (\<lambda>a. Some (bytes_of ''0.0.0.0'')),
     sys_readv = (\<lambda>fd n (inp, out, sd). ((int (length (take (nat n) inp)), take (nat n) inp), (drop (nat n) inp, out, sd))),
     sys_write = (\<lambda>fd bs (inp, out, sd). ((int (length bs), 0), (inp, out @ bs, sd))),
     sys_shutdown = (\<lambda>fd (inp, out, sd). (0, (inp, out, fd # sd))), sys_socketpair = (\<lambda>w. ((5, 6), w)),
     sys_thread = (\<lambda>w. (True, w)), sys_malloc = (\<lambda>n w. (True, w))\<rparr>"

definition sample_plat :: "(poll_dispatcher_data, byte list \<times> byte list \<times> int list) plat" where
  "sample_plat = \<lparr>pl_sys = sample_sys, pl_dispatcher = poll_dispatcher,
     pl_init = poll_init (replicate INIT_POLL_SIZE \<lparr>pfd = 0, pevents = 0, revents = 0\<rparr>), pl_sent = True, pl_alloc = (\<lambda>n. True),
     pl_realloc = zero_realloc, pl_block = (\<lambda>n. replicate n 0), pl_cells = [\<lparr>hkey = [0], hval = [0]\<rparr>], pl_rcells = [],
     pl_behind = (\<lambda>n. [0]), pl_ctype = None, pl_diff = byte_diff\<rparr>"

definition sample_net :: "byte list \<Rightarrow> (poll_dispatcher_data, byte list \<times> byte list \<times> int list) net" where
  "sample_net inp = \<lparr>loops = [0 \<mapsto> empty_loop empty_poll], chans = (\<lambda>p. None), conns = (\<lambda>a. None), servers = (\<lambda>a. None),
     hservers = (\<lambda>a. None), brk = 10, tids = 5, stray = 0, os = (inp, [], [])\<rparr>"

end
