(* ===== verification/Thread_Pool.thy ===== *)
theory Thread_Pool
  imports Net_State
begin

text \<open>
  \<^verbatim>\<open>httptest-geektime/lib/event_loop_thread.c\<close> and \<^verbatim>\<open>thread_pool.c\<close>: threads that each run an event loop, and the pool that hands
  the loops out in turn.  The handshake between the starting and the started thread is a step relation; the
  sequential functions are its outcome.
\<close>

section \<open>Starting a thread\<close>

text \<open>Text of a signed number, and \<open>sprintf\<close> of a literal and a number into a block of 16 bytes.\<close>

definition int_text :: "int \<Rightarrow> byte list" where
  "int_text i = (if i < 0 then 45 # decimal (nat (- i)) else decimal (nat i))"

definition sprintf16 :: "string \<Rightarrow> int \<Rightarrow> byte list c_res" where
  "sprintf16 s i = (let text = bytes_of s @ int_text i in if length text < 16 then Inr text else Inl OutOfBounds)"

definition event_loop_thread_init :: "('d, 'o) plat \<Rightarrow> int \<Rightarrow> ('d, 'o) net \<Rightarrow> (event_loop_thread \<times> ('d, 'o) net) c_res" where
  "event_loop_thread_init P i w =
     c_bind (must_malloc (pl_sys P) 16 (os w)) (\<lambda>o'.
     c_bind (c_int (i + 1)) (\<lambda>n.
     c_bind (sprintf16 ''Thread-'' n) (\<lambda>buf.
     Inr (\<lparr>elt_eventLoop = None, thread_tid = 0, elt_thread_name = buf, thread_count = 0\<rparr>, w\<lparr>os := o'\<rparr>))))"

text \<open>What the new thread \<open>tid\<close> does before it signals: it creates its loop.\<close>

definition string_of :: "byte list \<Rightarrow> string" where
  "string_of bs = map (\<lambda>b. char_of (unat b)) bs"

definition thread_creates_loop :: "('d, 'o) plat \<Rightarrow> nat \<Rightarrow> event_loop_thread \<Rightarrow> ('d, 'o) net \<Rightarrow> (event_loop_thread \<times> ('d, 'o) net) c_res" where
  "thread_creates_loop P tid t w =
     (let l = brk w; p = brk w + 1; (pair, o') = sys_socketpair (pl_sys P) (os w); w = w\<lparr>brk := brk w + 2, os := o'\<rparr> in
      c_bind (event_loop_init_with_name (pl_alloc P) (pl_dispatcher P) (pl_init P) tid pair l p (chans w) (Some (string_of (elt_thread_name t)))) (\<lambda>(ch, el).
      Inr (t\<lparr>elt_eventLoop := Some l\<rparr>, set_loop l el (w\<lparr>chans := ch\<rparr>))))"

text \<open>The steps of the two threads, with the mutex and the condition variable of the \<open>event_loop_thread\<close>.\<close>

datatype starter_pc = Create | Lock | Test | Waiting | Relock | Unlock | Returned

datatype runner_pc = NotStarted | RLock | Init | Signal | RUnlock | Running

datatype owner = Nobody | Starter | Runner

record handshake =
  starter :: starter_pc
  runner :: runner_pc
  held :: owner
  made :: bool

inductive handshake_step :: "handshake \<Rightarrow> handshake \<Rightarrow> bool" where
  create: "starter s = Create \<Longrightarrow> handshake_step s (s\<lparr>starter := Lock, runner := RLock\<rparr>)"
| lock: "starter s = Lock \<Longrightarrow> held s = Nobody \<Longrightarrow> handshake_step s (s\<lparr>starter := Test, held := Starter\<rparr>)"
| wait: "starter s = Test \<Longrightarrow> \<not> made s \<Longrightarrow> handshake_step s (s\<lparr>starter := Waiting, held := Nobody\<rparr>)"
| go_on: "starter s = Test \<Longrightarrow> made s \<Longrightarrow> handshake_step s (s\<lparr>starter := Unlock\<rparr>)"
| relock: "starter s = Relock \<Longrightarrow> held s = Nobody \<Longrightarrow> handshake_step s (s\<lparr>starter := Test, held := Starter\<rparr>)"
| unlock: "starter s = Unlock \<Longrightarrow> handshake_step s (s\<lparr>starter := Returned, held := Nobody\<rparr>)"
| r_lock: "runner s = RLock \<Longrightarrow> held s = Nobody \<Longrightarrow> handshake_step s (s\<lparr>runner := Init, held := Runner\<rparr>)"
| r_init: "runner s = Init \<Longrightarrow> handshake_step s (s\<lparr>runner := Signal, made := True\<rparr>)"
| r_signal: "runner s = Signal \<Longrightarrow>
    handshake_step s (s\<lparr>runner := RUnlock, starter := (if starter s = Waiting then Relock else starter s)\<rparr>)"
| r_unlock: "runner s = RUnlock \<Longrightarrow> handshake_step s (s\<lparr>runner := Running, held := Nobody\<rparr>)"

definition handshake_start :: handshake where
  "handshake_start = \<lparr>starter = Create, runner = NotStarted, held = Nobody, made = False\<rparr>"

text \<open>The outcome: the starter returns with the loop of the thread, or waits for ever if there is none.\<close>

definition event_loop_thread_start :: "('d, 'o) plat \<Rightarrow> event_loop_thread \<Rightarrow> ('d, 'o) net \<Rightarrow> (event_loop_thread \<times> ('d, 'o) net) c_res" where
  "event_loop_thread_start P t w =
     (let (ok, o') = sys_thread (pl_sys P) (os w); tid = tids w; w = w\<lparr>os := o', tids := tids w + 1\<rparr> in
      if \<not> ok then Inl NoReturn
      else thread_creates_loop P tid (t\<lparr>thread_tid := tid\<rparr>) w)"

section \<open>The pool\<close>

definition sizeof_thread_pool :: nat where "sizeof_thread_pool = 40"

definition sizeof_event_loop_thread :: nat where "sizeof_event_loop_thread = 120"

definition thread_pool_new :: "('d, 'o) plat \<Rightarrow> nat \<Rightarrow> int \<Rightarrow> ('d, 'o) net \<Rightarrow> (thread_pool \<times> ('d, 'o) net) c_res" where
  "thread_pool_new P main n w =
     c_bind (must_malloc (pl_sys P) sizeof_thread_pool (os w)) (\<lambda>o'.
     Inr (\<lparr>mainLoop = main, started = 0, thread_number = n, eventLoopThreads = [], position = 0\<rparr>, w\<lparr>os := o'\<rparr>))"

definition start_one :: "('d, 'o) plat \<Rightarrow> nat \<Rightarrow> event_loop_thread list \<times> ('d, 'o) net \<Rightarrow> (event_loop_thread list \<times> ('d, 'o) net) c_res" where
  "start_one P i = (\<lambda>(ts, w).
     c_bind (event_loop_thread_init P (int i) w) (\<lambda>(t, w).
     c_bind (event_loop_thread_start P t w) (\<lambda>(t, w).
     Inr (ts @ [t], w))))"

definition thread_pool_start :: "('d, 'o) plat \<Rightarrow> nat \<Rightarrow> thread_pool \<Rightarrow> ('d, 'o) net \<Rightarrow> (thread_pool \<times> ('d, 'o) net) c_res" where
  "thread_pool_start P self tp w =
     (if started tp \<noteq> 0 then Inl AssertionFailed
      else
        c_bind (get_loop w (mainLoop tp)) (\<lambda>el.
        c_bind (assertInSameThread self el) (\<lambda>_.
        let tp = tp\<lparr>started := 1\<rparr> in
        if thread_number tp \<le> 0 then Inr (tp, w)
        else
          c_bind (must_malloc (pl_sys P) (nat (thread_number tp) * sizeof_event_loop_thread) (os w)) (\<lambda>o'.
          c_bind (c_for (start_one P) (nat (thread_number tp)) ([], w\<lparr>os := o'\<rparr>)) (\<lambda>(ts, w).
          Inr (tp\<lparr>eventLoopThreads := ts\<rparr>, w))))))"

definition thread_pool_get_loop :: "nat \<Rightarrow> thread_pool \<Rightarrow> ('d, 'o) net \<Rightarrow> (nat option \<times> thread_pool) c_res" where
  "thread_pool_get_loop self tp w =
     (if started tp = 0 then Inl AssertionFailed
      else
        c_bind (get_loop w (mainLoop tp)) (\<lambda>el.
        c_bind (assertInSameThread self el) (\<lambda>_.
        let selected = Some (mainLoop tp) in
        if 0 < thread_number tp then
          c_bind (c_read (eventLoopThreads tp) (position tp)) (\<lambda>t.
          let selected = elt_eventLoop t in
          c_bind (c_int (position tp + 1)) (\<lambda>pos.
          Inr (selected, tp\<lparr>position := (if thread_number tp \<le> pos then 0 else pos)\<rparr>)))
        else Inr (selected, tp))))"

section \<open>The handshake\<close>

text \<open>The waiting thread may also wake up without a signal.\<close>

inductive handshake_reach :: "handshake \<Rightarrow> bool" where
  start: "handshake_reach handshake_start"
| step: "handshake_reach s \<Longrightarrow> handshake_step s t \<Longrightarrow> handshake_reach t"
| spurious: "handshake_reach s \<Longrightarrow> starter s = Waiting \<Longrightarrow> handshake_reach (s\<lparr>starter := Relock\<rparr>)"

text \<open>Who holds the mutex, when the loop is there, and that a waiting starter has not missed the signal.\<close>

definition handshake_inv :: "handshake \<Rightarrow> bool" where
  "handshake_inv s \<longleftrightarrow>
     (starter s = Create \<longleftrightarrow> runner s = NotStarted) \<and>
     (held s = Starter \<longleftrightarrow> starter s \<in> {Test, Unlock}) \<and>
     (held s = Runner \<longleftrightarrow> runner s \<in> {Init, Signal, RUnlock}) \<and>
     (made s \<longleftrightarrow> runner s \<in> {Signal, RUnlock, Running}) \<and>
     (starter s = Waiting \<longrightarrow> runner s \<in> {RLock, Init, Signal}) \<and>
     (starter s \<in> {Unlock, Returned} \<longrightarrow> made s)"

lemma handshake_reach_inv: "handshake_reach s \<Longrightarrow> handshake_inv s"
proof (induction rule: handshake_reach.induct)
  case start
  show ?case by (simp add: handshake_inv_def handshake_start_def)
next
  case (step s t)
  from step(2) have "runner s = NotStarted \<or> runner s = RLock \<or> runner s = Init \<or> runner s = Signal \<or> runner s = RUnlock \<or> runner s = Running"
    by (cases "runner s") auto
  with step(2,3) show ?case by (cases rule: handshake_step.cases) (auto simp: handshake_inv_def)
next
  case (spurious s)
  then show ?case by (auto simp: handshake_inv_def)
qed

text \<open>The steps left, counted so that the signal pays for the way of a woken starter back to its test.\<close>

primrec starter_work :: "starter_pc \<Rightarrow> nat" where
  "starter_work Create = 5" | "starter_work Lock = 4" | "starter_work Test = 3" | "starter_work Waiting = 2" | "starter_work Relock = 4"
| "starter_work Unlock = 1" | "starter_work Returned = 0"

primrec runner_work :: "runner_pc \<Rightarrow> nat" where
  "runner_work NotStarted = 7" | "runner_work RLock = 7" | "runner_work Init = 6" | "runner_work Signal = 5" | "runner_work RUnlock = 1"
| "runner_work Running = 0"

definition handshake_work :: "handshake \<Rightarrow> nat" where
  "handshake_work s = starter_work (starter s) + runner_work (runner s)"

lemma handshake_step_work: "handshake_reach s \<Longrightarrow> handshake_step s t \<Longrightarrow> handshake_work t < handshake_work s"
  by (drule handshake_reach_inv, erule handshake_step.cases) (auto simp: handshake_work_def handshake_inv_def)

lemma handshake_run_work: "handshake_reach s \<Longrightarrow> (handshake_step ^^ m) s t \<Longrightarrow> handshake_reach t \<and> handshake_work t + m \<le> handshake_work s"
proof (induction m arbitrary: t)
  case (Suc m)
  from Suc.prems(2) obtain u where u: "(handshake_step ^^ m) s u" "handshake_step u t" by auto
  from Suc.IH [OF Suc.prems(1) u(1)] handshake_step_work [OF _ u(2)] u(2) show ?case by (auto intro: handshake_reach.step)
qed simp

text \<open>Only a starter that has returned and a thread that runs its loop have no step left.\<close>

lemma handshake_rest:
  assumes inv: "handshake_inv s" and rest: "\<nexists>t. handshake_step s t"
  shows "starter s = Returned" "runner s = Running" "held s = Nobody"
proof -
  have st: "starter s \<noteq> Create" "starter s \<noteq> Test" "starter s \<noteq> Unlock"
    using rest handshake_step.create [of s] handshake_step.wait [of s] handshake_step.go_on [of s] handshake_step.unlock [of s] by blast+
  have rn: "runner s \<noteq> Init" "runner s \<noteq> Signal" "runner s \<noteq> RUnlock"
    using rest handshake_step.r_init [of s] handshake_step.r_signal [of s] handshake_step.r_unlock [of s] by blast+
  show free: "held s = Nobody" using inv st rn by (cases "held s") (simp_all add: handshake_inv_def)
  then have "starter s \<noteq> Lock" "starter s \<noteq> Relock" "runner s \<noteq> RLock"
    using rest handshake_step.lock [of s] handshake_step.relock [of s] handshake_step.r_lock [of s] by blast+
  with st rn inv show "starter s = Returned" "runner s = Running"
    by (cases "starter s"; cases "runner s"; simp add: handshake_inv_def)+
qed

section \<open>A started pool\<close>

lemma do_channel_event_owner:
  "event_loop_do_channel_event alloc D ch self sent el fd p type = Inr (r, el') \<Longrightarrow> owner_thread_id el' = owner_thread_id el"
proof -
  assume a: "event_loop_do_channel_event alloc D ch self sent el fd p type = Inr (r, el')"
  then obtain el1 where 1: "buffer_locked el fd p type = Inr el1"
    and 2: "(if \<not> isInSameThread self el1 then Inr (0, event_loop_wakeup sent el1)
      else c_bind (event_loop_handle_pending_channel alloc D ch el1) (\<lambda>(_, el). Inr (0, el))) = Inr (r, el')"
    by (auto simp: event_loop_do_channel_event_def)
  from 1 have "owner_thread_id el1 = owner_thread_id el"
    by (auto simp: buffer_locked_def lock_def unlock_def event_loop_channel_buffer_nolock_def Let_def split: if_splits option.splits)
  moreover from 2 have "owner_thread_id el' = owner_thread_id el1"
    by (auto simp: event_loop_wakeup_def event_loop_handle_pending_channel_def lock_def unlock_def Let_def
        split: if_splits dest!: pending_loop_frame same_frame_fields(6))
  ultimately show ?thesis by simp
qed

lemma init_owner: "event_loop_init_with_name alloc D init self pair l p ch name = Inr (ch', el) \<Longrightarrow> owner_thread_id el = self"
  by (auto simp: event_loop_init_with_name_def event_loop_add_channel_event_def Let_def dest!: do_channel_event_owner)

text \<open>A platform on which nothing runs out, with the \<open>poll\<close> dispatcher.\<close>

definition poll_plat :: "(poll_dispatcher_data, 'o) plat \<Rightarrow> bool" where
  "poll_plat P \<longleftrightarrow> (\<forall>n w. fst (sys_malloc (pl_sys P) n w)) \<and> (\<forall>w. fst (sys_thread (pl_sys P) w)) \<and> (\<forall>n. pl_alloc P n) \<and>
     (\<forall>w. 0 \<le> snd (fst (sys_socketpair (pl_sys P) w)) \<and> snd (fst (sys_socketpair (pl_sys P) w)) < 2 ^ 27) \<and>
     pl_dispatcher P = poll_dispatcher \<and> (\<exists>cells. pl_init P = poll_init cells \<and> length cells = INIT_POLL_SIZE)"

lemma must_malloc_ok: "(\<forall>n w. fst (sys_malloc S n w)) \<Longrightarrow> \<exists>w'. must_malloc S n w = Inr w'"
proof -
  assume "\<forall>n w. fst (sys_malloc S n w)"
  then have "fst (sys_malloc S n w)" by blast
  then obtain w' where "sys_malloc S n w = (True, w')" by (metis prod.collapse)
  then show ?thesis by (simp add: must_malloc_def)
qed

lemma poll_platD:
  assumes "poll_plat P"
  shows "\<exists>w'. must_malloc (pl_sys P) n w = Inr w'" "\<exists>w'. sys_thread (pl_sys P) w = (True, w')" "\<forall>n. pl_alloc P n" "pl_dispatcher P = poll_dispatcher"
    and "0 \<le> snd (fst (sys_socketpair (pl_sys P) w))" "snd (fst (sys_socketpair (pl_sys P) w)) < 2 ^ 27"
    and "\<exists>d. pl_init P = Inr d \<and> poll_inv d \<and> poll_reg d = (\<lambda>fd. None)"
proof -
  have m: "\<forall>n w. fst (sys_malloc (pl_sys P) n w)" and t: "\<forall>w. fst (sys_thread (pl_sys P) w)"
    and p: "\<forall>w. 0 \<le> snd (fst (sys_socketpair (pl_sys P) w)) \<and> snd (fst (sys_socketpair (pl_sys P) w)) < 2 ^ 27"
    and i: "\<exists>cells. pl_init P = poll_init cells \<and> length cells = INIT_POLL_SIZE"
    using assms by (simp_all add: poll_plat_def)
  show "\<exists>w'. must_malloc (pl_sys P) n w = Inr w'" using m by (rule must_malloc_ok)
  show "\<exists>w'. sys_thread (pl_sys P) w = (True, w')" using spec [OF t, of w] by (metis prod.collapse)
  show "0 \<le> snd (fst (sys_socketpair (pl_sys P) w))" "snd (fst (sys_socketpair (pl_sys P) w)) < 2 ^ 27" using p by simp_all
  from i obtain cells where "pl_init P = poll_init cells" "length cells = INIT_POLL_SIZE" by (elim exE conjE)
  with poll_init_law [of cells] show "\<exists>d. pl_init P = Inr d \<and> poll_inv d \<and> poll_reg d = (\<lambda>fd. None)" by simp
qed (use assms in \<open>simp_all add: poll_plat_def\<close>)

lemma thread_name_fits: "i < 10 ^ 8 - 1 \<Longrightarrow> \<exists>b. sprintf16 ''Thread-'' (int i + 1) = Inr b"
proof -
  assume i: "i < 10 ^ 8 - 1"
  have "length (decimal (nat (int i + 1))) \<le> 8" by (rule decimal_length) (use i in simp_all)
  then show ?thesis by (simp add: sprintf16_def int_text_def bytes_of_def)
qed

text \<open>A loop over \<open>poll\<close> at rest, run by its owner.\<close>

definition poll_ready :: "(int \<Rightarrow> bool) \<Rightarrow> chan_store \<Rightarrow> nat \<Rightarrow> poll_dispatcher_data event_loop \<Rightarrow> bool" where
  "poll_ready alloc ch self el \<longleftrightarrow> (\<forall>n. alloc n) \<and> loop_inv poll_inv poll_reg ch el \<and> pending_inv el [] \<and> idle el \<and> owner_thread_id el = self"

text \<open>A loop stays in order when channels are added elsewhere.\<close>

lemma poll_ready_chans:
  assumes "poll_ready alloc ch self el" and "\<And>fd p. fst (loop_reg poll_reg el) fd = Some p \<Longrightarrow> ch' p = ch p"
  shows "poll_ready alloc ch' self el"
  using assms by (auto simp: poll_ready_def loop_inv_def loop_reg_def)

lemma do_init_chans:
  "event_loop_init_with_name alloc D init self pair l p ch name = Inr (ch', el) \<Longrightarrow>
    ch' = ch(p \<mapsto> channel_new (snd pair) EVENT_READ (Some HandleWakeup) None (LoopPtr l))"
  by (auto simp: event_loop_init_with_name_def Let_def)

text \<open>Starting threads leaves older objects alone.\<close>

definition older_same :: "('d, 'o) net \<Rightarrow> ('d, 'o) net \<Rightarrow> bool" where
  "older_same w w' \<longleftrightarrow> brk w \<le> brk w' \<and> (\<forall>a < brk w. chans w' a = chans w a \<and> loops w' a = loops w a) \<and>
     servers w' = servers w \<and> hservers w' = hservers w \<and> conns w' = conns w"

lemma older_same_trans: "older_same w w1 \<Longrightarrow> older_same w1 w2 \<Longrightarrow> older_same w w2"
  by (auto simp: older_same_def)

lemma creates_loop_older:
  assumes "thread_creates_loop P tid t1 w = Inr (t', w')"
  shows "older_same w w'"
proof -
  obtain pair o' where sp: "sys_socketpair (pl_sys P) (os w) = (pair, o')" by fastforce
  with assms obtain ch el where i: "event_loop_init_with_name (pl_alloc P) (pl_dispatcher P) (pl_init P) tid pair (brk w) (brk w + 1) (chans w)
      (Some (string_of (elt_thread_name t1))) = Inr (ch, el)"
    and w': "w' = set_loop (brk w) el (w\<lparr>brk := brk w + 2, os := o', chans := ch\<rparr>)"
    by (auto simp: thread_creates_loop_def Let_def)
  with do_init_chans [OF i] show ?thesis by (simp add: older_same_def)
qed

lemma start_one_older:
  assumes "start_one P i (ts, w) = Inr (ts', w')"
  shows "older_same w w'"
proof -
  from assms obtain t1 o1 t2 where s: "event_loop_thread_start P t1 (w\<lparr>os := o1\<rparr>) = Inr (t2, w')"
    by (auto simp: start_one_def event_loop_thread_init_def)
  obtain ok o' where th: "sys_thread (pl_sys P) o1 = (ok, o')" by fastforce
  with s have "thread_creates_loop P (tids w) (t1\<lparr>thread_tid := tids w\<rparr>) (w\<lparr>os := o', tids := tids w + 1\<rparr>) = Inr (t2, w')"
    by (auto simp: event_loop_thread_start_def Let_def split: if_splits)
  from creates_loop_older [OF this] show ?thesis by (simp add: older_same_def)
qed

lemma start_all_older: "c_for (start_one P) n (ts, w) = Inr (ts', w') \<Longrightarrow> older_same w w'"
proof (induction n arbitrary: ts' w')
  case (Suc n)
  then obtain ts1 w1 where "c_for (start_one P) n (ts, w) = Inr (ts1, w1)" "start_one P n (ts1, w1) = Inr (ts', w')" by auto
  with Suc.IH start_one_older show ?case by (blast intro: older_same_trans)
qed (simp add: older_same_def)

text \<open>A loop the thread \<open>tid\<close> has just created, at \<open>l\<close>: only its wake-up descriptor is registered.\<close>

definition fresh_loop :: "(poll_dispatcher_data, 'o) plat \<Rightarrow> nat \<Rightarrow> nat \<Rightarrow> (poll_dispatcher_data, 'o) net \<Rightarrow> bool" where
  "fresh_loop P tid l w \<longleftrightarrow> l < brk w \<and> (\<exists>el wfd q o'. loops w l = Some el \<and> poll_ready (pl_alloc P) (chans w) tid el \<and>
     loop_reg poll_reg el = ([wfd \<mapsto> q], [wfd \<mapsto> (True, False)]) \<and> wfd = snd (fst (sys_socketpair (pl_sys P) o')) \<and> q < brk w \<and>
     chans w q = Some (channel_new wfd EVENT_READ (Some HandleWakeup) None (LoopPtr l)))"

lemma fresh_loop_frame:
  assumes "fresh_loop P tid l w" and "brk w \<le> brk w'" "loops w' l = loops w l" "\<And>a. a < brk w \<Longrightarrow> chans w' a = chans w a"
  shows "fresh_loop P tid l w'"
proof -
  from assms(1) obtain el wfd q o' where f: "l < brk w" "loops w l = Some el" "poll_ready (pl_alloc P) (chans w) tid el"
    "loop_reg poll_reg el = ([wfd \<mapsto> q], [wfd \<mapsto> (True, False)])" "wfd = snd (fst (sys_socketpair (pl_sys P) o'))" "q < brk w"
    "chans w q = Some (channel_new wfd EVENT_READ (Some HandleWakeup) None (LoopPtr l))" unfolding fresh_loop_def by blast
  have o: "brk w \<le> brk w'" "chans w' q = chans w q" "loops w' l = loops w l" using assms(2-4) f(6) by simp_all
  have "poll_ready (pl_alloc P) (chans w') tid el"
    by (rule poll_ready_chans [OF f(3)]) (use f(4) o(2) in \<open>auto split: if_splits\<close>)
  with f o show ?thesis unfolding fresh_loop_def by (intro conjI exI [of _ el] exI [of _ wfd] exI [of _ q] exI [of _ o']) simp_all
qed

lemma fresh_loop_older: "fresh_loop P tid l w \<Longrightarrow> older_same w w' \<Longrightarrow> fresh_loop P tid l w'"
proof -
  assume f: "fresh_loop P tid l w" and o: "older_same w w'"
  from f have "l < brk w" by (simp add: fresh_loop_def)
  with o show ?thesis by (intro fresh_loop_frame [OF f]) (simp_all add: older_same_def)
qed

lemma start_one_ok:
  assumes P: "poll_plat P" and i: "i < 10 ^ 8 - 1"
  shows "\<exists>t w'. start_one P i (ts, w) = Inr (ts @ [t], w') \<and> elt_eventLoop t = Some (brk w) \<and> fresh_loop P (tids w) (brk w) w' \<and>
     brk w' = brk w + 2 \<and> tids w' = tids w + 1"
proof -
  obtain o1 where o1: "must_malloc (pl_sys P) 16 (os w) = Inr o1" using poll_platD(1) [OF P] ..
  obtain b where b: "sprintf16 ''Thread-'' (int i + 1) = Inr b" using thread_name_fits [OF i] ..
  have ci: "c_int (int i + 1) = Inr (int i + 1)" using i by (simp add: c_int_defs)
  obtain o2 where o2: "sys_thread (pl_sys P) o1 = (True, o2)" using poll_platD(2) [OF P] ..
  obtain pair o3 where o3: "sys_socketpair (pl_sys P) o2 = (pair, o3)" by fastforce
  have pr: "0 \<le> snd pair" "snd pair < 2 ^ 27" using poll_platD(5,6) [OF P, of o2] o3 by simp_all
  obtain d where d: "pl_init P = Inr d" "poll_inv d" "poll_reg d = (\<lambda>fd. None)" using poll_platD(7) [OF P] by (elim exE conjE)
  note D = poll_platD(4) [OF P] and al = poll_platD(3) [OF P]
  have room: "poll_room {} (snd pair)" by (simp add: poll_room_def INIT_POLL_SIZE_def)
  let ?c = "channel_new (snd pair) EVENT_READ (Some HandleWakeup) None (LoopPtr (brk w))"
  let ?ch = "(chans w)(brk w + 1 \<mapsto> ?c)"
  obtain el where el: "event_loop_init_with_name (pl_alloc P) poll_dispatcher (Inr d) (tids w) pair (brk w) (brk w + 1) (chans w) (Some (string_of b)) = Inr (?ch, el)"
    "loop_inv poll_inv poll_reg ?ch el" "pending_inv el []" "idle el" "loop_reg poll_reg el = ([snd pair \<mapsto> (brk w + 1)], [snd pair \<mapsto> (True, False)])"
    using poll.init_registers [OF al d(2,3) room pr] by blast
  let ?w = "set_loop (brk w) el (w\<lparr>tids := tids w + 1, brk := brk w + 2, os := o3, chans := ?ch\<rparr>)"
  have "poll_ready (pl_alloc P) ?ch (tids w) el" using init_owner [OF el(1)] el(2-4) al by (simp add: poll_ready_def)
  moreover have "snd pair = snd (fst (sys_socketpair (pl_sys P) o2))" by (simp add: o3)
  ultimately have "fresh_loop P (tids w) (brk w) ?w" using el(5)
    unfolding fresh_loop_def by (intro conjI exI [of _ el] exI [of _ "snd pair"] exI [of _ "brk w + 1"] exI [of _ o2]) simp_all
  moreover have "start_one P i (ts, w) = Inr (ts @ [\<lparr>elt_eventLoop = Some (brk w), thread_tid = tids w, elt_thread_name = b, thread_count = 0\<rparr>], ?w)"
    unfolding start_one_def prod.case event_loop_thread_init_def o1 ci c_bind_simps b
    using o2 o3 el(1) d(1) D
    by (simp add: event_loop_thread_start_def thread_creates_loop_def Let_def del: c_bind_eq_Inr_iff)
  ultimately show ?thesis by (intro exI conjI) (assumption, simp_all)
qed

text \<open>The loops the pool gives in so many calls.\<close>

primrec get_loops :: "nat \<Rightarrow> ('d, 'o) net \<Rightarrow> nat \<Rightarrow> thread_pool \<Rightarrow> (nat option list \<times> thread_pool) c_res" where
  "get_loops self w 0 tp = Inr ([], tp)"
| "get_loops self w (Suc k) tp =
     c_bind (get_loops self w k tp) (\<lambda>(ls, tp). c_bind (thread_pool_get_loop self tp w) (\<lambda>(l, tp). Inr (ls @ [l], tp)))"

definition pool_of :: "nat \<Rightarrow> nat list \<Rightarrow> thread_pool \<Rightarrow> bool" where
  "pool_of i ls tp \<longleftrightarrow> started tp = 1 \<and> thread_number tp = int (length ls) \<and> position tp = int (i mod length ls) \<and>
     map elt_eventLoop (eventLoopThreads tp) = map Some ls"

lemma get_loop_turn:
  assumes "pool_of i ls tp" and "ls \<noteq> []" and "length ls < 10 ^ 8" and "loops w (mainLoop tp) = Some el" and "owner_thread_id el = self"
  shows "\<exists>tp'. thread_pool_get_loop self tp w = Inr (Some (ls ! (i mod length ls)), tp') \<and> pool_of (Suc i) ls tp' \<and> mainLoop tp' = mainLoop tp"
proof -
  let ?n = "length ls" and ?p = "i mod length ls"
  have p: "?p < ?n" using assms(2) by simp
  from assms(1) have f: "started tp = 1" "thread_number tp = int ?n" "position tp = int ?p" and ts: "map elt_eventLoop (eventLoopThreads tp) = map Some ls"
    by (simp_all add: pool_of_def)
  then have len: "length (eventLoopThreads tp) = ?n" by (metis length_map)
  have at: "elt_eventLoop (eventLoopThreads tp ! ?p) = Some (ls ! ?p)" using ts p len by (metis nth_map)
  have ci: "c_int (int ?p + 1) = Inr (int ?p + 1)" using p assms(3) by (simp add: c_int_defs)
  have "(if ?n \<le> Suc ?p then 0 else Suc ?p) = Suc i mod ?n" using p by (simp add: mod_Suc)
  then have nx: "(if int ?n \<le> int ?p + 1 then 0 else int ?p + 1) = int (Suc i mod ?n)" by (auto split: if_splits)
  have "thread_pool_get_loop self tp w = Inr (Some (ls ! ?p), tp\<lparr>position := int (Suc i mod ?n)\<rparr>)"
    using f len at ci p assms(2,4,5) nx by (simp add: thread_pool_get_loop_def assertInSameThread_def c_read_def)
  then show ?thesis using f ts by (simp add: pool_of_def)
qed

lemma get_loops_turns:
  assumes "pool_of 0 ls tp" and "ls \<noteq> []" and "length ls < 10 ^ 8" and "loops w (mainLoop tp) = Some el" and "owner_thread_id el = self"
  shows "\<exists>tp'. get_loops self w k tp = Inr (map (\<lambda>i. Some (ls ! (i mod length ls))) [0..<k], tp') \<and> pool_of k ls tp' \<and> mainLoop tp' = mainLoop tp"
proof (induction k)
  case (Suc k)
  then obtain tp1 where tp1: "get_loops self w k tp = Inr (map (\<lambda>i. Some (ls ! (i mod length ls))) [0..<k], tp1)" "pool_of k ls tp1" "mainLoop tp1 = mainLoop tp"
    by blast
  from get_loop_turn [OF tp1(2) assms(2,3), of w el self] tp1(3) assms(4,5) obtain tp2 where
    "thread_pool_get_loop self tp1 w = Inr (Some (ls ! (k mod length ls)), tp2)" "pool_of (Suc k) ls tp2" "mainLoop tp2 = mainLoop tp" by auto
  with tp1 show ?case by simp
qed (use assms in simp)

lemma start_all_ok:
  fixes w :: "(poll_dispatcher_data, 'o) net"
  assumes P: "poll_plat P" and n: "n < 10 ^ 8"
  shows "\<exists>ts w'. c_for (start_one P) n ([], w) = Inr (ts, w') \<and> map elt_eventLoop ts = map Some (map (\<lambda>i. brk w + 2 * i) [0..<n]) \<and>
     (\<forall>i < n. fresh_loop P (tids w + i) (brk w + 2 * i) w') \<and> older_same w w'"
proof -
  let ?P = "\<lambda>k (ts :: event_loop_thread list, w' :: (poll_dispatcher_data, 'o) net). map elt_eventLoop ts = map Some (map (\<lambda>i. brk w + 2 * i) [0..<k]) \<and>
     (\<forall>i < k. fresh_loop P (tids w + i) (brk w + 2 * i) w') \<and> older_same w w' \<and> brk w' = brk w + 2 * k \<and> tids w' = tids w + k"
  have "\<exists>s'. c_for (start_one P) n ([], w) = Inr s' \<and> ?P n s'"
  proof (rule c_for_inv [where P = ?P])
    fix k s
    assume k: "k < n" and s: "?P k s"
    obtain ts w1 where sw: "s = (ts, w1)" by fastforce
    from s have s1: "map elt_eventLoop ts = map Some (map (\<lambda>i. brk w + 2 * i) [0..<k])" "\<forall>i < k. fresh_loop P (tids w + i) (brk w + 2 * i) w1"
      "older_same w w1" "brk w1 = brk w + 2 * k" "tids w1 = tids w + k" by (simp_all add: sw)
    from k n have "k < 10 ^ 8 - 1" by linarith
    from start_one_ok [OF P this] obtain t w2 where
      2: "start_one P k (ts, w1) = Inr (ts @ [t], w2)" "elt_eventLoop t = Some (brk w1)" "fresh_loop P (tids w1) (brk w1) w2" "brk w2 = brk w1 + 2"
        "tids w2 = tids w1 + 1" by blast
    have o: "older_same w1 w2" by (rule start_one_older [OF 2(1)])
    have "fresh_loop P (tids w + i) (brk w + 2 * i) w2" if "i < Suc k" for i
    proof (cases "i = k")
      case True
      then show ?thesis using 2(3) s1(4,5) by simp
    next
      case False
      with that s1(2) have "fresh_loop P (tids w + i) (brk w + 2 * i) w1" by simp
      then show ?thesis using o by (rule fresh_loop_older)
    qed
    then have "?P (Suc k) (ts @ [t], w2)" using s1 2(2,4,5) older_same_trans [OF s1(3) o] by simp
    with 2(1) sw show "\<exists>s'. start_one P k s = Inr s' \<and> ?P (Suc k) s'" by blast
  qed (simp add: older_same_def)
  then show ?thesis by auto
qed

section \<open>Properties\<close>

text \<open>
  C36. The start of a loop's thread: in every state that the two threads reach, in any interleaving and with wake-ups without a signal before, the starter has
  returned only if the loop exists, and a starter that sleeps beside a finished loop has its signal still to come.  From there on every run of the two
  threads, without such wake-ups, is bounded and stops only when the starter has returned and the new thread runs its loop with the mutex free: the signal
  is not lost.
\<close>

theorem thread_start_handshake:
  assumes "handshake_reach s"
  shows "(starter s = Returned \<longrightarrow> made s) \<and> (starter s = Waiting \<and> made s \<longrightarrow> runner s = Signal) \<and>
    (\<forall>m t. (handshake_step ^^ m) s t \<longrightarrow> m \<le> handshake_work s) \<and>
    ((\<nexists>t. handshake_step s t) \<longrightarrow> starter s = Returned \<and> runner s = Running \<and> held s = Nobody)"
proof -
  have inv: "handshake_inv s" using assms by (rule handshake_reach_inv)
  then have "starter s = Returned \<longrightarrow> made s" "starter s = Waiting \<and> made s \<longrightarrow> runner s = Signal" by (auto simp: handshake_inv_def)
  moreover have "m \<le> handshake_work s" if "(handshake_step ^^ m) s t" for m t using handshake_run_work [OF assms that] by simp
  moreover note handshake_rest [OF inv]
  ultimately show ?thesis by blast
qed

theorem thread_start_handshake_witness: "\<not> (\<exists>t. (handshake_step ^^ 13) handshake_start t)"
proof -
  have "handshake_work handshake_start = 12" by (simp add: handshake_work_def handshake_start_def)
  with thread_start_handshake [OF handshake_reach.start] show ?thesis by fastforce
qed

lemma poll_plat_sample: "poll_plat sample_plat"
  unfolding poll_plat_def by (intro conjI allI exI [of _ "replicate INIT_POLL_SIZE \<lparr>pfd = 0, pevents = 0, revents = 0\<rparr>"])
    (simp_all add: sample_plat_def sample_sys_def)

text \<open>
  C13. Starting a pool of \<open>n\<close> threads, \<open>0 < n < 10 ^ 8\<close>, with the \<open>poll\<close> dispatcher and resources that suffice returns; the pool has \<open>n\<close>
  distinct loops, each owned by a thread of its own and with only its wake-up descriptor registered; and successive calls of
  \<open>thread_pool_get_loop\<close> give the loops in turn, call \<open>i\<close> the loop \<open>i mod n\<close>.
\<close>

theorem thread_pool_round_robin:
  assumes P: "poll_plat P" and tp: "started tp = 0" "thread_number tp = int n" "position tp = 0" and n: "0 < n" "n < 10 ^ 8"
    and main: "mainLoop tp < brk w" "loops w (mainLoop tp) = Some el" "owner_thread_id el = self"
  shows "\<exists>tp' w' ls. thread_pool_start P self tp w = Inr (tp', w') \<and> length ls = n \<and> distinct ls \<and>
    (\<forall>i < n. fresh_loop P (tids w + i) (ls ! i) w') \<and>
    (\<forall>k. \<exists>tp''. get_loops self w' k tp' = Inr (map (\<lambda>i. Some (ls ! (i mod n))) [0..<k], tp''))"
proof -
  let ?ls = "map (\<lambda>i. brk w + 2 * i) [0..<n]"
  obtain o1 where o1: "must_malloc (pl_sys P) (n * sizeof_event_loop_thread) (os w) = Inr o1" using poll_platD(1) [OF P] ..
  obtain ts w' where ts: "c_for (start_one P) n ([], w\<lparr>os := o1\<rparr>) = Inr (ts, w')" "map elt_eventLoop ts = map Some ?ls"
    "\<forall>i < n. fresh_loop P (tids w + i) (brk w + 2 * i) w'" "older_same (w\<lparr>os := o1\<rparr>) w'"
    using start_all_ok [OF P n(2), of "w\<lparr>os := o1\<rparr>"] by auto
  let ?tp = "tp\<lparr>started := 1, eventLoopThreads := ts\<rparr>"
  have run: "thread_pool_start P self tp w = Inr (?tp, w')"
    using tp n(1) main(2,3) o1 ts(1) by (simp add: thread_pool_start_def assertInSameThread_def del: c_bind_eq_Inr_iff)
  have "pool_of 0 ?ls ?tp" using tp ts(2) by (simp add: pool_of_def)
  moreover have "loops w' (mainLoop ?tp) = Some el" using ts(4) main(1,2) by (simp add: older_same_def)
  ultimately have "\<exists>tp''. get_loops self w' k ?tp = Inr (map (\<lambda>i. Some (?ls ! (i mod n))) [0..<k], tp'')" for k
    using get_loops_turns [of ?ls ?tp w' el self k] n main(3) by auto
  moreover have "length ?ls = n" "distinct ?ls" by (auto simp: distinct_map inj_on_def)
  moreover have "\<forall>i < n. fresh_loop P (tids w + i) (?ls ! i) w'" using ts(3) by simp
  ultimately show ?thesis using run by blast
qed

theorem thread_pool_round_robin_witness:
  "\<exists>tp' w' ls. thread_pool_start sample_plat 1 \<lparr>mainLoop = 0, started = 0, thread_number = 2, eventLoopThreads = [], position = 0\<rparr> (sample_net [])
      = Inr (tp', w') \<and> length ls = 2 \<and> (\<exists>tp''. get_loops 1 w' 3 tp' = Inr ([Some (ls ! 0), Some (ls ! 1), Some (ls ! 0)], tp''))"
proof -
  note P = poll_plat_sample
  let ?tp = "\<lparr>mainLoop = 0, started = 0, thread_number = 2, eventLoopThreads = [], position = 0\<rparr>"
  have main: "owner_thread_id (empty_loop empty_poll) = 1" "loops (sample_net []) (mainLoop ?tp) = Some (empty_loop empty_poll)" "brk (sample_net []) = 10"
    by (simp_all add: sample_net_def empty_loop_def)
  obtain tp' w' ls where t: "thread_pool_start sample_plat 1 ?tp (sample_net []) = Inr (tp', w')" "length ls = 2"
    "\<forall>k. \<exists>tp''. get_loops 1 w' k tp' = Inr (map (\<lambda>i. Some (ls ! (i mod 2))) [0..<k], tp'')"
    using thread_pool_round_robin [OF P _ _ _ _ _ _ main(2,1), of 2] main(3) by auto
  have "map (\<lambda>i. Some (ls ! (i mod 2))) [0..<3] = [Some (ls ! 0), Some (ls ! 1), Some (ls ! 0)]" by (simp add: upt_rec)
  with t(3) have "\<exists>tp''. get_loops 1 w' 3 tp' = Inr ([Some (ls ! 0), Some (ls ! 1), Some (ls ! 0)], tp'')" by metis
  with t(1,2) show ?thesis by blast
qed

end
