(* ===== verification/Tcp_Connection.thy ===== *)
theory Tcp_Connection
  imports Thread_Pool
begin

text \<open>
  \<^verbatim>\<open>httptest-geektime/lib/tcp_connection.c\<close>: the connection object, its handlers for reading and writing, and the calls the
  application sends with.  \<open>self\<close> is the thread that runs the code, \<open>a\<close> the address of the connection; \<open>run\<close> calls a
  callback of the application.
\<close>

section \<open>Creation\<close>

definition sizeof_tcp_connection :: nat where "sizeof_tcp_connection = 96"

definition sizeof_channel :: nat where "sizeof_channel = 32"

definition sizeof_buffer :: nat where "sizeof_buffer = 24"

text \<open>\<open>buffer_new\<close> on the platform.\<close>

definition new_buffer :: "('d, 'o) plat \<Rightarrow> ('d, 'o) net \<Rightarrow> buffer option \<times> ('d, 'o) net" where
  "new_buffer P w =
     (let (ok, o1) = sys_malloc (pl_sys P) sizeof_buffer (os w) in
      if \<not> ok then (buffer_new False None, w\<lparr>os := o1\<rparr>)
      else let (okd, o2) = sys_malloc (pl_sys P) INIT_BUFFER_SIZE o1
           in (buffer_new True (if okd then Some (pl_block P INIT_BUFFER_SIZE) else None), w\<lparr>os := o2\<rparr>))"

definition call_back :: "(conn_callback \<Rightarrow> nat \<Rightarrow> ('d, 'o) net \<Rightarrow> ('d, 'o) net c_res) \<Rightarrow> conn_callback option \<Rightarrow> nat \<Rightarrow> ('d, 'o) net
    \<Rightarrow> ('d, 'o) net c_res" where
  "call_back run f a w = (case f of None \<Rightarrow> Inr w | Some f \<Rightarrow> run f a w)"

definition tcp_connection_new :: "('d, 'o) plat \<Rightarrow> nat \<Rightarrow> (conn_callback \<Rightarrow> nat \<Rightarrow> ('d, 'o) net \<Rightarrow> ('d, 'o) net c_res) \<Rightarrow> int \<Rightarrow> nat
    \<Rightarrow> conn_callback option \<Rightarrow> conn_callback option \<Rightarrow> conn_callback option \<Rightarrow> conn_callback option \<Rightarrow> ('d, 'o) net \<Rightarrow> (nat \<times> ('d, 'o) net) c_res" where
  "tcp_connection_new P self run connected_fd l completed on_closed message write_completed w =
     c_bind (new_object P sizeof_tcp_connection w) (\<lambda>(a, w).
     let (ib, w) = new_buffer P w; (ob, w) = new_buffer P w in
     c_bind (must_malloc (pl_sys P) 16 (os w)) (\<lambda>o'.
     let w = w\<lparr>os := o'\<rparr> in
     c_bind (sprintf16 ''connection-'' connected_fd) (\<lambda>buf.
     c_bind (new_object P sizeof_channel w) (\<lambda>(p, w).
     let w = w\<lparr>chans := (chans w)(p \<mapsto> channel_new connected_fd EVENT_READ (Some HandleRead) (Some HandleWrite) (ConnPtr a))\<rparr>;
         w = set_conn a \<lparr>tc_eventLoop = l, tc_channel = p, tc_name = buf, input_buffer = ib, output_buffer = ob,
               tc_connectionCompletedCallBack = completed, tc_messageCallBack = message, tc_writeCompletedCallBack = write_completed,
               tc_connectionClosedCallBack = on_closed, tc_data = Unset, tc_request = Unset, tc_response = Unset\<rparr> w
     in c_bind (call_back run completed a w) (\<lambda>w.
        c_bind (get_conn w a) (\<lambda>tc.
        c_bind (add_channel P self (tc_eventLoop tc) connected_fd (tc_channel tc) w) (\<lambda>w.
        Inr (a, w))))))))"

section \<open>Reading and closing\<close>

definition handle_connection_closed :: "('d, 'o) plat \<Rightarrow> nat \<Rightarrow> (conn_callback \<Rightarrow> nat \<Rightarrow> ('d, 'o) net \<Rightarrow> ('d, 'o) net c_res) \<Rightarrow> nat
    \<Rightarrow> ('d, 'o) net \<Rightarrow> ('d, 'o) net c_res" where
  "handle_connection_closed P self run a w =
     c_bind (get_conn w a) (\<lambda>tc.
     c_bind (load (chans w) (Some (tc_channel tc))) (\<lambda>ch.
     c_bind (remove_channel P self (tc_eventLoop tc) (cfd ch) (tc_channel tc) w) (\<lambda>w.
     call_back run (tc_connectionClosedCallBack tc) a w)))"

definition handle_read :: "('d, 'o) plat \<Rightarrow> nat \<Rightarrow> (conn_callback \<Rightarrow> nat \<Rightarrow> ('d, 'o) net \<Rightarrow> ('d, 'o) net c_res) \<Rightarrow> nat
    \<Rightarrow> ('d, 'o) net \<Rightarrow> ('d, 'o) net c_res" where
  "handle_read P self run a w =
     c_bind (get_conn w a) (\<lambda>tc.
     c_bind (load (chans w) (Some (tc_channel tc))) (\<lambda>ch.
     case input_buffer tc of
       None \<Rightarrow> Inl NullDeref
     | Some b \<Rightarrow>
         let (rd, o') = sys_readv (pl_sys P) (cfd ch) (buffer_writeable_size b + int INIT_BUFFER_SIZE) (os w) in
         c_bind (buffer_socket_read (pl_realloc P) (\<lambda>n. rd) b) (\<lambda>(r, b).
         let w = set_conn a (tc\<lparr>input_buffer := Some b\<rparr>) (w\<lparr>os := o'\<rparr>) in
         if 0 < r then call_back run (tc_messageCallBack tc) a w
         else handle_connection_closed P self run a w)))"

section \<open>Writing\<close>

text \<open>The bytes at an offset of a block, as a system call reads them.\<close>

definition mem_read :: "byte list \<Rightarrow> int \<Rightarrow> int \<Rightarrow> byte list c_res" where
  "mem_read blk off n =
     (if 0 \<le> off \<and> 0 \<le> n \<and> off + n \<le> int (length blk) then Inr (take (nat n) (drop (nat off) blk)) else Inl OutOfBounds)"

definition handle_write :: "('d, 'o) plat \<Rightarrow> nat \<Rightarrow> (conn_callback \<Rightarrow> nat \<Rightarrow> ('d, 'o) net \<Rightarrow> ('d, 'o) net c_res) \<Rightarrow> nat
    \<Rightarrow> ('d, 'o) net \<Rightarrow> ('d, 'o) net c_res" where
  "handle_write P self run a w =
     c_bind (get_conn w a) (\<lambda>tc.
     c_bind (get_loop w (tc_eventLoop tc)) (\<lambda>el.
     c_bind (assertInSameThread self el) (\<lambda>_.
     c_bind (load (chans w) (Some (tc_channel tc))) (\<lambda>ch.
     case output_buffer tc of
       None \<Rightarrow> Inl NullDeref
     | Some b \<Rightarrow>
         c_bind (mem_read (data b) (readIndex b) (buffer_readable_size b)) (\<lambda>bytes.
         let ((nwrited, err), o') = sys_write (pl_sys P) (cfd ch) bytes (os w); w = w\<lparr>os := o'\<rparr> in
         if 0 < nwrited then
           let b = b\<lparr>readIndex := readIndex b + nwrited\<rparr>; w = set_conn a (tc\<lparr>output_buffer := Some b\<rparr>) w in
           c_bind (if buffer_readable_size b = 0 then write_event channel_write_event_disable P self (tc_channel tc) w else Inr w) (\<lambda>w.
           call_back run (tc_writeCompletedCallBack tc) a w)
         else Inr w)))))"

definition EWOULDBLOCK :: int where "EWOULDBLOCK = 11"

definition EPIPE :: int where "EPIPE = 32"

definition ECONNRESET :: int where "ECONNRESET = 104"

text \<open>
  The data is at offset \<open>off\<close> of the block \<open>blk\<close>.  \<open>nwrited\<close> is a \<open>size_t\<close>: the test whether it is negative, and with
  it the error handling, is decided by the type.
\<close>

definition try_write :: "('d, 'o) plat \<Rightarrow> int \<Rightarrow> byte list \<Rightarrow> int \<Rightarrow> int \<Rightarrow> ('d, 'o) net
    \<Rightarrow> (64 word \<times> 64 word \<times> bool \<times> ('d, 'o) net) c_res" where
  "try_write P fd blk off sz w =
     c_bind (mem_read blk off sz) (\<lambda>bytes.
     let nleft = word_of_int sz;
         ((r, err), o') = sys_write (pl_sys P) fd bytes (os w);
         w = w\<lparr>os := o'\<rparr>;
         nwrited = word_of_int r :: 64 word
     in if 0 \<le> nwrited then Inr (nwrited, nleft - nwrited, False, w)
        else Inr (0, nleft, err \<noteq> EWOULDBLOCK \<and> (err = EPIPE \<or> err = ECONNRESET), w))"

text \<open>The buffering of what is left: the length is converted to \<open>int\<close>, the pointer moved by \<open>nwrited\<close>.\<close>

definition buffer_rest :: "('d, 'o) plat \<Rightarrow> nat \<Rightarrow> nat \<Rightarrow> byte list \<Rightarrow> int \<Rightarrow> 64 word \<Rightarrow> 64 word \<Rightarrow> ('d, 'o) net \<Rightarrow> ('d, 'o) net c_res" where
  "buffer_rest P self a blk off nwrited nleft w =
     c_bind (get_conn w a) (\<lambda>tc.
     c_bind (load (chans w) (Some (tc_channel tc))) (\<lambda>ch.
     case output_buffer tc of
       None \<Rightarrow> Inl NullDeref
     | Some b \<Rightarrow>
         let from = off + sint nwrited in
         if from < 0 \<or> int (length blk) < from then Inl OutOfBounds
         else
           c_bind (buffer_append (pl_realloc P) b (Some (drop (nat from) blk)) (sint (ucast nleft :: 32 word))) (\<lambda>b.
           let w = set_conn a (tc\<lparr>output_buffer := Some b\<rparr>) w in
           if channel_write_event_is_enabled ch = 0 then write_event channel_write_event_enable P self (tc_channel tc) w
           else Inr w)))"

definition tcp_connection_send_data :: "('d, 'o) plat \<Rightarrow> nat \<Rightarrow> nat \<Rightarrow> byte list \<Rightarrow> int \<Rightarrow> int \<Rightarrow> ('d, 'o) net \<Rightarrow> (int \<times> ('d, 'o) net) c_res" where
  "tcp_connection_send_data P self a blk off sz w =
     c_bind (get_conn w a) (\<lambda>tc.
     c_bind (load (chans w) (Some (tc_channel tc))) (\<lambda>ch.
     c_bind (if channel_write_event_is_enabled ch = 0
             then (case output_buffer tc of None \<Rightarrow> Inl NullDeref | Some b \<Rightarrow> Inr (buffer_readable_size b = 0)) else Inr False) (\<lambda>direct.
     c_bind (if direct then try_write P (cfd ch) blk off sz w else Inr (0, word_of_int sz, False, w)) (\<lambda>(nwrited, nleft, fault, w).
     c_bind (if \<not> fault \<and> 0 < nleft then buffer_rest P self a blk off nwrited nleft w else Inr w) (\<lambda>w.
     Inr (sint (ucast nwrited :: 32 word), w))))))"

definition tcp_connection_send_buffer :: "('d, 'o) plat \<Rightarrow> nat \<Rightarrow> nat \<Rightarrow> buffer \<Rightarrow> ('d, 'o) net \<Rightarrow> (int \<times> buffer \<times> ('d, 'o) net) c_res" where
  "tcp_connection_send_buffer P self a b w =
     (let sz = buffer_readable_size b in
      c_bind (tcp_connection_send_data P self a (data b) (readIndex b) sz w) (\<lambda>(result, w).
      c_bind (c_int (readIndex b + sz)) (\<lambda>r.
      Inr (result, b\<lparr>readIndex := r\<rparr>, w))))"

text \<open>A failing \<open>shutdown\<close> is only logged.\<close>

definition tcp_connection_shutdown :: "('d, 'o) plat \<Rightarrow> nat \<Rightarrow> ('d, 'o) net \<Rightarrow> ('d, 'o) net c_res" where
  "tcp_connection_shutdown P a w =
     c_bind (get_conn w a) (\<lambda>tc.
     c_bind (load (chans w) (Some (tc_channel tc))) (\<lambda>ch.
     let (r, o') = sys_shutdown (pl_sys P) (cfd ch) (os w) in Inr (w\<lparr>os := o'\<rparr>)))"

section \<open>Sending\<close>

lemma word_pos: "0 < (word_of_int i :: 64 word)" if "0 < i" "i \<le> INT_MAX + 1"
proof -
  have "unat (word_of_int i :: 64 word) = nat i"
    using that by (simp add: unat_eq_nat_uint uint_word_of_int_eq take_bit_int_eq_self INT_MAX_def)
  with that show ?thesis by (simp add: word_less_nat_alt)
qed

text \<open>A connection that waits for nothing but input, with nothing left to send.\<close>

definition quiet :: "('d, 'o) net \<Rightarrow> nat \<Rightarrow> tcp_connection \<Rightarrow> channel \<Rightarrow> buffer \<Rightarrow> bool" where
  "quiet w a tc ch ob \<longleftrightarrow> conns w a = Some tc \<and> chans w (tc_channel tc) = Some ch \<and> cdata ch = ConnPtr a \<and> events ch = EVENT_READ \<and>
     output_buffer tc = Some ob \<and> buffer_inv ob \<and> content ob = []"

lemma quiet_facts:
  assumes "quiet w a tc ch ob"
  shows "get_conn w a = Inr tc" "load (chans w) (Some (tc_channel tc)) = Inr ch" "output_buffer tc = Some ob"
    "channel_write_event_is_enabled ch = 0" "buffer_readable_size ob = 0"
  using assms content_length [of ob] by (auto simp: quiet_def load_def channel_write_event_is_enabled_def EVENT_READ_def EVENT_WRITE_def)

lemma quiet_os: "quiet (w\<lparr>os := o'\<rparr>) a tc ch ob = quiet w a tc ch ob"
  by (simp add: quiet_def)

lemma send_complete:
  assumes q: "quiet w a tc ch ob" and bytes: "mem_read blk off sz = Inr bytes" and sz: "0 \<le> sz" "sz \<le> INT_MAX"
    and wr: "sys_write (pl_sys P) (cfd ch) bytes (os w) = ((sz, e), o')"
  shows "tcp_connection_send_data P self a blk off sz w = Inr (sz, w\<lparr>os := o'\<rparr>)"
  using quiet_facts [OF q] bytes wr word_int [OF sz]
  by (simp add: tcp_connection_send_data_def try_write_def Let_def)

lemma connection_write_event:
  assumes "chans w p = Some ch" and "cdata ch = ConnPtr a"
  shows "write_event f P self p w = Inl BadCast"
  using assms by (simp add: write_event_def load_def)

lemma send_partial:
  assumes q: "quiet w a tc ch ob" and bytes: "mem_read blk off sz = Inr bytes" and sz: "sz \<le> INT_MAX"
    and wr: "sys_write (pl_sys P) (cfd ch) bytes (os w) = ((r, e), o')" and r: "0 \<le> r" "r < sz"
    and re: "realloc_total (pl_realloc P)" and room: "total_size ob + sz \<le> INT_MAX"
  shows "tcp_connection_send_data P self a blk off sz w = Inl BadCast"
proof -
  have b: "0 \<le> off" "off + sz \<le> int (length blk)" using bytes by (auto simp: mem_read_def split: if_splits)
  let ?n = "word_of_int sz - word_of_int r :: 64 word"
  have n: "?n = word_of_int (sz - r)" by simp
  have rest: "sint (ucast ?n :: 32 word) = sz - r" unfolding n using r sz by (intro word_int(2)) auto
  have pos: "0 < ?n" unfolding n using r sz by (intro word_pos) auto
  have rr: "sint (word_of_int r :: 64 word) = r" using r sz by (intro word_int(3)) auto
  have rng: "0 \<le> off + r" "off + r \<le> int (length blk)" using b r by auto
  have len: "sz - r \<le> int (length (drop (nat (off + r)) blk))" using b r by simp
  have inv: "buffer_inv ob" using q by (simp add: quiet_def)
  have "0 \<le> sz - r" "total_size ob + (sz - r) \<le> INT_MAX" using r room by linarith+
  from buffer_append_total [OF inv re this(1) len this(2)] obtain b'
    where "buffer_append (pl_realloc P) ob (Some (drop (nat (off + r)) blk)) (sz - r) = Inr b'" by blast
  moreover have "chans w (tc_channel tc) = Some ch" "cdata ch = ConnPtr a" using q by (simp_all add: quiet_def)
  ultimately have "buffer_rest P self a blk off (word_of_int r) ?n (w\<lparr>os := o'\<rparr>) = Inl BadCast"
    using quiet_facts [OF quiet_os [where o' = o', THEN iffD2, OF q]] rest rr rng
      connection_write_event [of "set_conn a (tc\<lparr>output_buffer := Some b'\<rparr>) (w\<lparr>os := o'\<rparr>)" "tc_channel tc" ch a]
    by (simp add: buffer_rest_def Let_def del: of_int_diff)
  with quiet_facts [OF q] bytes wr pos show ?thesis
    by (simp add: tcp_connection_send_data_def try_write_def Let_def)
qed

lemma send_error:
  assumes q: "quiet w a tc ch ob" and bytes: "mem_read blk 0 sz = Inr bytes" and sz: "sz \<le> INT_MAX"
    and wr: "sys_write (pl_sys P) (cfd ch) bytes (os w) = ((- 1, e), o')"
  shows "tcp_connection_send_data P self a blk 0 sz w = Inl OutOfBounds"
proof -
  have s0: "0 \<le> sz" using bytes by (auto simp: mem_read_def split: if_splits)
  let ?n = "word_of_int sz - word_of_int (- 1) :: 64 word"
  have n: "?n = word_of_int (sz + 1)" by simp
  have pos: "0 < ?n" unfolding n using s0 sz by (intro word_pos) auto
  have "sint (word_of_int (- 1) :: 64 word) = - 1" by simp
  then have "buffer_rest P self a blk 0 (word_of_int (- 1)) ?n (w\<lparr>os := o'\<rparr>) = Inl OutOfBounds"
    using quiet_facts [OF quiet_os [where o' = o', THEN iffD2, OF q]] by (simp add: buffer_rest_def)
  with quiet_facts [OF q] bytes wr pos show ?thesis
    by (simp add: tcp_connection_send_data_def try_write_def Let_def)
qed

section \<open>Reading\<close>

text \<open>A connection in the memory, with its channel and an input buffer.\<close>

definition connected :: "('d, 'o) net \<Rightarrow> nat \<Rightarrow> tcp_connection \<Rightarrow> channel \<Rightarrow> buffer \<Rightarrow> bool" where
  "connected w a tc ch b \<longleftrightarrow> conns w a = Some tc \<and> chans w (tc_channel tc) = Some ch \<and> input_buffer tc = Some b \<and> buffer_inv b \<and>
     total_size b + int INIT_BUFFER_SIZE \<le> INT_MAX"

lemma connected_facts:
  assumes "connected w a tc ch b"
  shows "get_conn w a = Inr tc" "load (chans w) (Some (tc_channel tc)) = Inr ch" "input_buffer tc = Some b" "buffer_inv b"
    "total_size b + int INIT_BUFFER_SIZE \<le> INT_MAX"
  using assms by (auto simp: connected_def load_def)

text \<open>What \<open>readv\<close> documents: at most as many bytes as there is room, and their number.\<close>

definition readv_ok :: "int \<Rightarrow> int \<times> byte list \<Rightarrow> bool" where
  "readv_ok n rd \<longleftrightarrow> (0 \<le> fst rd \<longrightarrow> fst rd = int (length (snd rd)) \<and> fst rd \<le> n)"

lemma handle_read_data:
  assumes c: "connected w a tc ch b" and re: "realloc_total (pl_realloc P)"
    and rd: "sys_readv (pl_sys P) (cfd ch) (buffer_writeable_size b + int INIT_BUFFER_SIZE) (os w) = ((r, bs), o')"
    and doc: "readv_ok (buffer_writeable_size b + int INIT_BUFFER_SIZE) (r, bs)" and r: "0 < r"
  shows "\<exists>b'. handle_read P self run a w = call_back run (tc_messageCallBack tc) a (set_conn a (tc\<lparr>input_buffer := Some b'\<rparr>) (w\<lparr>os := o'\<rparr>)) \<and>
     buffer_inv b' \<and> content b' = content b @ bs"
proof -
  note f = connected_facts [OF c]
  obtain b' where b': "buffer_socket_read (pl_realloc P) (\<lambda>n. (r, bs)) b = Inr (r, b')" "buffer_inv b'" "content b' = content b @ bs"
    using buffer_socket_read_refines_aux [OF f(4) re, of "\<lambda>n. (r, bs)" r bs] doc r f(5) by (auto simp: readv_ok_def)
  with f rd r show ?thesis by (intro exI [of _ b']) (simp add: handle_read_def Let_def)
qed

lemma handle_read_end:
  assumes c: "connected w a tc ch b" and re: "realloc_total (pl_realloc P)"
    and rd: "sys_readv (pl_sys P) (cfd ch) (buffer_writeable_size b + int INIT_BUFFER_SIZE) (os w) = ((r, bs), o')"
    and doc: "readv_ok (buffer_writeable_size b + int INIT_BUFFER_SIZE) (r, bs)" and r: "r \<le> 0"
  shows "\<exists>b'. handle_read P self run a w = handle_connection_closed P self run a (set_conn a (tc\<lparr>input_buffer := Some b'\<rparr>) (w\<lparr>os := o'\<rparr>)) \<and>
     content b' = content b"
proof -
  note f = connected_facts [OF c]
  obtain r' b' where b': "buffer_socket_read (pl_realloc P) (\<lambda>n. (r, bs)) b = Inr (r', b')" "r' \<le> 0" "content b' = content b"
    using buffer_socket_read_refines_aux [OF f(4) re, of "\<lambda>n. (r, bs)" r bs] doc r f(5) by (cases "r = 0") (auto simp: readv_ok_def)
  with f rd show ?thesis by (auto simp: handle_read_def Let_def)
qed

text \<open>
  An operation on a loop of another thread is queued and its owner woken up; on a loop over \<open>poll\<close> of the
  running thread it takes effect at once.
\<close>

lemma foreign_op:
  assumes "pending_inv el q" and "idle el" and "owner_thread_id el \<noteq> self"
  shows "\<exists>el'. event_loop_do_channel_event alloc D ch self sent el fd p type = Inr (0, el') \<and> pending_inv el' (q @ [(type, p)]) \<and> idle el' \<and>
    wakeups el' = wakeups el + (if sent then 1 else 0) \<and> owner_thread_id el' = owner_thread_id el \<and> event_dispatcher_data el' = event_dispatcher_data el \<and> channelMap el' = channelMap el"
proof -
  obtain el1 where el1: "buffer_locked el fd p type = Inr el1" "pending_inv el1 (q @ [(type, p)])" "idle el1" "wakeups el1 = wakeups el"
    "event_dispatcher_data el1 = event_dispatcher_data el" "channelMap el1 = channelMap el"
    using submit_queues [OF assms(1,2)] by blast
  from el1(1) have ow: "owner_thread_id el1 = owner_thread_id el"
    by (auto simp: buffer_locked_def lock_def unlock_def event_loop_channel_buffer_nolock_def Let_def split: if_splits option.splits)
  then have "event_loop_do_channel_event alloc D ch self sent el fd p type = Inr (0, event_loop_wakeup sent el1)"
    using assms(3) el1(1) by (simp add: event_loop_do_channel_event_def isInSameThread_def)
  with el1(2-6) ow show ?thesis by (auto simp: event_loop_wakeup_def pending_inv_def idle_def)
qed

lemma own_op:
  assumes "\<forall>n. alloc n" and "loop_inv poll_inv poll_reg ch el" and "pending_inv el []" and "idle el" and "owner_thread_id el = self"
    and "reg_step poll_room ch (type, p) (loop_reg poll_reg el) = Some r"
  shows "\<exists>el'. event_loop_do_channel_event alloc poll_dispatcher ch self sent el fd p type = Inr (0, el') \<and> loop_inv poll_inv poll_reg ch el' \<and>
    pending_inv el' [] \<and> idle el' \<and> owner_thread_id el' = self \<and> loop_reg poll_reg el' = r"
proof -
  have "reg_run poll_room ch ([] @ submitted [Submit fd p type]) (loop_reg poll_reg el) = Some r" using assms(6) by simp
  from poll.actions_then_handle [OF assms(1-4) _ this] obtain el' where
    el': "exec_actions alloc poll_dispatcher ch ([Submit fd p type] @ [Handle]) el = Inr el'" "loop_inv poll_inv poll_reg ch el'"
    "pending_inv el' []" "idle el'" "loop_reg poll_reg el' = r" by auto
  have run: "event_loop_do_channel_event alloc poll_dispatcher ch self sent el fd p type = Inr (0, el')"
    using el'(1) assms(5) by (simp add: do_channel_event_actions isInSameThread_def del: exec_actions.simps c_bind_eq_Inr_iff)
  from do_channel_event_owner [OF this] assms(5) el' run show ?thesis by auto
qed

section \<open>Properties\<close>

text \<open>
  C37. Sending on a connection with nothing left to send, as the answer of \<open>write\<close> decides: when all bytes are taken, they are
  reported and nothing else changes; when only some are, the rest is buffered but the call to wait for writability takes the
  connection for the event loop; and when \<open>write\<close> fails, the test for it never succeeds, \<open>size + 1\<close> bytes are buffered and the
  copy starts one byte before the data.
\<close>

theorem send_data_outcomes:
  assumes "quiet w a tc ch ob" and "mem_read blk 0 sz = Inr bytes" and "sz \<le> INT_MAX"
    and "sys_write (pl_sys P) (cfd ch) bytes (os w) = ((r, e), o')" and "- 1 \<le> r" "r \<le> sz"
    and "realloc_total (pl_realloc P)" and "total_size ob + sz \<le> INT_MAX"
  shows "tcp_connection_send_data P self a blk 0 sz w =
    (if r = sz then Inr (sz, w\<lparr>os := o'\<rparr>) else if 0 \<le> r then Inl BadCast else Inl OutOfBounds)"
proof -
  have s0: "0 \<le> sz" using assms(2) by (auto simp: mem_read_def split: if_splits)
  consider "r = sz" | "0 \<le> r" "r < sz" | "r = - 1" using assms(5,6) by linarith
  then show ?thesis
  proof cases
    case 1
    with send_complete [OF assms(1,2) s0 assms(3)] assms(4) show ?thesis by simp
  next
    case 2
    with send_partial [OF assms(1-4) 2 assms(7,8)] show ?thesis by simp
  next
    case 3
    with send_error [OF assms(1-3)] assms(4) s0 show ?thesis by simp
  qed
qed

text \<open>A sample connection, at address 3 with descriptor 7.\<close>

definition small_buffer :: buffer where
  "small_buffer = \<lparr>data = replicate 8 0, readIndex = 0, writeIndex = 0, total_size = 8\<rparr>"

definition sample_channel :: channel where
  "sample_channel = channel_new 7 EVENT_READ (Some HandleRead) (Some HandleWrite) (ConnPtr 3)"

definition sample_conn :: tcp_connection where
  "sample_conn = \<lparr>tc_eventLoop = 0, tc_channel = 1, tc_name = bytes_of ''connection-7'', input_buffer = Some small_buffer, output_buffer = Some small_buffer,
     tc_connectionCompletedCallBack = Some Http_onConnectionCompleted, tc_messageCallBack = Some Http_onMessage,
     tc_writeCompletedCallBack = Some Http_onWriteCompleted, tc_connectionClosedCallBack = Some Http_onConnectionClosed,
     tc_data = At 2, tc_request = At (http_request_new (Some [\<lparr>hkey = [0], hval = [0]\<rparr>])), tc_response = Unset\<rparr>"

definition sample_wired :: "byte list \<Rightarrow> (poll_dispatcher_data, byte list \<times> byte list \<times> int list) net" where
  "sample_wired inp = (sample_net inp)\<lparr>chans := [1 \<mapsto> sample_channel], conns := [3 \<mapsto> sample_conn],
     hservers := [2 \<mapsto> \<lparr>tcpServer = 4, has_requestCallback = True\<rparr>]\<rparr>"

lemma small_buffer_ok: "buffer_inv small_buffer" "content small_buffer = []" "total_size small_buffer = 8" "buffer_writeable_size small_buffer = 8"
  by (simp_all add: small_buffer_def buffer_inv_def content_def buffer_readable_size_def buffer_writeable_size_def INT_MAX_def)

lemma sample_wired_ok: "connected (sample_wired inp) 3 sample_conn sample_channel small_buffer" "quiet (sample_wired inp) 3 sample_conn sample_channel small_buffer"
  using small_buffer_ok
  by (simp_all add: connected_def quiet_def sample_wired_def sample_conn_def sample_channel_def channel_new_def INIT_BUFFER_SIZE_def INT_MAX_def)

theorem send_data_outcomes_witness:
  "tcp_connection_send_data (sample_plat\<lparr>pl_sys := sample_sys\<lparr>sys_write := (\<lambda>fd bs w. ((1, 0), w))\<rparr>\<rparr>) 1 3 [65, 66] 0 2 (sample_wired []) = Inl BadCast"
  using send_data_outcomes [OF sample_wired_ok(2), of "[65, 66]" 2 "[65, 66]" "sample_plat\<lparr>pl_sys := sample_sys\<lparr>sys_write := (\<lambda>fd bs w. ((1, 0), w))\<rparr>\<rparr>"
      "[]" 1 0 "os (sample_wired [])" 1] zero_realloc_total
  by (simp add: mem_read_def sample_plat_def sample_sys_def small_buffer_ok INT_MAX_def)

text \<open>
  C17. When \<open>readv\<close> reports the end of the input or an error, \<open>handle_read\<close> in the thread of a loop over \<open>poll\<close> takes the channel of the
  connection out of the channel map and out of the dispatcher, leaves the buffered input as it was, and then makes the closing
  callback, in this order; every other registration stays.
\<close>

theorem handle_read_closes:
  assumes c: "connected w a tc ch b" and re: "realloc_total (pl_realloc P)" and D: "pl_dispatcher P = poll_dispatcher"
    and rd: "sys_readv (pl_sys P) (cfd ch) (buffer_writeable_size b + int INIT_BUFFER_SIZE) (os w) = ((r, bs), o')"
    and doc: "readv_ok (buffer_writeable_size b + int INIT_BUFFER_SIZE) (r, bs)" and r: "r \<le> 0"
    and el: "loops w (tc_eventLoop tc) = Some el" "poll_ready (pl_alloc P) (chans w) self el" "0 \<le> cfd ch" "map_entry (channelMap el) (cfd ch) \<noteq> None"
  shows "\<exists>b' el'. content b' = content b \<and> poll_ready (pl_alloc P) (chans w) self el' \<and>
    loop_reg poll_reg el' = ((fst (loop_reg poll_reg el))(cfd ch := None), (snd (loop_reg poll_reg el))(cfd ch := None)) \<and>
    handle_read P self run a w = call_back run (tc_connectionClosedCallBack tc) a
      (set_loop (tc_eventLoop tc) el' (set_conn a (tc\<lparr>input_buffer := Some b'\<rparr>) (w\<lparr>os := o'\<rparr>)))"
proof -
  obtain b' where b': "handle_read P self run a w = handle_connection_closed P self run a (set_conn a (tc\<lparr>input_buffer := Some b'\<rparr>) (w\<lparr>os := o'\<rparr>))"
    "content b' = content b" using handle_read_end [OF c re rd doc r] by blast
  let ?w = "set_conn a (tc\<lparr>input_buffer := Some b'\<rparr>) (w\<lparr>os := o'\<rparr>)"
  have ch: "load (chans w) (Some (tc_channel tc)) = Inr ch" using connected_facts(2) [OF c] .
  let ?r = "((fst (loop_reg poll_reg el))(cfd ch := None), (snd (loop_reg poll_reg el))(cfd ch := None))"
  have "reg_step poll_room (chans w) (2, Some (tc_channel tc)) (loop_reg poll_reg el) = Some ?r"
    using ch el(3,4) by (simp add: reg_step_def loop_reg_def Let_def)
  then obtain el' where el': "event_loop_do_channel_event (pl_alloc P) poll_dispatcher (chans w) self (pl_sent P) el (cfd ch) (Some (tc_channel tc)) 2 = Inr (0, el')"
    "loop_inv poll_inv poll_reg (chans w) el'" "pending_inv el' []" "idle el'" "owner_thread_id el' = self" "loop_reg poll_reg el' = ?r"
    using own_op [of "pl_alloc P" "chans w" el self 2 "Some (tc_channel tc)" ?r] el(2) unfolding poll_ready_def by blast
  have "handle_connection_closed P self run a ?w = call_back run (tc_connectionClosedCallBack tc) a (set_loop (tc_eventLoop tc) el' ?w)"
    using ch el(1) el'(1) D by (simp add: handle_connection_closed_def remove_channel_def event_loop_remove_channel_event_def)
  moreover have "poll_ready (pl_alloc P) (chans w) self el'" using el' el(2) by (simp add: poll_ready_def)
  ultimately show ?thesis using b' el'(6) by auto
qed

theorem handle_read_closes_witness:
  "\<exists>el b' el'. loop_reg poll_reg el = ([7 \<mapsto> 1], [7 \<mapsto> (True, False)]) \<and> loop_reg poll_reg el' = (\<lambda>fd. None, \<lambda>fd. None) \<and>
     handle_read sample_plat 1 (\<lambda>f a w. Inr (w\<lparr>stray := 1\<rparr>)) 3 (set_loop 0 el (sample_wired [])) =
       Inr ((set_loop 0 el' (set_conn 3 (sample_conn\<lparr>input_buffer := Some b'\<rparr>) (set_loop 0 el (sample_wired []))))\<lparr>stray := 1\<rparr>)"
proof -
  have ch: "chans (sample_wired []) = [1 \<mapsto> sample_channel]" by (simp add: sample_wired_def)
  have c: "cfd sample_channel = 7" "interest sample_channel = (True, False)"
    by (simp_all add: sample_channel_def channel_new_def interest_def EVENT_READ_def EVENT_WRITE_def)
  have step: "reg_step poll_room [1 \<mapsto> sample_channel] (1, Some 1) (loop_reg poll_reg (empty_loop empty_poll)) = Some ([7 \<mapsto> 1], [7 \<mapsto> (True, False)])"
    by (simp add: empty_loop_facts empty_poll_facts c reg_step_def load_def poll_room_def INIT_POLL_SIZE_def)
  have e: "loop_inv poll_inv poll_reg [1 \<mapsto> sample_channel] (empty_loop empty_poll)" "pending_inv (empty_loop empty_poll) []" "idle (empty_loop empty_poll)"
    by (simp_all only: empty_loop_facts empty_poll_facts)
  have own: "owner_thread_id (empty_loop empty_poll) = 1" by (simp add: empty_loop_def)
  obtain el where el: "loop_inv poll_inv poll_reg [1 \<mapsto> sample_channel] el" "pending_inv el []" "idle el" "owner_thread_id el = 1"
    "loop_reg poll_reg el = ([7 \<mapsto> 1], [7 \<mapsto> (True, False)])"
    using own_op [of "\<lambda>n. True", OF _ e own step] by auto
  let ?w = "set_loop 0 el (sample_wired [])"
  have w: "connected ?w 3 sample_conn sample_channel small_buffer" using sample_wired_ok(1) by (simp add: connected_def)
  have t: "tc_eventLoop sample_conn = 0" "tc_connectionClosedCallBack sample_conn = Some Http_onConnectionClosed" by (simp_all add: sample_conn_def)
  have r: "sys_readv (pl_sys sample_plat) (cfd sample_channel) n (os ?w) = ((0, []), os ?w)" for n
    by (simp add: sample_plat_def sample_sys_def sample_wired_def sample_net_def set_loop_def)
  have same: "?w\<lparr>os := os (sample_wired [])\<rparr> = ?w" by (simp add: set_loop_def sample_wired_def sample_net_def)
  have "poll_ready (pl_alloc sample_plat) (chans ?w) 1 el" using el ch by (simp add: poll_ready_def sample_plat_def)
  moreover have "map_entry (channelMap el) (cfd sample_channel) \<noteq> None" using el(5) c(1) by (auto simp: loop_reg_def fun_eq_iff)
  ultimately obtain b' el' where "loop_reg poll_reg el' = (\<lambda>fd. None, \<lambda>fd. None)"
    "handle_read sample_plat 1 (\<lambda>f a w. Inr (w\<lparr>stray := 1\<rparr>)) 3 ?w = call_back (\<lambda>f a w. Inr (w\<lparr>stray := 1\<rparr>)) (Some Http_onConnectionClosed) 3
       (set_loop 0 el' (set_conn 3 (sample_conn\<lparr>input_buffer := Some b'\<rparr>) ?w))"
    using handle_read_closes [OF w, of sample_plat 0 "[]" "os ?w" el 1 "\<lambda>f a w. Inr (w\<lparr>stray := 1\<rparr>)"] r t el(5) c(1) zero_realloc_total
    by (auto simp: sample_plat_def readv_ok_def small_buffer_ok same)
  with el(5) show ?thesis by (auto simp: call_back_def)
qed

end
