(* ===== verification/Tcp_Server.thy ===== *)
theory Tcp_Server
  imports Tcp_Connection
begin

text \<open>
  \<^verbatim>\<open>httptest-geektime/lib/tcp_server.c\<close>, the server object: it owns the pool of loops and turns each accepted descriptor into a
  connection on the loop whose turn it is.  \<open>sv\<close> is the address of the server.
\<close>

section \<open>The server object\<close>

definition sizeof_TCPserver :: nat where "sizeof_TCPserver = 80"

definition tcp_server_init :: "('d, 'o) plat \<Rightarrow> nat \<Rightarrow> acceptor \<Rightarrow> conn_callback option \<Rightarrow> conn_callback option \<Rightarrow> conn_callback option
    \<Rightarrow> conn_callback option \<Rightarrow> int \<Rightarrow> ('d, 'o) net \<Rightarrow> (nat \<times> ('d, 'o) net) c_res" where
  "tcp_server_init P l acc completed message write_completed on_closed n w =
     c_bind (new_object P sizeof_TCPserver w) (\<lambda>(sv, w).
     c_bind (thread_pool_new P l n w) (\<lambda>(tp, w).
     Inr (sv, set_server sv \<lparr>sv_port = Unset, sv_eventLoop = l, sv_acceptor = acc, sv_connectionCompletedCallBack = completed,
            sv_messageCallBack = message, sv_writeCompletedCallBack = write_completed, sv_connectionClosedCallBack = on_closed,
            threadNum = n, threadPool = tp, sv_data = None\<rparr> w)))"

text \<open>\<open>accept\<close> is not checked: a failure makes a connection of the descriptor \<open>- 1\<close>.\<close>

definition handle_connection_established :: "('d, 'o) plat \<Rightarrow> nat \<Rightarrow> (conn_callback \<Rightarrow> nat \<Rightarrow> ('d, 'o) net \<Rightarrow> ('d, 'o) net c_res) \<Rightarrow> nat
    \<Rightarrow> ('d, 'o) net \<Rightarrow> (int \<times> ('d, 'o) net) c_res" where
  "handle_connection_established P self run sv w =
     c_bind (get_server w sv) (\<lambda>s.
     let (connected_fd, o1) = sys_accept (pl_sys P) (listen_fd (sv_acceptor s)) (os w);
         w = w\<lparr>os := make_nonblocking (pl_sys P) connected_fd o1\<rparr> in
     c_bind (thread_pool_get_loop self (threadPool s) w) (\<lambda>(l, tp).
     let w = set_server sv (s\<lparr>threadPool := tp\<rparr>) w in
     case l of
       None \<Rightarrow> Inl NullDeref
     | Some l \<Rightarrow>
         c_bind (tcp_connection_new P self run connected_fd l (sv_connectionCompletedCallBack s) (sv_connectionClosedCallBack s)
                   (sv_messageCallBack s) (sv_writeCompletedCallBack s) w) (\<lambda>(a, w).
         c_bind (get_server w sv) (\<lambda>s.
         case sv_data s of
           None \<Rightarrow> Inr (0, w)
         | Some d \<Rightarrow> c_bind (get_conn w a) (\<lambda>tc. Inr (0, set_conn a (tc\<lparr>tc_data := At d\<rparr>) w))))))"

definition tcp_server_start :: "('d, 'o) plat \<Rightarrow> nat \<Rightarrow> nat \<Rightarrow> ('d, 'o) net \<Rightarrow> ('d, 'o) net c_res" where
  "tcp_server_start P self sv w =
     c_bind (get_server w sv) (\<lambda>s.
     c_bind (thread_pool_start P self (threadPool s) w) (\<lambda>(tp, w).
     let w = set_server sv (s\<lparr>threadPool := tp\<rparr>) w in
     c_bind (new_object P sizeof_channel w) (\<lambda>(p, w).
     let w = w\<lparr>chans := (chans w)(p \<mapsto> channel_new (listen_fd (sv_acceptor s)) EVENT_READ (Some HandleConnectionEstablished) None (ServerPtr sv))\<rparr> in
     add_channel P self (sv_eventLoop s) (listen_fd (sv_acceptor s)) p w)))"

definition tcp_server_set_data :: "nat \<Rightarrow> nat option \<Rightarrow> ('d, 'o) net \<Rightarrow> ('d, 'o) net c_res" where
  "tcp_server_set_data sv d w =
     (if d \<noteq> None then c_bind (get_server w sv) (\<lambda>s. Inr (set_server sv (s\<lparr>sv_data := d\<rparr>) w)) else Inr w)"

section \<open>A new connection\<close>

text \<open>Resources that do not run out.\<close>

definition mem_plat :: "('d, 'o) plat \<Rightarrow> bool" where
  "mem_plat P \<longleftrightarrow> (\<forall>n w. fst (sys_malloc (pl_sys P) n w)) \<and> length (pl_block P INIT_BUFFER_SIZE) = INIT_BUFFER_SIZE"

definition empty_buffer :: "('d, 'o) plat \<Rightarrow> buffer" where
  "empty_buffer P = \<lparr>data = pl_block P INIT_BUFFER_SIZE, readIndex = 0, writeIndex = 0, total_size = int INIT_BUFFER_SIZE\<rparr>"

lemma empty_buffer_ok: "mem_plat P \<Longrightarrow> buffer_inv (empty_buffer P) \<and> content (empty_buffer P) = [] \<and> total_size (empty_buffer P) = int INIT_BUFFER_SIZE"
  by (simp add: mem_plat_def empty_buffer_def buffer_inv_def content_def buffer_readable_size_def INIT_BUFFER_SIZE_def INT_MAX_def)

lemma new_buffer_ok: "mem_plat P \<Longrightarrow> \<exists>o'. new_buffer P w = (Some (empty_buffer P), w\<lparr>os := o'\<rparr>)"
proof -
  assume m: "mem_plat P"
  then have "fst (sys_malloc (pl_sys P) n w)" for n w by (simp add: mem_plat_def)
  then have ok: "\<exists>o'. sys_malloc (pl_sys P) n w = (True, o')" for n w by (metis prod.collapse)
  obtain o1 where o1: "sys_malloc (pl_sys P) sizeof_buffer (os w) = (True, o1)" using ok ..
  obtain o2 where o2: "sys_malloc (pl_sys P) INIT_BUFFER_SIZE o1 = (True, o2)" using ok ..
  from o1 o2 have "new_buffer P w = (Some (empty_buffer P), w\<lparr>os := o2\<rparr>)" by (simp add: new_buffer_def buffer_new_def empty_buffer_def)
  then show ?thesis ..
qed

lemma mem_plat_malloc: "mem_plat P \<Longrightarrow> \<exists>o'. must_malloc (pl_sys P) n w = Inr o'"
  by (rule must_malloc_ok) (simp add: mem_plat_def)

lemma new_object_ok: "mem_plat P \<Longrightarrow> \<exists>o'. new_object P n w = Inr (brk w, w\<lparr>brk := brk w + 1, os := o'\<rparr>)"
  using mem_plat_malloc [of P n "os w"] by (auto simp: new_object_def)

text \<open>The connection right after its creation.\<close>

definition fresh_conn :: "('d, 'o) plat \<Rightarrow> nat \<Rightarrow> nat \<Rightarrow> byte list \<Rightarrow> conn_callback option \<Rightarrow> conn_callback option \<Rightarrow> conn_callback option \<Rightarrow> conn_callback option \<Rightarrow> tcp_connection" where
  "fresh_conn P l p name completed on_closed message write_completed =
     \<lparr>tc_eventLoop = l, tc_channel = p, tc_name = name, input_buffer = Some (empty_buffer P), output_buffer = Some (empty_buffer P),
      tc_connectionCompletedCallBack = completed, tc_messageCallBack = message, tc_writeCompletedCallBack = write_completed,
      tc_connectionClosedCallBack = on_closed, tc_data = Unset, tc_request = Unset, tc_response = Unset\<rparr>"

definition conn_channel :: "int \<Rightarrow> nat \<Rightarrow> channel" where
  "conn_channel fd a = channel_new fd EVENT_READ (Some HandleRead) (Some HandleWrite) (ConnPtr a)"

text \<open>
  The name takes eleven bytes and the number: descriptors from \<open>10000\<close> on overflow the block of sixteen bytes.
\<close>

lemma decimal_long: "10 ^ k \<le> n \<Longrightarrow> k < length (decimal n)"
proof (induction n arbitrary: k rule: decimal.induct)
  case (1 n)
  show ?case
  proof (cases k)
    case 0
    then show ?thesis by (simp add: decimal.simps [of n])
  next
    case (Suc j)
    have "(1::nat) \<le> 10 ^ j" by simp
    moreover have "10 * 10 ^ j \<le> n" using 1(2) unfolding Suc by simp
    ultimately have big: "\<not> n < 10" by linarith
    from Suc 1(2) have "10 ^ j \<le> n div 10" by (simp add: less_eq_div_iff_mult_less_eq mult.commute)
    from 1(1) [OF big this] Suc big show ?thesis by (simp add: decimal.simps [of n])
  qed
qed

lemma connection_name:
  assumes "0 \<le> fd"
  shows "sprintf16 ''connection-'' fd = (if fd < 10000 then Inr (bytes_of ''connection-'' @ decimal (nat fd)) else Inl OutOfBounds)"
proof (cases "fd < 10000")
  case True
  then have "length (decimal (nat fd)) \<le> 4" using assms by (intro decimal_length) auto
  with True assms show ?thesis by (simp add: sprintf16_def int_text_def bytes_of_def)
next
  case False
  then have "4 < length (decimal (nat fd))" by (intro decimal_long) simp
  with False assms show ?thesis by (simp add: sprintf16_def int_text_def bytes_of_def)
qed

text \<open>The creation up to the first callback.\<close>

lemma connection_prepared:
  assumes m: "mem_plat P" and fd: "0 \<le> fd"
  shows "\<exists>o'. tcp_connection_new P self run fd l completed on_closed message write_completed w =
    (if fd < 10000 then
       let a = brk w; p = brk w + 1;
           w = set_conn a (fresh_conn P l p (bytes_of ''connection-'' @ decimal (nat fd)) completed on_closed message write_completed)
                 (w\<lparr>brk := brk w + 2, os := o', chans := (chans w)(p \<mapsto> conn_channel fd a)\<rparr>)
       in c_bind (call_back run completed a w) (\<lambda>w.
          c_bind (get_conn w a) (\<lambda>tc.
          c_bind (add_channel P self (tc_eventLoop tc) fd (tc_channel tc) w) (\<lambda>w. Inr (a, w))))
     else Inl OutOfBounds)"
proof -
  obtain o1 where o1: "new_object P sizeof_tcp_connection w = Inr (brk w, w\<lparr>brk := brk w + 1, os := o1\<rparr>)" using new_object_ok [OF m] ..
  let ?w1 = "w\<lparr>brk := brk w + 1, os := o1\<rparr>"
  obtain o2 where o2: "new_buffer P ?w1 = (Some (empty_buffer P), ?w1\<lparr>os := o2\<rparr>)" using new_buffer_ok [OF m] ..
  obtain o3 where o3: "new_buffer P (?w1\<lparr>os := o2\<rparr>) = (Some (empty_buffer P), ?w1\<lparr>os := o2, os := o3\<rparr>)" using new_buffer_ok [OF m] ..
  obtain o4 where o4: "must_malloc (pl_sys P) 16 o3 = Inr o4" using mem_plat_malloc [OF m] ..
  let ?w2 = "w\<lparr>brk := brk w + 1, os := o4\<rparr>"
  obtain o5 where o5: "new_object P sizeof_channel ?w2 = Inr (brk w + 1, ?w2\<lparr>brk := brk w + 2, os := o5\<rparr>)"
    using new_object_ok [OF m, of sizeof_channel ?w2] by auto
  show ?thesis
    using o1 o2 o3 o4 o5 connection_name [OF fd]
    by (intro exI [of _ o5]) (simp add: tcp_connection_new_def fresh_conn_def conn_channel_def Let_def)
qed

end

