(* ===== verification/Http_Parser.thy ===== *)
theory Http_Parser
  imports Http_Request Buffer
begin

text \<open>
  The parser of \<^verbatim>\<open>httptest-geektime/lib/http_server.c\<close>: \<open>process_status_line\<close> and
  \<open>parse_http_request\<close>.  The strings of the status line end up in blocks of one byte more
  than their length, of which the last is never written: \<open>junk n\<close> is the byte a fresh block of
  \<open>n\<close> bytes has there.  The terminator goes one byte past the block; such writes are counted, and the
  memory a field points to is shown with that byte.
\<close>

section \<open>The code\<close>

text \<open>\<open>line\<close> is the memory from \<open>start\<close> to \<open>end\<close>; the result has the size of the line and the stray writes.\<close>

definition process_status_line :: "(nat \<Rightarrow> byte) \<Rightarrow> byte list \<Rightarrow> http_request \<Rightarrow> (int \<times> http_request \<times> nat) c_res" where
  "process_status_line junk line r =
     (case mem_find [32] line of
        None \<Rightarrow> Inl AssertionFailed
      | Some i \<Rightarrow>
          c_bind (c_strncpy line i) (\<lambda>m.
          let start = drop (Suc i) line in
          case mem_find [32] start of
            None \<Rightarrow> Inl AssertionFailed
          | Some j \<Rightarrow>
              c_bind (c_strncpy start j) (\<lambda>u.
              let start = drop (Suc j) start in
              c_bind (c_strncpy start (length start)) (\<lambda>v.
              Inr (int (length line),
                   r\<lparr>req_method := Some (m @ [junk (Suc i), 0]),
                     url := Some (u @ [junk (Suc j), 0]),
                     version := Some (v @ [junk (Suc (length start)), 0])\<rparr>,
                   3)))))"

text \<open>The memory from the read position to a place found in the buffer.\<close>

definition line_to :: "buffer \<Rightarrow> int \<Rightarrow> byte list" where
  "line_to b e = take (nat (e - readIndex b)) (drop (nat (readIndex b)) (data b))"

definition status_round :: "(nat \<Rightarrow> byte) \<Rightarrow> buffer \<times> http_request \<times> nat \<Rightarrow> (buffer \<times> http_request \<times> nat) c_res" where
  "status_round junk = (\<lambda>(b, r, stray).
     c_bind (buffer_find_CRLF b) (\<lambda>crlf.
     case crlf of None \<Rightarrow> Inr (b, r, stray)
     | Some e \<Rightarrow>
         c_bind (process_status_line junk (line_to b e) r) (\<lambda>(n, r, k).
         if n \<noteq> 0 then Inr (b\<lparr>readIndex := readIndex b + n + 2\<rparr>, r\<lparr>current_state := REQUEST_HEADERS\<rparr>, stray + k)
         else Inr (b, r, stray + k))))"

definition header_round :: "buffer \<times> http_request \<times> nat \<Rightarrow> (buffer \<times> http_request \<times> nat) c_res" where
  "header_round = (\<lambda>(b, r, stray).
     c_bind (buffer_find_CRLF b) (\<lambda>crlf.
     case crlf of None \<Rightarrow> Inr (b, r, stray)
     | Some e \<Rightarrow>
         let line = line_to b e in
         case mem_find [58, 32] line of
           Some colon \<Rightarrow>
             c_bind (c_strncpy line colon) (\<lambda>k.
             c_bind (c_strncpy (drop (colon + 2) line) (length line - colon - 2)) (\<lambda>v.
             c_bind (http_request_add_header r (k @ [0]) (v @ [0])) (\<lambda>r.
             Inr (b\<lparr>readIndex := readIndex b + int (length line) + 2\<rparr>, r, stray))))
         | None \<Rightarrow> Inr (b\<lparr>readIndex := readIndex b + 2\<rparr>, r\<lparr>current_state := REQUEST_DONE\<rparr>, stray)))"

definition parse_round :: "(nat \<Rightarrow> byte) \<Rightarrow> buffer \<times> http_request \<times> nat \<Rightarrow> (buffer \<times> http_request \<times> nat) c_res" where
  "parse_round junk s =
     (case current_state (fst (snd s)) of
        REQUEST_STATUS \<Rightarrow> status_round junk s
      | REQUEST_HEADERS \<Rightarrow> header_round s
      | _ \<Rightarrow> Inr s)"

text \<open>The loop; \<open>None\<close> if it never ends.\<close>

partial_function (option) parse_http_request :: "(nat \<Rightarrow> byte) \<Rightarrow> buffer \<times> http_request \<times> nat
    \<Rightarrow> (int \<times> buffer \<times> http_request \<times> nat) c_res option" where
  "parse_http_request junk s =
     (if current_state (fst (snd s)) = REQUEST_DONE then Some (Inr (1, s))
      else case parse_round junk s of
        Inl e \<Rightarrow> Some (Inl e)
      | Inr s' \<Rightarrow> parse_http_request junk s')"

section \<open>Lines in the buffer\<close>

lemma find_CRLF_content:
  assumes "buffer_inv b" and "content b = line @ CRLF @ rest" and "no_pair 13 10 line"
  shows "buffer_find_CRLF b = Inr (Some (readIndex b + int (length line)))"
proof -
  have "mem_find CRLF (content b) = Some (length line)"
    using assms(2,3) mem_find_pair [of 13 10 line rest] by (simp add: CRLF_def)
  with assms(1) show ?thesis
    by (simp add: buffer_find_CRLF_def buffer_inv_def content_def buffer_readable_size_def)
qed

lemma find_CRLF_none:
  assumes "buffer_inv b" and "no_pair 13 10 (content b)"
  shows "buffer_find_CRLF b = Inr None"
  using assms mem_find_pair_None [of 13 10 "content b"]
  by (simp add: buffer_find_CRLF_def buffer_inv_def content_def buffer_readable_size_def CRLF_def)

lemma line_to_content:
  assumes "buffer_inv b" and "content b = line @ rest"
  shows "line_to b (readIndex b + int (length line)) = line"
proof -
  have "length line \<le> nat (buffer_readable_size b)"
    using content_length [OF assms(1)] assms(2) by (simp add: nat_le_iff)
  then have "take (length line) (drop (nat (readIndex b)) (data b)) = take (length line) (content b)"
    by (simp add: content_def)
  with assms(2) show ?thesis by (simp add: line_to_def)
qed

lemma skip_content:
  assumes "buffer_inv b" and "content b = xs @ ys"
  shows "buffer_inv (b\<lparr>readIndex := readIndex b + int (length xs)\<rparr>) \<and>
    content (b\<lparr>readIndex := readIndex b + int (length xs)\<rparr>) = ys"
proof
  have len: "int (length xs) + int (length ys) = buffer_readable_size b"
    using content_length [OF assms(1)] assms(2) by simp
  then show inv: "buffer_inv (b\<lparr>readIndex := readIndex b + int (length xs)\<rparr>)"
    using assms(1) by (simp add: buffer_inv_def buffer_readable_size_def)
  have "content (b\<lparr>readIndex := readIndex b + int (length xs)\<rparr>) = drop (length xs) (content b)"
    using assms(1) len
    by (simp add: content_def buffer_readable_size_def buffer_inv_def drop_take nat_add_distrib nat_diff_distrib add.commute)
  with assms(2) show "content (b\<lparr>readIndex := readIndex b + int (length xs)\<rparr>) = ys" by simp
qed

section \<open>Requests as text\<close>

definition render_header :: "byte list \<times> byte list \<Rightarrow> byte list" where
  "render_header kv = fst kv @ [58, 32] @ snd kv @ CRLF"

definition render_request :: "byte list \<Rightarrow> byte list \<Rightarrow> byte list \<Rightarrow> (byte list \<times> byte list) list \<Rightarrow> byte list" where
  "render_request m u v hs = m @ [32] @ u @ [32] @ v @ CRLF @ concat (map render_header hs) @ CRLF"

definition line_ok :: "byte list \<Rightarrow> byte list \<Rightarrow> byte list \<Rightarrow> bool" where
  "line_ok m u v \<longleftrightarrow> 32 \<notin> set m \<and> 32 \<notin> set u \<and> 0 \<notin> set (m @ u @ v) \<and> no_pair 13 10 (m @ [32] @ u @ [32] @ v)"

definition header_ok :: "byte list \<times> byte list \<Rightarrow> bool" where
  "header_ok kv \<longleftrightarrow> no_pair 58 32 (fst kv) \<and> 0 \<notin> set (fst kv @ snd kv) \<and> no_pair 13 10 (fst kv @ [58, 32] @ snd kv)"

definition header_cell :: "byte list \<times> byte list \<Rightarrow> request_header" where
  "header_cell kv = \<lparr>hkey = fst kv @ [0], hval = snd kv @ [0]\<rparr>"

lemma process_status_line_ok:
  assumes "line_ok m u v"
  shows "process_status_line junk (m @ [32] @ u @ [32] @ v) r =
    Inr (int (length (m @ [32] @ u @ [32] @ v)),
         r\<lparr>req_method := Some (m @ [junk (Suc (length m)), 0]), url := Some (u @ [junk (Suc (length u)), 0]),
           version := Some (v @ [junk (Suc (length v)), 0])\<rparr>, 3)"
proof -
  have "mem_find [32] (m @ 32 # u @ 32 # v) = Some (length m)" "mem_find [32] (u @ 32 # v) = Some (length u)"
    using assms by (simp_all add: line_ok_def mem_find_byte)
  moreover have "c_strncpy (m @ 32 # u @ 32 # v) (length m) = Inr m" "c_strncpy (u @ 32 # v) (length u) = Inr u"
    "c_strncpy v (length v) = Inr v"
    using assms by (simp_all add: line_ok_def c_strncpy_take)
  ultimately show ?thesis by (simp add: process_status_line_def Let_def)
qed

lemma status_round_ok:
  assumes inv: "buffer_inv b" and c: "content b = m @ [32] @ u @ [32] @ v @ CRLF @ rest" and ok: "line_ok m u v"
  shows "\<exists>b'. status_round junk (b, r, n) = Inr (b',
      r\<lparr>req_method := Some (m @ [junk (Suc (length m)), 0]), url := Some (u @ [junk (Suc (length u)), 0]),
        version := Some (v @ [junk (Suc (length v)), 0]), current_state := REQUEST_HEADERS\<rparr>, n + 3) \<and>
      buffer_inv b' \<and> content b' = rest"
proof -
  let ?line = "m @ [32] @ u @ [32] @ v"
  have c': "content b = ?line @ CRLF @ rest" using c by simp
  have line: "buffer_find_CRLF b = Inr (Some (readIndex b + int (length ?line)))"
    by (rule find_CRLF_content [OF inv c']) (use ok in \<open>simp add: line_ok_def\<close>)
  have lt: "line_to b (readIndex b + int (length ?line)) = ?line" by (rule line_to_content [OF inv c'])
  let ?b = "b\<lparr>readIndex := readIndex b + int (length ?line) + 2\<rparr>"
  have "status_round junk (b, r, n) = Inr (?b,
      r\<lparr>req_method := Some (m @ [junk (Suc (length m)), 0]), url := Some (u @ [junk (Suc (length u)), 0]),
        version := Some (v @ [junk (Suc (length v)), 0]), current_state := REQUEST_HEADERS\<rparr>, n + 3)"
    unfolding status_round_def prod.case line c_bind_simps option.case lt process_status_line_ok [OF ok] by simp
  moreover have "buffer_inv ?b \<and> content ?b = rest"
    using skip_content [OF inv, of "?line @ CRLF" rest] c' by (simp add: CRLF_def add.assoc)
  ultimately show ?thesis by blast
qed

lemma header_round_ok:
  assumes inv: "buffer_inv b" and c: "content b = render_header kv @ rest" and ok: "header_ok kv"
    and room: "request_headers r = Some hs" "0 \<le> request_headers_number r" "request_headers_number r < int (length hs)"
      "request_headers_number r < INT_MAX"
  shows "\<exists>b'. header_round (b, r, n) = Inr (b',
      r\<lparr>request_headers := Some (hs[nat (request_headers_number r) := header_cell kv]),
        request_headers_number := request_headers_number r + 1\<rparr>, n) \<and> buffer_inv b' \<and> content b' = rest"
proof -
  let ?k = "fst kv" let ?v = "snd kv" let ?line = "?k @ [58, 32] @ ?v"
  have c': "content b = ?line @ CRLF @ rest" using c by (simp add: render_header_def)
  have line: "buffer_find_CRLF b = Inr (Some (readIndex b + int (length ?line)))"
    by (rule find_CRLF_content [OF inv c']) (use ok in \<open>simp add: header_ok_def\<close>)
  have lt: "line_to b (readIndex b + int (length ?line)) = ?line" by (rule line_to_content [OF inv c'])
  have colon: "mem_find [58, 32] ?line = Some (length ?k)"
    using ok by (simp add: header_ok_def mem_find_pair)
  have copies: "c_strncpy ?line (length ?k) = Inr ?k"
    "c_strncpy (drop (length ?k + 2) ?line) (length ?line - length ?k - 2) = Inr ?v"
    using ok by (simp_all add: header_ok_def c_strncpy_take)
  have add: "http_request_add_header r (?k @ [0]) (?v @ [0]) =
      Inr (r\<lparr>request_headers := Some (hs[nat (request_headers_number r) := header_cell kv]),
        request_headers_number := request_headers_number r + 1\<rparr>)"
    using room by (simp add: http_request_add_header_def c_mem c_int_defs header_cell_def INT_MAX_def)
  let ?b = "b\<lparr>readIndex := readIndex b + int (length ?line) + 2\<rparr>"
  have "header_round (b, r, n) = Inr (?b,
      r\<lparr>request_headers := Some (hs[nat (request_headers_number r) := header_cell kv]),
        request_headers_number := request_headers_number r + 1\<rparr>, n)"
    unfolding header_round_def prod.case line c_bind_simps option.case lt Let_def colon copies add ..
  moreover have "buffer_inv ?b \<and> content ?b = rest"
    using skip_content [OF inv, of "?line @ CRLF" rest] c' by (simp add: CRLF_def add.assoc)
  ultimately show ?thesis by blast
qed

lemma header_round_end:
  assumes inv: "buffer_inv b" and c: "content b = line @ CRLF @ rest" and "no_pair 13 10 line" and "no_pair 58 32 line"
  shows "\<exists>b'. header_round (b, r, n) = Inr (b', r\<lparr>current_state := REQUEST_DONE\<rparr>, n) \<and>
    buffer_inv b' \<and> content b' = drop 2 (line @ CRLF @ rest)"
proof -
  have line: "buffer_find_CRLF b = Inr (Some (readIndex b + int (length line)))"
    by (rule find_CRLF_content [OF inv c assms(3)])
  have lt: "line_to b (readIndex b + int (length line)) = line" by (rule line_to_content [OF inv c])
  let ?b = "b\<lparr>readIndex := readIndex b + 2\<rparr>"
  have "header_round (b, r, n) = Inr (?b, r\<lparr>current_state := REQUEST_DONE\<rparr>, n)"
    using line lt mem_find_pair_None [OF assms(4)] by (simp add: header_round_def)
  moreover have split: "content b = take 2 (line @ CRLF @ rest) @ drop 2 (line @ CRLF @ rest)"
    by (metis append_take_drop_id c)
  have two: "int (length (take 2 (line @ CRLF @ rest))) = 2" by (simp add: CRLF_def)
  have "buffer_inv ?b \<and> content ?b = drop 2 (line @ CRLF @ rest)"
    by (rule skip_content [OF inv split, unfolded two])
  ultimately show ?thesis by blast
qed

lemma parse_unfold:
  assumes "parse_round junk s = Inr s'" and "current_state (fst (snd s)) \<noteq> REQUEST_DONE"
  shows "parse_http_request junk s = parse_http_request junk s'"
  using assms by (simp add: parse_http_request.simps [of junk s])

lemma parse_done: "current_state r = REQUEST_DONE \<Longrightarrow> parse_http_request junk (b, r, n) = Some (Inr (1, b, r, n))"
  by (simp add: parse_http_request.simps)

text \<open>The cells of the header array from a place on, filled with the given headers.\<close>

definition fill_cells :: "nat \<Rightarrow> (byte list \<times> byte list) list \<Rightarrow> request_header list \<Rightarrow> request_header list" where
  "fill_cells i kvs hs = take i hs @ map header_cell kvs @ drop (i + length kvs) hs"

lemma fill_cells_Cons:
  "i < length hs \<Longrightarrow> fill_cells (Suc i) kvs (hs[i := header_cell kv]) = fill_cells i (kv # kvs) hs"
  by (simp add: fill_cells_def take_Suc_conv_app_nth)

lemma parse_headers:
  assumes "buffer_inv b" and "content b = concat (map render_header kvs) @ CRLF @ rest" and "list_all header_ok kvs"
    and "current_state r = REQUEST_HEADERS" and "request_headers r = Some hs"
    and "request_headers_number r = int i" and "i + length kvs \<le> length hs" and "int (length hs) \<le> INT_MAX"
  shows "\<exists>b'. parse_http_request junk (b, r, n) = Some (Inr (1, b',
      r\<lparr>request_headers := Some (fill_cells i kvs hs), request_headers_number := int (i + length kvs),
        current_state := REQUEST_DONE\<rparr>, n)) \<and> buffer_inv b' \<and> content b' = rest"
  using assms
proof (induction kvs arbitrary: b r hs i)
  case Nil
  then obtain b' where b': "header_round (b, r, n) = Inr (b', r\<lparr>current_state := REQUEST_DONE\<rparr>, n)"
      "buffer_inv b'" "content b' = rest"
    using header_round_end [of b "[]" rest r n] by (auto simp: CRLF_def)
  have "parse_round junk (b, r, n) = Inr (b', r\<lparr>current_state := REQUEST_DONE\<rparr>, n)"
    using b'(1) Nil by (simp add: parse_round_def)
  then have "parse_http_request junk (b, r, n) = Some (Inr (1, b', r\<lparr>current_state := REQUEST_DONE\<rparr>, n))"
    using parse_unfold [of junk "(b, r, n)"] Nil by (simp add: parse_done)
  moreover have "r\<lparr>request_headers := Some (fill_cells i [] hs), request_headers_number := int (i + length []), current_state := REQUEST_DONE\<rparr>
      = r\<lparr>current_state := REQUEST_DONE\<rparr>"
    using Nil by (simp add: fill_cells_def)
  ultimately show ?case using b' by metis
next
  case (Cons kv kvs)
  let ?r = "r\<lparr>request_headers := Some (hs[i := header_cell kv]), request_headers_number := int i + 1\<rparr>"
  obtain b1 where b1: "header_round (b, r, n) = Inr (b1, ?r, n)" "buffer_inv b1"
      "content b1 = concat (map render_header kvs) @ CRLF @ rest"
    using header_round_ok [of b kv "concat (map render_header kvs) @ CRLF @ rest" r hs n] Cons.prems by auto
  have "parse_round junk (b, r, n) = Inr (b1, ?r, n)" using b1(1) Cons.prems(4) by (simp add: parse_round_def)
  then have step: "parse_http_request junk (b, r, n) = parse_http_request junk (b1, ?r, n)"
    using parse_unfold [of junk "(b, r, n)"] Cons.prems(4) by simp
  from Cons.IH [of b1 ?r "hs[i := header_cell kv]" "Suc i"] b1 Cons.prems obtain b' where
    b': "parse_http_request junk (b1, ?r, n) = Some (Inr (1, b',
      ?r\<lparr>request_headers := Some (fill_cells (Suc i) kvs (hs[i := header_cell kv])), request_headers_number := int (Suc i + length kvs),
        current_state := REQUEST_DONE\<rparr>, n))" "buffer_inv b'" "content b' = rest" by auto
  have "?r\<lparr>request_headers := Some (fill_cells (Suc i) kvs (hs[i := header_cell kv])), request_headers_number := int (Suc i + length kvs),
        current_state := REQUEST_DONE\<rparr>
      = r\<lparr>request_headers := Some (fill_cells i (kv # kvs) hs), request_headers_number := int (i + length (kv # kvs)),
        current_state := REQUEST_DONE\<rparr>"
    using Cons.prems(7) by (simp add: fill_cells_Cons)
  with b' step show ?case by auto
qed
text \<open>The request object once a text is parsed into it.\<close>

definition parsed_request :: "(nat \<Rightarrow> byte) \<Rightarrow> byte list \<Rightarrow> byte list \<Rightarrow> byte list \<Rightarrow> (byte list \<times> byte list) list \<Rightarrow> request_header list
    \<Rightarrow> http_request \<Rightarrow> http_request" where
  "parsed_request junk m u v hs cells r =
     r\<lparr>req_method := Some (m @ [junk (Suc (length m)), 0]), url := Some (u @ [junk (Suc (length u)), 0]),
       version := Some (v @ [junk (Suc (length v)), 0]), current_state := REQUEST_DONE,
       request_headers := Some (fill_cells 0 hs cells), request_headers_number := int (length hs)\<rparr>"

lemma parse_rendered_request_aux:
  assumes "buffer_inv b" and "content b = render_request m u v hs @ rest" and "line_ok m u v" and "list_all header_ok hs"
    and "current_state r = REQUEST_STATUS" and "request_headers r = Some cells" and "request_headers_number r = 0"
    and "length hs \<le> length cells" and "int (length cells) \<le> INT_MAX"
  shows "\<exists>b'. parse_http_request junk (b, r, n) = Some (Inr (1, b', parsed_request junk m u v hs cells r, n + 3)) \<and> buffer_inv b' \<and> content b' = rest"
proof -
  let ?r = "r\<lparr>req_method := Some (m @ [junk (Suc (length m)), 0]), url := Some (u @ [junk (Suc (length u)), 0]),
        version := Some (v @ [junk (Suc (length v)), 0]), current_state := REQUEST_HEADERS\<rparr>"
  obtain b1 where b1: "status_round junk (b, r, n) = Inr (b1, ?r, n + 3)" "buffer_inv b1"
      "content b1 = concat (map render_header hs) @ CRLF @ rest"
    using status_round_ok [OF assms(1) _ assms(3), of "concat (map render_header hs) @ CRLF @ rest" junk r n] assms(2)
    by (auto simp: render_request_def)
  have "parse_round junk (b, r, n) = Inr (b1, ?r, n + 3)" using b1(1) assms(5) by (simp add: parse_round_def)
  then have step: "parse_http_request junk (b, r, n) = parse_http_request junk (b1, ?r, n + 3)"
    using parse_unfold [of junk "(b, r, n)"] assms(5) by simp
  from parse_headers [OF b1(2,3) assms(4), of ?r cells 0 junk "n + 3"] assms(6-9) obtain b' where
    "parse_http_request junk (b1, ?r, n + 3) = Some (Inr (1, b',
      ?r\<lparr>request_headers := Some (fill_cells 0 hs cells), request_headers_number := int (length hs),
        current_state := REQUEST_DONE\<rparr>, n + 3))" "buffer_inv b'" "content b' = rest" by auto
  with step show ?thesis by (intro exI [of _ b']) (simp add: parsed_request_def)
qed

lemma parsed_request_simps [simp]:
  "current_state (parsed_request junk m u v hs cells r) = REQUEST_DONE"
  "req_method (parsed_request junk m u v hs cells r) = Some (m @ [junk (Suc (length m)), 0])"
  "url (parsed_request junk m u v hs cells r) = Some (u @ [junk (Suc (length u)), 0])"
  "version (parsed_request junk m u v hs cells r) = Some (v @ [junk (Suc (length v)), 0])"
  "headers_of (parsed_request junk m u v hs cells r) = map header_cell hs"
  by (simp_all add: parsed_request_def headers_of_def fill_cells_def)

section \<open>Properties\<close>

text \<open>
  C7. Parsing the text of a request whose parts hold no separators yields exactly those parts: method, url and
  version, then the headers in order, in state done, with whatever follows the request still in the buffer. The three strings of the
  status line are followed by one byte of uninitialised memory, and their terminators by three writes past the allocated blocks.
\<close>

theorem parse_rendered_request:
  assumes "buffer_inv b" and "content b = render_request m u v hs @ rest" and "line_ok m u v" and "list_all header_ok hs"
    and "current_state r = REQUEST_STATUS" and "request_headers r = Some cells" and "request_headers_number r = 0"
    and "length hs \<le> length cells" and "int (length cells) \<le> INT_MAX"
  shows "\<exists>b' r'. parse_http_request junk (b, r, n) = Some (Inr (1, b', r', n + 3)) \<and> buffer_inv b' \<and> content b' = rest \<and>
     current_state r' = REQUEST_DONE \<and>
     req_method r' = Some (m @ [junk (Suc (length m)), 0]) \<and> url r' = Some (u @ [junk (Suc (length u)), 0]) \<and>
     version r' = Some (v @ [junk (Suc (length v)), 0]) \<and> headers_of r' = map header_cell hs"
proof -
  from parse_rendered_request_aux [OF assms] obtain b' where
    "parse_http_request junk (b, r, n) = Some (Inr (1, b', parsed_request junk m u v hs cells r, n + 3))" "buffer_inv b'" "content b' = rest" by blast
  then show ?thesis by (intro exI [of _ b'] exI [of _ "parsed_request junk m u v hs cells r"]) simp
qed

definition sample_text :: "byte list" where
  "sample_text = bytes_of ''GET / HTTP/1.1'' @ CRLF @ bytes_of ''Host: a'' @ CRLF @ CRLF @ bytes_of ''x''"

definition sample_input :: buffer where
  "sample_input = \<lparr>data = sample_text, readIndex = 0, writeIndex = 28, total_size = 28\<rparr>"

lemma sample_input_ok [simp]: "buffer_inv sample_input" "content sample_input = sample_text"
  by (simp_all add: buffer_inv_def content_def sample_input_def buffer_readable_size_def sample_text_def bytes_of_def CRLF_def INT_MAX_def)

theorem parse_rendered_request_witness:
  "\<exists>b' r'. parse_http_request (\<lambda>n. 0) (sample_input, http_request_new (Some (replicate 2 (header_cell ([], [])))), 0)
     = Some (Inr (1, b', r', 3)) \<and> content b' = bytes_of ''x'' \<and> req_method r' = Some (bytes_of ''GET'' @ [0, 0]) \<and>
     headers_of r' = [header_cell (bytes_of ''Host'', bytes_of ''a'')]"
proof -
  have "sample_text = render_request (bytes_of ''GET'') (bytes_of ''/'') (bytes_of ''HTTP/1.1'')
      [(bytes_of ''Host'', bytes_of ''a'')] @ bytes_of ''x''"
    by code_simp
  moreover have "line_ok (bytes_of ''GET'') (bytes_of ''/'') (bytes_of ''HTTP/1.1'')"
    "list_all header_ok [(bytes_of ''Host'', bytes_of ''a'')]" by code_simp+
  ultimately show ?thesis
    using parse_rendered_request [of sample_input "bytes_of ''GET''" "bytes_of ''/''" "bytes_of ''HTTP/1.1''"
        "[(bytes_of ''Host'', bytes_of ''a'')]" "bytes_of ''x''"
        "http_request_new (Some (replicate 2 (header_cell ([], []))))" "replicate 2 (header_cell ([], []))" "\<lambda>n. 0" 0]
    by (auto simp: http_request_new_def INT_MAX_def)
qed

lemma stuck_round:
  assumes "buffer_inv b" and "no_pair 13 10 (content b)"
  shows "parse_round junk (b, r, n) = Inr (b, r, n)"
  using find_CRLF_none [OF assms]
  by (simp add: parse_round_def status_round_def header_round_def split: http_request_state.split)

text \<open>
  C28. When the buffer holds no complete line and the request is not done, the parser never returns: it does not
  wait for more data but loops.
\<close>

theorem parse_spins_on_partial_line:
  assumes "buffer_inv b" and "no_pair 13 10 (content b)" and "current_state r \<noteq> REQUEST_DONE"
  shows "parse_http_request junk (b, r, n) = None"
proof -
  have "s = (b, r, n) \<longrightarrow> False" if "parse_http_request j s = Some y" for j s y
    using that
  proof (rule parse_http_request.raw_induct [where P = "\<lambda>j s y. s = (b, r, n) \<longrightarrow> False", rotated])
    fix parse j s y
    assume ih: "\<And>j s y. parse j s = Some y \<Longrightarrow> s = (b, r, n) \<longrightarrow> False"
      and body: "(if current_state (fst (snd s)) = REQUEST_DONE then Some (Inr (1, s))
        else case parse_round j s of Inl e \<Rightarrow> Some (Inl e) | Inr s' \<Rightarrow> parse j s') = Some y"
    show "s = (b, r, n) \<longrightarrow> False"
    proof
      assume "s = (b, r, n)"
      with body assms have "parse j s = Some y" by (simp add: stuck_round)
      from ih [OF this] \<open>s = (b, r, n)\<close> show False by blast
    qed
  qed
  then show ?thesis by (metis option.exhaust)
qed

theorem parse_spins_on_partial_line_witness:
  "parse_http_request (\<lambda>n. 0) (\<lparr>data = bytes_of ''GET / HT'', readIndex = 0, writeIndex = 8, total_size = 8\<rparr>,
     http_request_new None, 0) = None"
  by (rule parse_spins_on_partial_line)
    (simp_all add: buffer_inv_def content_def buffer_readable_size_def http_request_new_def bytes_of_def INT_MAX_def)

text \<open>
  A status line with fewer than two spaces aborts the process by an assertion instead of being answered.
\<close>

theorem bad_status_line_aborts:
  assumes inv: "buffer_inv b" and c: "content b = line @ CRLF @ rest" and np: "no_pair 13 10 line"
    and few: "length (filter (\<lambda>x. x = 32) line) < 2" and st: "current_state r = REQUEST_STATUS"
    and nz: "0 \<notin> set line"
  shows "parse_http_request junk (b, r, n) = Some (Inl AssertionFailed)"
proof -
  have "process_status_line junk line r = Inl AssertionFailed"
  proof (cases "32 \<in> set line")
    case False
    then show ?thesis by (simp add: process_status_line_def mem_find_byte_None)
  next
    case True
    then obtain xs ys where s: "line = xs @ 32 # ys" "32 \<notin> set xs" by (metis split_list_first)
    with few have "filter (\<lambda>x. x = 32) ys = []" by auto
    then have "32 \<notin> set ys" by (auto simp: filter_empty_conv)
    moreover have "c_strncpy line (length xs) = Inr xs" using nz s(1) by (simp add: c_strncpy_take)
    ultimately show ?thesis
      using s by (simp add: process_status_line_def mem_find_byte mem_find_byte_None Let_def)
  qed
  then have "parse_round junk (b, r, n) = Inl AssertionFailed"
    using find_CRLF_content [OF inv c np] line_to_content [OF inv c] st
    by (simp add: parse_round_def status_round_def)
  then show ?thesis using st by (simp add: parse_http_request.simps [of junk "(b, r, n)"])
qed

theorem bad_status_line_aborts_witness:
  "parse_http_request (\<lambda>n. 0) (\<lparr>data = bytes_of ''GET /'' @ CRLF, readIndex = 0, writeIndex = 7, total_size = 7\<rparr>,
     http_request_new None, 0) = Some (Inl AssertionFailed)"
  by (rule bad_status_line_aborts [where line = "bytes_of ''GET /''" and rest = "[]"])
    (simp_all add: buffer_inv_def content_def buffer_readable_size_def http_request_new_def bytes_of_def INT_MAX_def CRLF_def)

text \<open>
  A header line without a colon and space is taken for the empty line that ends the headers: parsing ends, and
  only two bytes of that line are removed from the buffer.
\<close>

theorem header_without_colon_ends_request:
  assumes "buffer_inv b" and "content b = line @ CRLF @ rest" and "no_pair 13 10 line" and "no_pair 58 32 line"
    and "current_state r = REQUEST_HEADERS"
  shows "\<exists>b'. parse_http_request junk (b, r, n) = Some (Inr (1, b', r\<lparr>current_state := REQUEST_DONE\<rparr>, n)) \<and>
     content b' = drop 2 (line @ CRLF @ rest)"
proof -
  from header_round_end [OF assms(1-4), of r n] obtain b' where
    b': "header_round (b, r, n) = Inr (b', r\<lparr>current_state := REQUEST_DONE\<rparr>, n)" "content b' = drop 2 (line @ CRLF @ rest)" by blast
  have "parse_round junk (b, r, n) = Inr (b', r\<lparr>current_state := REQUEST_DONE\<rparr>, n)"
    using b'(1) assms(5) by (simp add: parse_round_def)
  then show ?thesis using parse_unfold [of junk "(b, r, n)"] assms(5) b'(2) by (simp add: parse_done)
qed

theorem header_without_colon_ends_request_witness:
  "\<exists>b'. parse_http_request (\<lambda>n. 0) (\<lparr>data = bytes_of ''Host:a'' @ CRLF @ CRLF, readIndex = 0, writeIndex = 10, total_size = 10\<rparr>,
     (http_request_new None)\<lparr>current_state := REQUEST_HEADERS\<rparr>, 0) =
     Some (Inr (1, b', (http_request_new None)\<lparr>current_state := REQUEST_DONE\<rparr>, 0)) \<and> content b' = bytes_of ''st:a'' @ CRLF @ CRLF"
  using header_without_colon_ends_request [of "\<lparr>data = bytes_of ''Host:a'' @ CRLF @ CRLF, readIndex = 0, writeIndex = 10, total_size = 10\<rparr>"
      "bytes_of ''Host:a''" CRLF "(http_request_new None)\<lparr>current_state := REQUEST_HEADERS\<rparr>" "\<lambda>n. 0" 0]
  by (simp add: buffer_inv_def content_def buffer_readable_size_def http_request_new_def bytes_of_def INT_MAX_def CRLF_def)

end
