(* ===== verification/Http_Server.thy ===== *)
theory Http_Server
  imports Tcp_Server Http_Parser
begin

text \<open>
  The callbacks and the server object of \<^verbatim>\<open>httptest-geektime/lib/http_server.c\<close>, and the request callbacks of
  \<^verbatim>\<open>src/http_server01.c\<close> and \<^verbatim>\<open>src/http_server_test.c\<close>: from the bytes of a request on a
  socket to the bytes of its response.
\<close>

section \<open>Callbacks of a connection\<close>

type_synonym ('d, 'o) request_callback = "http_request \<Rightarrow> http_response \<Rightarrow> ('d, 'o) net \<Rightarrow> (http_response \<times> ('d, 'o) net) c_res"

definition sizeof_http_request :: nat where "sizeof_http_request = 48"

definition sizeof_http_response :: nat where "sizeof_http_response = 56"

definition sizeof_http_server :: nat where "sizeof_http_server = 16"

text \<open>\<open>http_request_new\<close> and \<open>http_response_new\<close> on the platform; the header arrays are not checked.\<close>

definition new_request :: "('d, 'o) plat \<Rightarrow> ('d, 'o) net \<Rightarrow> (http_request \<times> ('d, 'o) net) c_res" where
  "new_request P w =
     c_bind (must_malloc (pl_sys P) sizeof_http_request (os w)) (\<lambda>o1.
     let (ok, o2) = sys_malloc (pl_sys P) (sizeof_http_request * INIT_REQUEST_HEADER_SIZE) o1
     in Inr (http_request_new (if ok then Some (pl_cells P) else None), w\<lparr>os := o2\<rparr>))"

definition new_response :: "('d, 'o) plat \<Rightarrow> ('d, 'o) net \<Rightarrow> (http_response \<times> ('d, 'o) net) c_res" where
  "new_response P w =
     c_bind (must_malloc (pl_sys P) sizeof_http_response (os w)) (\<lambda>o1.
     let (ok, o2) = sys_malloc (pl_sys P) (16 * 128) o1
     in Inr (http_response_new (pl_ctype P) (if ok then Some (pl_rcells P) else None), w\<lparr>os := o2\<rparr>))"

definition http_onConnectionCompleted :: "('d, 'o) plat \<Rightarrow> nat \<Rightarrow> ('d, 'o) net \<Rightarrow> ('d, 'o) net c_res" where
  "http_onConnectionCompleted P a w =
     c_bind (new_request P w) (\<lambda>(r, w).
     c_bind (get_conn w a) (\<lambda>tc.
     Inr (set_conn a (tc\<lparr>tc_request := At r\<rparr>) w)))"

text \<open>The last byte of a fresh block.\<close>

definition block_junk :: "('d, 'o) plat \<Rightarrow> nat \<Rightarrow> byte" where
  "block_junk P n = last (pl_block P n)"

definition put_request :: "nat \<Rightarrow> http_request \<Rightarrow> ('d, 'o) net \<Rightarrow> ('d, 'o) net c_res" where
  "put_request a r w = c_bind (get_conn w a) (\<lambda>tc. Inr (set_conn a (tc\<lparr>tc_request := At r\<rparr>) w))"

text \<open>The answer to a complete request \<open>r\<close>.\<close>

definition respond :: "('d, 'o) plat \<Rightarrow> nat \<Rightarrow> ('d, 'o) request_callback \<Rightarrow> nat \<Rightarrow> nat slot \<Rightarrow> http_request \<Rightarrow> ('d, 'o) net \<Rightarrow> ('d, 'o) net c_res" where
  "respond P self onReq a server r w =
     c_bind (new_response P w) (\<lambda>(resp, w).
     c_bind (c_bind (slot_value server) (get_hserver w)) (\<lambda>hs.
     c_bind (if has_requestCallback hs then onReq r resp w else Inr (resp, w)) (\<lambda>(resp, w).
     let (b, w) = new_buffer P w in
     case b of
       None \<Rightarrow> Inl NullDeref
     | Some b \<Rightarrow>
         c_bind (http_response_encode_buffer (pl_realloc P) resp b) (\<lambda>b.
         c_bind (tcp_connection_send_buffer P self a b w) (\<lambda>(_, b, w).
         c_bind (http_request_close_connection (pl_diff P) r) (\<lambda>close.
         c_bind (if close \<noteq> 0 then tcp_connection_shutdown P a w else Inr w) (\<lambda>w.
         put_request a (http_request_reset r) w)))))))"

text \<open>The size passed with the error response is that of a pointer.\<close>

definition error_response :: "byte list" where
  "error_response = bytes_of ''HTTP/1.1 400 Bad Request'' @ CRLF @ CRLF @ [0]"

definition http_onMessage :: "('d, 'o) plat \<Rightarrow> nat \<Rightarrow> ('d, 'o) request_callback \<Rightarrow> nat \<Rightarrow> ('d, 'o) net \<Rightarrow> ('d, 'o) net c_res" where
  "http_onMessage P self onReq a w =
     c_bind (get_conn w a) (\<lambda>tc.
     c_bind (slot_value (tc_request tc)) (\<lambda>r.
     case input_buffer tc of
       None \<Rightarrow> Inl NullDeref
     | Some b \<Rightarrow>
         (case parse_http_request (block_junk P) (b, r, 0) of
            None \<Rightarrow> Inl NoReturn
          | Some res \<Rightarrow>
              c_bind res (\<lambda>(ok, b, r, n).
              let w = set_conn a (tc\<lparr>input_buffer := Some b, tc_request := At r\<rparr>) (w\<lparr>stray := stray w + n\<rparr>) in
              c_bind (if ok = 0 then
                        c_bind (tcp_connection_send_data P self a error_response 0 8 w) (\<lambda>(_, w).
                        tcp_connection_shutdown P a w)
                      else Inr w) (\<lambda>w.
              if http_request_current_state r = REQUEST_DONE then respond P self onReq a (tc_data tc) r w
              else Inr w)))))"

definition http_onWriteCompleted :: "nat \<Rightarrow> ('d, 'o) net \<Rightarrow> ('d, 'o) net c_res" where
  "http_onWriteCompleted a w = Inr w"

definition http_onConnectionClosed :: "nat \<Rightarrow> ('d, 'o) net \<Rightarrow> ('d, 'o) net c_res" where
  "http_onConnectionClosed a w =
     c_bind (get_conn w a) (\<lambda>tc.
     case tc_request tc of
       Unset \<Rightarrow> Inl Uninitialised
     | Null \<Rightarrow> Inr w
     | At r \<Rightarrow> c_bind (http_request_clear r) (\<lambda>_. Inr (set_conn a (tc\<lparr>tc_request := Null\<rparr>) w)))"

definition http_callbacks :: "('d, 'o) plat \<Rightarrow> nat \<Rightarrow> ('d, 'o) request_callback \<Rightarrow> conn_callback \<Rightarrow> nat \<Rightarrow> ('d, 'o) net \<Rightarrow> ('d, 'o) net c_res" where
  "http_callbacks P self onReq f a w =
     (case f of
        Http_onConnectionCompleted \<Rightarrow> http_onConnectionCompleted P a w
      | Http_onMessage \<Rightarrow> http_onMessage P self onReq a w
      | Http_onWriteCompleted \<Rightarrow> http_onWriteCompleted a w
      | Http_onConnectionClosed \<Rightarrow> http_onConnectionClosed a w)"

section \<open>The server\<close>

text \<open>The port is not used.\<close>

definition http_server_new :: "('d, 'o) plat \<Rightarrow> nat \<Rightarrow> int \<Rightarrow> bool \<Rightarrow> int \<Rightarrow> ('d, 'o) net \<Rightarrow> (nat \<times> ('d, 'o) net) c_res" where
  "http_server_new P l port has_callback n w =
     c_bind (new_object P sizeof_http_server w) (\<lambda>(hs, w).
     c_bind (acceptor_init (pl_sys P) SERV_PORT (os w)) (\<lambda>(acc, o').
     c_bind (tcp_server_init P l acc (Some Http_onConnectionCompleted) (Some Http_onMessage) (Some Http_onWriteCompleted)
               (Some Http_onConnectionClosed) n (w\<lparr>os := o'\<rparr>)) (\<lambda>(sv, w).
     let w = w\<lparr>hservers := (hservers w)(hs \<mapsto> \<lparr>tcpServer = sv, has_requestCallback = has_callback\<rparr>)\<rparr> in
     c_bind (get_server w sv) (\<lambda>s. Inr (hs, set_server sv (s\<lparr>sv_data := Some hs\<rparr>) w)))))"

definition http_server_start :: "('d, 'o) plat \<Rightarrow> nat \<Rightarrow> nat \<Rightarrow> ('d, 'o) net \<Rightarrow> ('d, 'o) net c_res" where
  "http_server_start P self hs w = c_bind (get_hserver w hs) (\<lambda>h. tcp_server_start P self (tcpServer h) w)"

section \<open>The request callbacks of the demo servers\<close>

text \<open>
  The path is copied into a block without room for a terminator: a comparison that agrees up to
  its end goes on in what lies behind the block.
\<close>

fun c_strcmp :: "(byte \<Rightarrow> byte \<Rightarrow> int) \<Rightarrow> byte list \<Rightarrow> byte list \<Rightarrow> int c_res" where
  "c_strcmp diff (x # a) (y # b) = (if x \<noteq> y then Inr (diff x y) else if x = 0 then Inr 0 else c_strcmp diff a b)"
| "c_strcmp diff _ _ = Inl OutOfBounds"

definition request_path :: "('d, 'o) plat \<Rightarrow> byte list \<Rightarrow> ('d, 'o) net \<Rightarrow> (byte list \<times> ('d, 'o) net) c_res" where
  "request_path P u w =
     c_bind (c_strlen u) (\<lambda>n.
     let len = (case mem_find [63] (take (nat n) u) of Some question \<Rightarrow> question | None \<Rightarrow> nat n) in
     c_bind (must_malloc (pl_sys P) len (os w)) (\<lambda>o'.
     c_bind (c_strncpy u len) (\<lambda>path.
     Inr (path, w\<lparr>os := o'\<rparr>))))"

definition path_is :: "('d, 'o) plat \<Rightarrow> byte list \<Rightarrow> string \<Rightarrow> ('d, 'o) net \<Rightarrow> (bool \<times> ('d, 'o) net) c_res" where
  "path_is P path lit w =
     (case c_strcmp (pl_diff P) path (c_lit lit) of
        Inr c \<Rightarrow> Inr (c = 0, w)
      | Inl e \<Rightarrow>
          c_bind (c_strcmp (pl_diff P) (path @ pl_behind P (length path)) (c_lit lit)) (\<lambda>c.
          Inr (c = 0, w\<lparr>stray := stray w + 1\<rparr>)))"

definition answer :: "HttpStatusCode \<Rightarrow> string \<Rightarrow> string \<Rightarrow> string \<Rightarrow> http_response \<Rightarrow> http_response" where
  "answer code message ctype text resp =
     resp\<lparr>statusCode := code, statusMessage := Some (c_lit message), contentType := Some (c_lit ctype), body := Some (c_lit text)\<rparr>"

definition onRequest_for :: "string \<Rightarrow> string \<Rightarrow> ('d, 'o) plat \<Rightarrow> ('d, 'o) request_callback" where
  "onRequest_for index network P r resp w =
     c_bind (case url r of None \<Rightarrow> Inl NullDeref | Some u \<Rightarrow> request_path P u w) (\<lambda>(path, w).
     c_bind (path_is P path ''/'' w) (\<lambda>(root, w).
     if root then Inr (answer OK ''OK'' ''text/html'' index resp, w)
     else
       c_bind (path_is P path network w) (\<lambda>(net, w).
       if net then Inr (answer OK ''OK'' ''text/plain'' ''hello, network programming'' resp, w)
       else Inr (resp\<lparr>statusCode := NotFound, statusMessage := Some (c_lit ''Not Found''), keep_connected := 1\<rparr>, w))))"

definition onRequest :: "('d, 'o) plat \<Rightarrow> ('d, 'o) request_callback" where
  "onRequest P = onRequest_for
     ''<html><head><title>This is network programming</title></head><body><h1>Hello, network programming</h1></body></html>'' ''/network'' P"

definition onRequest_test :: "('d, 'o) plat \<Rightarrow> ('d, 'o) request_callback" where
  "onRequest_test P = onRequest_for
     ''<html><head><title>This is network programming</title></head><body><h1>Hello, network programing</h1></body></html>'' ''network'' P"

section \<open>A new connection\<close>

lemma get_loop_os [simp]: "thread_pool_get_loop self tp (w\<lparr>os := o'\<rparr>) = thread_pool_get_loop self tp w"
  by (simp add: thread_pool_get_loop_def get_loop_def)

lemma new_request_ok: "mem_plat P \<Longrightarrow> \<exists>o'. new_request P w = Inr (http_request_new (Some (pl_cells P)), w\<lparr>os := o'\<rparr>)"
proof -
  assume m: "mem_plat P"
  obtain o1 where o1: "must_malloc (pl_sys P) sizeof_http_request (os w) = Inr o1" using mem_plat_malloc [OF m] ..
  have "fst (sys_malloc (pl_sys P) (sizeof_http_request * INIT_REQUEST_HEADER_SIZE) o1)" using m by (simp add: mem_plat_def)
  then obtain o2 where "sys_malloc (pl_sys P) (sizeof_http_request * INIT_REQUEST_HEADER_SIZE) o1 = (True, o2)" by (metis prod.collapse)
  with o1 have "new_request P w = Inr (http_request_new (Some (pl_cells P)), w\<lparr>os := o2\<rparr>)" by (simp add: new_request_def)
  then show ?thesis ..
qed

text \<open>A server of the HTTP callbacks.\<close>

definition http_handlers :: "TCPserver \<Rightarrow> bool" where
  "http_handlers s \<longleftrightarrow> sv_connectionCompletedCallBack s = Some Http_onConnectionCompleted \<and> sv_messageCallBack s = Some Http_onMessage \<and>
     sv_writeCompletedCallBack s = Some Http_onWriteCompleted \<and> sv_connectionClosedCallBack s = Some Http_onConnectionClosed"

text \<open>A connection that awaits its first request.\<close>

definition awaiting :: "('d, 'o) plat \<Rightarrow> nat \<Rightarrow> nat \<Rightarrow> int \<Rightarrow> nat \<Rightarrow> ('d, 'o) net \<Rightarrow> bool" where
  "awaiting P a l fd hs w \<longleftrightarrow> (\<exists>tc. connected w a tc (conn_channel fd a) (empty_buffer P) \<and> quiet w a tc (conn_channel fd a) (empty_buffer P) \<and>
     tc_eventLoop tc = l \<and> tc_messageCallBack tc = Some Http_onMessage \<and> tc_connectionClosedCallBack tc = Some Http_onConnectionClosed \<and>
     tc_request tc = At (http_request_new (Some (pl_cells P))) \<and> tc_data tc = At hs)"

lemma connection_made:
  assumes m: "mem_plat P" and s: "servers w sv = Some s" "http_handlers s" "sv_data s = Some hs"
    and acc: "sys_accept (pl_sys P) (listen_fd (sv_acceptor s)) (os w) = (fd, o1)" "0 \<le> fd"
    and turn: "thread_pool_get_loop self (threadPool s) w = Inr (Some l, tp)"
    and el: "loops w l = Some el" "pending_inv el q" "idle el" "owner_thread_id el \<noteq> self"
  shows "if fd < 10000 then
      \<exists>w' el'. handle_connection_established P self (http_callbacks P self onReq) sv w = Inr (0, w') \<and> awaiting P (brk w) l fd hs w' \<and>
        loops w' = (loops w)(l \<mapsto> el') \<and> pending_inv el' (q @ [(1, Some (brk w + 1))]) \<and> idle el' \<and> wakeups el' = wakeups el + (if pl_sent P then 1 else 0) \<and>
        owner_thread_id el' = owner_thread_id el \<and> event_dispatcher_data el' = event_dispatcher_data el \<and> channelMap el' = channelMap el \<and>
        chans w' = (chans w)(brk w + 1 \<mapsto> conn_channel fd (brk w)) \<and> servers w' = (servers w)(sv \<mapsto> s\<lparr>threadPool := tp\<rparr>) \<and>
        hservers w' = hservers w \<and> brk w' = brk w + 2
    else handle_connection_established P self (http_callbacks P self onReq) sv w = Inl OutOfBounds"
proof -
  let ?run = "http_callbacks P self onReq" and ?a = "brk w" and ?p = "brk w + 1"
  let ?w1 = "set_server sv (s\<lparr>threadPool := tp\<rparr>) (w\<lparr>os := make_nonblocking (pl_sys P) fd o1\<rparr>)"
  have b1: "brk ?w1 = brk w" "chans ?w1 = chans w" by (simp_all add: set_server_def)
  let ?tc = "fresh_conn P l ?p (bytes_of ''connection-'' @ decimal (nat fd)) (Some Http_onConnectionCompleted) (Some Http_onConnectionClosed)
      (Some Http_onMessage) (Some Http_onWriteCompleted)"
  obtain o2 where new: "tcp_connection_new P self ?run fd l (Some Http_onConnectionCompleted) (Some Http_onConnectionClosed) (Some Http_onMessage)
      (Some Http_onWriteCompleted) ?w1 =
    (if fd < 10000 then
       let w = set_conn ?a ?tc (?w1\<lparr>brk := ?a + 2, os := o2, chans := (chans w)(?p \<mapsto> conn_channel fd ?a)\<rparr>)
       in c_bind (call_back ?run (Some Http_onConnectionCompleted) ?a w) (\<lambda>w.
          c_bind (get_conn w ?a) (\<lambda>tc.
          c_bind (add_channel P self (tc_eventLoop tc) fd (tc_channel tc) w) (\<lambda>w. Inr (?a, w))))
     else Inl OutOfBounds)"
    using connection_prepared [OF m acc(2), of self ?run l "Some Http_onConnectionCompleted" "Some Http_onConnectionClosed" "Some Http_onMessage"
        "Some Http_onWriteCompleted" ?w1] unfolding b1 Let_def by blast
  have start: "handle_connection_established P self ?run sv w =
      c_bind (tcp_connection_new P self ?run fd l (Some Http_onConnectionCompleted) (Some Http_onConnectionClosed) (Some Http_onMessage)
        (Some Http_onWriteCompleted) ?w1) (\<lambda>(a, w).
      c_bind (get_server w sv) (\<lambda>s.
      case sv_data s of None \<Rightarrow> Inr (0, w) | Some d \<Rightarrow> c_bind (get_conn w a) (\<lambda>tc. Inr (0, set_conn a (tc\<lparr>tc_data := At d\<rparr>) w))))"
    using s acc turn by (simp add: handle_connection_established_def http_handlers_def Let_def del: c_bind_eq_Inr_iff)
  show ?thesis
  proof (cases "fd < 10000")
    case False
    then show ?thesis unfolding start new by simp
  next
    case True
    let ?w2 = "set_conn ?a ?tc (?w1\<lparr>brk := ?a + 2, os := o2, chans := (chans w)(?p \<mapsto> conn_channel fd ?a)\<rparr>)"
    obtain o3 where req: "new_request P ?w2 = Inr (http_request_new (Some (pl_cells P)), ?w2\<lparr>os := o3\<rparr>)" using new_request_ok [OF m] ..
    let ?tc2 = "?tc\<lparr>tc_request := At (http_request_new (Some (pl_cells P)))\<rparr>"
    let ?w3 = "set_conn ?a ?tc2 (?w2\<lparr>os := o3\<rparr>)"
    have completed: "call_back ?run (Some Http_onConnectionCompleted) ?a ?w2 = Inr ?w3"
      using req by (simp add: call_back_def http_callbacks_def http_onConnectionCompleted_def set_conn_def)
    obtain el' where el': "event_loop_do_channel_event (pl_alloc P) (pl_dispatcher P) (chans ?w3) self (pl_sent P) el fd (Some ?p) 1 = Inr (0, el')"
      "pending_inv el' (q @ [(1, Some ?p)])" "idle el'" "wakeups el' = wakeups el + (if pl_sent P then 1 else 0)"
      "owner_thread_id el' = owner_thread_id el" "event_dispatcher_data el' = event_dispatcher_data el" "channelMap el' = channelMap el"
      using foreign_op [OF el(2-4), of "pl_alloc P" "pl_dispatcher P" "chans ?w3" "pl_sent P" fd "Some ?p" 1] by blast
    have l3: "loops ?w3 l = Some el" using el(1) by (simp add: set_conn_def set_server_def)
    have t: "tc_eventLoop ?tc2 = l" "tc_channel ?tc2 = ?p" "get_conn ?w3 ?a = Inr ?tc2" by (simp_all add: fresh_conn_def)
    let ?w4 = "set_loop l el' ?w3"
    define w4 where "w4 = ?w4"
    have w4: "servers w4 sv = Some (s\<lparr>threadPool := tp\<rparr>)" "conns w4 ?a = Some ?tc2" "chans w4 ?p = Some (conn_channel fd ?a)" "loops w4 l = Some el'"
      by (simp_all add: w4_def set_loop_def set_conn_def set_server_def)
    have add: "add_channel P self l fd ?p ?w3 = Inr w4"
      using l3 el'(1) by (simp add: add_channel_def event_loop_add_channel_event_def w4_def)
    have made: "tcp_connection_new P self ?run fd l (Some Http_onConnectionCompleted) (Some Http_onConnectionClosed) (Some Http_onMessage)
        (Some Http_onWriteCompleted) ?w1 = Inr (?a, w4)"
      unfolding new using True completed add t by (simp add: Let_def del: c_bind_eq_Inr_iff)
    have run: "handle_connection_established P self ?run sv w = Inr (0, set_conn ?a (?tc2\<lparr>tc_data := At hs\<rparr>) w4)"
      unfolding start made c_bind_simps prod.case get_simps(3) [OF w4(1)] get_simps(2) [OF w4(2)] using s(3) by simp
    let ?tc3 = "?tc2\<lparr>tc_data := At hs\<rparr>" and ?ch = "conn_channel fd ?a"
    have tc3: "tc_eventLoop ?tc3 = l" "tc_messageCallBack ?tc3 = Some Http_onMessage" "tc_connectionClosedCallBack ?tc3 = Some Http_onConnectionClosed"
      "tc_request ?tc3 = At (http_request_new (Some (pl_cells P)))" "tc_data ?tc3 = At hs" "tc_channel ?tc3 = ?p"
      "input_buffer ?tc3 = Some (empty_buffer P)" "output_buffer ?tc3 = Some (empty_buffer P)" by (simp_all add: fresh_conn_def)
    have chf: "cdata ?ch = ConnPtr ?a" "events ?ch = EVENT_READ" by (simp_all add: conn_channel_def channel_new_def)
    have c5: "conns (set_conn ?a ?tc3 w4) ?a = Some ?tc3" "chans (set_conn ?a ?tc3 w4) ?p = Some ?ch" "loops (set_conn ?a ?tc3 w4) l = Some el'"
      "servers (set_conn ?a ?tc3 w4) sv = Some (s\<lparr>threadPool := tp\<rparr>)" using w4 by simp_all
    have "int INIT_BUFFER_SIZE + int INIT_BUFFER_SIZE \<le> INT_MAX" by (simp add: INIT_BUFFER_SIZE_def INT_MAX_def)
    then have "connected (set_conn ?a ?tc3 w4) ?a ?tc3 ?ch (empty_buffer P)" "quiet (set_conn ?a ?tc3 w4) ?a ?tc3 ?ch (empty_buffer P)"
      using empty_buffer_ok [OF m] c5(1,2) tc3(6-8) chf unfolding connected_def quiet_def by auto
    with tc3(1-5) have aw: "awaiting P ?a l fd hs (set_conn ?a ?tc3 w4)" unfolding awaiting_def by blast
    let ?w5 = "set_conn ?a ?tc3 w4"
    have w5: "loops ?w5 = (loops w)(l \<mapsto> el')" "chans ?w5 = (chans w)(?p \<mapsto> ?ch)" "servers ?w5 = (servers w)(sv \<mapsto> s\<lparr>threadPool := tp\<rparr>)"
      "hservers ?w5 = hservers w" "brk ?w5 = brk w + 2" by (simp_all add: w4_def)
    show ?thesis
      unfolding if_P [OF True] by (rule exI [of _ ?w5], rule exI [of _ el'], intro conjI run aw w5 el'(2-7))
  qed
qed

text \<open>
  C16. When the listening descriptor of an HTTP server is ready, the descriptor \<open>accept\<close> gives becomes a connection on the loop whose turn it
  is: with empty buffers, a fresh request and the server's data, and with its registration queued on the loop of the other thread, behind what
  is queued already.  From descriptor 10000 on the name of the connection overflows its block.
\<close>

theorem connection_established:
  assumes m: "mem_plat P" and s: "servers w sv = Some s" "http_handlers s" "sv_data s = Some hs"
    and acc: "sys_accept (pl_sys P) (listen_fd (sv_acceptor s)) (os w) = (fd, o1)" "0 \<le> fd"
    and turn: "thread_pool_get_loop self (threadPool s) w = Inr (Some l, tp)"
    and el: "loops w l = Some el" "pending_inv el q" "idle el" "owner_thread_id el \<noteq> self"
  shows "if fd < 10000 then
      \<exists>w' el'. handle_connection_established P self (http_callbacks P self onReq) sv w = Inr (0, w') \<and> awaiting P (brk w) l fd hs w' \<and>
        loops w' l = Some el' \<and> pending_inv el' (q @ [(1, Some (brk w + 1))]) \<and> idle el' \<and> wakeups el' = wakeups el + (if pl_sent P then 1 else 0) \<and>
        servers w' sv = Some (s\<lparr>threadPool := tp\<rparr>)
    else handle_connection_established P self (http_callbacks P self onReq) sv w = Inl OutOfBounds"
proof -
  note made = connection_made [OF m s acc turn el, of onReq]
  show ?thesis
  proof (cases "fd < 10000")
    case True
    with made obtain w' el' where w': "handle_connection_established P self (http_callbacks P self onReq) sv w = Inr (0, w')" "awaiting P (brk w) l fd hs w'"
      "loops w' = (loops w)(l \<mapsto> el')" "pending_inv el' (q @ [(1, Some (brk w + 1))])" "idle el'" "wakeups el' = wakeups el + (if pl_sent P then 1 else 0)"
      "servers w' = (servers w)(sv \<mapsto> s\<lparr>threadPool := tp\<rparr>)" unfolding if_P [OF True] by (elim exE conjE)
    have "loops w' l = Some el'" "servers w' sv = Some (s\<lparr>threadPool := tp\<rparr>)" using w'(3,7) by simp_all
    then show ?thesis unfolding if_P [OF True] by (intro exI [of _ w'] exI [of _ el'] conjI w'(1,2,4-6))
  qed (use made in simp)
qed

text \<open>A server at address 4 whose pool has one thread, with the loop at address 8.\<close>

definition sample_server :: TCPserver where
  "sample_server = \<lparr>sv_port = Unset, sv_eventLoop = 0, sv_acceptor = \<lparr>listen_port = SERV_PORT, listen_fd = 3\<rparr>,
     sv_connectionCompletedCallBack = Some Http_onConnectionCompleted, sv_messageCallBack = Some Http_onMessage,
     sv_writeCompletedCallBack = Some Http_onWriteCompleted, sv_connectionClosedCallBack = Some Http_onConnectionClosed, threadNum = 1,
     threadPool = \<lparr>mainLoop = 0, started = 1, thread_number = 1,
       eventLoopThreads = [\<lparr>elt_eventLoop = Some 8, thread_tid = 2, elt_thread_name = [], thread_count = 0\<rparr>], position = 0\<rparr>, sv_data = Some 2\<rparr>"

theorem connection_established_witness:
  "\<exists>w' el'. handle_connection_established sample_plat 1 (http_callbacks sample_plat 1 (onRequest sample_plat)) 4
      ((sample_net [])\<lparr>servers := [4 \<mapsto> sample_server], loops := [0 \<mapsto> empty_loop empty_poll, 8 \<mapsto> (empty_loop empty_poll)\<lparr>owner_thread_id := 2\<rparr>]\<rparr>) = Inr (0, w') \<and>
    awaiting sample_plat 10 8 7 2 w' \<and> loops w' 8 = Some el' \<and> pending_inv el' [(1, Some 11)] \<and> wakeups el' = 1"
proof -
  let ?el = "(empty_loop empty_poll)\<lparr>owner_thread_id := 2\<rparr>"
  define w where "w = (sample_net [])\<lparr>servers := [4 \<mapsto> sample_server], loops := [0 \<mapsto> empty_loop empty_poll, 8 \<mapsto> ?el]\<rparr>"
  have w: "servers w 4 = Some sample_server" "loops w 8 = Some ?el" "loops w 0 = Some (empty_loop empty_poll)" "brk w = 10"
    by (simp_all add: w_def sample_net_def)
  have m: "mem_plat sample_plat" by (simp add: mem_plat_def sample_plat_def sample_sys_def)
  have s: "http_handlers sample_server" "sv_data sample_server = Some 2" by (simp_all add: sample_server_def http_handlers_def)
  have acc: "sys_accept (pl_sys sample_plat) (listen_fd (sv_acceptor sample_server)) (os w) = (7, os w)"
    by (simp add: sample_plat_def sample_sys_def)
  have turn: "thread_pool_get_loop 1 (threadPool sample_server) w = Inr (Some 8, threadPool sample_server)"
    using w(3) by (simp add: thread_pool_get_loop_def sample_server_def assertInSameThread_def isInSameThread_def empty_loop_def c_read_def c_int_defs)
  have el: "pending_inv ?el []" "idle ?el" "owner_thread_id ?el \<noteq> 1" by (simp_all add: pending_inv_def idle_def empty_loop_def)
  have sent: "pl_sent sample_plat" "wakeups ?el = 0" by (simp_all add: sample_plat_def empty_loop_def)
  from connection_established [OF m w(1) s acc _ turn w(2) el, of "onRequest sample_plat"] w(4) sent show ?thesis unfolding w_def [symmetric] by auto
qed

end
