(* ===== verification/Http_Exchange.thy ===== *)
theory Http_Exchange
  imports Http_Server
begin

text \<open>
  The demo server end to end: from the bytes of a request on a connection to the bytes of the response and the request object that awaits
  the next one.
\<close>

section \<open>Routing\<close>

text \<open>The pages, and what \<^verbatim>\<open>onRequest\<close> means to do: choose by the part of the url before a question mark.\<close>

definition index_page :: string where
  "index_page = ''<html><head><title>This is network programming</title></head><body><h1>Hello, network programming</h1></body></html>''"

definition front_page :: "http_response \<Rightarrow> http_response" where
  "front_page resp = answer OK ''OK'' ''text/html'' index_page resp"

definition network_page :: "http_response \<Rightarrow> http_response" where
  "network_page resp = answer OK ''OK'' ''text/plain'' ''hello, network programming'' resp"

definition not_found :: "http_response \<Rightarrow> http_response" where
  "not_found resp = resp\<lparr>statusCode := NotFound, statusMessage := Some (c_lit ''Not Found''), keep_connected := 1\<rparr>"

definition route :: "byte list \<Rightarrow> http_response \<Rightarrow> http_response" where
  "route u resp =
     (let path = takeWhile (\<lambda>c. c \<noteq> 63) u in
      if path = bytes_of ''/'' then front_page resp else if path = bytes_of ''/network'' then network_page resp else not_found resp)"

text \<open>
  What it does: the last byte of the block of the url is never set, so the url may be longer by that byte, and the path has no terminator, so
  the comparisons go on in what lies behind its block.  \<open>agrees\<close> says whether a comparison of the bytes from the path on with a literal finds them
  equal; \<open>None\<close> when it runs past what can be read.
\<close>

definition agrees :: "byte list \<Rightarrow> byte list \<Rightarrow> bool option" where
  "agrees mem l = (if take (length l + 1) mem = l @ [0] then Some True else if take (length mem) (l @ [0]) = mem then None else Some False)"

definition seen_path :: "('d, 'o) plat \<Rightarrow> byte list \<Rightarrow> byte list" where
  "seen_path P u = (let junk = block_junk P (Suc (length u)) in takeWhile (\<lambda>c. c \<noteq> 63) (if junk = 0 then u else u @ [junk]))"

definition page_for :: "('d, 'o) plat \<Rightarrow> byte list \<Rightarrow> http_response \<Rightarrow> http_response option" where
  "page_for P u resp =
     (let mem = seen_path P u @ pl_behind P (length (seen_path P u)) in
      case agrees mem (bytes_of ''/'') of
        None \<Rightarrow> None
      | Some True \<Rightarrow> Some (front_page resp)
      | Some False \<Rightarrow>
          (case agrees mem (bytes_of ''/network'') of
             None \<Rightarrow> None
           | Some True \<Rightarrow> Some (network_page resp)
           | Some False \<Rightarrow> Some (not_found resp)))"

text \<open>The two bytes that are never set happen to be zero: then it does what it means to.\<close>

definition zero_terminated :: "('d, 'o) plat \<Rightarrow> byte list \<Rightarrow> bool" where
  "zero_terminated P u \<longleftrightarrow> block_junk P (Suc (length u)) = 0 \<and> (\<exists>ys. pl_behind P (length (seen_path P u)) = 0 # ys)"

text \<open>A platform whose memory suffices and where allocation does not act on the system's state.\<close>

definition ample :: "('d, 'o) plat \<Rightarrow> bool" where
  "ample P \<longleftrightarrow> (\<forall>n w. sys_malloc (pl_sys P) n w = (True, w)) \<and> length (pl_block P INIT_BUFFER_SIZE) = INIT_BUFFER_SIZE \<and>
     realloc_total (pl_realloc P) \<and> diff_ok (pl_diff P)"

lemma ample_mem: "ample P \<Longrightarrow> mem_plat P"
  by (simp add: ample_def mem_plat_def)

lemma ample_malloc [simp]: "ample P \<Longrightarrow> sys_malloc (pl_sys P) n w = (True, w)" "ample P \<Longrightarrow> must_malloc (pl_sys P) n w = Inr w"
  by (simp_all add: ample_def must_malloc_def)

lemma ample_new [simp]:
  assumes "ample P"
  shows "new_buffer P w = (Some (empty_buffer P), w)"
    and "new_response P w = Inr (http_response_new (pl_ctype P) (Some (pl_rcells P)), w)"
  using assms by (simp_all add: new_buffer_def buffer_new_def empty_buffer_def new_response_def)

text \<open>Comparing a path without a terminator.\<close>

lemma agrees_Cons: "agrees (x # mem) (y # l) = (if x = y then agrees mem l else Some False)"
  by (simp add: agrees_def)

lemma strcmp_agrees:
  assumes "0 \<notin> set l" and "diff_ok diff"
  shows "case agrees mem l of None \<Rightarrow> c_strcmp diff mem (l @ [0]) = Inl OutOfBounds | Some b \<Rightarrow> (\<exists>c. c_strcmp diff mem (l @ [0]) = Inr c \<and> (c = 0 \<longleftrightarrow> b))"
  using assms(1)
proof (induction mem arbitrary: l)
  case Nil
  then show ?case by (simp add: agrees_def)
next
  case (Cons x mem)
  have d: "x \<noteq> y \<Longrightarrow> diff x y \<noteq> 0" for y using assms(2) by (metis diff_ok_def less_irrefl linorder_less_linear)
  show ?case
  proof (cases l)
    case Nil
    with d show ?thesis by (auto simp: agrees_def)
  next
    case (Cons y l')
    with Cons.IH [of l'] Cons.prems d show ?thesis by (cases "x = y") (auto simp: agrees_def)
  qed
qed

lemma strcmp_append: "c_strcmp diff a b = Inr c \<Longrightarrow> c_strcmp diff (a @ ys) b = Inr c"
  by (induction diff a b rule: c_strcmp.induct) (auto split: if_splits)

lemma path_is_law:
  fixes P :: "('d, 'o) plat"
  assumes "diff_ok (pl_diff P)" and "0 \<notin> set a" and "0 \<notin> set (bytes_of lit)"
  shows "case agrees (a @ pl_behind P (length a)) (bytes_of lit) of
      None \<Rightarrow> path_is P a lit w = Inl OutOfBounds | Some b \<Rightarrow> (\<exists>n. path_is P a lit w = Inr (b, w\<lparr>stray := stray w + n\<rparr>))"
proof -
  let ?l = "bytes_of lit" and ?mem = "a @ pl_behind P (length a)"
  note whole = strcmp_agrees [OF assms(3,1), of ?mem]
  show ?thesis
  proof (cases "c_strcmp (pl_diff P) a (?l @ [0])")
    case (Inr c)
    with strcmp_append [OF Inr, of "pl_behind P (length a)"] whole show ?thesis
      by (auto simp: path_is_def c_lit_def split: option.splits intro!: exI [of _ 0])
  next
    case (Inl e)
    then have cmp: "path_is P a lit w = c_bind (c_strcmp (pl_diff P) ?mem (?l @ [0])) (\<lambda>c. Inr (c = 0, w\<lparr>stray := stray w + 1\<rparr>))"
      by (simp add: path_is_def c_lit_def)
    show ?thesis
    proof (cases "agrees ?mem ?l")
      case None
      with whole cmp show ?thesis by simp
    next
      case (Some b)
      with whole obtain c where "c_strcmp (pl_diff P) ?mem (?l @ [0]) = Inr c" "(c = 0) = b" by auto
      with cmp show ?thesis unfolding Some option.case by (intro exI [of _ 1]) simp
    qed
  qed
qed

lemma mem_find_takeWhile: "mem_find [c] xs = (if c \<in> set xs then Some (length (takeWhile (\<lambda>x. x \<noteq> c) xs)) else None)"
  by (induction xs) auto

lemma request_path_law:
  assumes "ample P" and "0 \<notin> set u"
  shows "request_path P (u @ 0 # ys) w = Inr (takeWhile (\<lambda>c. c \<noteq> 63) u, w)"
proof -
  let ?n = "length (takeWhile (\<lambda>c. c \<noteq> 63) u)"
  have n: "?n \<le> length u" by (rule length_takeWhile_le)
  have tk: "take ?n u = takeWhile (\<lambda>c. c \<noteq> 63) u" by (metis takeWhile_eq_take)
  have nz: "0 \<notin> set (take ?n u)" using assms(2) by (metis in_set_takeD)
  have len: "(case mem_find [63] u of Some question \<Rightarrow> question | None \<Rightarrow> length u) = ?n"
  proof (cases "63 \<in> set u")
    case False
    then have t: "takeWhile (\<lambda>c. c \<noteq> 63) u = u" by (auto simp: takeWhile_eq_all_conv)
    with False show ?thesis by (simp add: mem_find_takeWhile t)
  qed (simp add: mem_find_takeWhile)
  have "c_strncpy (u @ 0 # ys) ?n = Inr (takeWhile (\<lambda>c. c \<noteq> 63) u)"
    using c_strncpy_take [of ?n "u @ 0 # ys"] nz n tk by simp
  with assms len show ?thesis by (cases "mem_find [63] u") (simp_all add: request_path_def c_strlen_term Let_def)
qed

lemma literals_free: "0 \<notin> set (bytes_of ''/'')" "0 \<notin> set (bytes_of ''/network'')"
  by code_simp+

lemma seen_path_free: "0 \<notin> set u \<Longrightarrow> 0 \<notin> set (seen_path P u)"
  by (auto simp: seen_path_def Let_def dest!: set_takeWhileD split: if_splits)

lemma onRequest_pages:
  assumes P: "ample P" and u: "url r = Some (u @ [block_junk P (Suc (length u)), 0])" "0 \<notin> set u"
  shows "case page_for P u resp of None \<Rightarrow> onRequest P r resp w = Inl OutOfBounds
    | Some page \<Rightarrow> (\<exists>n. onRequest P r resp w = Inr (page, w\<lparr>stray := stray w + n\<rparr>))"
proof -
  let ?p = "seen_path P u" and ?x = "block_junk P (Suc (length u))"
  let ?mem = "?p @ pl_behind P (length ?p)"
  note free = seen_path_free [OF u(2), of P]
  have d: "diff_ok (pl_diff P)" using P by (simp add: ample_def)
  have path: "request_path P (u @ [?x, 0]) w = Inr (?p, w)"
    using request_path_law [OF P u(2), of "[0]" w] request_path_law [OF P, of "u @ [?x]" "[]" w] u(2) by (cases "?x = 0") (auto simp: seen_path_def Let_def)
  note root = path_is_law [OF d free literals_free(1)] and net = path_is_law [OF d free literals_free(2)]
  show ?thesis
  proof (cases "agrees ?mem (bytes_of ''/'')")
    case None
    with root [of w] have "path_is P ?p ''/'' w = Inl OutOfBounds" by simp
    with None u(1) path show ?thesis by (simp add: onRequest_def onRequest_for_def page_for_def Let_def)
  next
    case (Some b)
    with root [of w] obtain n where n: "path_is P ?p ''/'' w = Inr (b, w\<lparr>stray := stray w + n\<rparr>)" by auto
    show ?thesis
    proof (cases b)
      case True
      with Some n u(1) path show ?thesis by (auto simp: onRequest_def onRequest_for_def page_for_def front_page_def index_page_def Let_def)
    next
      case False
      with Some n u(1) path have on: "onRequest P r resp w = c_bind (path_is P ?p ''/network'' (w\<lparr>stray := stray w + n\<rparr>)) (\<lambda>(net, w).
          Inr (if net then network_page resp else not_found resp, w))"
        by (auto simp: onRequest_def onRequest_for_def network_page_def not_found_def intro!: c_bind_cong)
      note net = net [of "w\<lparr>stray := stray w + n\<rparr>"]
      show ?thesis
      proof (cases "agrees ?mem (bytes_of ''/network'')")
        case None
        with net on Some False show ?thesis by (simp add: page_for_def Let_def)
      next
        case (Some b')
        with net obtain n' where "path_is P ?p ''/network'' (w\<lparr>stray := stray w + n\<rparr>) = Inr (b', w\<lparr>stray := stray w + (n + n')\<rparr>)" by (auto simp: add.assoc)
        with on have "onRequest P r resp w = Inr (if b' then network_page resp else not_found resp, w\<lparr>stray := stray w + (n + n')\<rparr>)" by simp
        moreover have "page_for P u resp = Some (if b' then network_page resp else not_found resp)"
          using Some \<open>agrees ?mem (bytes_of ''/'') = Some b\<close> False by (simp add: page_for_def Let_def split: bool.split)
        ultimately show ?thesis by auto
      qed
    qed
  qed
qed

lemma agrees_terminated: "0 \<notin> set a \<Longrightarrow> 0 \<notin> set l \<Longrightarrow> agrees (a @ 0 # ys) l = Some (a = l)"
proof (induction a arbitrary: l)
  case Nil
  then show ?case by (cases l) (auto simp: agrees_def)
next
  case (Cons x a)
  then show ?case by (cases l) (simp add: agrees_def, auto simp: agrees_Cons)
qed

lemma page_for_route:
  assumes "zero_terminated P u" and "0 \<notin> set u"
  shows "page_for P u resp = Some (route u resp)"
proof -
  obtain ys where ys: "pl_behind P (length (seen_path P u)) = 0 # ys" and path: "seen_path P u = takeWhile (\<lambda>c. c \<noteq> 63) u"
    using assms(1) by (auto simp: zero_terminated_def seen_path_def)
  note free = seen_path_free [OF assms(2), of P]
  from agrees_terminated [OF free literals_free(1)] agrees_terminated [OF free literals_free(2)] ys path
  show ?thesis by (auto simp: page_for_def route_def Let_def split: bool.split)
qed

section \<open>The answer\<close>

lemma mem_read_content: "buffer_inv b \<Longrightarrow> mem_read (data b) (readIndex b) (buffer_readable_size b) = Inr (content b)"
  by (simp add: mem_read_def content_def buffer_inv_def buffer_readable_size_def)

lemma net_update_simps [simp]:
  "set_conn a c2 (set_conn a c1 w) = set_conn a c2 w"
  "(set_conn a c w)\<lparr>os := o'\<rparr> = set_conn a c (w\<lparr>os := o'\<rparr>)" "(set_conn a c w)\<lparr>stray := n\<rparr> = set_conn a c (w\<lparr>stray := n\<rparr>)"
  "stray (set_conn a c w) = stray w"
  by (simp_all add: set_conn_def)

lemma send_buffer_complete:
  assumes q: "quiet w a tc ch ob" and b: "buffer_inv b"
    and wr: "sys_write (pl_sys P) (cfd ch) (content b) (os w) = ((int (length (content b)), e), o')"
  shows "\<exists>b'. tcp_connection_send_buffer P self a b w = Inr (int (length (content b)), b', w\<lparr>os := o'\<rparr>)"
proof -
  have sz: "0 \<le> buffer_readable_size b" "buffer_readable_size b \<le> INT_MAX" "int (length (content b)) = buffer_readable_size b"
    using b content_length [OF b] by (auto simp: buffer_inv_def buffer_readable_size_def)
  have ci: "c_int (readIndex b + buffer_readable_size b) = Inr (readIndex b + buffer_readable_size b)"
    using b by (auto simp: buffer_inv_def buffer_readable_size_def c_int_defs)
  from send_complete [OF q mem_read_content [OF b] sz(1,2), of P e o'] wr sz(3) ci show ?thesis
    by (simp add: tcp_connection_send_buffer_def Let_def)
qed

text \<open>The answer to a request when all its bytes are taken by \<open>write\<close>.\<close>

lemma respond_complete:
  assumes P: "ample P" and q: "quiet w a tc ch ob" and hs: "hservers w hs = Some h" "has_requestCallback h"
    and cb: "onReq r (http_response_new (pl_ctype P) (Some (pl_rcells P))) w = Inr (resp, w\<lparr>stray := n\<rparr>)"
    and resp: "response_ok resp" "keep_connected resp \<noteq> 0 \<or> body resp \<noteq> None" "int INIT_BUFFER_SIZE + int (length (response_text resp)) \<le> INT_MAX"
    and wr: "sys_write (pl_sys P) (cfd ch) (response_text resp) (os w) = ((int (length (response_text resp)), e), o2)"
    and close: "http_request_close_connection (pl_diff P) r = Inr cl"
  shows "respond P self onReq a (At hs) r w = Inr (set_conn a (tc\<lparr>tc_request := At (http_request_reset r)\<rparr>)
    (w\<lparr>stray := n, os := (if cl \<noteq> 0 then snd (sys_shutdown (pl_sys P) (cfd ch) o2) else o2)\<rparr>))"
proof -
  note e = empty_buffer_ok [OF ample_mem [OF P]]
  have re: "realloc_total (pl_realloc P)" using P by (simp add: ample_def)
  obtain b where b: "http_response_encode_buffer (pl_realloc P) resp (empty_buffer P) = Inr b" "buffer_inv b" "content b = response_text resp"
    using encode_response_text_aux [of "empty_buffer P" "pl_realloc P" resp] e re resp by auto
  have q': "quiet (w\<lparr>stray := n\<rparr>) a tc ch ob" using q by (simp add: quiet_def)
  obtain b' where send: "tcp_connection_send_buffer P self a b (w\<lparr>stray := n\<rparr>) = Inr (int (length (content b)), b', w\<lparr>stray := n, os := o2\<rparr>)"
    using send_buffer_complete [OF q' b(2), of P e o2 self] wr b(3) by auto
  have q2: "get_conn (w\<lparr>stray := n, os := o'\<rparr>) a = Inr tc" "load (chans w) (Some (tc_channel tc)) = Inr ch" for o'
    using quiet_facts [OF q] by (auto simp: get_conn_def quiet_def)
  obtain rs o3 where sh: "sys_shutdown (pl_sys P) (cfd ch) o2 = (rs, o3)" by fastforce
  have "tcp_connection_shutdown P a (w\<lparr>stray := n, os := o2\<rparr>) = Inr (w\<lparr>stray := n, os := o3\<rparr>)"
    using q2 sh by (simp add: tcp_connection_shutdown_def)
  then show ?thesis
    using P hs cb b(1) send close q2 sh by (simp add: respond_def put_request_def del: c_bind_eq_Inr_iff)
qed

text \<open>A request that asks to close the connection.\<close>

definition asks_close :: "(byte list \<times> byte list) list \<Rightarrow> bool" where
  "asks_close hs =
     (case find (\<lambda>kv. starts_with (fst kv) (bytes_of ''Connection'')) hs of None \<Rightarrow> False | Some kv \<Rightarrow> starts_with (snd kv) (bytes_of ''close''))"

lemma c_string_term [simp]: "0 \<notin> set s \<Longrightarrow> c_string (s @ 0 # ys) = s"
  by (simp add: c_string_def takeWhile_append)

lemma find_header_cell:
  "list_all header_ok hs \<Longrightarrow> find (\<lambda>h. starts_with (c_string (hkey h)) p) (map header_cell hs) = map_option header_cell (find (\<lambda>kv. starts_with (fst kv) p) hs)"
  by (induction hs) (auto simp: header_cell_def header_ok_def)

lemma close_asked:
  assumes "list_all header_ok hs" and "length hs \<le> length cells" and d: "diff_ok diff"
    and r: "r = parsed_request junk m u (bytes_of ''HTTP/1.1'') hs cells r0"
  shows "http_request_close_connection diff r = Inr (if asks_close hs then 1 else 0)"
proof -
  have tm: "list_all (\<lambda>h. terminated (hkey h) \<and> terminated (hval h)) (map header_cell hs)"
    by (induction hs) (auto simp: header_cell_def terminated_def)
  then have "headers_ok r" using assms(2) unfolding r by (auto simp: headers_ok_def parsed_request_def fill_cells_def)
  moreover obtain x where ver: "version r = Some (bytes_of ''HTTP/1.1'' @ [x, 0])" "headers_of r = map header_cell hs"
    unfolding r by simp
  moreover have "\<not> starts_with (c_string (bytes_of ''HTTP/1.1'' @ [x, 0])) (bytes_of ''HTTP/1.0'')"
    by (simp add: starts_with_def c_string_def bytes_of_def)
  moreover have "terminated (bytes_of ''HTTP/1.1'' @ [x, 0])" by (simp add: terminated_def)
  ultimately have c: "(\<forall>c. conn = Some c \<longrightarrow> starts_with (c_string c) (bytes_of ''close'') \<longrightarrow> http_request_close_connection diff r = Inr 1) \<and>
      ((\<forall>c. conn = Some c \<longrightarrow> \<not> starts_with (c_string c) (bytes_of ''close'')) \<longrightarrow> http_request_close_connection diff r = Inr 0)"
    if "conn = map_option hval (map_option header_cell (find (\<lambda>kv. starts_with (fst kv) (bytes_of ''Connection'')) hs))" for conn
    using close_connection_cases [of r diff, OF _ d _ refl] that find_header_cell [OF assms(1)] by auto
  show ?thesis
  proof (cases "find (\<lambda>kv. starts_with (fst kv) (bytes_of ''Connection'')) hs")
    case None
    with c [OF refl] show ?thesis by (simp add: asks_close_def)
  next
    case (Some kv)
    then have "kv \<in> set hs" by (auto simp: find_Some_iff)
    with assms(1) have "0 \<notin> set (snd kv)" by (auto simp: list_all_iff header_ok_def)
    with c [OF refl] Some show ?thesis by (auto simp: asks_close_def header_cell_def)
  qed
qed

text \<open>The responses of the server are well-formed and short.\<close>

lemma page_ok:
  fixes ctype :: "byte list option" and cells :: "response_header list"
  defines "fresh \<equiv> http_response_new ctype (Some cells)"
  assumes "resp = front_page fresh \<or> resp = network_page fresh \<or> resp = not_found fresh"
  shows "response_ok resp" "keep_connected resp \<noteq> 0 \<or> body resp \<noteq> None" "length (response_text resp) < 1000"
proof -
  note R = front_page_def network_page_def not_found_def answer_def http_response_new_def
  have lit: "0 \<in> set (c_lit s)" for s by (simp add: c_lit_def)
  have "length (str_of (Some (c_lit index_page))) \<le> length (c_lit index_page)"
    "length (str_of (Some (c_lit ''hello, network programming''))) \<le> length (c_lit ''hello, network programming'')"
    by (simp_all add: str_of_def length_takeWhile_le)
  moreover have "length (c_lit index_page) = 117" by code_simp
  moreover have "length (c_lit ''hello, network programming'') = 27" by code_simp
  ultimately have "length (str_of (Some (c_lit index_page))) < 10 ^ 13" "length (str_of (Some (c_lit ''hello, network programming''))) < 10 ^ 13"
    by (auto intro: le_less_trans)
  moreover have "str_of None = []" by (simp add: str_of_def)
  ultimately show "response_ok resp" using assms(2) by (auto simp: fresh_def R response_ok_def headers_used_def lit)
  show "keep_connected resp \<noteq> 0 \<or> body resp \<noteq> None" using assms(2) by (auto simp: fresh_def R)
  have "length (response_text (front_page (http_response_new None None))) < 1000"
    "length (response_text (network_page (http_response_new None None))) < 1000"
    "length (response_text (not_found (http_response_new None None))) < 1000"
    by code_simp+
  then show "length (response_text resp) < 1000" using assms(2) by (auto simp: fresh_def R response_text_def headers_used_def)
qed

lemma page_for_cases: "page_for P u fresh = Some resp \<Longrightarrow> resp = front_page fresh \<or> resp = network_page fresh \<or> resp = not_found fresh"
  by (auto simp: page_for_def Let_def split: option.splits bool.splits)

text \<open>A response object as the server creates it.\<close>

definition fresh_response :: "('d, 'o) plat \<Rightarrow> http_response" where
  "fresh_response P = http_response_new (pl_ctype P) (Some (pl_rcells P))"

text \<open>The handler, for a well-formed request, up to its answer.\<close>

lemma request_parsed:
  assumes P: "ample P"
    and c: "connected w a tc ch b" "quiet w a tc ch ob" "tc_messageCallBack tc = Some Http_onMessage" "tc_data tc = At hs"
    and r: "tc_request tc = At r" "current_state r = REQUEST_STATUS" "request_headers r = Some cells" "request_headers_number r = 0"
    and room: "length hdrs \<le> length cells" "int (length cells) \<le> INT_MAX"
    and rd: "sys_readv (pl_sys P) (cfd ch) (buffer_writeable_size b + int INIT_BUFFER_SIZE) (os w) = ((int (length bs), bs), o1)"
    and doc: "int (length bs) \<le> buffer_writeable_size b + int INIT_BUFFER_SIZE" "bs \<noteq> []"
    and req: "content b @ bs = render_request m u (bytes_of ''HTTP/1.1'') hdrs @ rest" "line_ok m u (bytes_of ''HTTP/1.1'')" "list_all header_ok hdrs"
    and q: "q = parsed_request (block_junk P) m u (bytes_of ''HTTP/1.1'') hdrs cells r"
  shows "\<exists>ib. handle_read P self (http_callbacks P self (onRequest P)) a w =
      respond P self (onRequest P) a (At hs) q (set_conn a (tc\<lparr>input_buffer := Some ib, tc_request := At q\<rparr>) (w\<lparr>os := o1, stray := stray w + 3\<rparr>)) \<and>
    buffer_inv ib \<and> content ib = rest"
proof -
  let ?run = "http_callbacks P self (onRequest P)"
  have re: "realloc_total (pl_realloc P)" using P by (simp add: ample_def)
  obtain b1 where b1: "handle_read P self ?run a w = call_back ?run (Some Http_onMessage) a (set_conn a (tc\<lparr>input_buffer := Some b1\<rparr>) (w\<lparr>os := o1\<rparr>))"
    "buffer_inv b1" "content b1 = content b @ bs"
    using handle_read_data [OF c(1) re rd] doc c(3) by (auto simp: readv_ok_def)
  obtain b2 where b2: "parse_http_request (block_junk P) (b1, r, 0) = Some (Inr (1, b2, q, 3))" "buffer_inv b2" "content b2 = rest"
    using parse_rendered_request_aux [OF b1(2) _ req(2,3) r(2-4) room, of rest "block_junk P" 0] b1(3) req(1) unfolding q by auto
  have done_q: "current_state q = REQUEST_DONE" unfolding q by (simp add: parsed_request_def)
  show ?thesis
    using b1(1) b2 r(1) c(4) done_q
    by (intro exI [of _ b2]) (simp add: call_back_def http_callbacks_def http_onMessage_def http_request_current_state_def Let_def)
qed

text \<open>The answer, when the comparisons of the path stay in memory that can be read.\<close>

lemma request_answered_aux:
  assumes P: "ample P"
    and c: "connected w a tc ch b" "quiet w a tc ch ob" "tc_messageCallBack tc = Some Http_onMessage" "tc_data tc = At hs"
    and h: "hservers w hs = Some h" "has_requestCallback h"
    and r: "tc_request tc = At r" "current_state r = REQUEST_STATUS" "request_headers r = Some cells" "request_headers_number r = 0"
    and room: "length hdrs \<le> length cells" "int (length cells) \<le> INT_MAX"
    and rd: "sys_readv (pl_sys P) (cfd ch) (buffer_writeable_size b + int INIT_BUFFER_SIZE) (os w) = ((int (length bs), bs), o1)"
    and doc: "int (length bs) \<le> buffer_writeable_size b + int INIT_BUFFER_SIZE" "bs \<noteq> []"
    and req: "content b @ bs = render_request m u (bytes_of ''HTTP/1.1'') hdrs @ rest" "line_ok m u (bytes_of ''HTTP/1.1'')" "list_all header_ok hdrs"
    and page: "page_for P u (fresh_response P) = Some resp"
    and wr: "sys_write (pl_sys P) (cfd ch) (response_text resp) o1 = ((int (length (response_text resp)), e), o2)"
  shows "\<exists>ib r' n. handle_read P self (http_callbacks P self (onRequest P)) a w =
      Inr (set_conn a (tc\<lparr>input_buffer := Some ib, tc_request := At r'\<rparr>)
        (w\<lparr>stray := n, os := (if asks_close hdrs then snd (sys_shutdown (pl_sys P) (cfd ch) o2) else o2)\<rparr>)) \<and>
    buffer_inv ib \<and> content ib = rest \<and> current_state r' = REQUEST_STATUS \<and> headers_of r' = []"
proof -
  define q where q: "q = parsed_request (block_junk P) m u (bytes_of ''HTTP/1.1'') hdrs cells r"
  have d: "diff_ok (pl_diff P)" using P by (simp add: ample_def)
  obtain b2 where b2: "handle_read P self (http_callbacks P self (onRequest P)) a w =
      respond P self (onRequest P) a (At hs) q (set_conn a (tc\<lparr>input_buffer := Some b2, tc_request := At q\<rparr>) (w\<lparr>os := o1, stray := stray w + 3\<rparr>))"
    "buffer_inv b2" "content b2 = rest"
    using request_parsed [OF P c r room rd doc req q, of self] by blast
  define tc1 where "tc1 = tc\<lparr>input_buffer := Some b2, tc_request := At q\<rparr>"
  define w1 where "w1 = set_conn a tc1 (w\<lparr>os := o1, stray := stray w + 3\<rparr>)"
  have q1: "quiet w1 a tc1 ch ob" using c(2) by (simp add: quiet_def w1_def tc1_def)
  have nz: "0 \<notin> set u" using req(2) by (simp add: line_ok_def)
  have u: "url q = Some (u @ [block_junk P (Suc (length u)), 0])" unfolding q by simp
  obtain n where n: "onRequest P q (fresh_response P) w1 = Inr (resp, w1\<lparr>stray := stray w1 + n\<rparr>)"
    using onRequest_pages [OF P u nz, of "fresh_response P" w1] page by auto
  have cl: "http_request_close_connection (pl_diff P) q = Inr (if asks_close hdrs then 1 else 0)"
    by (rule close_asked [OF req(3) room(1) d q])
  note ok = page_ok [OF page_for_cases [OF page [unfolded fresh_response_def]]]
  have len: "int INIT_BUFFER_SIZE + int (length (response_text resp)) \<le> INT_MAX" using ok(3) by (simp add: INIT_BUFFER_SIZE_def INT_MAX_def)
  have os1: "os w1 = o1" "hservers w1 hs = Some h" using h(1) by (simp_all add: w1_def)
  let ?o = "if asks_close hdrs then snd (sys_shutdown (pl_sys P) (cfd ch) o2) else o2"
  have respond: "respond P self (onRequest P) a (At hs) q w1 =
      Inr (set_conn a (tc1\<lparr>tc_request := At (http_request_reset q)\<rparr>) (w1\<lparr>stray := stray w1 + n, os := ?o\<rparr>))"
    using respond_complete [where onReq = "onRequest P" and r = q and resp = resp and n = "stray w1 + n", OF P q1 os1(2) h(2) n [unfolded fresh_response_def] ok(1,2) len, of e o2]
      wr os1(1) cl by auto
  have "set_conn a (tc1\<lparr>tc_request := At (http_request_reset q)\<rparr>) (w1\<lparr>stray := stray w1 + n, os := ?o\<rparr>)
      = set_conn a (tc\<lparr>input_buffer := Some b2, tc_request := At (http_request_reset q)\<rparr>) (w\<lparr>stray := stray w + 3 + n, os := ?o\<rparr>)"
    by (simp add: w1_def tc1_def)
  moreover have "current_state (http_request_reset q) = REQUEST_STATUS" "headers_of (http_request_reset q) = []"
    by (simp_all add: http_request_reset_def headers_of_def split: option.split)
  ultimately show ?thesis using respond b2 unfolding w1_def tc1_def by auto
qed

section \<open>Properties\<close>

text \<open>
  C2. The demo server end to end: when \<open>readv\<close> completes the text of a well-formed request of version 1.1 and memory suffices, whatever fresh memory holds, the
  handler of the connection hands exactly the response of the page its comparisons choose to \<open>write\<close>; if that takes all of it, the handler returns with the
  request object reset, what followed the request still in the input buffer, and the writing side shut down just when the first header named so asks to
  close the connection.  The page depends on the byte of the url's block that is never set and on what lies behind the path, which has no terminator
  (\<open>page_for\<close>): where both happen to hold a zero it is the page of the url, and where the comparison runs past what can be read the handler ends out of bounds.
\<close>

theorem request_answered:
  assumes P: "ample P"
    and c: "connected w a tc ch b" "quiet w a tc ch ob" "tc_messageCallBack tc = Some Http_onMessage" "tc_data tc = At hs"
    and h: "hservers w hs = Some h" "has_requestCallback h"
    and r: "tc_request tc = At r" "current_state r = REQUEST_STATUS" "request_headers r = Some cells" "request_headers_number r = 0"
    and room: "length hdrs \<le> length cells" "int (length cells) \<le> INT_MAX"
    and rd: "sys_readv (pl_sys P) (cfd ch) (buffer_writeable_size b + int INIT_BUFFER_SIZE) (os w) = ((int (length bs), bs), o1)"
    and doc: "int (length bs) \<le> buffer_writeable_size b + int INIT_BUFFER_SIZE" "bs \<noteq> []"
    and req: "content b @ bs = render_request m u (bytes_of ''HTTP/1.1'') hdrs @ rest" "line_ok m u (bytes_of ''HTTP/1.1'')" "list_all header_ok hdrs"
    and wr: "\<forall>resp. page_for P u (fresh_response P) = Some resp \<longrightarrow>
      sys_write (pl_sys P) (cfd ch) (response_text resp) o1 = ((int (length (response_text resp)), e), o2)"
  shows "(case page_for P u (fresh_response P) of
      None \<Rightarrow> handle_read P self (http_callbacks P self (onRequest P)) a w = Inl OutOfBounds
    | Some resp \<Rightarrow> \<exists>ib r' n. handle_read P self (http_callbacks P self (onRequest P)) a w =
          Inr (set_conn a (tc\<lparr>input_buffer := Some ib, tc_request := At r'\<rparr>)
            (w\<lparr>stray := n, os := (if asks_close hdrs then snd (sys_shutdown (pl_sys P) (cfd ch) o2) else o2)\<rparr>)) \<and>
        buffer_inv ib \<and> content ib = rest \<and> current_state r' = REQUEST_STATUS \<and> headers_of r' = []) \<and>
    (zero_terminated P u \<longrightarrow> page_for P u (fresh_response P) = Some (route u (fresh_response P)))"
proof
  have nz: "0 \<notin> set u" using req(2) by (simp add: line_ok_def)
  then show "zero_terminated P u \<longrightarrow> page_for P u (fresh_response P) = Some (route u (fresh_response P))" by (simp add: page_for_route)
  show "case page_for P u (fresh_response P) of
      None \<Rightarrow> handle_read P self (http_callbacks P self (onRequest P)) a w = Inl OutOfBounds
    | Some resp \<Rightarrow> \<exists>ib r' n. handle_read P self (http_callbacks P self (onRequest P)) a w =
          Inr (set_conn a (tc\<lparr>input_buffer := Some ib, tc_request := At r'\<rparr>)
            (w\<lparr>stray := n, os := (if asks_close hdrs then snd (sys_shutdown (pl_sys P) (cfd ch) o2) else o2)\<rparr>)) \<and>
        buffer_inv ib \<and> content ib = rest \<and> current_state r' = REQUEST_STATUS \<and> headers_of r' = []"
  proof (cases "page_for P u (fresh_response P)")
    case (Some resp)
    with wr have "sys_write (pl_sys P) (cfd ch) (response_text resp) o1 = ((int (length (response_text resp)), e), o2)" by simp
    from request_answered_aux [OF P c h r room rd doc req Some this, of self] show ?thesis unfolding Some option.case .
  next
    case None
    let ?q = "parsed_request (block_junk P) m u (bytes_of ''HTTP/1.1'') hdrs cells r"
    obtain ib where ib: "handle_read P self (http_callbacks P self (onRequest P)) a w =
        respond P self (onRequest P) a (At hs) ?q (set_conn a (tc\<lparr>input_buffer := Some ib, tc_request := At ?q\<rparr>) (w\<lparr>os := o1, stray := stray w + 3\<rparr>))"
      using request_parsed [OF P c r room rd doc req refl, of self] by blast
    have "url ?q = Some (u @ [block_junk P (Suc (length u)), 0])" by simp
    from onRequest_pages [OF P this nz, of "fresh_response P"] None have "onRequest P ?q (fresh_response P) w' = Inl OutOfBounds" for w' by simp
    with ib None P h show ?thesis by (simp add: respond_def fresh_response_def)
  qed
qed

definition sample_get :: "byte list" where
  "sample_get = render_request (bytes_of ''GET'') (bytes_of ''/?a'') (bytes_of ''HTTP/1.1'') [(bytes_of ''Connection'', bytes_of ''close'')]"

lemma sample_front_page: "route (bytes_of ''/?a'') resp = front_page resp"
proof -
  have "takeWhile (\<lambda>c. c \<noteq> 63) (bytes_of ''/?a'') = bytes_of ''/''" by code_simp
  then show ?thesis by (simp add: route_def)
qed

lemma sample_terminated: "zero_terminated sample_plat u"
  by (simp add: zero_terminated_def block_junk_def sample_plat_def)

theorem request_answered_witness:
  "\<exists>w'. handle_read sample_plat 1 (http_callbacks sample_plat 1 (onRequest sample_plat)) 3 (sample_wired sample_get) = Inr w' \<and>
     os w' = ([], response_text (front_page (http_response_new None (Some []))), [7])"
proof -
  let ?u = "bytes_of ''/?a''" and ?resp = "front_page (fresh_response sample_plat)" and ?h = "[(bytes_of ''Connection'', bytes_of ''close'')]"
  have P: "ample sample_plat" using zero_realloc_total by (simp add: ample_def sample_plat_def sample_sys_def)
  have ok: "line_ok (bytes_of ''GET'') ?u (bytes_of ''HTTP/1.1'')" "list_all header_ok ?h" "asks_close ?h"
    "length sample_get = 39" by code_simp+
  have "0 \<notin> set ?u" using ok(1) by (simp add: line_ok_def)
  from page_for_route [OF sample_terminated this] have page: "page_for sample_plat ?u (fresh_response sample_plat) = Some ?resp" by (simp add: sample_front_page)
  have c: "tc_messageCallBack sample_conn = Some Http_onMessage" "tc_data sample_conn = At 2"
    "tc_request sample_conn = At (http_request_new (Some [\<lparr>hkey = [0], hval = [0]\<rparr>]))" by (simp_all add: sample_conn_def)
  have h: "hservers (sample_wired sample_get) 2 = Some \<lparr>tcpServer = 4, has_requestCallback = True\<rparr>" "os (sample_wired sample_get) = (sample_get, [], [])"
    by (simp_all add: sample_wired_def sample_net_def)
  let ?n = "buffer_writeable_size small_buffer + int INIT_BUFFER_SIZE"
  have n: "?n = 65544" using small_buffer_ok by (simp add: INIT_BUFFER_SIZE_def)
  have rd: "sys_readv (pl_sys sample_plat) (cfd sample_channel) ?n (os (sample_wired sample_get)) = ((int (length sample_get), sample_get), ([], [], []))"
    using h(2) ok(4) unfolding n by (simp add: sample_plat_def sample_sys_def)
  have wr: "\<forall>resp. page_for sample_plat ?u (fresh_response sample_plat) = Some resp \<longrightarrow> sys_write (pl_sys sample_plat) (cfd sample_channel) (response_text resp) ([], [], []) =
      ((int (length (response_text resp)), 0), ([], response_text ?resp, []))"
    unfolding page by (simp add: sample_plat_def sample_sys_def)
  have sh: "sys_shutdown (pl_sys sample_plat) (cfd sample_channel) ([], response_text ?resp, []) = (0, ([], response_text ?resp, [7]))"
    by (simp add: sample_plat_def sample_sys_def sample_channel_def channel_new_def)
  have fresh: "fresh_response sample_plat = http_response_new None (Some [])" by (simp add: fresh_response_def sample_plat_def)
  have whole: "content small_buffer @ sample_get = render_request (bytes_of ''GET'') ?u (bytes_of ''HTTP/1.1'') ?h @ []"
    using small_buffer_ok by (simp add: sample_get_def)
  have rq: "current_state (http_request_new cs) = REQUEST_STATUS" "request_headers (http_request_new cs) = cs" "request_headers_number (http_request_new cs) = 0" for cs
    by (simp_all add: http_request_new_def)
  have len: "int (length sample_get) \<le> ?n" "sample_get \<noteq> []" using ok(4) unfolding n by auto
  from request_answered [OF P sample_wired_ok c(1,2) h(1) _ c(3) rq _ _ rd len whole ok(1,2) wr, of 1] ok(3) sh show ?thesis
    unfolding page option.case unfolding fresh by (auto simp: INT_MAX_def)
qed

end
