(* ===== verification/Net_Typing.thy ===== *)
theory Net_Typing
  imports Http_Exchange
begin

text \<open>
  The pointers of the network layer: \<^verbatim>\<open>void *\<close> data of channels, connections and servers is cast back without a test, so the
  program relies on every such pointer to lead to an object of the right kind.  This theory states that as a typing of the memory and shows that
  every step of the framework keeps it.
\<close>

section \<open>Typing\<close>

definition chan_ok :: "('d, 'o) net \<Rightarrow> channel \<Rightarrow> bool" where
  "chan_ok w ch \<longleftrightarrow>
     (case cdata ch of
        LoopPtr l \<Rightarrow> loops w l \<noteq> None \<and> eventReadCallback ch = Some HandleWakeup \<and> eventWriteCallback ch = None
      | ServerPtr sv \<Rightarrow> servers w sv \<noteq> None \<and> eventReadCallback ch = Some HandleConnectionEstablished \<and> eventWriteCallback ch = None
      | ConnPtr a \<Rightarrow> conns w a \<noteq> None \<and> eventReadCallback ch = Some HandleRead \<and> eventWriteCallback ch = Some HandleWrite)"

definition conn_ok :: "('d, 'o) net \<Rightarrow> nat \<Rightarrow> tcp_connection \<Rightarrow> bool" where
  "conn_ok w a tc \<longleftrightarrow> loops w (tc_eventLoop tc) \<noteq> None \<and> (\<exists>ch. chans w (tc_channel tc) = Some ch \<and> cdata ch = ConnPtr a) \<and>
     (\<forall>d. tc_data tc = At d \<longrightarrow> hservers w d \<noteq> None)"

definition pool_ok :: "('d, 'o) net \<Rightarrow> thread_pool \<Rightarrow> bool" where
  "pool_ok w tp \<longleftrightarrow> loops w (mainLoop tp) \<noteq> None \<and> (\<forall>t \<in> set (eventLoopThreads tp). \<forall>l. elt_eventLoop t = Some l \<longrightarrow> loops w l \<noteq> None)"

definition server_ok :: "('d, 'o) net \<Rightarrow> TCPserver \<Rightarrow> bool" where
  "server_ok w s \<longleftrightarrow> loops w (sv_eventLoop s) \<noteq> None \<and> pool_ok w (threadPool s) \<and> (\<forall>d. sv_data s = Some d \<longrightarrow> hservers w d \<noteq> None)"

definition net_typed :: "('d, 'o) net \<Rightarrow> bool" where
  "net_typed w \<longleftrightarrow> (\<forall>p ch. chans w p = Some ch \<longrightarrow> p < brk w \<and> chan_ok w ch) \<and> (\<forall>a tc. conns w a = Some tc \<longrightarrow> a < brk w \<and> conn_ok w a tc) \<and>
     (\<forall>sv s. servers w sv = Some s \<longrightarrow> sv < brk w \<and> server_ok w s) \<and>
     (\<forall>hs h. hservers w hs = Some h \<longrightarrow> hs < brk w \<and> servers w (tcpServer h) \<noteq> None) \<and> (\<forall>l. loops w l \<noteq> None \<longrightarrow> l < brk w)"

text \<open>A step keeps the objects there are, of their kind.\<close>

definition same_kind :: "channel \<Rightarrow> channel \<Rightarrow> bool" where
  "same_kind ch ch' \<longleftrightarrow> cdata ch' = cdata ch \<and> eventReadCallback ch' = eventReadCallback ch \<and> eventWriteCallback ch' = eventWriteCallback ch"

definition grows :: "('d, 'o) net \<Rightarrow> ('d, 'o) net \<Rightarrow> bool" where
  "grows w w' \<longleftrightarrow> brk w \<le> brk w' \<and> (\<forall>l. loops w l \<noteq> None \<longrightarrow> loops w' l \<noteq> None) \<and> (\<forall>a. conns w a \<noteq> None \<longrightarrow> conns w' a \<noteq> None) \<and>
     (\<forall>sv. servers w sv \<noteq> None \<longrightarrow> servers w' sv \<noteq> None) \<and> (\<forall>hs. hservers w hs \<noteq> None \<longrightarrow> hservers w' hs \<noteq> None) \<and>
     (\<forall>p ch. chans w p = Some ch \<longrightarrow> (\<exists>ch'. chans w' p = Some ch' \<and> same_kind ch ch'))"

definition keeps :: "('d, 'o) net \<Rightarrow> ('d, 'o) net \<Rightarrow> bool" where
  "keeps w w' \<longleftrightarrow> net_typed w' \<and> grows w w'"

lemma grows_refl [simp]: "grows w w"
  by (simp add: grows_def same_kind_def)

lemma grows_trans:
  assumes "grows w w1" and "grows w1 w2"
  shows "grows w w2"
  unfolding grows_def
proof (intro conjI allI impI)
  show "brk w \<le> brk w2" using assms by (simp add: grows_def)
  fix p ch
  assume "chans w p = Some ch"
  with assms(1) obtain ch1 where "chans w1 p = Some ch1" "same_kind ch ch1" unfolding grows_def by blast
  moreover from this assms(2) obtain ch2 where "chans w2 p = Some ch2" "same_kind ch1 ch2" unfolding grows_def by blast
  ultimately show "\<exists>ch'. chans w2 p = Some ch' \<and> same_kind ch ch'" by (auto simp: same_kind_def)
qed (use assms in \<open>auto simp: grows_def\<close>)

lemma keeps_trans: "keeps w w1 \<Longrightarrow> keeps w1 w2 \<Longrightarrow> keeps w w2"
  using grows_trans by (auto simp: keeps_def)

lemma keeps_refl: "net_typed w \<Longrightarrow> keeps w w"
  by (simp add: keeps_def)

lemma keeps_typed: "keeps w w' \<Longrightarrow> net_typed w'"
  by (simp add: keeps_def)

text \<open>The typing of objects is kept when the memory grows.\<close>

lemma grows_ok:
  assumes "grows w w'"
  shows "chan_ok w ch \<Longrightarrow> same_kind ch ch' \<Longrightarrow> chan_ok w' ch'" "conn_ok w a tc \<Longrightarrow> conn_ok w' a tc" "pool_ok w tp \<Longrightarrow> pool_ok w' tp"
    "server_ok w s \<Longrightarrow> server_ok w' s"
proof -
  show p: "pool_ok w tp \<Longrightarrow> pool_ok w' tp" for tp using assms by (auto simp: pool_ok_def grows_def)
  then show "server_ok w s \<Longrightarrow> server_ok w' s" using assms by (auto simp: server_ok_def grows_def)
  show "chan_ok w ch \<Longrightarrow> same_kind ch ch' \<Longrightarrow> chan_ok w' ch'"
    using assms by (cases "cdata ch") (auto simp: chan_ok_def same_kind_def grows_def)
  show "conn_ok w a tc \<Longrightarrow> conn_ok w' a tc" using assms unfolding conn_ok_def grows_def same_kind_def by metis
qed

text \<open>
  A step is typed when it grows the memory and every object that is new or changed is typed after it.
\<close>

lemma keepsI:
  assumes "net_typed w" and g: "grows w w'"
    and ch: "\<And>p ch. chans w' p = Some ch \<Longrightarrow> (\<exists>c. chans w p = Some c \<and> same_kind c ch) \<or> p < brk w' \<and> chan_ok w' ch"
    and cn: "\<And>a tc. conns w' a = Some tc \<Longrightarrow> conns w a = Some tc \<or> a < brk w' \<and> conn_ok w' a tc"
    and sv: "\<And>sv s. servers w' sv = Some s \<Longrightarrow> servers w sv = Some s \<or> sv < brk w' \<and> server_ok w' s"
    and hs: "\<And>hs h. hservers w' hs = Some h \<Longrightarrow> hservers w hs = Some h \<or> hs < brk w' \<and> servers w' (tcpServer h) \<noteq> None"
    and lo: "\<And>l. loops w' l \<noteq> None \<Longrightarrow> loops w l \<noteq> None \<or> l < brk w'"
  shows "keeps w w'"
proof -
  have b: "brk w \<le> brk w'" using g by (simp add: grows_def)
  have "net_typed w'"
    unfolding net_typed_def
  proof (intro conjI allI impI)
    fix p c assume "chans w' p = Some c"
    from ch [OF this] assms(1) b grows_ok(1) [OF g] show "p < brk w'" "chan_ok w' c" unfolding net_typed_def by (meson order_less_le_trans)+
  next
    fix a tc assume "conns w' a = Some tc"
    from cn [OF this] assms(1) b grows_ok(2) [OF g] show "a < brk w'" "conn_ok w' a tc" unfolding net_typed_def by (meson order_less_le_trans)+
  next
    fix a s assume "servers w' a = Some s"
    from sv [OF this] assms(1) b grows_ok(4) [OF g] show "a < brk w'" "server_ok w' s" unfolding net_typed_def by (meson order_less_le_trans)+
  next
    fix a h assume "hservers w' a = Some h"
    from hs [OF this] assms(1) b g show "a < brk w'" "servers w' (tcpServer h) \<noteq> None" unfolding net_typed_def grows_def by (meson order_less_le_trans)+
  next
    fix l assume "loops w' l \<noteq> None"
    from lo [OF this] assms(1) b show "l < brk w'" unfolding net_typed_def by (meson order_less_le_trans)
  qed
  with g show ?thesis by (simp add: keeps_def)
qed

section \<open>Primitive changes\<close>

lemma grows_fields:
  assumes "brk w \<le> brk w'" and "loops w' = loops w" "chans w' = chans w" "conns w' = conns w" "servers w' = servers w" "hservers w' = hservers w"
  shows "grows w w'"
  using assms by (simp add: grows_def same_kind_def)

lemma keeps_fields:
  assumes "net_typed w" and "brk w \<le> brk w'" and "loops w' = loops w" "chans w' = chans w" "conns w' = conns w" "servers w' = servers w" "hservers w' = hservers w"
  shows "keeps w w'"
  by (rule keepsI [OF assms(1) grows_fields [OF assms(2-7)]]) (use assms in \<open>auto simp: same_kind_def\<close>)

lemma keeps_set_loop: "net_typed w \<Longrightarrow> loops w l \<noteq> None \<Longrightarrow> keeps w (set_loop l el w)"
proof (rule keepsI)
  assume "loops w l \<noteq> None"
  then show "grows w (set_loop l el w)" by (auto simp: grows_def same_kind_def)
qed (auto simp: same_kind_def split: if_splits)

lemma keeps_set_conn:
  assumes t: "net_typed w" and c: "conns w a = Some tc" and same: "tc_channel tc' = tc_channel tc" "tc_eventLoop tc' = tc_eventLoop tc"
    and d: "tc_data tc' = tc_data tc \<or> (\<exists>d. tc_data tc' = At d \<and> hservers w d \<noteq> None)"
  shows "keeps w (set_conn a tc' w)"
proof (rule keepsI [OF t])
  show g: "grows w (set_conn a tc' w)" using c by (auto simp: grows_def same_kind_def)
  have "a < brk w" "conn_ok w a tc" using t c unfolding net_typed_def by blast+
  then have "a < brk w" "conn_ok w a tc'" using same d by (auto simp: conn_ok_def)
  then show "conns w b = Some x \<or> b < brk (set_conn a tc' w) \<and> conn_ok (set_conn a tc' w) b x" if "conns (set_conn a tc' w) b = Some x" for b x
    using that grows_ok(2) [OF g] by (auto split: if_splits)
qed (auto simp: same_kind_def)

lemma keeps_set_server:
  assumes t: "net_typed w" and s: "servers w a = Some s" and ok: "server_ok w s'"
  shows "keeps w (set_server a s' w)"
proof (rule keepsI [OF t])
  show g: "grows w (set_server a s' w)" using s by (auto simp: grows_def same_kind_def)
  have "a < brk w" using t s unfolding net_typed_def by blast
  then show "servers w b = Some x \<or> b < brk (set_server a s' w) \<and> server_ok (set_server a s' w) x" if "servers (set_server a s' w) b = Some x" for b x
    using that ok grows_ok(4) [OF g] by (auto split: if_splits)
qed (auto simp: same_kind_def)

lemma keeps_same_kind:
  assumes t: "net_typed w" and c: "chans w p = Some ch" and k: "same_kind ch ch'"
  shows "keeps w (w\<lparr>chans := (chans w)(p \<mapsto> ch')\<rparr>)"
  by (rule keepsI [OF t]) (use c k in \<open>auto simp: grows_def same_kind_def split: if_splits\<close>)

lemma typedD:
  assumes "net_typed w"
  shows "chans w p = Some ch \<Longrightarrow> p < brk w \<and> chan_ok w ch" "conns w a = Some tc \<Longrightarrow> a < brk w \<and> conn_ok w a tc"
    "servers w sv = Some s \<Longrightarrow> sv < brk w \<and> server_ok w s" "hservers w hs = Some h \<Longrightarrow> hs < brk w \<and> servers w (tcpServer h) \<noteq> None"
    "loops w l \<noteq> None \<Longrightarrow> l < brk w"
  using assms unfolding net_typed_def by blast+

lemma fresh_none:
  assumes "net_typed w" and "brk w \<le> a"
  shows "chans w a = None" "conns w a = None" "servers w a = None" "hservers w a = None" "loops w a = None"
  using assms typedD [OF assms(1)] by (meson not_le option.exhaust)+

lemma get_Inr:
  "get_loop w l = Inr el \<longleftrightarrow> loops w l = Some el" "get_conn w a = Inr tc \<longleftrightarrow> conns w a = Some tc"
  "get_server w sv = Inr s \<longleftrightarrow> servers w sv = Some s" "get_hserver w hs = Inr h \<longleftrightarrow> hservers w hs = Some h"
  by (auto simp: get_loop_def get_conn_def get_server_def get_hserver_def split: option.splits)

lemma new_object_keeps: "new_object P n w = Inr (a, w') \<Longrightarrow> \<exists>o'. a = brk w \<and> w' = w\<lparr>brk := brk w + 1, os := o'\<rparr>"
  by (auto simp: new_object_def)

lemma new_buffer_keeps: "new_buffer P w = (b, w') \<Longrightarrow> \<exists>o'. w' = w\<lparr>os := o'\<rparr>"
  by (auto simp: new_buffer_def Let_def split: prod.splits if_splits)

section \<open>Operations of the framework\<close>

lemma channel_ops_keep:
  assumes "net_typed w"
  shows "add_channel P self l fd p w = Inr w' \<Longrightarrow> keeps w w'" "remove_channel P self l fd p w = Inr w' \<Longrightarrow> keeps w w'"
  using keeps_set_loop [OF assms] by (auto simp: add_channel_def remove_channel_def get_Inr)

lemma write_event_keeps:
  assumes t: "net_typed w" and f: "\<And>c. same_kind c (f c)" and run: "write_event (change_write_event f) P self p w = Inr w'"
  shows "keeps w w'"
proof -
  from run obtain ch l el el' where ch: "chans w p = Some ch" and el: "loops w l = Some el" and
    w': "w' = set_loop l el' (w\<lparr>chans := (chans w)(p \<mapsto> f ch)\<rparr>)"
    by (auto simp: write_event_def change_write_event_def load_def get_Inr Let_def split: option.splits chan_data.splits if_splits)
  have k: "keeps w (w\<lparr>chans := (chans w)(p \<mapsto> f ch)\<rparr>)" using keeps_same_kind [OF t ch f] .
  have "loops (w\<lparr>chans := (chans w)(p \<mapsto> f ch)\<rparr>) l \<noteq> None" using el by simp
  from keeps_trans [OF k keeps_set_loop [OF keeps_typed [OF k] this]] show ?thesis unfolding w' .
qed

lemmas write_events_keep =
  write_event_keeps [where f = set_write_event, unfolded channel_write_event_enable_def [symmetric]]
  write_event_keeps [where f = clear_write_event, unfolded channel_write_event_disable_def [symmetric]]

lemma same_kind_write [simp]: "same_kind c (set_write_event c)" "same_kind c (clear_write_event c)"
  by (simp_all add: same_kind_def set_write_event_def clear_write_event_def)

text \<open>
  Computations that yield the memory, or a result \<open>r\<close> with the memory \<open>mem r\<close>: where they return they keep it.
\<close>

definition safe :: "('r \<Rightarrow> ('d, 'o) net) \<Rightarrow> ('d, 'o) net \<Rightarrow> 'r c_res \<Rightarrow> bool" where
  "safe mem w m \<longleftrightarrow> (net_typed w \<longrightarrow> (\<forall>r. m = Inr r \<longrightarrow> keeps w (mem r)))"

lemma safeD: "safe mem w m \<Longrightarrow> net_typed w \<Longrightarrow> m = Inr r \<Longrightarrow> keeps w (mem r)"
  by (simp add: safe_def)

lemma safeI: "(\<And>r. net_typed w \<Longrightarrow> m = Inr r \<Longrightarrow> keeps w (mem r)) \<Longrightarrow> safe mem w m"
  by (simp add: safe_def)

lemma safe_typed: "(net_typed w \<Longrightarrow> safe mem w m) \<Longrightarrow> safe mem w m"
  by (simp add: safe_def)

lemma safe_Inl [simp]: "safe mem w (Inl e)"
  by (simp add: safe_def)

lemma safe_Inr: "(net_typed w \<Longrightarrow> keeps w (mem r)) \<Longrightarrow> safe mem w (Inr r)"
  by (simp add: safe_def)

text \<open>Sequences: without a change of the memory, after a change, and after a computation that changes it.\<close>

lemma safe_pure: "(\<And>r. m = Inr r \<Longrightarrow> safe mem w (g r)) \<Longrightarrow> safe mem w (c_bind m g)"
  by (auto simp: safe_def)

lemma safe_step: "(net_typed w \<Longrightarrow> keeps w v) \<Longrightarrow> safe mem v m \<Longrightarrow> safe mem w m"
proof (rule safeI)
  fix r
  assume "net_typed w" and k: "net_typed w \<Longrightarrow> keeps w v" and m: "safe mem v m" "m = Inr r"
  from k [OF this(1)] have "keeps w v" .
  with safeD [OF m(1) keeps_typed m(2)] show "keeps w (mem r)" by (blast intro: keeps_trans)
qed

lemma safe_bind:
  assumes "safe mem' w m" and "\<And>r. m = Inr r \<Longrightarrow> safe mem (mem' r) (g r)"
  shows "safe mem w (c_bind m g)"
proof (rule safe_pure)
  fix r
  assume r: "m = Inr r"
  show "safe mem w (g r)" by (rule safe_step [OF _ assms(2) [OF r]]) (use assms(1) r in \<open>simp add: safe_def\<close>)
qed

lemma safe_if: "(b \<Longrightarrow> safe mem w m) \<Longrightarrow> (\<not> b \<Longrightarrow> safe mem w m') \<Longrightarrow> safe mem w (if b then m else m')"
  by simp

lemma keeps_os: "net_typed w \<Longrightarrow> keeps w (w\<lparr>os := o'\<rparr>)"
  by (rule keeps_fields) simp_all

lemma keeps_conn:
  assumes "net_typed w" and "conns w a = Some tc" and "tc_channel tc' = tc_channel tc" "tc_eventLoop tc' = tc_eventLoop tc" "tc_data tc' = tc_data tc"
  shows "keeps w (set_conn a tc' w)" "keeps w (set_conn a tc' (w\<lparr>os := o'\<rparr>))" "keeps w (set_conn a tc' (w\<lparr>stray := n\<rparr>))"
proof -
  show "keeps w (set_conn a tc' w)" using assms by (intro keeps_set_conn) auto
  have k: "keeps w (w\<lparr>os := o'\<rparr>)" "keeps w (w\<lparr>stray := n\<rparr>)" using assms(1) by (auto intro: keeps_fields)
  show "keeps w (set_conn a tc' (w\<lparr>os := o'\<rparr>))"
    by (rule keeps_trans [OF k(1) keeps_set_conn [OF keeps_typed [OF k(1)], where tc = tc]]) (use assms in simp_all)
  show "keeps w (set_conn a tc' (w\<lparr>stray := n\<rparr>))"
    by (rule keeps_trans [OF k(2) keeps_set_conn [OF keeps_typed [OF k(2)], where tc = tc]]) (use assms in simp_all)
qed

text \<open>The callbacks of a connection, as a parameter.\<close>

definition typed_run :: "(conn_callback \<Rightarrow> nat \<Rightarrow> ('d, 'o) net \<Rightarrow> ('d, 'o) net c_res) \<Rightarrow> bool" where
  "typed_run run \<longleftrightarrow> (\<forall>f a w. safe (\<lambda>w. w) w (run f a w))"

lemma safe_call_back: "typed_run run \<Longrightarrow> safe (\<lambda>w. w) w (call_back run f a w)"
  by (cases f) (auto simp: call_back_def typed_run_def safe_Inr keeps_refl)

lemma safe_channel_ops:
  "safe (\<lambda>w. w) w (add_channel P self l fd p w)" "safe (\<lambda>w. w) w (remove_channel P self l fd p w)"
  "safe (\<lambda>w. w) w (write_event channel_write_event_enable P self p w)" "safe (\<lambda>w. w) w (write_event channel_write_event_disable P self p w)"
  using channel_ops_keep write_events_keep by (auto intro!: safeI)

lemma safe_closed: "typed_run run \<Longrightarrow> safe (\<lambda>w. w) w (handle_connection_closed P self run a w)"
  unfolding handle_connection_closed_def
  by (intro safe_pure safe_bind [OF safe_channel_ops(2)] safe_call_back)

lemma safe_handle_read:
  assumes "typed_run run"
  shows "safe (\<lambda>w. w) w (handle_read P self run a w)"
  unfolding handle_read_def
proof (intro safe_pure, goal_cases)
  case (1 tc ch)
  then have c: "conns w a = Some tc" by (simp add: get_Inr)
  show ?case
  proof (cases "input_buffer tc")
    case (Some b)
    obtain rd o' where rd: "sys_readv (pl_sys P) (cfd ch) (buffer_writeable_size b + int INIT_BUFFER_SIZE) (os w) = (rd, o')" by fastforce
    have k: "keeps w (set_conn a (tc\<lparr>input_buffer := Some b'\<rparr>) (w\<lparr>os := o'\<rparr>))" if "net_typed w" for b'
      using keeps_conn(2) [OF that c] by simp
    show ?thesis
      unfolding Some option.case rd Let_def prod.case
    proof (rule safe_pure, clarify)
      fix r b'
      show "safe (\<lambda>w. w) w (if 0 < r then call_back run (tc_messageCallBack tc) a (set_conn a (tc\<lparr>input_buffer := Some b'\<rparr>) (w\<lparr>os := o'\<rparr>))
          else handle_connection_closed P self run a (set_conn a (tc\<lparr>input_buffer := Some b'\<rparr>) (w\<lparr>os := o'\<rparr>)))"
        by (rule safe_step [OF k]) (auto intro: safe_call_back safe_closed assms)
    qed
  qed simp
qed

lemma safe_handle_write:
  assumes "typed_run run"
  shows "safe (\<lambda>w. w) w (handle_write P self run a w)"
  unfolding handle_write_def
proof (intro safe_pure, goal_cases)
  case (1 tc el u ch)
  then have c: "conns w a = Some tc" by (simp add: get_Inr)
  show ?case
  proof (cases "output_buffer tc")
    case (Some b)
    show ?thesis
      unfolding Some option.case
    proof (rule safe_pure)
      fix bytes
      obtain n err o' where wr: "sys_write (pl_sys P) (cfd ch) bytes (os w) = ((n, err), o')" by (metis prod_cases3 prod.collapse)
      let ?w = "set_conn a (tc\<lparr>output_buffer := Some (b\<lparr>readIndex := readIndex b + n\<rparr>)\<rparr>) (w\<lparr>os := o'\<rparr>)"
      have "safe (\<lambda>w. w) w (c_bind (if z then write_event channel_write_event_disable P self (tc_channel tc) ?w else Inr ?w)
          (\<lambda>w. call_back run (tc_writeCompletedCallBack tc) a w))" for z
        by (rule safe_step [where v = ?w]) (auto intro!: keeps_conn(2) [OF _ c] safe_bind [OF _ safe_call_back] safe_channel_ops safe_Inr keeps_refl assms safe_call_back [OF assms])
      then show "safe (\<lambda>w. w) w
         (let ((n, err), o') = sys_write (pl_sys P) (cfd ch) bytes (os w); w = w\<lparr>os := o'\<rparr> in
         if 0 < n then
           let b = b\<lparr>readIndex := readIndex b + n\<rparr>; w = set_conn a (tc\<lparr>output_buffer := Some b\<rparr>) w in
           c_bind (if buffer_readable_size b = 0 then write_event channel_write_event_disable P self (tc_channel tc) w else Inr w) (\<lambda>w.
           call_back run (tc_writeCompletedCallBack tc) a w)
         else Inr w)"
        unfolding wr Let_def prod.case by (auto intro!: safe_Inr keeps_os)
    qed
  qed simp
qed

lemma safe_buffer_rest: "safe (\<lambda>w. w) w (buffer_rest P self a blk off nw nl w)"
  unfolding buffer_rest_def
proof (intro safe_pure, goal_cases)
  case (1 tc ch)
  then have c: "conns w a = Some tc" by (simp add: get_Inr)
  show ?case
  proof (cases "output_buffer tc")
    case (Some b)
    have "safe (\<lambda>w. w) w (if e = (0 :: 32 word) then write_event channel_write_event_enable P self (tc_channel tc) (set_conn a (tc\<lparr>output_buffer := Some b'\<rparr>) w)
        else Inr (set_conn a (tc\<lparr>output_buffer := Some b'\<rparr>) w))" for e b'
      by (rule safe_step [where v = "set_conn a (tc\<lparr>output_buffer := Some b'\<rparr>) w"]) (auto intro!: keeps_conn(1) [OF _ c] safe_channel_ops safe_Inr keeps_refl)
    then show ?thesis unfolding Some option.case Let_def by (auto intro!: safe_pure)
  qed simp
qed

lemma safe_try_write: "safe (\<lambda>(n, l, f, w). w) w (try_write P fd blk off sz w)"
  unfolding try_write_def by (rule safe_pure) (auto simp: Let_def split: prod.split intro!: safe_Inr keeps_os)

lemma safe_send_data: "safe snd w (tcp_connection_send_data P self a blk off sz w)"
  unfolding tcp_connection_send_data_def
proof (rule safe_pure, rule safe_pure, rule safe_pure, goal_cases)
  case (1 tc ch direct)
  show ?case
  proof (rule safe_bind [where mem' = "\<lambda>(n, l, f, w). w"])
    show "safe (\<lambda>(n, l, f, w). w) w (if direct then try_write P (cfd ch) blk off sz w else Inr (0, word_of_int sz, False, w))"
      by (auto intro!: safe_try_write safe_Inr keeps_refl)
  qed (auto intro!: safe_bind [OF safe_buffer_rest] safe_Inr keeps_refl split: prod.split)
qed

lemma safe_send_buffer: "safe (snd \<circ> snd) w (tcp_connection_send_buffer P self a b w)"
  unfolding tcp_connection_send_buffer_def Let_def
  by (rule safe_bind [OF safe_send_data]) (auto intro!: safe_pure safe_Inr keeps_refl split: prod.split)

lemma safe_shutdown: "safe (\<lambda>w. w) w (tcp_connection_shutdown P a w)"
  unfolding tcp_connection_shutdown_def by (intro safe_pure) (auto simp: Let_def split: prod.split intro!: safe_Inr keeps_os)

section \<open>Creating objects\<close>

lemma keeps_new_connection:
  assumes v_def: "v = w\<lparr>brk := brk w + 2, os := o', chans := (chans w)(brk w + 1 \<mapsto> conn_channel fd (brk w))\<rparr>"
    and t: "net_typed w" and l: "loops w l \<noteq> None" and tc: "tc_channel tc = brk w + 1" "tc_eventLoop tc = l" "tc_data tc = Unset"
  shows "keeps w (set_conn (brk w) tc v)"
proof (rule keepsI [OF t])
  let ?w = "set_conn (brk w) tc v"
  note new = fresh_none [OF t]
  have n: "chans w (brk w + 1) = None" "conns w (brk w) = None" by (simp_all add: new)
  show "grows w ?w" using n by (auto simp: grows_def v_def set_conn_def same_kind_def)
  show "(\<exists>c. chans w p = Some c \<and> same_kind c ch) \<or> p < brk ?w \<and> chan_ok ?w ch" if "chans ?w p = Some ch" for p ch
    using that by (auto simp: v_def same_kind_def chan_ok_def conn_channel_def channel_new_def split: if_splits)
  show "conns w a = Some c \<or> a < brk ?w \<and> conn_ok ?w a c" if "conns ?w a = Some c" for a c
    using that l tc by (auto simp: v_def conn_ok_def conn_channel_def channel_new_def split: if_splits)
qed (auto simp: v_def)

lemma safe_connection_new:
  assumes r: "typed_run run" and l: "loops w l \<noteq> None"
  shows "safe snd w (tcp_connection_new P self run fd l completed on_closed message write_completed w)"
  unfolding tcp_connection_new_def
proof (rule safe_pure, clarify)
  fix a w1
  assume "new_object P sizeof_tcp_connection w = Inr (a, w1)"
  then obtain o1 where a: "a = brk w" "w1 = w\<lparr>brk := brk w + 1, os := o1\<rparr>" using new_object_keeps by blast
  obtain ib w2 where ib: "new_buffer P w1 = (ib, w2)" by fastforce
  obtain ob w3 where ob: "new_buffer P w2 = (ob, w3)" by fastforce
  from new_buffer_keeps [OF ib] new_buffer_keeps [OF ob] a obtain o3 where w3: "w3 = w\<lparr>brk := brk w + 1, os := o3\<rparr>" by auto
  show "safe snd w (let (ib, w) = new_buffer P w1; (ob, w) = new_buffer P w in
     c_bind (must_malloc (pl_sys P) 16 (os w)) (\<lambda>o'.
     let w = w\<lparr>os := o'\<rparr> in
     c_bind (sprintf16 ''connection-'' fd) (\<lambda>buf.
     c_bind (new_object P sizeof_channel w) (\<lambda>(p, w).
     let w = w\<lparr>chans := (chans w)(p \<mapsto> channel_new fd EVENT_READ (Some HandleRead) (Some HandleWrite) (ConnPtr a))\<rparr>;
         w = set_conn a \<lparr>tc_eventLoop = l, tc_channel = p, tc_name = buf, input_buffer = ib, output_buffer = ob,
               tc_connectionCompletedCallBack = completed, tc_messageCallBack = message, tc_writeCompletedCallBack = write_completed,
               tc_connectionClosedCallBack = on_closed, tc_data = Unset, tc_request = Unset, tc_response = Unset\<rparr> w
     in c_bind (call_back run completed a w) (\<lambda>w.
        c_bind (get_conn w a) (\<lambda>tc.
        c_bind (add_channel P self (tc_eventLoop tc) fd (tc_channel tc) w) (\<lambda>w.
        Inr (a, w))))))))"
    unfolding ib ob Let_def prod.case
  proof (rule safe_pure, rule safe_pure, rule safe_pure, clarify)
    fix o4 buf p w5
    assume "new_object P sizeof_channel (w3\<lparr>os := o4\<rparr>) = Inr (p, w5)"
    then obtain o5 where p: "p = brk w + 1" "w5 = w\<lparr>brk := brk w + 2, os := o5\<rparr>"
      using new_object_keeps [of P sizeof_channel "w3\<lparr>os := o4\<rparr>" p w5] by (auto simp: w3)
    define v where "v = w5\<lparr>chans := (chans w5)(p \<mapsto> channel_new fd EVENT_READ (Some HandleRead) (Some HandleWrite) (ConnPtr a))\<rparr>"
    define tc where "tc = \<lparr>tc_eventLoop = l, tc_channel = p, tc_name = buf, input_buffer = ib, output_buffer = ob,
               tc_connectionCompletedCallBack = completed, tc_messageCallBack = message, tc_writeCompletedCallBack = write_completed,
               tc_connectionClosedCallBack = on_closed, tc_data = Unset, tc_request = Unset, tc_response = Unset\<rparr>"
    have k: "net_typed w \<Longrightarrow> keeps w (set_conn a tc v)"
      using keeps_new_connection [where v = v and o' = o5 and fd = fd and tc = tc, OF _ _ l] by (simp add: v_def tc_def p a conn_channel_def)
    show "safe snd w (c_bind (call_back run completed a (set_conn a tc v)) (\<lambda>w.
        c_bind (get_conn w a) (\<lambda>tc.
        c_bind (add_channel P self (tc_eventLoop tc) fd (tc_channel tc) w) (\<lambda>w. Inr (a, w)))))"
      by (rule safe_step [OF k], assumption, intro safe_bind [OF safe_call_back [OF r]], rule safe_pure, intro safe_bind [OF safe_channel_ops(1)] safe_Inr)
        (simp add: keeps_refl)
  qed
qed

text \<open>An accepted connection.\<close>

lemma get_loop_ok:
  assumes "thread_pool_get_loop self tp w = Inr (l, tp')" and "pool_ok w tp"
  shows "pool_ok w tp'" "l = Some m \<Longrightarrow> loops w m \<noteq> None"
  using assms
  by (auto simp: thread_pool_get_loop_def pool_ok_def c_read_def Let_def split: if_splits dest: nth_mem)

lemma safe_established:
  assumes r: "typed_run run"
  shows "safe snd w (handle_connection_established P self run sv w)"
  unfolding handle_connection_established_def
proof (rule safe_typed, rule safe_pure)
  fix s
  assume t: "net_typed w" and s: "get_server w sv = Inr s"
  then have sv: "servers w sv = Some s" by (simp add: get_Inr)
  obtain fd o1 where acc: "sys_accept (pl_sys P) (listen_fd (sv_acceptor s)) (os w) = (fd, o1)" by fastforce
  let ?w = "w\<lparr>os := make_nonblocking (pl_sys P) fd o1\<rparr>"
  have ok: "server_ok w s" using typedD(3) [OF t sv] by simp
  show "safe snd w (let (connected_fd, o1) = sys_accept (pl_sys P) (listen_fd (sv_acceptor s)) (os w);
         w = w\<lparr>os := make_nonblocking (pl_sys P) connected_fd o1\<rparr> in
     c_bind (thread_pool_get_loop self (threadPool s) w) (\<lambda>(l, tp).
     let w = set_server sv (s\<lparr>threadPool := tp\<rparr>) w in
     case l of
       None \<Rightarrow> Inl NullDeref
     | Some l \<Rightarrow>
         c_bind (tcp_connection_new P self run connected_fd l (sv_connectionCompletedCallBack s) (sv_connectionClosedCallBack s)
                   (sv_messageCallBack s) (sv_writeCompletedCallBack s) w) (\<lambda>(a, w).
         c_bind (get_server w sv) (\<lambda>s.
         case sv_data s of
           None \<Rightarrow> Inr (0, w)
         | Some d \<Rightarrow> c_bind (get_conn w a) (\<lambda>tc. Inr (0, set_conn a (tc\<lparr>tc_data := At d\<rparr>) w))))))"
    unfolding acc Let_def prod.case
  proof (rule safe_pure, clarify)
    fix l tp
    assume "thread_pool_get_loop self (threadPool s) ?w = Inr (l, tp)"
    then have g: "thread_pool_get_loop self (threadPool s) w = Inr (l, tp)" by simp
    let ?w1 = "set_server sv (s\<lparr>threadPool := tp\<rparr>) ?w"
    have tp: "pool_ok w tp" using get_loop_ok(1) [OF g] ok by (simp add: server_ok_def)
    have k1: "keeps w ?w" using t by (rule keeps_os)
    have "server_ok ?w (s\<lparr>threadPool := tp\<rparr>)" using ok tp by (simp add: server_ok_def pool_ok_def)
    from keeps_set_server [OF keeps_typed [OF k1] _ this] sv have "keeps ?w ?w1" by simp
    with k1 have k: "keeps w ?w1" by (rule keeps_trans)
    have data: "safe snd v (c_bind (get_server v sv) (\<lambda>s. case sv_data s of None \<Rightarrow> Inr (0, v)
        | Some d \<Rightarrow> c_bind (get_conn v a) (\<lambda>tc. Inr (0, set_conn a (tc\<lparr>tc_data := At d\<rparr>) v))))" for v a
    proof (rule safe_pure)
      fix s'
      assume s': "get_server v sv = Inr s'"
      show "safe snd v (case sv_data s' of None \<Rightarrow> Inr (0, v) | Some d \<Rightarrow> c_bind (get_conn v a) (\<lambda>tc. Inr (0, set_conn a (tc\<lparr>tc_data := At d\<rparr>) v)))"
      proof (cases "sv_data s'")
        case (Some d)
        have "keeps v (set_conn a (tc\<lparr>tc_data := At d\<rparr>) v)" if "net_typed v" "get_conn v a = Inr tc" for tc
        proof -
          have "server_ok v s'" using typedD(3) [OF that(1)] s' by (simp add: get_Inr)
          then have "hservers v d \<noteq> None" using Some by (simp add: server_ok_def)
          with that show ?thesis by (intro keeps_set_conn) (auto simp: get_Inr)
        qed
        with Some show ?thesis by (auto intro!: safe_pure safe_Inr)
      qed (auto intro!: safe_Inr keeps_refl)
    qed
    show "safe snd w (case l of None \<Rightarrow> Inl NullDeref | Some l \<Rightarrow>
         c_bind (tcp_connection_new P self run fd l (sv_connectionCompletedCallBack s) (sv_connectionClosedCallBack s)
                   (sv_messageCallBack s) (sv_writeCompletedCallBack s) ?w1) (\<lambda>(a, w).
         c_bind (get_server w sv) (\<lambda>s.
         case sv_data s of
           None \<Rightarrow> Inr (0, w)
         | Some d \<Rightarrow> c_bind (get_conn w a) (\<lambda>tc. Inr (0, set_conn a (tc\<lparr>tc_data := At d\<rparr>) w)))))"
    proof (cases l)
      case (Some m)
      then have "loops ?w1 m \<noteq> None" using get_loop_ok(2) [OF g] ok by (simp add: server_ok_def)
      note new = safe_connection_new [OF r this]
      show ?thesis
        unfolding Some option.case by (rule safe_step [OF k], rule safe_bind [OF new]) (clarsimp simp: data)
    qed simp
  qed
qed

section \<open>Threads and servers\<close>

lemma keeps_new_loop:
  assumes v: "v = w\<lparr>brk := brk w + 2, os := o', chans := (chans w)(brk w + 1 \<mapsto> channel_new fd EVENT_READ (Some HandleWakeup) None (LoopPtr (brk w)))\<rparr>"
    and t: "net_typed w"
  shows "keeps w (set_loop (brk w) el v)"
proof (rule keepsI [OF t])
  let ?w = "set_loop (brk w) el v"
  have n: "chans w (brk w + 1) = None" "loops w (brk w) = None" by (simp_all add: fresh_none [OF t])
  show "grows w ?w" using n by (auto simp: grows_def v set_loop_def same_kind_def)
  show "(\<exists>c. chans w p = Some c \<and> same_kind c ch) \<or> p < brk ?w \<and> chan_ok ?w ch" if "chans ?w p = Some ch" for p ch
    using that by (auto simp: v same_kind_def chan_ok_def channel_new_def split: if_splits)
qed (auto simp: v split: if_splits)

text \<open>A thread makes its loop; \<open>ts\<close> are the threads started so far.\<close>

definition threads_ok :: "('d, 'o) net \<Rightarrow> event_loop_thread list \<Rightarrow> bool" where
  "threads_ok w ts \<longleftrightarrow> (\<forall>t \<in> set ts. \<forall>l. elt_eventLoop t = Some l \<longrightarrow> loops w l \<noteq> None)"

lemma threads_ok_grows: "threads_ok w ts \<Longrightarrow> grows w w' \<Longrightarrow> threads_ok w' ts"
  by (auto simp: threads_ok_def grows_def)

lemma creates_loop_keeps:
  assumes t: "net_typed w" and run: "thread_creates_loop P tid t1 w = Inr (t', w')"
  shows "keeps w w' \<and> (\<exists>l. elt_eventLoop t' = Some l \<and> loops w' l \<noteq> None)"
proof -
  obtain pair o' where sp: "sys_socketpair (pl_sys P) (os w) = (pair, o')" by fastforce
  with run obtain ch el where i: "event_loop_init_with_name (pl_alloc P) (pl_dispatcher P) (pl_init P) tid pair (brk w) (brk w + 1) (chans w)
      (Some (string_of (elt_thread_name t1))) = Inr (ch, el)"
    and w': "w' = set_loop (brk w) el (w\<lparr>brk := brk w + 2, os := o', chans := ch\<rparr>)" "t' = t1\<lparr>elt_eventLoop := Some (brk w)\<rparr>"
    by (auto simp: thread_creates_loop_def Let_def)
  from keeps_new_loop [where o' = o' and fd = "snd pair" and el = el, OF _ t] do_init_chans [OF i] w' show ?thesis by simp
qed

lemma thread_start_keeps:
  assumes t: "net_typed w" and run: "event_loop_thread_start P t1 w = Inr (t', w')"
  shows "keeps w w' \<and> (\<exists>l. elt_eventLoop t' = Some l \<and> loops w' l \<noteq> None)"
proof -
  obtain ok o' where th: "sys_thread (pl_sys P) (os w) = (ok, o')" by fastforce
  let ?w = "w\<lparr>os := o', tids := tids w + 1\<rparr>"
  from run th have ok: ok and c: "thread_creates_loop P (tids w) (t1\<lparr>thread_tid := tids w\<rparr>) ?w = Inr (t', w')"
    by (auto simp: event_loop_thread_start_def Let_def split: if_splits)
  have k: "keeps w ?w" using t by (rule keeps_fields) simp_all
  from creates_loop_keeps [OF keeps_typed [OF k] c] k show ?thesis by (blast intro: keeps_trans)
qed

lemma start_one_keeps:
  assumes t: "net_typed w" and ts: "threads_ok w ts" and run: "start_one P i (ts, w) = Inr (ts', w')"
  shows "keeps w w' \<and> threads_ok w' ts'"
proof -
  from run obtain t1 o1 t2 where s: "event_loop_thread_start P t1 (w\<lparr>os := o1\<rparr>) = Inr (t2, w')" and ts': "ts' = ts @ [t2]"
    by (auto simp: start_one_def event_loop_thread_init_def)
  have k1: "keeps w (w\<lparr>os := o1\<rparr>)" using t by (rule keeps_os)
  from thread_start_keeps [OF keeps_typed [OF k1] s] k1 have k: "keeps w w'" and l: "\<exists>l. elt_eventLoop t2 = Some l \<and> loops w' l \<noteq> None"
    by (blast intro: keeps_trans)+
  from threads_ok_grows [OF ts] k have "threads_ok w' ts" by (simp add: keeps_def)
  with k l ts' show ?thesis by (auto simp: threads_ok_def)
qed

lemma start_all_keeps:
  "net_typed w \<Longrightarrow> threads_ok w ts \<Longrightarrow> c_for (start_one P) n (ts, w) = Inr (ts', w') \<Longrightarrow> keeps w w' \<and> threads_ok w' ts'"
proof (induction n arbitrary: ts' w')
  case 0
  then show ?case by (simp add: keeps_refl)
next
  case (Suc n)
  then obtain ts1 w1 where 1: "c_for (start_one P) n (ts, w) = Inr (ts1, w1)" and 2: "start_one P n (ts1, w1) = Inr (ts', w')" by auto
  from Suc.IH [OF Suc.prems(1,2) 1] have k: "keeps w w1" "threads_ok w1 ts1" by simp_all
  from start_one_keeps [OF keeps_typed [OF k(1)] k(2) 2] k(1) show ?case by (blast intro: keeps_trans)
qed

lemma pool_start_keeps:
  assumes t: "net_typed w" and tp: "pool_ok w tp" and run: "thread_pool_start P self tp w = Inr (tp', w')"
  shows "keeps w w' \<and> pool_ok w' tp'"
proof (cases "thread_number tp \<le> 0")
  case True
  with run tp t show ?thesis by (auto simp: thread_pool_start_def pool_ok_def keeps_refl split: if_splits)
next
  case False
  with run obtain o1 ts where 1: "c_for (start_one P) (nat (thread_number tp)) ([], w\<lparr>os := o1\<rparr>) = Inr (ts, w')"
    and tp': "tp' = tp\<lparr>started := 1, eventLoopThreads := ts\<rparr>"
    by (auto simp: thread_pool_start_def Let_def split: if_splits)
  have k1: "keeps w (w\<lparr>os := o1\<rparr>)" using t by (rule keeps_os)
  from start_all_keeps [OF keeps_typed [OF k1] _ 1] have k: "keeps (w\<lparr>os := o1\<rparr>) w'" "threads_ok w' ts" by (simp_all add: threads_ok_def)
  have kk: "keeps w w'" using keeps_trans [OF k1 k(1)] .
  moreover have "loops w' (mainLoop tp) \<noteq> None" using tp kk unfolding pool_ok_def keeps_def grows_def by blast
  ultimately show ?thesis using k(2) by (simp add: tp' pool_ok_def threads_ok_def)
qed

lemma server_init_keeps:
  assumes t: "net_typed w" and l: "loops w l \<noteq> None" and run: "tcp_server_init P l acc c m wc cl n w = Inr (sv, w')"
  shows "keeps w w' \<and> servers w' sv \<noteq> None"
proof -
  from run obtain o' s where w': "w' = set_server sv s (w\<lparr>brk := brk w + 1, os := o'\<rparr>)" "sv = brk w"
    and s: "sv_eventLoop s = l" "mainLoop (threadPool s) = l" "eventLoopThreads (threadPool s) = []" "sv_data s = None"
    by (auto simp: tcp_server_init_def new_object_def thread_pool_new_def)
  have n: "servers w sv = None" using fresh_none [OF t] w'(2) by simp
  have ok: "server_ok w' s" using l s w' by (simp add: server_ok_def pool_ok_def)
  have "keeps w w'"
    by (rule keepsI [OF t]) (use n ok w' in \<open>auto simp: grows_def same_kind_def set_server_def split: if_splits\<close>)
  then show ?thesis using w'(1) by simp
qed

lemma server_start_keeps:
  assumes t: "net_typed w" and run: "tcp_server_start P self sv w = Inr w'"
  shows "keeps w w'"
proof -
  from run obtain s tp w1 p w2 where s: "servers w sv = Some s" and 1: "thread_pool_start P self (threadPool s) w = Inr (tp, w1)"
    and 2: "new_object P sizeof_channel (set_server sv (s\<lparr>threadPool := tp\<rparr>) w1) = Inr (p, w2)"
    and 3: "add_channel P self (sv_eventLoop s) (listen_fd (sv_acceptor s)) p
      (w2\<lparr>chans := (chans w2)(p \<mapsto> channel_new (listen_fd (sv_acceptor s)) EVENT_READ (Some HandleConnectionEstablished) None (ServerPtr sv))\<rparr>) = Inr w'"
    by (auto simp: tcp_server_start_def get_Inr Let_def)
  have ok: "server_ok w s" using typedD(3) [OF t s] by simp
  from pool_start_keeps [OF t _ 1] ok have k1: "keeps w w1" "pool_ok w1 tp" by (simp_all add: server_ok_def)
  from k1(1) have g: "grows w w1" "net_typed w1" by (simp_all add: keeps_def)
  then obtain s1 where s1: "servers w1 sv = Some s1" using s unfolding grows_def by blast
  have "server_ok w1 (s\<lparr>threadPool := tp\<rparr>)" using grows_ok(4) [OF g(1) ok] k1(2) by (simp add: server_ok_def)
  from keeps_set_server [OF g(2) s1 this] have k2: "keeps w1 (set_server sv (s\<lparr>threadPool := tp\<rparr>) w1)" .
  let ?w = "set_server sv (s\<lparr>threadPool := tp\<rparr>) w1"
  from new_object_keeps [OF 2] obtain o' where p: "p = brk ?w" "w2 = ?w\<lparr>brk := brk ?w + 1, os := o'\<rparr>" by blast
  let ?v = "w2\<lparr>chans := (chans w2)(p \<mapsto> channel_new (listen_fd (sv_acceptor s)) EVENT_READ (Some HandleConnectionEstablished) None (ServerPtr sv))\<rparr>"
  have n: "chans ?w p = None" using fresh_none [OF keeps_typed [OF k2]] p(1) by simp
  have k3: "keeps ?w ?v"
  proof (rule keepsI [OF keeps_typed [OF k2]])
    show "grows ?w ?v" using n by (auto simp: grows_def p(2) same_kind_def)
    show "(\<exists>c. chans ?w q = Some c \<and> same_kind c ch) \<or> q < brk ?v \<and> chan_ok ?v ch" if "chans ?v q = Some ch" for q ch
      using that by (auto simp: p same_kind_def chan_ok_def channel_new_def split: if_splits)
  qed (auto simp: p(2))
  from channel_ops_keep(1) [OF keeps_typed [OF k3] 3] show ?thesis by (blast intro: keeps_trans k1(1) k2 k3)
qed

lemma http_server_new_keeps:
  assumes t: "net_typed w" and l: "loops w l \<noteq> None" and run: "http_server_new P l port cb n w = Inr (hs, w')"
  shows "keeps w w'"
proof -
  from run obtain w1 acc o' sv w2 s where 1: "new_object P sizeof_http_server w = Inr (hs, w1)"
    and 2: "tcp_server_init P l acc (Some Http_onConnectionCompleted) (Some Http_onMessage) (Some Http_onWriteCompleted)
               (Some Http_onConnectionClosed) n (w1\<lparr>os := o'\<rparr>) = Inr (sv, w2)"
    and s: "servers w2 sv = Some s"
    and w': "w' = set_server sv (s\<lparr>sv_data := Some hs\<rparr>) (w2\<lparr>hservers := (hservers w2)(hs \<mapsto> \<lparr>tcpServer = sv, has_requestCallback = cb\<rparr>)\<rparr>)"
    by (auto simp: http_server_new_def get_Inr Let_def)
  from new_object_keeps [OF 1] obtain o1 where w1: "hs = brk w" "w1 = w\<lparr>brk := brk w + 1, os := o1\<rparr>" by blast
  have k1: "keeps w (w1\<lparr>os := o'\<rparr>)" using t by (rule keeps_fields) (simp_all add: w1)
  have "loops (w1\<lparr>os := o'\<rparr>) l \<noteq> None" using l w1 by simp
  from server_init_keeps [OF keeps_typed [OF k1] this 2] have k2: "keeps (w1\<lparr>os := o'\<rparr>) w2" by simp
  let ?v = "w2\<lparr>hservers := (hservers w2)(hs \<mapsto> \<lparr>tcpServer = sv, has_requestCallback = cb\<rparr>)\<rparr>"
  have "hs < brk w2" using k2 w1 by (simp add: keeps_def grows_def)
  then have k3: "keeps w2 ?v"
    by (intro keepsI [OF keeps_typed [OF k2]]) (use s in \<open>auto simp: grows_def same_kind_def split: if_splits\<close>)
  have "server_ok w2 s" using typedD(3) [OF keeps_typed [OF k2] s] by simp
  then have "server_ok ?v (s\<lparr>sv_data := Some hs\<rparr>)" by (simp add: server_ok_def pool_ok_def)
  from keeps_set_server [OF keeps_typed [OF k3] _ this] s have "keeps ?v w'" by (simp add: w')
  with k1 k2 k3 show ?thesis by (blast intro: keeps_trans)
qed

section \<open>HTTP callbacks\<close>

lemma safe_new_request: "safe snd w (new_request P w)"
  unfolding new_request_def by (rule safe_pure) (auto simp: Let_def split: prod.split intro!: safe_Inr keeps_os)

lemma safe_new_response: "safe snd w (new_response P w)"
  unfolding new_response_def by (rule safe_pure) (auto simp: Let_def split: prod.split intro!: safe_Inr keeps_os)

lemma safe_put_request: "safe (\<lambda>w. w) w (put_request a r w)"
  by (rule safeI) (auto simp: put_request_def get_Inr intro!: keeps_conn(1))

text \<open>A request callback that keeps the memory.\<close>

definition typed_request :: "('d, 'o) request_callback \<Rightarrow> bool" where
  "typed_request onReq \<longleftrightarrow> (\<forall>r resp w. safe snd w (onReq r resp w))"

lemma keeps_fields_of: "net_typed w \<Longrightarrow> keeps w (w\<lparr>stray := n\<rparr>)"
  by (rule keeps_fields) simp_all

lemma safe_path_is: "safe snd w (path_is P path lit w)"
  by (rule safeI) (auto simp: path_is_def split: sum.splits intro!: keeps_refl keeps_fields_of)

lemma typed_onRequest: "typed_request (onRequest P)"
proof -
  have "safe snd w (request_path P u w)" for w u
    unfolding request_path_def Let_def by (intro safe_pure safe_Inr) (simp add: keeps_os)
  then have path: "safe snd w (case url r of None \<Rightarrow> Inl NullDeref | Some u \<Rightarrow> request_path P u w)" for w r
    by (cases "url r") simp_all
  show ?thesis
    unfolding typed_request_def onRequest_def onRequest_for_def
    by (intro allI safe_bind [OF path]) (auto intro!: safe_bind [OF safe_path_is] safe_Inr keeps_refl)
qed

lemma safe_finish:
  "safe (\<lambda>w. w) w (c_bind m (\<lambda>close. c_bind (if close \<noteq> (0 :: int) then tcp_connection_shutdown P a w else Inr w) (\<lambda>w. put_request a r w)))"
  by (rule safe_pure, rule safe_bind [where mem' = "\<lambda>w. w"]) (auto intro!: safe_shutdown safe_put_request safe_Inr keeps_refl)

lemma safe_respond:
  assumes r: "typed_request onReq"
  shows "safe (\<lambda>w. w) w (respond P self onReq a sv r w)"
  unfolding respond_def
proof (rule safe_bind [OF safe_new_response], clarsimp, rule safe_pure, rule safe_bind [where mem' = snd], goal_cases)
  case (1 resp w hs)
  show ?case using r by (auto simp: typed_request_def intro!: safe_Inr keeps_refl)
next
  case (2 resp w hs rw)
  obtain resp' w1 where rw: "rw = (resp', w1)" by fastforce
  obtain b w2 where b: "new_buffer P w1 = (b, w2)" by fastforce
  then have k: "net_typed w1 \<Longrightarrow> keeps w1 w2" using new_buffer_keeps by (blast intro: keeps_os)
  show ?case
    unfolding rw prod.case snd_conv b Let_def
  proof (rule safe_step [OF k], assumption, cases b)
    case (Some b')
    show "safe (\<lambda>w. w) w2 (case b of None \<Rightarrow> Inl NullDeref | Some b \<Rightarrow>
         c_bind (http_response_encode_buffer (pl_realloc P) resp' b) (\<lambda>b.
         c_bind (tcp_connection_send_buffer P self a b w2) (\<lambda>(_, b, w).
         c_bind (http_request_close_connection (pl_diff P) r) (\<lambda>close.
         c_bind (if close \<noteq> 0 then tcp_connection_shutdown P a w else Inr w) (\<lambda>w.
         put_request a (http_request_reset r) w)))))"
      unfolding Some option.case
    proof (rule safe_pure, rule safe_bind [OF safe_send_buffer], clarify)
      fix n b w
      show "safe (\<lambda>w. w) ((snd \<circ> snd) (n, b, w)) (c_bind (http_request_close_connection (pl_diff P) r) (\<lambda>close.
         c_bind (if close \<noteq> 0 then tcp_connection_shutdown P a w else Inr w) (\<lambda>w. put_request a (http_request_reset r) w)))"
        unfolding comp_apply snd_conv by (rule safe_finish)
    qed
  qed simp
qed

lemma typed_http_callbacks:
  assumes r: "typed_request onReq"
  shows "typed_run (http_callbacks P self onReq)"
proof -
  have completed: "safe (\<lambda>w. w) w (http_onConnectionCompleted P a w)" for a w
    unfolding http_onConnectionCompleted_def
    by (rule safe_bind [OF safe_new_request]) (auto simp: get_Inr intro!: safe_pure safe_Inr keeps_conn(1))
  have closed: "safe (\<lambda>w. w) w (http_onConnectionClosed a w)" for a w
    unfolding http_onConnectionClosed_def
    by (rule safe_pure) (auto simp: get_Inr split: slot.split intro!: safe_pure safe_Inr keeps_conn(1) keeps_refl)
  have message: "safe (\<lambda>w. w) w (http_onMessage P self onReq a w)" for a w
    unfolding http_onMessage_def
  proof (intro safe_pure, goal_cases)
    case (1 tc rq)
    then have c: "conns w a = Some tc" by (simp add: get_Inr)
    show ?case
    proof (cases "input_buffer tc")
      case (Some b)
      show ?thesis
        unfolding Some option.case
      proof (cases "parse_http_request (block_junk P) (b, rq, 0)")
        case p: (Some res)
        have "safe (\<lambda>w. w) w (c_bind (if ok = (0 :: int) then
                        c_bind (tcp_connection_send_data P self a error_response 0 8 (set_conn a (tc\<lparr>input_buffer := Some b', tc_request := At rq'\<rparr>) (w\<lparr>stray := stray w + n\<rparr>))) (\<lambda>(_, w).
                        tcp_connection_shutdown P a w)
                      else Inr (set_conn a (tc\<lparr>input_buffer := Some b', tc_request := At rq'\<rparr>) (w\<lparr>stray := stray w + n\<rparr>))) (\<lambda>w.
              if http_request_current_state rq' = REQUEST_DONE then respond P self onReq a (tc_data tc) rq' w
              else Inr w))" for ok b' rq' n
        proof (rule safe_step [where v = "set_conn a (tc\<lparr>input_buffer := Some b', tc_request := At rq'\<rparr>) (w\<lparr>stray := stray w + n\<rparr>)"])
          show "safe (\<lambda>w. w) v (c_bind (if ok = (0 :: int) then c_bind (tcp_connection_send_data P self a error_response 0 8 v) (\<lambda>(_, w). tcp_connection_shutdown P a w)
                      else Inr v) (\<lambda>w. if http_request_current_state rq' = REQUEST_DONE then respond P self onReq a (tc_data tc) rq' w else Inr w))" for v
            by (rule safe_bind [where mem' = "\<lambda>w. w"]) (auto intro!: safe_bind [OF safe_send_data] safe_shutdown safe_respond [OF r] safe_Inr keeps_refl)
        qed (auto intro!: keeps_conn(3) [OF _ c])
        then show "safe (\<lambda>w. w) w (case parse_http_request (block_junk P) (b, rq, 0) of None \<Rightarrow> Inl NoReturn
          | Some res \<Rightarrow>
              c_bind res (\<lambda>(ok, b, rq, n).
              let w = set_conn a (tc\<lparr>input_buffer := Some b, tc_request := At rq\<rparr>) (w\<lparr>stray := stray w + n\<rparr>) in
              c_bind (if ok = 0 then
                        c_bind (tcp_connection_send_data P self a error_response 0 8 w) (\<lambda>(_, w).
                        tcp_connection_shutdown P a w)
                      else Inr w) (\<lambda>w.
              if http_request_current_state rq = REQUEST_DONE then respond P self onReq a (tc_data tc) rq w
              else Inr w)))"
          unfolding p option.case Let_def by (intro safe_pure) auto
      qed simp
    qed simp
  qed
  show ?thesis
    unfolding typed_run_def
  proof (intro allI)
    fix f a w
    show "safe (\<lambda>w. w) w (http_callbacks P self onReq f a w)"
      by (cases f) (auto simp: http_callbacks_def http_onWriteCompleted_def intro!: completed closed message safe_Inr keeps_refl)
  qed
qed

section \<open>Steps of the program\<close>

text \<open>The call of a channel's callback with the channel's data, which the callback casts.\<close>

definition cast_ok :: "('d, 'o) net \<Rightarrow> callback \<Rightarrow> chan_data \<Rightarrow> bool" where
  "cast_ok w f d =
     (case (f, d) of
        (HandleWakeup, LoopPtr l) \<Rightarrow> loops w l \<noteq> None
      | (HandleConnectionEstablished, ServerPtr sv) \<Rightarrow> servers w sv \<noteq> None
      | (HandleRead, ConnPtr a) \<Rightarrow> conns w a \<noteq> None
      | (HandleWrite, ConnPtr a) \<Rightarrow> conns w a \<noteq> None
      | _ \<Rightarrow> False)"

definition run_callback :: "('d, 'o) plat \<Rightarrow> nat \<Rightarrow> ('d, 'o) request_callback \<Rightarrow> callback \<Rightarrow> chan_data \<Rightarrow> ('d, 'o) net \<Rightarrow> ('d, 'o) net c_res" where
  "run_callback P self onReq f d w =
     (case (f, d) of
        (HandleWakeup, LoopPtr l) \<Rightarrow> c_bind (get_loop w l) (\<lambda>el. c_bind (handleWakeup el) (\<lambda>el. Inr (set_loop l el w)))
      | (HandleConnectionEstablished, ServerPtr sv) \<Rightarrow>
          c_bind (handle_connection_established P self (http_callbacks P self onReq) sv w) (\<lambda>(_, w). Inr w)
      | (HandleRead, ConnPtr a) \<Rightarrow> handle_read P self (http_callbacks P self onReq) a w
      | (HandleWrite, ConnPtr a) \<Rightarrow> handle_write P self (http_callbacks P self onReq) a w
      | _ \<Rightarrow> Inl BadCast)"

text \<open>The start of a main program: its loop, at a fresh address.\<close>

definition start_main_loop :: "('d, 'o) plat \<Rightarrow> nat \<Rightarrow> ('d, 'o) net \<Rightarrow> (nat \<times> ('d, 'o) net) c_res" where
  "start_main_loop P self w =
     (let l = brk w; p = brk w + 1; (pair, o') = sys_socketpair (pl_sys P) (os w); w = w\<lparr>brk := brk w + 2, os := o'\<rparr> in
      c_bind (event_loop_init (pl_alloc P) (pl_dispatcher P) (pl_init P) self pair l p (chans w)) (\<lambda>(ch, el).
      Inr (l, set_loop l el (w\<lparr>chans := ch\<rparr>))))"

text \<open>
  The steps: of a main program, of the dispatcher that found a descriptor of a loop ready, and of a loop that applies what is queued.
\<close>

inductive net_step :: "('d, 'o) plat \<Rightarrow> ('d, 'o) request_callback \<Rightarrow> ('d, 'o) net \<Rightarrow> ('d, 'o) net \<Rightarrow> bool" for P onReq where
  new_loop: "start_main_loop P self w = Inr (l, w') \<Longrightarrow> net_step P onReq w w'"
| new_server: "loops w l \<noteq> None \<Longrightarrow> http_server_new P l port True n w = Inr (hs, w') \<Longrightarrow> net_step P onReq w w'"
| start_server: "http_server_start P self hs w = Inr w' \<Longrightarrow> net_step P onReq w w'"
| activate: "loops w l \<noteq> None \<Longrightarrow>
    channel_event_activate (\<lambda>w. the (loops w l)) chans (run_callback P self onReq) fd rev_events w = Inr (r, w') \<Longrightarrow> net_step P onReq w w'"
| handle_pending: "loops w l = Some el \<Longrightarrow>
    event_loop_handle_pending_channel (pl_alloc P) (pl_dispatcher P) (chans w) el = Inr (r, el') \<Longrightarrow> net_step P onReq w (set_loop l el' w)"

definition empty_net :: "'o \<Rightarrow> ('d, 'o) net" where
  "empty_net o0 = \<lparr>loops = (\<lambda>l. None), chans = (\<lambda>p. None), conns = (\<lambda>a. None), servers = (\<lambda>a. None), hservers = (\<lambda>a. None),
     brk = 0, tids = 1, stray = 0, os = o0\<rparr>"

inductive net_reach :: "('d, 'o) plat \<Rightarrow> ('d, 'o) request_callback \<Rightarrow> ('d, 'o) net \<Rightarrow> bool" for P onReq where
  start: "net_reach P onReq (empty_net o0)"
| step: "net_reach P onReq w \<Longrightarrow> net_step P onReq w w' \<Longrightarrow> net_reach P onReq w'"

lemma safe_run_callback:
  assumes r: "typed_request onReq"
  shows "safe (\<lambda>w. w) w (run_callback P self onReq f d w)"
proof -
  note t = typed_http_callbacks [OF r]
  have "safe (\<lambda>w. w) w (c_bind (get_loop w l) (\<lambda>el. c_bind (handleWakeup el) (\<lambda>el. Inr (set_loop l el w))))" for l
    by (auto simp: get_Inr intro!: safe_pure safe_Inr keeps_set_loop)
  moreover have "safe (\<lambda>w. w) w (c_bind (handle_connection_established P self (http_callbacks P self onReq) sv w) (\<lambda>(_, w). Inr w))" for sv
    by (rule safe_bind [OF safe_established [OF t]]) (auto intro!: safe_Inr keeps_refl)
  ultimately show ?thesis
    using safe_handle_read [OF t] safe_handle_write [OF t] by (cases f; cases d) (auto simp: run_callback_def)
qed

lemma safe_activate:
  assumes r: "typed_request onReq"
  shows "safe snd w (channel_event_activate get chans (run_callback P self onReq) fd rev_events w)"
  unfolding channel_event_activate_def
proof (rule safe_if, simp add: safe_Inr keeps_refl, rule safe_if, simp add: safe_Inr keeps_refl, rule safe_pure, rule safe_pure, rule safe_if, simp, goal_cases)
  case (1 p c)
  show ?case
  proof (rule safe_bind [where mem' = "\<lambda>w. w"], goal_cases)
    case 1
    show ?case by (auto split: option.split intro!: safe_Inr keeps_refl safe_run_callback [OF r])
  next
    case (2 v)
    show ?case
      by (rule safe_bind [where mem' = "\<lambda>w. w"])
        (auto split: option.split intro!: safe_pure safe_Inr keeps_refl safe_run_callback [OF r])
  qed
qed

lemma net_step_keeps:
  assumes "net_step P onReq w w'" and r: "typed_request onReq" and t: "net_typed w"
  shows "keeps w w'"
  using assms(1)
proof cases
  case (new_loop self l)
  obtain pair o' where sp: "sys_socketpair (pl_sys P) (os w) = (pair, o')" by fastforce
  with new_loop obtain ch el where i: "event_loop_init_with_name (pl_alloc P) (pl_dispatcher P) (pl_init P) self pair (brk w) (brk w + 1) (chans w) None = Inr (ch, el)"
    and w': "w' = set_loop (brk w) el (w\<lparr>brk := brk w + 2, os := o', chans := ch\<rparr>)"
    by (auto simp: start_main_loop_def event_loop_init_def Let_def)
  from keeps_new_loop [where o' = o' and fd = "snd pair" and el = el, OF _ t] do_init_chans [OF i] w' show ?thesis by simp
next
  case (new_server l port n hs)
  with http_server_new_keeps [OF t] show ?thesis by blast
next
  case (start_server self hs)
  then show ?thesis using server_start_keeps [OF t] by (auto simp: http_server_start_def)
next
  case (activate l self fd ev x)
  from safeD [OF safe_activate [OF r] t activate(2)] show ?thesis by simp
next
  case (handle_pending l el x el')
  with keeps_set_loop [OF t] show ?thesis by auto
qed

lemma net_reach_typed: "net_reach P onReq w \<Longrightarrow> typed_request onReq \<Longrightarrow> net_typed w"
proof (induction rule: net_reach.induct)
  case (start o0)
  show ?case by (simp add: net_typed_def empty_net_def)
next
  case (step w w')
  with net_step_keeps show ?case by (blast dest: keeps_typed)
qed

lemma typed_casts: "net_typed w \<Longrightarrow> chans w p = Some ch \<Longrightarrow> eventReadCallback ch = Some f \<or> eventWriteCallback ch = Some f \<Longrightarrow> cast_ok w f (cdata ch)"
  using typedD(1) [of w p ch] by (cases "cdata ch") (auto simp: chan_ok_def cast_ok_def)

section \<open>Properties\<close>

text \<open>
  C6. The untyped pointers of the framework are used at the right type: in every memory the demo server can reach, whatever the system calls answer, the
  data of each channel points to an existing object of the kind the channel's callbacks cast it to; the channel of every connection belongs to that
  connection and its loop and server exist; and so do the loops of every pool and the server objects behind.
\<close>

theorem pointers_well_typed:
  assumes "net_reach P (onRequest P) w"
  shows "(\<forall>p ch f. chans w p = Some ch \<longrightarrow> eventReadCallback ch = Some f \<or> eventWriteCallback ch = Some f \<longrightarrow> cast_ok w f (cdata ch)) \<and>
    (\<forall>a tc. conns w a = Some tc \<longrightarrow> conn_ok w a tc) \<and> (\<forall>sv s. servers w sv = Some s \<longrightarrow> server_ok w s) \<and>
    (\<forall>hs h. hservers w hs = Some h \<longrightarrow> servers w (tcpServer h) \<noteq> None)"
proof -
  have t: "net_typed w" using assms typed_onRequest by (rule net_reach_typed)
  then show ?thesis using typed_casts [OF t] typedD(2-4) [OF t] by blast
qed

end
