(* ===== verification/Demo_Server.thy ===== *)
theory Demo_Server
  imports Net_Typing
begin

text \<open>
  The main program of \<^verbatim>\<open>src/http_server01.c\<close>: the main loop, the server with two threads and its start.  What the loops do then is the subject
  of the other theories; here is the state they start from.
\<close>

section \<open>The code\<close>

definition server01_setup :: "('d, 'o) plat \<Rightarrow> nat \<Rightarrow> ('d, 'o) net \<Rightarrow> (nat \<times> nat \<times> ('d, 'o) net) c_res" where
  "server01_setup P self w =
     c_bind (start_main_loop P self w) (\<lambda>(l, w).
     c_bind (http_server_new P l SERV_PORT True 2 w) (\<lambda>(hs, w).
     c_bind (http_server_start P self hs w) (\<lambda>w. Inr (l, hs, w))))"

section \<open>The parts of the start\<close>

lemma start_main_loop_ok:
  assumes P: "poll_plat P"
  shows "\<exists>el fd o'. start_main_loop P self w = Inr (brk w, set_loop (brk w) el (w\<lparr>brk := brk w + 2, os := o',
       chans := (chans w)(brk w + 1 \<mapsto> channel_new fd EVENT_READ (Some HandleWakeup) None (LoopPtr (brk w)))\<rparr>)) \<and>
     poll_ready (pl_alloc P) ((chans w)(brk w + 1 \<mapsto> channel_new fd EVENT_READ (Some HandleWakeup) None (LoopPtr (brk w)))) self el \<and>
     loop_reg poll_reg el = ([fd \<mapsto> (brk w + 1)], [fd \<mapsto> (True, False)]) \<and> fd = snd (fst (sys_socketpair (pl_sys P) (os w)))"
proof -
  obtain pair o' where o: "sys_socketpair (pl_sys P) (os w) = (pair, o')" by fastforce
  have pr: "0 \<le> snd pair" "snd pair < 2 ^ 27" using poll_platD(5,6) [OF P, of "os w"] o by simp_all
  obtain d where d: "pl_init P = Inr d" "poll_inv d" "poll_reg d = (\<lambda>fd. None)" using poll_platD(7) [OF P] by (elim exE conjE)
  note D = poll_platD(4) [OF P] and al = poll_platD(3) [OF P]
  have room: "poll_room {} (snd pair)" by (simp add: poll_room_def INIT_POLL_SIZE_def)
  let ?ch = "(chans w)(brk w + 1 \<mapsto> channel_new (snd pair) EVENT_READ (Some HandleWakeup) None (LoopPtr (brk w)))"
  obtain el where el: "event_loop_init_with_name (pl_alloc P) poll_dispatcher (Inr d) self pair (brk w) (brk w + 1) (chans w) None = Inr (?ch, el)"
    "loop_inv poll_inv poll_reg ?ch el" "pending_inv el []" "idle el" "loop_reg poll_reg el = ([snd pair \<mapsto> (brk w + 1)], [snd pair \<mapsto> (True, False)])"
    using poll.init_registers [OF al d(2,3) room pr] by blast
  have "poll_ready (pl_alloc P) ?ch self el" using el(2-4) init_owner [OF el(1)] al by (simp add: poll_ready_def)
  then show ?thesis
    using o d(1) D el(1,5) by (intro exI [of _ el] exI [of _ "snd pair"] exI [of _ o']) (simp add: start_main_loop_def event_loop_init_def Let_def)
qed

lemma pool_start_ok:
  assumes P: "poll_plat P" and tp: "started tp = 0" "thread_number tp = int n" "position tp = 0" and n: "0 < n" "n < 10 ^ 8"
    and main: "loops w (mainLoop tp) = Some el" "owner_thread_id el = self"
  shows "\<exists>tp' w' ls. thread_pool_start P self tp w = Inr (tp', w') \<and> pool_of 0 ls tp' \<and> length ls = n \<and> distinct ls \<and> mainLoop tp' = mainLoop tp \<and>
    (\<forall>i < n. fresh_loop P (tids w + i) (ls ! i) w') \<and> older_same w w' \<and> (\<forall>i < n. brk w \<le> ls ! i)"
proof -
  let ?ls = "map (\<lambda>i. brk w + 2 * i) [0..<n]"
  obtain o1 where o1: "must_malloc (pl_sys P) (n * sizeof_event_loop_thread) (os w) = Inr o1" using poll_platD(1) [OF P] ..
  obtain ts w' where ts: "c_for (start_one P) n ([], w\<lparr>os := o1\<rparr>) = Inr (ts, w')" "map elt_eventLoop ts = map Some ?ls"
    "\<forall>i < n. fresh_loop P (tids w + i) (brk w + 2 * i) w'" "older_same (w\<lparr>os := o1\<rparr>) w'"
    using start_all_ok [OF P n(2), of "w\<lparr>os := o1\<rparr>"] by auto
  let ?tp = "tp\<lparr>started := 1, eventLoopThreads := ts\<rparr>"
  have run: "thread_pool_start P self tp w = Inr (?tp, w')"
    using tp n(1) main o1 ts(1) by (simp add: thread_pool_start_def assertInSameThread_def isInSameThread_def del: c_bind_eq_Inr_iff)
  have "older_same w w'" using ts(4) by (simp add: older_same_def)
  moreover have "pool_of 0 ?ls ?tp" using tp ts(2) by (simp add: pool_of_def)
  moreover have "\<forall>i < n. fresh_loop P (tids w + i) (?ls ! i) w'" "\<forall>i < n. brk w \<le> ?ls ! i" using ts(3) by simp_all
  moreover have "length ?ls = n" "distinct ?ls" by (auto simp: distinct_map inj_on_def)
  ultimately show ?thesis using run by (intro exI [of _ ?tp] exI [of _ w'] exI [of _ ?ls]) simp
qed

text \<open>The listening socket can be had, at the descriptor \<open>lfd\<close>, which is not the one a loop is woken up by.\<close>

definition can_listen :: "'o sys \<Rightarrow> int \<Rightarrow> bool" where
  "can_listen S lfd \<longleftrightarrow> (\<forall>w. fst (sys_socket S w) = lfd) \<and> (\<forall>fd sa w. 0 \<le> fst (sys_bind S fd sa w)) \<and> (\<forall>fd n w. 0 \<le> fst (sys_listen S fd n w)) \<and>
     0 \<le> lfd \<and> lfd < 2 ^ 27 \<and> (\<forall>w. snd (fst (sys_socketpair S w)) \<noteq> lfd)"

lemma bind_and_listen_ok: "can_listen S lfd \<Longrightarrow> \<exists>o'. bind_and_listen S fd port w = Inr o'"
proof -
  assume "can_listen S lfd"
  then have b: "0 \<le> fst (sys_bind S fd sa w)" and l: "0 \<le> fst (sys_listen S fd n w)" for sa n w by (simp_all add: can_listen_def)
  obtain r1 w1 where 1: "sys_bind S fd (server_address port) (sys_reuseaddr S fd w) = (r1, w1)" by fastforce
  obtain r2 w2 where 2: "sys_listen S fd LISTENQ w1 = (r2, w2)" by fastforce
  from b [of "server_address port" "sys_reuseaddr S fd w"] l [of LISTENQ w1] 1 2 show ?thesis by (simp add: bind_and_listen_def)
qed

lemma acceptor_ok:
  assumes P: "poll_plat P" and S: "can_listen (pl_sys P) lfd"
  shows "\<exists>o'. acceptor_init (pl_sys P) port w = Inr (\<lparr>listen_port = port, listen_fd = lfd\<rparr>, o')"
proof -
  obtain o1 where o1: "must_malloc (pl_sys P) sizeof_acceptor w = Inr o1" using poll_platD(1) [OF P] ..
  obtain fd o2 where o2: "sys_socket (pl_sys P) o1 = (fd, o2)" by fastforce
  have fd: "fd = lfd" using S o2 by (metis can_listen_def fst_conv)
  obtain o3 where "bind_and_listen (pl_sys P) lfd port (make_nonblocking (pl_sys P) lfd o2) = Inr o3" using bind_and_listen_ok [OF S] ..
  with o1 o2 fd show ?thesis by (intro exI [of _ o3]) (simp add: acceptor_init_def)
qed

lemma http_server_new_ok:
  assumes P: "poll_plat P" and S: "can_listen (pl_sys P) lfd"
  shows "\<exists>w' s. http_server_new P l port cb n w = Inr (brk w, w') \<and> hservers w' = (hservers w)(brk w \<mapsto> \<lparr>tcpServer = brk w + 1, has_requestCallback = cb\<rparr>) \<and>
    servers w' = (servers w)(brk w + 1 \<mapsto> s) \<and> http_handlers s \<and> sv_data s = Some (brk w) \<and> sv_eventLoop s = l \<and>
    sv_acceptor s = \<lparr>listen_port = SERV_PORT, listen_fd = lfd\<rparr> \<and>
    threadPool s = \<lparr>mainLoop = l, started = 0, thread_number = n, eventLoopThreads = [], position = 0\<rparr> \<and>
    brk w' = brk w + 2 \<and> loops w' = loops w \<and> chans w' = chans w \<and> tids w' = tids w"
proof -
  obtain o1 where o1: "must_malloc (pl_sys P) sizeof_http_server (os w) = Inr o1" using poll_platD(1) [OF P] ..
  obtain o2 where o2: "acceptor_init (pl_sys P) SERV_PORT o1 = Inr (\<lparr>listen_port = SERV_PORT, listen_fd = lfd\<rparr>, o2)" using acceptor_ok [OF P S] ..
  obtain o3 where o3: "must_malloc (pl_sys P) sizeof_TCPserver o2 = Inr o3" using poll_platD(1) [OF P] ..
  obtain o4 where o4: "must_malloc (pl_sys P) sizeof_thread_pool o3 = Inr o4" using poll_platD(1) [OF P] ..
  show ?thesis
    using o1 o2 o3 o4
    by (simp add: http_server_new_def new_object_def tcp_server_init_def thread_pool_new_def http_handlers_def set_server_def get_server_def Let_def
        del: c_bind_eq_Inr_iff) (intro exI conjI, rule refl, simp_all)
qed

lemma server_start_state:
  assumes P: "poll_plat P" and S: "can_listen (pl_sys P) lfd"
  shows "\<exists>l hs w' sv s el p ls wfd q. server01_setup P self w = Inr (l, hs, w') \<and>
    hservers w' hs = Some \<lparr>tcpServer = sv, has_requestCallback = True\<rparr> \<and> servers w' sv = Some s \<and> http_handlers s \<and> sv_data s = Some hs \<and>
    sv_acceptor s = \<lparr>listen_port = SERV_PORT, listen_fd = lfd\<rparr> \<and>
    loops w' l = Some el \<and> poll_ready (pl_alloc P) (chans w') self el \<and>
    loop_reg poll_reg el = ([wfd \<mapsto> q, lfd \<mapsto> p], [wfd \<mapsto> (True, False), lfd \<mapsto> (True, False)]) \<and>
    chans w' p = Some (channel_new lfd EVENT_READ (Some HandleConnectionEstablished) None (ServerPtr sv)) \<and>
    mainLoop (threadPool s) = l \<and> pool_of 0 ls (threadPool s) \<and> length ls = 2 \<and> (\<forall>i < 2. fresh_loop P (tids w + i) (ls ! i) w') \<and>
    l < brk w' \<and> p < brk w' \<and> q < brk w'"
proof -
  let ?l = "brk w" and ?hs = "brk w + 2" and ?sv = "brk w + 3"
  obtain el0 fd o1 where 1: "start_main_loop P self w = Inr (?l, set_loop ?l el0 (w\<lparr>brk := brk w + 2, os := o1,
       chans := (chans w)(brk w + 1 \<mapsto> channel_new fd EVENT_READ (Some HandleWakeup) None (LoopPtr ?l))\<rparr>))"
    "poll_ready (pl_alloc P) ((chans w)(brk w + 1 \<mapsto> channel_new fd EVENT_READ (Some HandleWakeup) None (LoopPtr ?l))) self el0"
    "loop_reg poll_reg el0 = ([fd \<mapsto> (brk w + 1)], [fd \<mapsto> (True, False)])" "fd = snd (fst (sys_socketpair (pl_sys P) (os w)))"
    using start_main_loop_ok [OF P] by blast
  define w1 where "w1 = set_loop ?l el0 (w\<lparr>brk := brk w + 2, os := o1,
       chans := (chans w)(brk w + 1 \<mapsto> channel_new fd EVENT_READ (Some HandleWakeup) None (LoopPtr ?l))\<rparr>)"
  have w1: "brk w1 = brk w + 2" "loops w1 ?l = Some el0" "tids w1 = tids w"
    "chans w1 = (chans w)(brk w + 1 \<mapsto> channel_new fd EVENT_READ (Some HandleWakeup) None (LoopPtr ?l))" by (simp_all add: w1_def)
  have e: "brk w1 + 1 = brk w + 3" "brk w1 + 2 = brk w + 4" using w1(1) by simp_all
  obtain w2 s0 where 2: "http_server_new P ?l SERV_PORT True 2 w1 = Inr (?hs, w2)"
    "hservers w2 = (hservers w1)(?hs \<mapsto> \<lparr>tcpServer = ?sv, has_requestCallback = True\<rparr>)" "servers w2 = (servers w1)(?sv \<mapsto> s0)" "http_handlers s0" "sv_data s0 = Some ?hs"
    "sv_eventLoop s0 = ?l" "sv_acceptor s0 = \<lparr>listen_port = SERV_PORT, listen_fd = lfd\<rparr>"
    "threadPool s0 = \<lparr>mainLoop = ?l, started = 0, thread_number = 2, eventLoopThreads = [], position = 0\<rparr>"
    "brk w2 = brk w + 4" "loops w2 = loops w1" "chans w2 = chans w1" "tids w2 = tids w"
    using http_server_new_ok [OF P S, where l = ?l and port = SERV_PORT and cb = True and n = 2 and w = w1, unfolded e w1(3)] w1(1) by (elim exE conjE) metis
  have own: "owner_thread_id el0 = self" using 1(2) by (simp add: poll_ready_def)
  obtain tp w3 ls where 3: "thread_pool_start P self (threadPool s0) w2 = Inr (tp, w3)" "pool_of 0 ls tp" "length ls = 2" "mainLoop tp = ?l"
    "\<forall>i < 2. fresh_loop P (tids w + i) (ls ! i) w3" "older_same w2 w3" "\<forall>i < 2. brk w2 \<le> ls ! i"
    using pool_start_ok [OF P, of "threadPool s0" 2 w2 el0 self] 2 w1(2) own by auto
  have old: "loops w3 ?l = Some el0" "chans w3 (brk w + 1) = chans w1 (brk w + 1)" "servers w3 = servers w2" "hservers w3 = hservers w2" "brk w2 \<le> brk w3"
    using 3(6) 2(9-11) w1(2) by (simp_all add: older_same_def)
  let ?w3 = "set_server ?sv (s0\<lparr>threadPool := tp\<rparr>) w3"
  obtain o4 where 4: "new_object P sizeof_channel ?w3 = Inr (brk ?w3, ?w3\<lparr>brk := brk ?w3 + 1, os := o4\<rparr>)"
    using poll_platD(1) [OF P, of sizeof_channel "os ?w3"] by (auto simp: new_object_def)
  let ?p = "brk ?w3" and ?c = "channel_new lfd EVENT_READ (Some HandleConnectionEstablished) None (ServerPtr ?sv)"
  let ?w4 = "?w3\<lparr>brk := brk ?w3 + 1, os := o4, chans := (chans ?w3)(?p \<mapsto> ?c)\<rparr>"
  have p: "?p \<noteq> brk w + 1" using old(5) 2(9) by simp
  have rdy: "poll_ready (pl_alloc P) (chans ?w4) self el0"
    by (rule poll_ready_chans [OF 1(2)]) (use old(2) w1(4) p 1(3) in \<open>auto split: if_splits\<close>)
  have lfd: "0 \<le> lfd" "lfd < 2 ^ 27" "fd \<noteq> lfd" using S 1(4) by (simp_all add: can_listen_def)
  let ?r = "([fd \<mapsto> (brk w + 1), lfd \<mapsto> ?p], [fd \<mapsto> (True, False), lfd \<mapsto> (True, False)])"
  have step: "reg_step poll_room (chans ?w4) (1, Some ?p) (loop_reg poll_reg el0) = Some ?r"
    using lfd by (simp add: 1(3) reg_step_def load_def channel_new_def interest_def EVENT_READ_def EVENT_WRITE_def poll_room_def INIT_POLL_SIZE_def)
  from rdy have rd: "loop_inv poll_inv poll_reg (chans ?w4) el0" "pending_inv el0 []" "idle el0" by (simp_all add: poll_ready_def)
  obtain el where el: "event_loop_do_channel_event (pl_alloc P) poll_dispatcher (chans ?w4) self (pl_sent P) el0 lfd (Some ?p) 1 = Inr (0, el)"
    "loop_inv poll_inv poll_reg (chans ?w4) el" "pending_inv el []" "idle el" "owner_thread_id el = self" "loop_reg poll_reg el = ?r"
    using own_op [OF poll_platD(3) [OF P] rd own step] by blast
  let ?w5 = "set_loop ?l el ?w4"
  have "add_channel P self ?l lfd ?p ?w4 = Inr ?w5"
    using old(1) el(1) poll_platD(4) [OF P] by (simp add: add_channel_def event_loop_add_channel_event_def)
  then have start: "tcp_server_start P self ?sv w2 = Inr ?w5"
    using 2(3,6,7) 3(1) 4 by (simp add: tcp_server_start_def Let_def del: c_bind_eq_Inr_iff)
  have "http_server_start P self ?hs w2 = Inr ?w5" using 2(2) start by (simp add: http_server_start_def)
  then have run: "server01_setup P self w = Inr (?l, ?hs, ?w5)" using 1(1) 2(1) by (simp add: server01_setup_def w1_def)
  have ready: "poll_ready (pl_alloc P) (chans ?w5) self el" using el poll_platD(3) [OF P] by (simp add: poll_ready_def)
  have thr: "\<forall>i < 2. fresh_loop P (tids w + i) (ls ! i) ?w5"
  proof (intro allI impI)
    fix i :: nat
    assume i: "i < 2"
    then have "?l < ls ! i" using 3(7) 2(9) by fastforce
    then show "fresh_loop P (tids w + i) (ls ! i) ?w5" by (intro fresh_loop_frame [OF 3(5) [rule_format, OF i]]) simp_all
  qed
  have c: "chans ?w5 ?p = Some ?c" by simp
  have reg: "loop_reg poll_reg el = ?r" by (rule el(6))
  have lp: "loops ?w5 ?l = Some el" by simp
  have sv: "servers ?w5 ?sv = Some (s0\<lparr>threadPool := tp\<rparr>)" by simp
  have hs: "hservers ?w5 ?hs = Some \<lparr>tcpServer = ?sv, has_requestCallback = True\<rparr>" using 2(2) old(4) by simp
  have bounds: "?l < brk ?w5" "?p < brk ?w5" "brk w + 1 < brk ?w5" using 2(9) old(5) by simp_all
  let ?s = "s0\<lparr>threadPool := tp\<rparr>"
  have srv: "http_handlers ?s" "sv_data ?s = Some ?hs" "sv_acceptor ?s = \<lparr>listen_port = SERV_PORT, listen_fd = lfd\<rparr>" "mainLoop (threadPool ?s) = ?l"
    "pool_of 0 ls (threadPool ?s)"
    using 2(4,5,7) 3(2,4) by (simp_all add: http_handlers_def)
  show ?thesis
    by (rule exI [of _ ?l], rule exI [of _ ?hs], rule exI [of _ ?w5], rule exI [of _ ?sv], rule exI [of _ ?s], rule exI [of _ el], rule exI [of _ ?p],
        rule exI [of _ ls], rule exI [of _ fd], rule exI [of _ "brk w + 1"], intro conjI run hs sv srv lp ready reg c 3(3) thr bounds)
qed

section \<open>Properties\<close>

text \<open>
  C14. The demo server starts: when resources suffice and the listening socket can be had, the main program gets as far as its loop.  Then the main loop waits
  for exactly the wake-ups and the listening descriptor, whose channel belongs to the server; the server has the HTTP callbacks, itself as data and a
  started pool of two threads, each with a loop of its own; and it listens at the fixed port.
\<close>

theorem server_starts:
  assumes P: "poll_plat P" and S: "can_listen (pl_sys P) lfd"
  shows "\<exists>l hs w' sv s el p ls wfd q. server01_setup P self w = Inr (l, hs, w') \<and>
    hservers w' hs = Some \<lparr>tcpServer = sv, has_requestCallback = True\<rparr> \<and> servers w' sv = Some s \<and> http_handlers s \<and> sv_data s = Some hs \<and>
    sv_acceptor s = \<lparr>listen_port = SERV_PORT, listen_fd = lfd\<rparr> \<and>
    loops w' l = Some el \<and> poll_ready (pl_alloc P) (chans w') self el \<and>
    loop_reg poll_reg el = ([wfd \<mapsto> q, lfd \<mapsto> p], [wfd \<mapsto> (True, False), lfd \<mapsto> (True, False)]) \<and>
    chans w' p = Some (channel_new lfd EVENT_READ (Some HandleConnectionEstablished) None (ServerPtr sv)) \<and>
    mainLoop (threadPool s) = l \<and> pool_of 0 ls (threadPool s) \<and> length ls = 2 \<and> (\<forall>i < 2. fresh_loop P (tids w + i) (ls ! i) w')"
  using server_start_state [OF P S, of self w] by (elim exE conjE) (intro exI conjI; assumption)

text \<open>The sample platform gives the descriptor 3 for listening.\<close>

theorem server_starts_witness:
  "\<exists>l hs w' s p. server01_setup sample_plat 1 (sample_net []) = Inr (l, hs, w') \<and>
    servers w' (tcpServer (the (hservers w' hs))) = Some s \<and> sv_data s = Some hs \<and> loop_reg poll_reg (the (loops w' l)) = p \<and> fst p 3 \<noteq> None"
proof -
  have S: "can_listen (pl_sys sample_plat) 3" by (simp add: can_listen_def sample_plat_def sample_sys_def)
  from server_starts [OF poll_plat_sample S, of 1 "sample_net []"] show ?thesis by fastforce
qed

text \<open>The first loop of a program.\<close>

theorem pointers_well_typed_witness:
  "\<exists>w :: (poll_dispatcher_data, byte list \<times> byte list \<times> int list) net. net_reach sample_plat (onRequest sample_plat) w \<and>
    (\<exists>ch. chans w 1 = Some ch \<and> eventReadCallback ch = Some HandleWakeup \<and> cast_ok w HandleWakeup (cdata ch))"
proof -
  let ?w = "empty_net ([], [], []) :: (poll_dispatcher_data, byte list \<times> byte list \<times> int list) net"
  obtain el fd o' where m: "start_main_loop sample_plat 1 ?w = Inr (brk ?w, set_loop (brk ?w) el (?w\<lparr>brk := brk ?w + 2, os := o',
       chans := (chans ?w)(brk ?w + 1 \<mapsto> channel_new fd EVENT_READ (Some HandleWakeup) None (LoopPtr (brk ?w)))\<rparr>))" (is "_ = Inr (_, ?w')")
    using start_main_loop_ok [OF poll_plat_sample, of 1 ?w] by blast
  have r: "net_reach sample_plat (onRequest sample_plat) ?w'" by (rule net_reach.step [OF net_reach.start net_step.new_loop [OF m]])
  let ?ch = "channel_new fd EVENT_READ (Some HandleWakeup) None (LoopPtr (brk ?w))"
  have c: "chans ?w' 1 = Some ?ch" "eventReadCallback ?ch = Some HandleWakeup" by (simp_all add: empty_net_def channel_new_def)
  from pointers_well_typed [OF r] c have "cast_ok ?w' HandleWakeup (cdata ?ch)" by blast
  with r c show ?thesis by blast
qed

end
