(* ===== verification/Server_Run.thy ===== *)
theory Server_Run
  imports Demo_Server
begin

text \<open>
  The loops of \<^verbatim>\<open>src/http_server01.c\<close> at work: a round of \<open>event_loop_run\<close> over \<open>poll\<close> with the callbacks of the server, and the first client, from the
  start of the program through the rounds of two threads to the response.
\<close>

section \<open>The code\<close>

text \<open>A descriptor that \<open>poll_dispatch\<close> activates: the callback of its channel acts on the whole memory.\<close>

definition activate_channel :: "('d, 'o) plat \<Rightarrow> nat \<Rightarrow> ('d, 'o) request_callback \<Rightarrow> nat \<Rightarrow> int \<Rightarrow> 32 word \<Rightarrow> ('d, 'o) net \<Rightarrow> ('d, 'o) net c_res" where
  "activate_channel P self onReq l fd ev w =
     c_bind (channel_event_activate (\<lambda>w. the (loops w l)) chans (run_callback P self onReq) fd ev w) (\<lambda>(_, w). Inr w)"

text \<open>One round of the loop at \<open>l\<close>, by the thread \<open>self\<close>; \<open>poll\<close> is the system call.\<close>

definition server_round :: "(poll_dispatcher_data, 'o) plat \<Rightarrow> nat \<Rightarrow> (poll_dispatcher_data, 'o) request_callback \<Rightarrow> nat
    \<Rightarrow> ((poll_dispatcher_data, 'o) net \<Rightarrow> int \<times> (poll_dispatcher_data, 'o) net) \<Rightarrow> (poll_dispatcher_data, 'o) net
    \<Rightarrow> (poll_dispatcher_data, 'o) net c_res" where
  "server_round P self onReq l poll w =
     loop_round (\<lambda>w. the (loops w l)) (set_loop l) chans (pl_alloc P) (pl_dispatcher P)
       (poll_dispatch (\<lambda>w. the (event_dispatcher_data (the (loops w l)))) (activate_channel P self onReq l) poll) w"

section \<open>One descriptor is ready\<close>

text \<open>
  What \<open>poll\<close> documents when only \<open>fd\<close> has data to read: if the array asks for it, it returns 1 and sets the results in the array; otherwise it times out.
\<close>

definition reported :: "int \<Rightarrow> pollfd \<Rightarrow> pollfd" where
  "reported fd p = p\<lparr>revents := (if pfd p = fd then ucast POLLRDNORM else 0)\<rparr>"

definition report_loop :: "int \<Rightarrow> poll_dispatcher_data event_loop \<Rightarrow> poll_dispatcher_data event_loop" where
  "report_loop fd el = el\<lparr>event_dispatcher_data := map_option (\<lambda>d. d\<lparr>event_set := map (reported fd) (event_set d)\<rparr>) (event_dispatcher_data el)\<rparr>"

definition poll_reports :: "nat \<Rightarrow> int \<Rightarrow> (poll_dispatcher_data, 'o) net \<Rightarrow> int \<times> (poll_dispatcher_data, 'o) net" where
  "poll_reports l fd w =
     (case poll_reg (the (event_dispatcher_data (the (loops w l)))) fd of
        Some (True, _) \<Rightarrow> (1, set_loop l (report_loop fd (the (loops w l))) w)
      | _ \<Rightarrow> (0, w))"

lemma reported_simps [simp]:
  "pfd (reported fd p) = pfd p" "pevents (reported fd p) = pevents p" "cell_interest (reported fd p) = cell_interest p"
  "revents (reported fd p) = (if pfd p = fd then 0x40 else 0)"
  by (simp_all add: reported_def cell_interest_def POLLRDNORM_def)

lemma report_loop_simps [simp]:
  "channelMap (report_loop fd el) = channelMap el" "owner_thread_id (report_loop fd el) = owner_thread_id el" "wakeups (report_loop fd el) = wakeups el"
  "pending_inv (report_loop fd el) q = pending_inv el q" "idle (report_loop fd el) = idle el"
  by (simp_all add: report_loop_def pending_inv_def idle_def)

lemma find_reported: "find (\<lambda>p. pfd p = x) (map (reported fd) es) = map_option (reported fd) (find (\<lambda>p. pfd p = x) es)"
  by (induction es) auto

lemma reported_data:
  assumes "poll_inv d"
  shows "poll_inv (d\<lparr>event_set := map (reported fd) (event_set d)\<rparr>)" "poll_reg (d\<lparr>event_set := map (reported fd) (event_set d)\<rparr>) = poll_reg d"
  using assms by (auto simp: poll_inv_def poll_reg_def find_reported fun_eq_iff option.map_comp comp_def)

lemma report_inv:
  assumes "loop_inv poll_inv poll_reg ch el"
  shows "loop_inv poll_inv poll_reg ch (report_loop fd el)" "loop_reg poll_reg (report_loop fd el) = loop_reg poll_reg el"
  using assms by (auto simp: loop_inv_def loop_reg_def reported_data) (auto simp: report_loop_def reported_data)

lemma poll_loop_one:
  assumes "length (event_set (get s)) = INIT_POLL_SIZE" and "j < INIT_POLL_SIZE" and "event_set (get s) ! j = p" and "0 \<le> pfd p" and "revents p = 0x40"
    and "\<forall>k < j. revents (event_set (get s) ! k) = 0"
  shows "i \<le> j \<Longrightarrow> poll_loop get act i 1 s = act (pfd p) EVENT_READ s"
proof (induction "j - i" arbitrary: i)
  case 0
  then have "i = j" by simp
  with assms show ?case
    by (cases "act (pfd p) EVENT_READ s") (simp_all add: poll_loop.simps [of get act j] c_mem POLLRDNORM_def POLLWRNORM_def)
next
  case (Suc n)
  then have i: "i < j" "revents (event_set (get s) ! i) = 0" using assms(6) by simp_all
  have "poll_loop get act (Suc i) 1 s = act (pfd p) EVENT_READ s" using Suc.hyps(1) [of "Suc i"] Suc.hyps(2) i(1) by simp
  with i assms(1,2) show ?case by (simp add: poll_loop.simps [of get act i] c_mem)
qed

text \<open>A round for one ready descriptor: the read callback of its channel, then what is queued.\<close>

lemma server_round_one:
  assumes P: "\<forall>n. pl_alloc P n" "pl_dispatcher P = poll_dispatcher" and inv: "loops w l = Some el" "loop_inv poll_inv poll_reg (chans w) el"
    and reg: "fst (loop_reg poll_reg el) fd = Some p" "chans w p = Some c" "eventReadCallback c = Some f" "snd (loop_reg poll_reg el) fd = Some (True, x)"
    and run: "run_callback P self onReq f (cdata c) (set_loop l (report_loop fd el) w) = Inr wx"
    and after: "loops wx l = Some ex" "loop_inv poll_inv poll_reg (chans wx) ex" "pending_inv ex q" "idle ex" "owner_thread_id ex = self"
    and spec: "reg_run poll_room (chans wx) q (loop_reg poll_reg ex) = Some r"
  shows "\<exists>el2. server_round P self onReq l (poll_reports l fd) w = Inr (set_loop l el2 wx) \<and> poll_ready (pl_alloc P) (chans wx) self el2 \<and>
    loop_reg poll_reg el2 = r \<and> wakeups el2 = wakeups ex"
proof -
  obtain d where d: "map_inv (channelMap el)" "event_dispatcher_data el = Some d" "poll_inv d" "dom (poll_reg d) = dom (map_entry (channelMap el))"
    using inv(2) by (auto simp: loop_inv_def)
  have e: "map_entry (channelMap el) fd = Some p" using reg(1) by (simp add: loop_reg_def)
  then have cfd: "cfd c = fd" using inv(2) reg(2) unfolding loop_inv_def by fastforce
  have fd: "0 \<le> fd" "fd < nentries (channelMap el)" using map_entry_in_range [OF d(1)] e by auto
  have "fd \<in> dom (poll_reg d)" using e d(4) by auto
  then obtain j where j: "j < INIT_POLL_SIZE" "pfd (event_set d ! j) = fd" using poll_reg_Some [OF d(3) fd(1)] by auto
  have others: "pfd (event_set d ! k) \<noteq> fd" if "k < j" for k
    using poll_unique [OF d(3), of j k] that j fd(1) by auto
  let ?w0 = "set_loop l (report_loop fd el) w" and ?get = "\<lambda>w. the (event_dispatcher_data (the (loops w l)))"
  let ?act = "activate_channel P self onReq l"
  have len: "length (event_set d) = INIT_POLL_SIZE" using d(3) by (simp add: poll_inv_def)
  have set: "event_set (?get ?w0) = map (reported fd) (event_set d)" using d(2) by (simp add: report_loop_def)
  have "poll_loop ?get ?act 0 1 ?w0 = ?act (pfd (event_set d ! j)) EVENT_READ ?w0"
    using poll_loop_one [of ?get ?w0 j "reported fd (event_set d ! j)" 0 ?act] set len j others fd(1) by simp
  also have "\<dots> = Inr wx"
    using fd e entry_access(1) [OF d(1) fd] reg(2,3) cfd run
    by (simp add: j(2) activate_channel_def channel_event_activate_def load_def EVENT_READ_def EVENT_WRITE_def)
  finally have disp: "poll_dispatch ?get ?act (poll_reports l fd) w = Inr (0, wx)"
    using inv(1) reg(4) d(2) by (simp add: poll_dispatch_def poll_reports_def loop_reg_def)
  obtain el2 where el2: "event_loop_handle_pending_channel (pl_alloc P) poll_dispatcher (chans wx) ex = Inr (0, el2)"
    "loop_inv poll_inv poll_reg (chans wx) el2" "loop_reg poll_reg el2 = r" "pending_inv el2 []" "idle el2" "owner_thread_id el2 = owner_thread_id ex"
    "wakeups el2 = wakeups ex"
    using poll.handle_refines [OF after(2-4) P(1) spec] by blast
  have "server_round P self onReq l (poll_reports l fd) w = Inr (set_loop l el2 wx)"
    using disp el2(1) P(2) after(1) by (simp add: server_round_def loop_round_def)
  with el2 P(1) after(5) show ?thesis by (intro exI [of _ el2]) (simp add: poll_ready_def)
qed

section \<open>The three rounds of a connection\<close>

text \<open>The main loop: a connection for the worker whose turn it is.\<close>

lemma accept_round:
  assumes P: "poll_plat P" "mem_plat P" and main: "loops w l = Some el" "poll_ready (pl_alloc P) (chans w) self el"
    and reg: "fst (loop_reg poll_reg el) lfd = Some p" "snd (loop_reg poll_reg el) lfd = Some (True, False)" "\<forall>x a. fst (loop_reg poll_reg el) x = Some a \<longrightarrow> a < brk w"
    and ch: "chans w p = Some (channel_new lfd EVENT_READ (Some HandleConnectionEstablished) None (ServerPtr sv))"
    and s: "servers w sv = Some s" "http_handlers s" "sv_data s = Some hs"
    and acc: "sys_accept (pl_sys P) (listen_fd (sv_acceptor s)) (os w) = (fd, o1)" "0 \<le> fd" "fd < 10000"
    and pool: "mainLoop (threadPool s) = l" "pool_of i ls (threadPool s)" "ls \<noteq> []" "length ls < 10 ^ 8"
    and k: "loops w (ls ! (i mod length ls)) = Some ek" "pending_inv ek pend" "idle ek" "owner_thread_id ek \<noteq> self"
  shows "\<exists>w1 ek1 el1 tp. server_round P self onReq l (poll_reports l lfd) w = Inr w1 \<and> awaiting P (brk w) (ls ! (i mod length ls)) fd hs w1 \<and>
    loops w1 = (loops w)(ls ! (i mod length ls) \<mapsto> ek1, l \<mapsto> el1) \<and> pending_inv ek1 (pend @ [(1, Some (brk w + 1))]) \<and> idle ek1 \<and>
    wakeups ek1 = wakeups ek + (if pl_sent P then 1 else 0) \<and> owner_thread_id ek1 = owner_thread_id ek \<and>
    event_dispatcher_data ek1 = event_dispatcher_data ek \<and> channelMap ek1 = channelMap ek \<and>
    chans w1 = (chans w)(brk w + 1 \<mapsto> conn_channel fd (brk w)) \<and> hservers w1 = hservers w \<and>
    servers w1 = (servers w)(sv \<mapsto> s\<lparr>threadPool := tp\<rparr>) \<and> pool_of (Suc i) ls tp \<and> mainLoop tp = l \<and> brk w1 = brk w + 2 \<and>
    poll_ready (pl_alloc P) (chans w1) self el1 \<and> loop_reg poll_reg el1 = loop_reg poll_reg el"
proof -
  let ?k = "ls ! (i mod length ls)" and ?w = "set_loop l (report_loop lfd el) w" and ?p = "brk w + 1"
  have inv: "loop_inv poll_inv poll_reg (chans w) el" "pending_inv el []" "idle el" "owner_thread_id el = self" "\<forall>n. pl_alloc P n"
    using main(2) by (simp_all add: poll_ready_def)
  note rep = report_inv [OF inv(1), of lfd]
  have kl: "?k \<noteq> l" using main(1) k(1,4) inv(4) by auto
  have l: "loops ?w (mainLoop (threadPool s)) = Some (report_loop lfd el)" using pool(1) by simp
  obtain tp where tp: "thread_pool_get_loop self (threadPool s) ?w = Inr (Some ?k, tp)" "pool_of (Suc i) ls tp" "mainLoop tp = l"
    using get_loop_turn [where w = ?w, OF pool(2-4) l] inv(4) pool(1) by auto
  have sk: "servers ?w sv = Some s" "loops ?w ?k = Some ek" "os ?w = os w" using s(1) k(1) kl by simp_all
  obtain w1 ek1 where w1: "handle_connection_established P self (http_callbacks P self onReq) sv ?w = Inr (0, w1)" "awaiting P (brk ?w) ?k fd hs w1"
    "loops w1 = (loops ?w)(?k \<mapsto> ek1)" "pending_inv ek1 (pend @ [(1, Some (brk ?w + 1))])" "idle ek1" "wakeups ek1 = wakeups ek + (if pl_sent P then 1 else 0)"
    "owner_thread_id ek1 = owner_thread_id ek" "event_dispatcher_data ek1 = event_dispatcher_data ek" "channelMap ek1 = channelMap ek"
    "chans w1 = (chans ?w)(brk ?w + 1 \<mapsto> conn_channel fd (brk ?w))" "hservers w1 = hservers ?w"
    "servers w1 = (servers ?w)(sv \<mapsto> s\<lparr>threadPool := tp\<rparr>)" "brk w1 = brk ?w + 2"
    using connection_made [where w = ?w and onReq = onReq, OF P(2) sk(1) s(2,3) acc(1) [folded sk(3)] acc(2) tp(1) sk(2) k(2-4)] unfolding if_P [OF acc(3)]
    by (elim exE conjE)
  have b: "brk ?w = brk w" "chans ?w = chans w" "hservers ?w = hservers w" "servers ?w = servers w" by simp_all
  note w1 = w1 [unfolded b]
  have l1: "loops w1 l = Some (report_loop lfd el)" using w1(3) kl by simp
  have run: "run_callback P self onReq HandleConnectionEstablished (cdata (channel_new lfd EVENT_READ (Some HandleConnectionEstablished) None (ServerPtr sv))) ?w
      = Inr w1" using w1(1) by (simp add: run_callback_def channel_new_def)
  have old: "chans w1 a = chans w a" if "fst (loop_reg poll_reg el) x = Some a" for x a using reg(3) that w1(10) by fastforce
  have inv1: "loop_inv poll_inv poll_reg (chans w1) (report_loop lfd el)"
    using rep(1) old by (auto simp: loop_inv_def loop_reg_def)
  obtain el1 where el1: "server_round P self onReq l (poll_reports l lfd) w = Inr (set_loop l el1 w1)" "poll_ready (pl_alloc P) (chans w1) self el1"
    "loop_reg poll_reg el1 = loop_reg poll_reg el"
    using server_round_one [where el = el and q = "[]", OF inv(5) poll_platD(4) [OF P(1)] main(1) inv(1) reg(1) ch _ reg(2) run l1 inv1] inv(2-4) rep(2)
    by (auto simp: channel_new_def)
  have aw: "awaiting P (brk w) ?k fd hs (set_loop l el1 w1)" using w1(2) by (simp add: awaiting_def connected_def quiet_def)
  show ?thesis
    by (rule exI [of _ "set_loop l el1 w1"], rule exI [of _ ek1], rule exI [of _ el1], rule exI [of _ tp])
      (use el1 aw w1(3-13) kl tp(2,3) in \<open>simp add: fun_upd_twist\<close>)
qed

text \<open>The loop of the worker: the wake-up, then the registration that is queued.\<close>

lemma wake_round:
  assumes P: "poll_plat P" and loop: "loops w k = Some ek" "loop_inv poll_inv poll_reg (chans w) ek" "pending_inv ek [(1, Some p)]" "idle ek" "owner_thread_id ek = t"
    and wake: "fst (loop_reg poll_reg ek) wfd = Some q" "snd (loop_reg poll_reg ek) wfd = Some (True, False)" "chans w q = Some (channel_new wfd EVENT_READ (Some HandleWakeup) None (LoopPtr k))" "0 < wakeups ek"
    and new: "chans w p = Some (conn_channel fd a)" "0 \<le> fd" "fd < 2 ^ 27" "fst (loop_reg poll_reg ek) fd = None" "poll_room (dom (snd (loop_reg poll_reg ek))) fd"
  shows "\<exists>ek2. server_round P t onReq k (poll_reports k wfd) w = Inr (set_loop k ek2 w) \<and> poll_ready (pl_alloc P) (chans w) t ek2 \<and>
    loop_reg poll_reg ek2 = ((fst (loop_reg poll_reg ek))(fd \<mapsto> p), (snd (loop_reg poll_reg ek))(fd \<mapsto> (True, False)))"
proof -
  let ?r = "report_loop wfd ek"
  let ?e = "?r\<lparr>wakeups := wakeups ek - 1\<rparr>" and ?w = "set_loop k (report_loop wfd ek) w"
  note rep = report_inv [OF loop(2), of wfd]
  have run: "run_callback P t onReq HandleWakeup (cdata (channel_new wfd EVENT_READ (Some HandleWakeup) None (LoopPtr k))) ?w = Inr (set_loop k ?e ?w)"
    using wake(4) by (simp add: run_callback_def handleWakeup_def channel_new_def)
  have e: "loop_inv poll_inv poll_reg (chans w) ?e" "pending_inv ?e [(1, Some p)]" "idle ?e" "loop_reg poll_reg ?e = loop_reg poll_reg ek"
    using rep loop(3,4) by (simp_all add: loop_inv_def loop_reg_def pending_inv_def idle_def report_loop_def)
  obtain M R where MR: "loop_reg poll_reg ek = (M, R)" by fastforce
  have "reg_run poll_room (chans w) [(1, Some p)] (loop_reg poll_reg ek) = Some (M(fd \<mapsto> p), R(fd \<mapsto> (True, False)))"
    using new MR by (simp add: reg_step_def load_def conn_channel_def channel_new_def interest_def EVENT_READ_def EVENT_WRITE_def)
  then have spec: "reg_run poll_room (chans (set_loop k ?e ?w)) [(1, Some p)] (loop_reg poll_reg ?e) = Some (M(fd \<mapsto> p), R(fd \<mapsto> (True, False)))"
    using e(4) by simp
  obtain ek2 where "server_round P t onReq k (poll_reports k wfd) w = Inr (set_loop k ek2 (set_loop k ?e ?w))" "poll_ready (pl_alloc P) (chans w) t ek2"
    "loop_reg poll_reg ek2 = (M(fd \<mapsto> p), R(fd \<mapsto> (True, False)))"
    using server_round_one [where ex = ?e, OF poll_platD(3,4) [OF P] loop(1,2) wake(1,3) _ wake(2) run _ _ e(2,3) _ spec] e(1) loop(5)
    by (auto simp: channel_new_def)
  then show ?thesis by (intro exI [of _ ek2]) (simp add: MR set_loop_def)
qed

text \<open>The loop of the worker: a request on a connection that awaits its first one.\<close>

lemma request_round:
  assumes P: "poll_plat P" "ample P" and loop: "loops w k = Some ek" "poll_ready (pl_alloc P) (chans w) t ek"
    and reg: "fst (loop_reg poll_reg ek) fd = Some p" "chans w p = Some (conn_channel fd a)" "snd (loop_reg poll_reg ek) fd = Some (True, False)"
    and aw: "awaiting P a k fd hs w" and h: "hservers w hs = Some h" "has_requestCallback h"
    and room: "length hdrs \<le> length (pl_cells P)" "int (length (pl_cells P)) \<le> INT_MAX"
    and rd: "sys_readv (pl_sys P) fd (2 * int INIT_BUFFER_SIZE) (os w) = ((int (length bs), bs), o1)" and doc: "int (length bs) \<le> 2 * int INIT_BUFFER_SIZE"
    and req: "bs = render_request m u (bytes_of ''HTTP/1.1'') hdrs @ rest" "line_ok m u (bytes_of ''HTTP/1.1'')" "list_all header_ok hdrs"
    and page: "page_for P u (fresh_response P) = Some resp"
    and wr: "sys_write (pl_sys P) fd (response_text resp) o1 = ((int (length (response_text resp)), e), o2)"
  shows "\<exists>w3 ek3 tc ib r. server_round P t (onRequest P) k (poll_reports k fd) w = Inr w3 \<and>
    os w3 = (if asks_close hdrs then snd (sys_shutdown (pl_sys P) fd o2) else o2) \<and>
    conns w3 a = Some tc \<and> input_buffer tc = Some ib \<and> buffer_inv ib \<and> content ib = rest \<and>
    tc_request tc = At r \<and> current_state r = REQUEST_STATUS \<and> headers_of r = [] \<and>
    loops w3 = (loops w)(k \<mapsto> ek3) \<and> chans w3 = chans w \<and> servers w3 = servers w \<and> hservers w3 = hservers w \<and> brk w3 = brk w \<and>
    poll_ready (pl_alloc P) (chans w3) t ek3 \<and> loop_reg poll_reg ek3 = loop_reg poll_reg ek"
proof -
  have inv: "loop_inv poll_inv poll_reg (chans w) ek" "pending_inv ek []" "idle ek" "owner_thread_id ek = t"
    using loop(2) by (simp_all add: poll_ready_def)
  let ?e = "report_loop fd ek" let ?w = "set_loop k ?e w" and ?ch = "conn_channel fd a" and ?b = "empty_buffer P"
  note rep = report_inv [OF inv(1), of fd]
  from aw obtain tc where tc: "connected w a tc ?ch ?b" "quiet w a tc ?ch ?b" "tc_messageCallBack tc = Some Http_onMessage"
    "tc_request tc = At (http_request_new (Some (pl_cells P)))" "tc_data tc = At hs" unfolding awaiting_def by blast
  have c: "connected ?w a tc ?ch ?b" "quiet ?w a tc ?ch ?b" using tc(1,2) by (simp_all add: connected_def quiet_def)
  have new: "current_state (http_request_new (Some cs)) = REQUEST_STATUS" "request_headers (http_request_new (Some cs)) = Some cs"
    "request_headers_number (http_request_new (Some cs)) = 0" for cs by (simp_all add: http_request_new_def)
  have e: "content ?b = []" "buffer_writeable_size ?b = int INIT_BUFFER_SIZE"
    using empty_buffer_ok [OF ample_mem [OF P(2)]] by (simp_all add: empty_buffer_def buffer_writeable_size_def)
  have ch: "cfd ?ch = fd" "cdata ?ch = ConnPtr a" "eventReadCallback ?ch = Some HandleRead" by (simp_all add: conn_channel_def channel_new_def)
  have rd': "sys_readv (pl_sys P) (cfd ?ch) (buffer_writeable_size ?b + int INIT_BUFFER_SIZE) (os ?w) = ((int (length bs), bs), o1)"
    and doc': "int (length bs) \<le> buffer_writeable_size ?b + int INIT_BUFFER_SIZE" "content ?b @ bs = render_request m u (bytes_of ''HTTP/1.1'') hdrs @ rest"
    using rd doc e ch(1) req(1) by simp_all
  have wr': "sys_write (pl_sys P) (cfd ?ch) (response_text resp) o1 = ((int (length (response_text resp)), e), o2)" using wr ch(1) by simp
  have ne: "bs \<noteq> []" unfolding req(1) by (simp add: render_request_def)
  have h': "hservers ?w hs = Some h" using h(1) by simp
  obtain ib r n where run: "handle_read P t (http_callbacks P t (onRequest P)) a ?w = Inr (set_conn a (tc\<lparr>input_buffer := Some ib, tc_request := At r\<rparr>)
        (?w\<lparr>stray := n, os := (if asks_close hdrs then snd (sys_shutdown (pl_sys P) (cfd ?ch) o2) else o2)\<rparr>))"
    "buffer_inv ib" "content ib = rest" "current_state r = REQUEST_STATUS" "headers_of r = []"
    using request_answered_aux [where self = t, OF P(2) c tc(3,5) h' h(2) tc(4) new room rd' doc'(1) ne doc'(2) req(2,3) page wr'] by (elim exE conjE)
  let ?tc = "tc\<lparr>input_buffer := Some ib, tc_request := At r\<rparr>" and ?o = "if asks_close hdrs then snd (sys_shutdown (pl_sys P) fd o2) else o2"
  let ?w1 = "set_conn a ?tc (?w\<lparr>stray := n, os := ?o\<rparr>)"
  have cb: "run_callback P t (onRequest P) HandleRead (cdata ?ch) ?w = Inr ?w1" using run(1) ch by (simp add: run_callback_def)
  obtain ek3 where ek3: "server_round P t (onRequest P) k (poll_reports k fd) w = Inr (set_loop k ek3 ?w1)" "poll_ready (pl_alloc P) (chans w) t ek3"
    "loop_reg poll_reg ek3 = loop_reg poll_reg ek"
    using server_round_one [where ex = ?e and q = "[]", OF poll_platD(3,4) [OF P(1)] loop(1) inv(1) reg(1,2) ch(3) reg(3) cb] inv(2-4) rep by auto
  have "os (set_loop k ek3 ?w1) = ?o" "conns (set_loop k ek3 ?w1) a = Some ?tc" "loops (set_loop k ek3 ?w1) = (loops w)(k \<mapsto> ek3)" "chans (set_loop k ek3 ?w1) = chans w"
    "servers (set_loop k ek3 ?w1) = servers w" "hservers (set_loop k ek3 ?w1) = hservers w" "brk (set_loop k ek3 ?w1) = brk w"
    by simp_all
  moreover have "input_buffer ?tc = Some ib" "tc_request ?tc = At r" by simp_all
  ultimately show ?thesis using ek3 run(2-5) by metis
qed

section \<open>Clients, one after the other\<close>

text \<open>
  A client: the state of the system when it connects, its descriptor, the state when its request has arrived, and the request: method, url,
  headers and what follows.  The system may do anything between the rounds.
\<close>

record 'o client =
  cl_accept :: 'o
  cl_fd :: int
  cl_read :: 'o
  cl_method :: "byte list"
  cl_url :: "byte list"
  cl_headers :: "(byte list \<times> byte list) list"
  cl_rest :: "byte list"

text \<open>The rounds for the client number \<open>i\<close>: of the main loop, then two of the worker whose turn it is.\<close>

definition client_rounds :: "(poll_dispatcher_data, 'o) plat \<Rightarrow> nat \<Rightarrow> nat \<Rightarrow> nat \<Rightarrow> int \<Rightarrow> (nat \<times> int) list \<Rightarrow> nat \<Rightarrow> 'o client
    \<Rightarrow> (poll_dispatcher_data, 'o) net \<Rightarrow> (poll_dispatcher_data, 'o) net c_res" where
  "client_rounds P self t l lfd ls i cl w =
     (let j = i mod length ls; (k, wfd) = ls ! j in
      c_bind (server_round P self (onRequest P) l (poll_reports l lfd) (w\<lparr>os := cl_accept cl\<rparr>)) (\<lambda>w.
      c_bind (server_round P (t + j) (onRequest P) k (poll_reports k wfd) w) (\<lambda>w.
      server_round P (t + j) (onRequest P) k (poll_reports k (cl_fd cl)) (w\<lparr>os := cl_read cl\<rparr>))))"

text \<open>What the system's state is after each client.\<close>

primrec clients_run :: "(poll_dispatcher_data, 'o) plat \<Rightarrow> nat \<Rightarrow> nat \<Rightarrow> nat \<Rightarrow> int \<Rightarrow> (nat \<times> int) list \<Rightarrow> nat \<Rightarrow> 'o client list
    \<Rightarrow> (poll_dispatcher_data, 'o) net \<Rightarrow> ('o list \<times> (poll_dispatcher_data, 'o) net) c_res" where
  "clients_run P self t l lfd ls i [] w = Inr ([], w)"
| "clients_run P self t l lfd ls i (cl # cls) w =
     c_bind (client_rounds P self t l lfd ls i cl w) (\<lambda>w1.
     c_bind (clients_run P self t l lfd ls (Suc i) cls w1) (\<lambda>(outs, w2).
     Inr (os w1 # outs, w2)))"

definition cl_request :: "'o client \<Rightarrow> byte list" where
  "cl_request cl = render_request (cl_method cl) (cl_url cl) (bytes_of ''HTTP/1.1'') (cl_headers cl) @ cl_rest cl"

definition cl_response :: "('d, 'o) plat \<Rightarrow> 'o client \<Rightarrow> byte list" where
  "cl_response P cl = (case page_for P (cl_url cl) (fresh_response P) of None \<Rightarrow> [] | Some resp \<Rightarrow> response_text resp)"

text \<open>
  A client the system gives a descriptor to, whose well-formed request arrives whole and whose response is taken whole; the comparisons that choose its page
  stay in memory that can be read.
\<close>

definition client_ok :: "('d, 'o) plat \<Rightarrow> int \<Rightarrow> 'o client \<Rightarrow> bool" where
  "client_ok P lfd cl \<longleftrightarrow> fst (sys_accept (pl_sys P) lfd (cl_accept cl)) = cl_fd cl \<and> 0 \<le> cl_fd cl \<and> cl_fd cl < 10000 \<and>
     line_ok (cl_method cl) (cl_url cl) (bytes_of ''HTTP/1.1'') \<and> list_all header_ok (cl_headers cl) \<and> length (cl_headers cl) \<le> length (pl_cells P) \<and>
     length (cl_request cl) \<le> 2 * INIT_BUFFER_SIZE \<and> page_for P (cl_url cl) (fresh_response P) \<noteq> None \<and>
     fst (sys_readv (pl_sys P) (cl_fd cl) (2 * int INIT_BUFFER_SIZE) (cl_read cl)) = (int (length (cl_request cl)), cl_request cl) \<and>
     fst (fst (sys_write (pl_sys P) (cl_fd cl) (cl_response P cl) (snd (sys_readv (pl_sys P) (cl_fd cl) (2 * int INIT_BUFFER_SIZE) (cl_read cl))))) =
       int (length (cl_response P cl))"

text \<open>The calls the server makes for a client: it reads the request, writes the response, and ends the connection when asked to.\<close>

definition cl_outcome :: "('d, 'o) plat \<Rightarrow> 'o client \<Rightarrow> 'o" where
  "cl_outcome P cl =
     (let o1 = snd (sys_readv (pl_sys P) (cl_fd cl) (2 * int INIT_BUFFER_SIZE) (cl_read cl));
          o2 = snd (sys_write (pl_sys P) (cl_fd cl) (cl_response P cl) o1)
      in if asks_close (cl_headers cl) then snd (sys_shutdown (pl_sys P) (cl_fd cl) o2) else o2)"

section \<open>The server between clients\<close>

text \<open>A worker's loop that waits for its wake-ups and for connections among \<open>fds\<close>.\<close>

definition worker_waits :: "(poll_dispatcher_data, 'o) plat \<Rightarrow> nat \<Rightarrow> nat \<Rightarrow> int \<Rightarrow> int set \<Rightarrow> (poll_dispatcher_data, 'o) net \<Rightarrow> bool" where
  "worker_waits P t k wfd fds w \<longleftrightarrow> (\<exists>ek q. loops w k = Some ek \<and> poll_ready (pl_alloc P) (chans w) t ek \<and> k < brk w \<and>
     fst (loop_reg poll_reg ek) wfd = Some q \<and> snd (loop_reg poll_reg ek) wfd = Some (True, False) \<and>
     chans w q = Some (channel_new wfd EVENT_READ (Some HandleWakeup) None (LoopPtr k)) \<and>
     dom (fst (loop_reg poll_reg ek)) \<subseteq> insert wfd fds \<and> (\<forall>x a. fst (loop_reg poll_reg ek) x = Some a \<longrightarrow> a < brk w))"

text \<open>The server with the listening descriptor \<open>lfd\<close> after \<open>i\<close> clients.\<close>

definition serving :: "(poll_dispatcher_data, 'o) plat \<Rightarrow> nat \<Rightarrow> nat \<Rightarrow> nat \<Rightarrow> nat \<Rightarrow> int \<Rightarrow> (nat \<times> int) list \<Rightarrow> int set \<Rightarrow> nat
    \<Rightarrow> (poll_dispatcher_data, 'o) net \<Rightarrow> bool" where
  "serving P self t l hs lfd ls fds i w \<longleftrightarrow> (\<exists>sv s el p. hservers w hs = Some \<lparr>tcpServer = sv, has_requestCallback = True\<rparr> \<and>
     servers w sv = Some s \<and> http_handlers s \<and> sv_data s = Some hs \<and> listen_fd (sv_acceptor s) = lfd \<and>
     mainLoop (threadPool s) = l \<and> pool_of i (map fst ls) (threadPool s) \<and>
     loops w l = Some el \<and> poll_ready (pl_alloc P) (chans w) self el \<and> l < brk w \<and>
     fst (loop_reg poll_reg el) lfd = Some p \<and> snd (loop_reg poll_reg el) lfd = Some (True, False) \<and>
     (\<forall>x a. fst (loop_reg poll_reg el) x = Some a \<longrightarrow> a < brk w) \<and>
     chans w p = Some (channel_new lfd EVENT_READ (Some HandleConnectionEstablished) None (ServerPtr sv)) \<and>
     (\<forall>j < length ls. worker_waits P (t + j) (fst (ls ! j)) (snd (ls ! j)) fds w))"

lemma worker_frame:
  assumes "worker_waits P t k wfd fds w" and "loops w' k = loops w k" "brk w \<le> brk w'" "\<And>a. a < brk w \<Longrightarrow> chans w' a = chans w a" "fds \<subseteq> fds'"
  shows "worker_waits P t k wfd fds' w'"
proof -
  from assms(1) obtain ek q where f: "loops w k = Some ek" "poll_ready (pl_alloc P) (chans w) t ek" "k < brk w" "fst (loop_reg poll_reg ek) wfd = Some q"
    "snd (loop_reg poll_reg ek) wfd = Some (True, False)" "chans w q = Some (channel_new wfd EVENT_READ (Some HandleWakeup) None (LoopPtr k))"
    "dom (fst (loop_reg poll_reg ek)) \<subseteq> insert wfd fds" "\<forall>x a. fst (loop_reg poll_reg ek) x = Some a \<longrightarrow> a < brk w"
    unfolding worker_waits_def by (elim exE conjE)
  have "q < brk w" using f(4,8) by blast
  then have c: "chans w' q = chans w q" using assms(4) by simp
  have r: "poll_ready (pl_alloc P) (chans w') t ek" by (rule poll_ready_chans [OF f(2)]) (use f(8) assms(4) in blast)
  have b: "\<forall>x a. fst (loop_reg poll_reg ek) x = Some a \<longrightarrow> a < brk w'" using f(8) assms(3) by fastforce
  have d: "dom (fst (loop_reg poll_reg ek)) \<subseteq> insert wfd fds'" using f(7) assms(5) by blast
  have k: "loops w' k = Some ek" "k < brk w'" "chans w' q = Some (channel_new wfd EVENT_READ (Some HandleWakeup) None (LoopPtr k))"
    using f(1,3,6) c assms(2,3) by simp_all
  show ?thesis unfolding worker_waits_def by (rule exI [of _ ek], rule exI [of _ q], intro conjI k r f(4,5) d b)
qed

lemma waits_room:
  assumes "poll_ready al ch t ek" and "dom (fst (loop_reg poll_reg ek)) \<subseteq> insert wfd fds" and "finite fds" "card fds < 1000"
  shows "poll_room (dom (snd (loop_reg poll_reg ek))) fd"
proof -
  have "dom (snd (loop_reg poll_reg ek)) = dom (fst (loop_reg poll_reg ek))"
    using assms(1) unfolding poll_ready_def loop_inv_def loop_reg_def by (elim conjE exE) simp
  moreover have "card (dom (fst (loop_reg poll_reg ek))) \<le> card (insert wfd fds)" using assms(2,3) by (intro card_mono) auto
  moreover have "card (insert wfd fds) \<le> 1 + card fds" using card_insert_le_m1 [of "1 + card fds" fds wfd] by simp
  ultimately show ?thesis using assms(4) by (simp add: poll_room_def INIT_POLL_SIZE_def)
qed

lemma serving_os [simp]: "serving P self t l hs lfd ls fds i (w\<lparr>os := o'\<rparr>) = serving P self t l hs lfd ls fds i w"
  by (simp add: serving_def worker_waits_def)

text \<open>One client.\<close>

lemma client_served:
  assumes P: "poll_plat P" "ample P" "pl_sent P" and cells: "int (length (pl_cells P)) \<le> INT_MAX"
    and srv: "serving P self t l hs lfd ls fds i w" "self < t" "ls \<noteq> []" "length ls < 10 ^ 8"
    and cl: "client_ok P lfd cl" "cl_fd cl \<notin> fds" "\<forall>x \<in> set ls. snd x \<noteq> cl_fd cl" and fds: "finite fds" "card fds < 1000"
  shows "\<exists>w'. client_rounds P self t l lfd ls i cl w = Inr w' \<and> os w' = cl_outcome P cl \<and>
    serving P self t l hs lfd ls (insert (cl_fd cl) fds) (Suc i) w'"
proof -
  let ?j = "i mod length ls" and ?fd = "cl_fd cl"
  obtain k wfd where k: "ls ! ?j = (k, wfd)" by fastforce
  have j: "?j < length ls" using srv(3) by simp
  have wfd: "wfd \<noteq> ?fd" using cl(3) nth_mem [OF j] k by fastforce
  have km: "map fst ls ! (i mod length (map fst ls)) = k" using j k by simp
  let ?w = "w\<lparr>os := cl_accept cl\<rparr>"
  have "serving P self t l hs lfd ls fds i ?w" using srv(1) by simp
  then obtain sv s el p where S: "hservers ?w hs = Some \<lparr>tcpServer = sv, has_requestCallback = True\<rparr>"
    "servers ?w sv = Some s" "http_handlers s" "sv_data s = Some hs" "listen_fd (sv_acceptor s) = lfd"
    "mainLoop (threadPool s) = l" "pool_of i (map fst ls) (threadPool s)"
    "loops ?w l = Some el" "poll_ready (pl_alloc P) (chans ?w) self el" "l < brk ?w"
    "fst (loop_reg poll_reg el) lfd = Some p" "snd (loop_reg poll_reg el) lfd = Some (True, False)"
    "\<forall>x a. fst (loop_reg poll_reg el) x = Some a \<longrightarrow> a < brk ?w"
    "chans ?w p = Some (channel_new lfd EVENT_READ (Some HandleConnectionEstablished) None (ServerPtr sv))"
    "\<forall>j < length ls. worker_waits P (t + j) (fst (ls ! j)) (snd (ls ! j)) fds ?w"
    unfolding serving_def by (elim exE conjE)
  from S(15) j k have "worker_waits P (t + ?j) k wfd fds ?w" by fastforce
  then obtain ek q where W: "loops ?w k = Some ek" "poll_ready (pl_alloc P) (chans ?w) (t + ?j) ek" "k < brk ?w"
    "fst (loop_reg poll_reg ek) wfd = Some q" "snd (loop_reg poll_reg ek) wfd = Some (True, False)"
    "chans ?w q = Some (channel_new wfd EVENT_READ (Some HandleWakeup) None (LoopPtr k))"
    "dom (fst (loop_reg poll_reg ek)) \<subseteq> insert wfd fds" "\<forall>x a. fst (loop_reg poll_reg ek) x = Some a \<longrightarrow> a < brk ?w"
    unfolding worker_waits_def by (elim exE conjE)
  have ek: "pending_inv ek []" "idle ek" "owner_thread_id ek = t + ?j" "loop_inv poll_inv poll_reg (chans ?w) ek" using W(2) by (simp_all add: poll_ready_def)
  have el: "owner_thread_id el = self" using S(9) by (simp add: poll_ready_def)
  obtain ob where acc: "sys_accept (pl_sys P) (listen_fd (sv_acceptor s)) (os ?w) = (?fd, ob)"
    using cl(1) S(5) by (cases "sys_accept (pl_sys P) lfd (cl_accept cl)") (simp add: client_ok_def)
  have fd: "0 \<le> ?fd" "?fd < 10000" using cl(1) by (simp_all add: client_ok_def)
  have ne: "map fst ls \<noteq> []" "length (map fst ls) < 10 ^ 8" using srv(3,4) by simp_all
  have own: "owner_thread_id ek \<noteq> self" using ek(3) srv(2) by simp
  obtain w1 ek1 el1 tp where A: "server_round P self (onRequest P) l (poll_reports l lfd) ?w = Inr w1" "awaiting P (brk ?w) k ?fd hs w1"
    "loops w1 = (loops ?w)(k \<mapsto> ek1, l \<mapsto> el1)" "pending_inv ek1 [(1, Some (brk ?w + 1))]" "idle ek1" "wakeups ek1 = wakeups ek + 1"
    "owner_thread_id ek1 = t + ?j" "event_dispatcher_data ek1 = event_dispatcher_data ek" "channelMap ek1 = channelMap ek"
    "chans w1 = (chans ?w)(brk ?w + 1 \<mapsto> conn_channel ?fd (brk ?w))" "hservers w1 = hservers ?w"
    "servers w1 = (servers ?w)(sv \<mapsto> s\<lparr>threadPool := tp\<rparr>)" "pool_of (Suc i) (map fst ls) tp" "mainLoop tp = l" "brk w1 = brk ?w + 2"
    "poll_ready (pl_alloc P) (chans w1) self el1" "loop_reg poll_reg el1 = loop_reg poll_reg el"
    using accept_round [where w = ?w and i = i and onReq = "onRequest P", OF P(1) ample_mem [OF P(2)] S(8,9,11,12) S(13,14,2,3,4) acc fd S(6,7) ne
        W(1) [folded km] ek(1,2) own] unfolding km if_P [OF P(3)] append_Nil ek(3) by (elim exE conjE)
  have kl: "k \<noteq> l" using W(1) S(8) own el by auto
  have old: "\<And>a. a < brk w \<Longrightarrow> chans w1 a = chans w a" using A(10) by simp
  have reg1: "loop_reg poll_reg ek1 = loop_reg poll_reg ek" using A(8,9) by (simp add: loop_reg_def)
  have "poll_ready (pl_alloc P) (chans w1) (t + ?j) ek"
    by (rule poll_ready_chans [OF W(2)]) (use W(8) old in simp)
  then have inv1: "loop_inv poll_inv poll_reg (chans w1) ek1" using A(8,9) by (simp add: poll_ready_def loop_inv_def)
  have q: "q < brk w" using W(4,8) by simp
  have l1: "loops w1 k = Some ek1" using A(3) kl by simp
  let ?p = "brk w + 1" and ?ch = "conn_channel ?fd (brk w)"
  have none: "fst (loop_reg poll_reg ek1) ?fd = None" using W(7) cl(2) wfd reg1 by auto
  have q1: "chans w1 q = Some (channel_new wfd EVENT_READ (Some HandleWakeup) None (LoopPtr k))" using old [OF q] W(6) by simp
  have p1: "chans w1 ?p = Some ?ch" using A(10) by simp
  have pend: "pending_inv ek1 [(1, Some ?p)]" using A(4) by simp
  have big: "0 < wakeups ek1" "?fd < 2 ^ 27" using A(6) fd(2) by simp_all
  note room = waits_room [OF W(2,7) fds, of ?fd, folded reg1]
  obtain ek2 where B: "server_round P (t + ?j) (onRequest P) k (poll_reports k wfd) w1 = Inr (set_loop k ek2 w1)"
    "poll_ready (pl_alloc P) (chans w1) (t + ?j) ek2"
    "loop_reg poll_reg ek2 = ((fst (loop_reg poll_reg ek))(?fd \<mapsto> ?p), (snd (loop_reg poll_reg ek))(?fd \<mapsto> (True, False)))"
    using wake_round [where onReq = "onRequest P", OF P(1) l1 inv1 pend A(5,7) W(4,5) [folded reg1] q1 big(1) p1 fd(1) big(2) none room] unfolding reg1 by (elim exE conjE)
  let ?w2 = "(set_loop k ek2 w1)\<lparr>os := cl_read cl\<rparr>"
  have w2: "loops ?w2 k = Some ek2" "poll_ready (pl_alloc P) (chans ?w2) (t + ?j) ek2" "chans ?w2 ?p = Some ?ch" "hservers ?w2 = hservers w"
    "servers ?w2 = (servers w)(sv \<mapsto> s\<lparr>threadPool := tp\<rparr>)" "brk ?w2 = brk w + 2" "chans ?w2 = chans w1"
    using B(2) p1 A(11,12,15) by simp_all
  have reg2: "fst (loop_reg poll_reg ek2) ?fd = Some ?p" "snd (loop_reg poll_reg ek2) ?fd = Some (True, False)" using B(3) by simp_all
  have aw: "awaiting P (brk w) k ?fd hs ?w2" using A(2) by (simp add: awaiting_def connected_def quiet_def)
  have h2: "hservers ?w2 hs = Some \<lparr>tcpServer = sv, has_requestCallback = True\<rparr>" "has_requestCallback \<lparr>tcpServer = sv, has_requestCallback = True\<rparr>"
    using S(1) w2(4) by simp_all
  let ?bs = "cl_request cl" and ?resp = "cl_response P cl"
  let ?o1 = "snd (sys_readv (pl_sys P) ?fd (2 * int INIT_BUFFER_SIZE) (cl_read cl))"
  obtain e where rw: "sys_readv (pl_sys P) ?fd (2 * int INIT_BUFFER_SIZE) (os ?w2) = ((int (length ?bs), ?bs), ?o1)"
    "sys_write (pl_sys P) ?fd ?resp ?o1 = ((int (length ?resp), e), snd (sys_write (pl_sys P) ?fd ?resp ?o1))"
    using cl(1) by (auto simp: client_ok_def prod_eq_iff)
  have cc: "length (cl_headers cl) \<le> length (pl_cells P)" "int (length ?bs) \<le> 2 * int INIT_BUFFER_SIZE"
    "line_ok (cl_method cl) (cl_url cl) (bytes_of ''HTTP/1.1'')" "list_all header_ok (cl_headers cl)"
    using cl(1) unfolding client_ok_def by simp_all
  obtain pg where page: "page_for P (cl_url cl) (fresh_response P) = Some pg" using cl(1) by (auto simp: client_ok_def)
  then have resp: "?resp = response_text pg" by (simp add: cl_response_def)
  obtain w3 ek3 tc ib r where C: "server_round P (t + ?j) (onRequest P) k (poll_reports k ?fd) ?w2 = Inr w3"
    "os w3 = (if asks_close (cl_headers cl) then snd (sys_shutdown (pl_sys P) ?fd (snd (sys_write (pl_sys P) ?fd ?resp ?o1))) else snd (sys_write (pl_sys P) ?fd ?resp ?o1))"
    "loops w3 = (loops ?w2)(k \<mapsto> ek3)" "chans w3 = chans ?w2" "servers w3 = servers ?w2" "hservers w3 = hservers ?w2" "brk w3 = brk ?w2"
    "poll_ready (pl_alloc P) (chans w3) (t + ?j) ek3" "loop_reg poll_reg ek3 = loop_reg poll_reg ek2"
    using request_round [OF P(1,2) w2(1,2) reg2(1) w2(3) reg2(2) aw h2 cc(1) cells rw(1) cc(2) cl_request_def cc(3,4) page rw(2) [unfolded resp]]
    unfolding resp [symmetric] by (elim exE conjE)
  have run: "client_rounds P self t l lfd ls i cl w = Inr w3"
    using A(1) B(1) C(1) k by (simp add: client_rounds_def Let_def)
  have out: "os w3 = cl_outcome P cl" using C(2) by (simp add: cl_outcome_def Let_def)
  have w3: "loops w3 = (loops w)(l \<mapsto> el1, k \<mapsto> ek3)" "chans w3 = chans w1" "servers w3 = (servers w)(sv \<mapsto> s\<lparr>threadPool := tp\<rparr>)" "hservers w3 = hservers w" "brk w3 = brk w + 2"
    using C(3-7) w2(4-7) A(3) kl by (simp_all add: fun_upd_twist)
  have others: "worker_waits P (t + j') (fst (ls ! j')) (snd (ls ! j')) (insert ?fd fds) w3" if j': "j' < length ls" for j'
  proof (cases "j' = ?j")
    case True
    let ?M = "fst (loop_reg poll_reg ek)"
    have reg3: "fst (loop_reg poll_reg ek3) = ?M(?fd \<mapsto> ?p)" "snd (loop_reg poll_reg ek3) wfd = Some (True, False)"
      using C(9) B(3) W(5) wfd by simp_all
    have m: "fst (loop_reg poll_reg ek3) wfd = Some q" "dom (fst (loop_reg poll_reg ek3)) \<subseteq> insert wfd (insert ?fd fds)"
      "\<forall>x a. fst (loop_reg poll_reg ek3) x = Some a \<longrightarrow> a < brk w3"
      using reg3(1) W(4,7,8) wfd w3(5) by (auto simp: less_SucI)
    have c3: "loops w3 k = Some ek3" "k < brk w3" "chans w3 q = Some (channel_new wfd EVENT_READ (Some HandleWakeup) None (LoopPtr k))"
      using w3(1,2,5) q1 W(3) by simp_all
    have "worker_waits P (t + ?j) k wfd (insert ?fd fds) w3"
      unfolding worker_waits_def by (rule exI [of _ ek3], rule exI [of _ q], intro conjI c3 C(8) reg3(2) m)
    with True k show ?thesis by simp
  next
    case False
    let ?k = "fst (ls ! j')"
    have W': "worker_waits P (t + j') ?k (snd (ls ! j')) fds ?w" using S(15) j' by simp
    then obtain e' where "loops w ?k = Some e'" "owner_thread_id e' = t + j'" unfolding worker_waits_def poll_ready_def by auto
    then have "?k \<noteq> k" "?k \<noteq> l" using W(1) ek(3) S(8) el srv(2) False by auto
    then show ?thesis by (intro worker_frame [OF W']) (use w3 old in auto)
  qed
  let ?s = "s\<lparr>threadPool := tp\<rparr>"
  have srv': "servers w3 sv = Some ?s" "http_handlers ?s" "sv_data ?s = Some hs" "listen_fd (sv_acceptor ?s) = lfd" "mainLoop (threadPool ?s) = l"
    "pool_of (Suc i) (map fst ls) (threadPool ?s)" using w3(3) S(3-5) A(13,14) by (simp_all add: http_handlers_def)
  have m: "loops w3 l = Some el1" "poll_ready (pl_alloc P) (chans w3) self el1" "l < brk w3" "fst (loop_reg poll_reg el1) lfd = Some p"
    "snd (loop_reg poll_reg el1) lfd = Some (True, False)"
    using w3(1,2,5) kl A(16,17) S(10-12) by simp_all
  have b: "\<forall>x a. fst (loop_reg poll_reg el1) x = Some a \<longrightarrow> a < brk w3" using A(17) S(13) w3(5) by fastforce
  have "p < brk w" using S(11,13) by fastforce
  then have c: "chans w3 p = Some (channel_new lfd EVENT_READ (Some HandleConnectionEstablished) None (ServerPtr sv))" using old S(14) w3(2) by simp
  have h: "hservers w3 hs = Some \<lparr>tcpServer = sv, has_requestCallback = True\<rparr>" using S(1) w3(4) by simp
  have "serving P self t l hs lfd ls (insert ?fd fds) (Suc i) w3"
    unfolding serving_def
    by (rule exI [of _ sv], rule exI [of _ ?s], rule exI [of _ el1], rule exI [of _ p], intro conjI h srv' m b c allI impI others)
  with run out show ?thesis by blast
qed

lemma serving_start:
  assumes P: "poll_plat P" and S: "can_listen (pl_sys P) lfd"
  shows "\<exists>l hs w0 ls. server01_setup P self w = Inr (l, hs, w0) \<and> length ls = 2 \<and> serving P self (tids w) l hs lfd ls {} 0 w0 \<and>
    (\<forall>x \<in> set ls. \<exists>o'. snd x = snd (fst (sys_socketpair (pl_sys P) o')))"
proof -
  obtain l hs w0 sv s el p ls wfd q where st: "server01_setup P self w = Inr (l, hs, w0)"
    "hservers w0 hs = Some \<lparr>tcpServer = sv, has_requestCallback = True\<rparr>" "servers w0 sv = Some s" "http_handlers s" "sv_data s = Some hs"
    "sv_acceptor s = \<lparr>listen_port = SERV_PORT, listen_fd = lfd\<rparr>" "loops w0 l = Some el" "poll_ready (pl_alloc P) (chans w0) self el"
    "loop_reg poll_reg el = ([wfd \<mapsto> q, lfd \<mapsto> p], [wfd \<mapsto> (True, False), lfd \<mapsto> (True, False)])"
    "chans w0 p = Some (channel_new lfd EVENT_READ (Some HandleConnectionEstablished) None (ServerPtr sv))"
    "mainLoop (threadPool s) = l" "pool_of 0 ls (threadPool s)" "length ls = 2" "\<forall>i < 2. fresh_loop P (tids w + i) (ls ! i) w0"
    "l < brk w0" "p < brk w0" "q < brk w0"
    using server_start_state [OF P S, of self w] by (elim exE conjE)
  have "\<exists>f o'. worker_waits P (tids w + i) (ls ! i) f {} w0 \<and> f = snd (fst (sys_socketpair (pl_sys P) o'))" if "i < 2" for i
    using st(14) that unfolding fresh_loop_def worker_waits_def by fastforce
  then obtain f where f: "\<And>i. i < 2 \<Longrightarrow> worker_waits P (tids w + i) (ls ! i) (f i) {} w0 \<and> (\<exists>o'. f i = snd (fst (sys_socketpair (pl_sys P) o')))"
    by metis
  let ?ls = "[(ls ! 0, f 0), (ls ! 1, f 1)]"
  have "map fst ?ls = ls" using st(13) by (auto simp: list_eq_iff_nth_eq nth_Cons split: nat.split)
  then have pool: "pool_of 0 (map fst ?ls) (threadPool s)" using st(12) by simp
  have w: "\<forall>j < length ?ls. worker_waits P (tids w + j) (fst (?ls ! j)) (snd (?ls ! j)) {} w0"
    using f [of 0] f [of 1] by (auto simp: nth_Cons split: nat.split)
  have lf: "listen_fd (sv_acceptor s) = lfd" using st(6) by simp
  have m: "fst (loop_reg poll_reg el) lfd = Some p" "snd (loop_reg poll_reg el) lfd = Some (True, False)"
    "\<forall>x a. fst (loop_reg poll_reg el) x = Some a \<longrightarrow> a < brk w0" using st(9,16,17) by auto
  have "serving P self (tids w) l hs lfd ?ls {} 0 w0"
    unfolding serving_def
    by (rule exI [of _ sv], rule exI [of _ s], rule exI [of _ el], rule exI [of _ p], intro conjI st(2-5) lf st(11) pool st(7,8,15) m st(10) w)
  with st(1) f [of 0] f [of 1] show ?thesis by (intro exI conjI) auto
qed

lemma clients_served_from:
  assumes P: "poll_plat P" "ample P" "pl_sent P" and cells: "int (length (pl_cells P)) \<le> INT_MAX"
    and t: "self < t" "ls \<noteq> []" "length ls < 10 ^ 8"
  shows "serving P self t l hs lfd ls fds i w \<Longrightarrow> list_all (client_ok P lfd) cls \<Longrightarrow> distinct (map cl_fd cls) \<Longrightarrow> cl_fd ` set cls \<inter> (fds \<union> snd ` set ls) = {} \<Longrightarrow>
    finite fds \<Longrightarrow> card fds + length cls \<le> 1000 \<Longrightarrow>
    \<exists>w'. clients_run P self t l lfd ls i cls w = Inr (map (cl_outcome P) cls, w') \<and> serving P self t l hs lfd ls (fds \<union> cl_fd ` set cls) (i + length cls) w'"
proof (induction cls arbitrary: fds i w)
  case (Cons cl cls)
  have "\<forall>x \<in> set ls. snd x \<noteq> cl_fd cl" using Cons.prems(4) by force
  then have cl: "client_ok P lfd cl" "cl_fd cl \<notin> fds" "\<forall>x \<in> set ls. snd x \<noteq> cl_fd cl" "card fds < 1000" using Cons.prems(2,4,6) by auto
  obtain w1 where w1: "client_rounds P self t l lfd ls i cl w = Inr w1" "os w1 = cl_outcome P cl"
    "serving P self t l hs lfd ls (insert (cl_fd cl) fds) (Suc i) w1"
    using client_served [OF P cells Cons.prems(1) t cl(1-3) Cons.prems(5) cl(4)] by blast
  obtain w2 where "clients_run P self t l lfd ls (Suc i) cls w1 = Inr (map (cl_outcome P) cls, w2)"
    "serving P self t l hs lfd ls (insert (cl_fd cl) fds \<union> cl_fd ` set cls) (Suc i + length cls) w2"
    using Cons.IH [OF w1(3)] Cons.prems(2-6) cl(2) by auto
  with w1(1,2) show ?case by simp
qed simp

section \<open>Properties\<close>

text \<open>
  C3. The demo server from its start: of up to 1000 clients that connect one after the other and stay connected, each is sent exactly the response to its
  request.  The main loop accepts the connection when \<open>poll\<close> reports the listening descriptor and queues it on the loop of the thread whose turn it is; that
  thread, when \<open>poll\<close> reports its wake-up descriptor, registers it; and when \<open>poll\<close> reports the connection, reads the request, writes the response and ends the
  connection just when asked to.  After them the server waits for the next client.  Memory suffices and holds anything; the page is that of \<open>page_for\<close>, which depends
  on the missing terminators of url and path, and where these bytes happen to be zero it is the page of the url.
\<close>

theorem clients_served:
  assumes P: "poll_plat P" "ample P" "pl_sent P" and cells: "int (length (pl_cells P)) \<le> INT_MAX"
    and S: "can_listen (pl_sys P) lfd" and self: "self < tids w"
    and cls: "list_all (client_ok P lfd) cls" "distinct (map cl_fd cls)" "length cls \<le> 1000"
    and fds: "\<forall>cl \<in> set cls. \<forall>o'. snd (fst (sys_socketpair (pl_sys P) o')) \<noteq> cl_fd cl"
  shows "(\<exists>l hs w0 ls w'. server01_setup P self w = Inr (l, hs, w0) \<and> length ls = 2 \<and>
      clients_run P self (tids w) l lfd ls 0 cls w0 = Inr (map (cl_outcome P) cls, w') \<and>
      serving P self (tids w) l hs lfd ls (cl_fd ` set cls) (length cls) w') \<and>
    (\<forall>cl \<in> set cls. zero_terminated P (cl_url cl) \<longrightarrow> cl_response P cl = response_text (route (cl_url cl) (fresh_response P)))"
proof
  show "\<forall>cl \<in> set cls. zero_terminated P (cl_url cl) \<longrightarrow> cl_response P cl = response_text (route (cl_url cl) (fresh_response P))"
    using cls(1) by (auto simp: list_all_iff client_ok_def line_ok_def cl_response_def page_for_route)
next
  show "\<exists>l hs w0 ls w'. server01_setup P self w = Inr (l, hs, w0) \<and> length ls = 2 \<and>
      clients_run P self (tids w) l lfd ls 0 cls w0 = Inr (map (cl_outcome P) cls, w') \<and>
      serving P self (tids w) l hs lfd ls (cl_fd ` set cls) (length cls) w'"
  proof -
    obtain l hs w0 ls where st: "server01_setup P self w = Inr (l, hs, w0)" "length ls = 2" "serving P self (tids w) l hs lfd ls {} 0 w0"
      "\<forall>x \<in> set ls. \<exists>o'. snd x = snd (fst (sys_socketpair (pl_sys P) o'))"
      using serving_start [OF P(1) S, of self w] by blast
    have ls: "ls \<noteq> []" "length ls < 10 ^ 8" using st(2) by auto
    have "cl_fd ` set cls \<inter> ({} \<union> snd ` set ls) = {}" using fds st(4) by fastforce
    then obtain w' where "clients_run P self (tids w) l lfd ls 0 cls w0 = Inr (map (cl_outcome P) cls, w')"
      "serving P self (tids w) l hs lfd ls ({} \<union> cl_fd ` set cls) (0 + length cls) w'"
      using clients_served_from [OF P cells self ls st(3) cls(1,2)] cls(3) by auto
    with st(1,2) show ?thesis by auto
  qed
qed

text \<open>A client of the sample platform that asks for the first page and for the connection to be closed.\<close>

definition sample_client :: "(byte list \<times> byte list \<times> int list) client" where
  "sample_client = \<lparr>cl_accept = ([], [], []), cl_fd = 7, cl_read = (sample_get, [], []), cl_method = bytes_of ''GET'', cl_url = bytes_of ''/?a'',
     cl_headers = [(bytes_of ''Connection'', bytes_of ''close'')], cl_rest = []\<rparr>"

theorem clients_served_witness:
  "\<exists>l hs w0 ls w'. server01_setup sample_plat 1 (sample_net []) = Inr (l, hs, w0) \<and>
    clients_run sample_plat 1 5 l 3 ls 0 [sample_client] w0 =
      Inr ([([], response_text (front_page (http_response_new None (Some []))), [7])], w')"
proof -
  have P: "ample sample_plat" "pl_sent sample_plat" "can_listen (pl_sys sample_plat) 3" "int (length (pl_cells sample_plat)) \<le> INT_MAX"
    "1 < tids (sample_net [])"
    using zero_realloc_total by (simp_all add: ample_def can_listen_def INT_MAX_def sample_net_def sample_plat_def sample_sys_def)
  have "line_ok (bytes_of ''GET'') (bytes_of ''/?a'') (bytes_of ''HTTP/1.1'')" by code_simp
  then have "page_for sample_plat (bytes_of ''/?a'') resp = Some (front_page resp)" for resp
    using page_for_route [OF sample_terminated] by (simp add: line_ok_def sample_front_page)
  then have page: "page_for sample_plat (cl_url sample_client) (fresh_response sample_plat) = Some (front_page (http_response_new None (Some [])))"
    by (simp add: sample_client_def fresh_response_def sample_plat_def)
  then have resp: "cl_response sample_plat sample_client = response_text (front_page (http_response_new None (Some [])))"
    by (simp add: cl_response_def)
  have rq: "cl_request sample_client = sample_get" by (simp add: cl_request_def sample_get_def sample_client_def)
  have g: "length sample_get = 39" "line_ok (bytes_of ''GET'') (bytes_of ''/?a'') (bytes_of ''HTTP/1.1'')"
    "list_all header_ok [(bytes_of ''Connection'', bytes_of ''close'')]" "asks_close [(bytes_of ''Connection'', bytes_of ''close'')]" by code_simp+
  have rd: "sys_readv (pl_sys sample_plat) 7 (2 * int INIT_BUFFER_SIZE) (sample_get, [], []) = ((39, sample_get), ([], [], []))"
    using g(1) by (simp add: sample_plat_def sample_sys_def INIT_BUFFER_SIZE_def)
  have ok: "client_ok sample_plat 3 sample_client"
    unfolding client_ok_def rq resp page using g rd by (simp add: sample_client_def) (simp add: sample_plat_def sample_sys_def INIT_BUFFER_SIZE_def)
  have out: "cl_outcome sample_plat sample_client = ([], response_text (front_page (http_response_new None (Some []))), [7])"
    unfolding cl_outcome_def resp using g rd by (simp add: sample_client_def) (simp add: sample_plat_def sample_sys_def)
  have fds: "\<forall>cl \<in> set [sample_client]. \<forall>o'. snd (fst (sys_socketpair (pl_sys sample_plat) o')) \<noteq> cl_fd cl"
    by (simp add: sample_client_def sample_plat_def sample_sys_def)
  have t: "tids (sample_net []) = 5" by (simp add: sample_net_def)
  have c: "list_all (client_ok sample_plat 3) [sample_client]" "distinct (map cl_fd [sample_client])" "length [sample_client] \<le> 1000" using ok by simp_all
  show ?thesis using clients_served [OF poll_plat_sample P(1,2) P(4) P(3) P(5) c fds] unfolding list.map out t by blast
qed

end
