(* ===== verification/Test_Program.thy ===== *)
theory Test_Program
  imports Http_Exchange
begin

text \<open>
  The main program of \<^verbatim>\<open>src/http_server_test.c\<close>: it parses a fixed request, prints its headers and encodes the response to it.
\<close>

section \<open>The code\<close>

definition request_data :: "byte list" where
  "request_data = bytes_of ''GET / HTTP/1.1'' @ CRLF @ bytes_of ''Host: localhost:43211'' @ CRLF @ bytes_of ''User-Agent: curl/7.54.0'' @ CRLF @
     bytes_of ''Accept: */*'' @ CRLF @ CRLF"

definition print_string :: "byte list \<Rightarrow> byte list c_res" where
  "print_string s = c_bind (c_strlen s) (\<lambda>n. Inr (take (nat n) s))"

fun print_headers :: "nat \<Rightarrow> request_header list \<Rightarrow> byte list c_res" where
  "print_headers 0 hs = Inr []"
| "print_headers (Suc n) [] = Inl OutOfBounds"
| "print_headers (Suc n) (h # hs) =
     c_bind (print_string (hkey h)) (\<lambda>k.
     c_bind (print_string (hval h)) (\<lambda>v.
     c_bind (print_headers n hs) (\<lambda>out.
     Inr (bytes_of ''key == '' @ k @ bytes_of '', value == '' @ v @ [10] @ out))))"

definition on_buffer :: "buffer option \<Rightarrow> (buffer \<Rightarrow> 'r c_res) \<Rightarrow> 'r c_res" where
  "on_buffer b f = (case b of None \<Rightarrow> Inl NullDeref | Some b \<Rightarrow> f b)"

text \<open>The result: what is printed, and the buffer the response is in.\<close>

definition test_program :: "('d, 'o) plat \<Rightarrow> ('d, 'o) net \<Rightarrow> (byte list \<times> buffer) c_res" where
  "test_program P w =
     (let (b, w) = new_buffer P w in
      on_buffer b (\<lambda>b.
      c_bind (buffer_append_string (pl_realloc P) b (Some (request_data @ [0]))) (\<lambda>b.
      c_bind (new_request P w) (\<lambda>(r, w).
      case parse_http_request (block_junk P) (b, r, 0) of
        None \<Rightarrow> Inl NoReturn
      | Some res \<Rightarrow>
          c_bind res (\<lambda>(ok, b, r, n).
          c_bind (case request_headers r of None \<Rightarrow> if request_headers_number r \<le> 0 then Inr [] else Inl NullDeref
                  | Some hs \<Rightarrow> print_headers (nat (request_headers_number r)) hs) (\<lambda>out.
          c_bind (new_response P (w\<lparr>stray := stray w + n\<rparr>)) (\<lambda>(resp, w).
          c_bind (onRequest_test P r resp w) (\<lambda>(resp, w).
          let (b, w) = new_buffer P w in
          on_buffer b (\<lambda>b.
          c_bind (http_response_encode_buffer (pl_realloc P) resp b) (\<lambda>b.
          Inr (out, b)))))))))))"

section \<open>What it does\<close>

definition test_page :: string where
  "test_page = ''<html><head><title>This is network programming</title></head><body><h1>Hello, network programing</h1></body></html>''"

definition data_headers :: "(byte list \<times> byte list) list" where
  "data_headers = [(bytes_of ''Host'', bytes_of ''localhost:43211''), (bytes_of ''User-Agent'', bytes_of ''curl/7.54.0''), (bytes_of ''Accept'', bytes_of ''*/*'')]"

lemma request_data_render: "request_data = render_request (bytes_of ''GET'') (bytes_of ''/'') (bytes_of ''HTTP/1.1'') data_headers @ []"
  by code_simp

lemma print_string_term: "0 \<notin> set s \<Longrightarrow> print_string (s @ 0 # ys) = Inr s"
  by (simp add: print_string_def c_strlen_term)

lemma print_headers_cells:
  assumes "list_all header_ok hs"
  shows "print_headers (length hs) (map header_cell hs @ cells) =
    Inr (concat (map (\<lambda>(k, v). bytes_of ''key == '' @ k @ bytes_of '', value == '' @ v @ [10]) hs))"
  using assms by (induction hs) (auto simp: header_cell_def header_ok_def print_string_term split: prod.split)

text \<open>
  With enough memory, and where the two bytes that miss as terminators of url and path happen to be zero: the program prints the three headers of its request and
  its response is that of the index page.
\<close>

theorem test_program_result:
  assumes P: "ample P" "zero_terminated P (bytes_of ''/'')" and cells: "3 \<le> length (pl_cells P)" "int (length (pl_cells P)) \<le> INT_MAX"
  shows "\<exists>b. test_program P w =
      Inr (concat (map (\<lambda>(k, v). bytes_of ''key == '' @ k @ bytes_of '', value == '' @ v @ [10]) data_headers), b) \<and>
    content b = response_text (answer OK ''OK'' ''text/html'' test_page (http_response_new (pl_ctype P) (Some (pl_rcells P))))"
proof -
  have re: "realloc_total (pl_realloc P)" and d: "diff_ok (pl_diff P)" using P(1) by (simp_all add: ample_def)
  note e = empty_buffer_ok [OF ample_mem [OF P(1)]]
  have data: "string_free request_data" "length request_data = 79" "list_all header_ok data_headers" "length data_headers = 3"
    "line_ok (bytes_of ''GET'') (bytes_of ''/'') (bytes_of ''HTTP/1.1'')" unfolding string_free_def by code_simp+
  have room: "buffer_room (empty_buffer P) (length request_data + 0)"
    using e data(2) by (simp add: buffer_room_def INIT_BUFFER_SIZE_def INT_MAX_def)
  obtain b1 where b1: "buffer_append_string (pl_realloc P) (empty_buffer P) (Some (request_data @ [0])) = Inr b1" "buffer_inv b1" "content b1 = request_data"
    using string_sink.put_law [of "empty_buffer P" "pl_realloc P" request_data 0] e re data(1) room by auto
  let ?q = "http_request_new (Some (pl_cells P))"
  let ?r = "parsed_request (block_junk P) (bytes_of ''GET'') (bytes_of ''/'') (bytes_of ''HTTP/1.1'') data_headers (pl_cells P) ?q"
  have q: "current_state ?q = REQUEST_STATUS" "request_headers ?q = Some (pl_cells P)" "request_headers_number ?q = 0" by (simp_all add: http_request_new_def)
  obtain b2 where b2: "parse_http_request (block_junk P) (b1, ?q, 0) = Some (Inr (1, b2, ?r, 3))"
    using parse_rendered_request_aux [OF b1(2) _ data(5,3) q, of "[]" "block_junk P" 0] b1(3) request_data_render cells data(4) by auto
  let ?resp = "http_response_new (pl_ctype P) (Some (pl_rcells P))"
  let ?page = "answer OK ''OK'' ''text/html'' test_page ?resp"
  have r: "request_headers ?r = Some (map header_cell data_headers @ drop 3 (pl_cells P))" "request_headers_number ?r = 3"
    using data(4) by (simp_all add: parsed_request_def fill_cells_def)
  have printed: "print_headers 3 (map header_cell data_headers @ drop 3 (pl_cells P)) =
      Inr (concat (map (\<lambda>(k, v). bytes_of ''key == '' @ k @ bytes_of '', value == '' @ v @ [10]) data_headers))"
    using print_headers_cells [OF data(3)] data(4) by simp
  have z: "block_junk P (Suc (length (bytes_of ''/''))) = 0" using P(2) by (simp add: zero_terminated_def)
  then have u: "url ?r = Some (bytes_of ''/'' @ 0 # [0])" by simp
  have nq: "takeWhile (\<lambda>c. c \<noteq> 63) (bytes_of ''/'') = bytes_of ''/''" by code_simp
  obtain ys where ys: "pl_behind P (length (bytes_of ''/'')) = 0 # ys" using P(2) z nq by (auto simp: zero_terminated_def seen_path_def)
  have on: "\<exists>n. onRequest_test P ?r ?resp w = Inr (?page, w\<lparr>stray := n\<rparr>)" for w
  proof -
    obtain n where "path_is P (bytes_of ''/'') ''/'' w = Inr (True, w\<lparr>stray := stray w + n\<rparr>)"
      using path_is_law [OF d literals_free(1,1), of w] agrees_terminated [OF literals_free(1,1)] unfolding ys by auto
    then show ?thesis
      using u request_path_law [OF P(1) literals_free(1), of "[0]" w] nq
      by (intro exI [of _ "stray w + n"]) (simp add: onRequest_test_def onRequest_for_def test_page_def)
  qed
  obtain n where n: "onRequest_test P ?r ?resp (w\<lparr>stray := stray w + 3\<rparr>) = Inr (?page, w\<lparr>stray := n\<rparr>)" using on [of "w\<lparr>stray := stray w + 3\<rparr>"] by auto
  have short: "length (str_of (Some (c_lit test_page))) < 10 ^ 13"
  proof -
    have "length (str_of (Some (c_lit test_page))) \<le> length (c_lit test_page)" by (simp add: str_of_def length_takeWhile_le)
    moreover have "length (c_lit test_page) = 116" by code_simp
    ultimately show ?thesis by (auto intro: le_less_trans)
  qed
  have ok: "response_ok ?page" "body ?page \<noteq> None"
    using short by (simp_all add: answer_def http_response_new_def response_ok_def headers_used_def c_lit_def)
  have "length (response_text (answer OK ''OK'' ''text/html'' test_page (http_response_new None None))) < 1000" by code_simp
  then have "length (response_text ?page) < 1000" by (simp add: answer_def http_response_new_def response_text_def headers_used_def)
  then have "total_size (empty_buffer P) + int (length (response_text ?page)) \<le> INT_MAX" using e by (simp add: INIT_BUFFER_SIZE_def INT_MAX_def)
  from encode_response_text_aux [OF _ re ok(1) this] e ok(2)
  obtain b3 where b3: "http_response_encode_buffer (pl_realloc P) ?page (empty_buffer P) = Inr b3" "content b3 = response_text ?page" by auto
  have rq: "new_request P w = Inr (?q, w)" for w using P(1) by (simp add: new_request_def)
  have "test_program P w = Inr (concat (map (\<lambda>(k, v). bytes_of ''key == '' @ k @ bytes_of '', value == '' @ v @ [10]) data_headers), b3)"
    using P(1) b1(1) rq b2 r printed n b3(1) by (simp add: test_program_def on_buffer_def Let_def del: c_bind_eq_Inr_iff)
  with b3(2) show ?thesis by blast
qed

end
