(* ===== verification/Worker_Pool.thy ===== *)
theory Worker_Pool
  imports Prelude "HOL-Library.Multiset"
begin

text \<open>
  \<^verbatim>\<open>ThreadPool/ThreadPool.h\<close>: workers that take tasks from a queue under a mutex and a condition variable, callers that enqueue tasks, and the destructor.
  A thread is a control point; what it does between two synchronisation calls is one step, and the steps of all threads interleave.
  The object is taken to outlive the calls of \<open>enqueue\<close> in progress.
\<close>

section \<open>The code\<close>

text \<open>
  A worker: before the lock, in the predicate of \<open>wait\<close>, waiting, behind \<open>wait\<close>, running a task, returned.  A call of \<open>enqueue\<close>: before the lock, with it,
  before \<open>notify_one\<close>, returned or left by the exception.  The destructor: before the lock, with it, before \<open>notify_all\<close>, joining a worker, done.
\<close>

datatype 'a worker_at = W_lock | W_test | W_wait | W_take | W_run 'a | W_exit
datatype 'a enqueue_at = E_lock 'a | E_push 'a | E_notify 'a | E_returned 'a | E_thrown 'a
datatype dtor_at = D_lock | D_stop | D_notify | D_join nat | D_done
datatype agent = Worker nat | Caller nat | Destructor

text \<open>\<open>accepted\<close>, \<open>taken\<close> and \<open>executed\<close> record which tasks have been pushed, popped and run to their end.\<close>

record 'a pool =
  workers :: "'a worker_at list"
  tasks :: "'a list"
  queue_mutex :: "agent option"
  stop :: bool
  callers :: "'a enqueue_at list"
  dtor :: dtor_at
  accepted :: "'a list"
  taken :: "'a list"
  executed :: "'a list"

definition ThreadPool :: "nat \<Rightarrow> 'a list \<Rightarrow> 'a pool" where
  "ThreadPool threads ts =
     \<lparr>workers = replicate threads W_lock, tasks = [], queue_mutex = None, stop = False, callers = map E_lock ts, dtor = D_lock,
      accepted = [], taken = [], executed = []\<rparr>"

definition to_worker :: "nat \<Rightarrow> 'a worker_at \<Rightarrow> 'a pool \<Rightarrow> 'a pool" where
  "to_worker i w s = s\<lparr>workers := (workers s)[i := w]\<rparr>"

definition to_caller :: "nat \<Rightarrow> 'a enqueue_at \<Rightarrow> 'a pool \<Rightarrow> 'a pool" where
  "to_caller k c s = s\<lparr>callers := (callers s)[k := c]\<rparr>"

definition lock_queue :: "agent \<Rightarrow> 'a pool \<Rightarrow> 'a pool option" where
  "lock_queue a s = (if queue_mutex s = None then Some (s\<lparr>queue_mutex := Some a\<rparr>) else None)"

text \<open>\<open>None\<close> when the thread cannot move: it is blocked, waits, has ended, or would take the front of an empty queue.\<close>

definition worker_step :: "nat \<Rightarrow> 'a pool \<Rightarrow> 'a pool option" where
  "worker_step i s =
     (case workers s ! i of
        W_lock \<Rightarrow> map_option (to_worker i W_test) (lock_queue (Worker i) s)
      | W_test \<Rightarrow> Some (if stop s \<or> tasks s \<noteq> [] then to_worker i W_take s else to_worker i W_wait (s\<lparr>queue_mutex := None\<rparr>))
      | W_wait \<Rightarrow> None
      | W_take \<Rightarrow>
          (case tasks s of
             [] \<Rightarrow> if stop s then Some (to_worker i W_exit (s\<lparr>queue_mutex := None\<rparr>)) else None
           | t # ts \<Rightarrow> Some (to_worker i (W_run t) (s\<lparr>tasks := ts, taken := taken s @ [t], queue_mutex := None\<rparr>)))
      | W_run t \<Rightarrow> Some (to_worker i W_lock (s\<lparr>executed := executed s @ [t]\<rparr>))
      | W_exit \<Rightarrow> None)"

definition waits :: "'a worker_at \<Rightarrow> bool" where
  "waits w \<longleftrightarrow> (case w of W_wait \<Rightarrow> True | _ \<Rightarrow> False)"

text \<open>\<open>notify_one\<close> wakes some waiting worker \<open>j\<close>; \<open>notify_all\<close> wakes them all.  Who is woken has to lock the mutex again.\<close>

definition notify_one :: "nat \<Rightarrow> 'a pool \<Rightarrow> 'a pool option" where
  "notify_one j s =
     (if \<not> list_ex waits (workers s) then Some s
      else if j < length (workers s) \<and> waits (workers s ! j) then Some (to_worker j W_lock s) else None)"

definition notify_all :: "'a pool \<Rightarrow> 'a pool" where
  "notify_all s = s\<lparr>workers := map (\<lambda>w. if waits w then W_lock else w) (workers s)\<rparr>"

definition enqueue_step :: "nat \<Rightarrow> nat \<Rightarrow> 'a pool \<Rightarrow> 'a pool option" where
  "enqueue_step k j s =
     (case callers s ! k of
        E_lock t \<Rightarrow> map_option (to_caller k (E_push t)) (lock_queue (Caller k) s)
      | E_push t \<Rightarrow>
          Some (if stop s then to_caller k (E_thrown t) (s\<lparr>queue_mutex := None\<rparr>)
                else to_caller k (E_notify t) (s\<lparr>tasks := tasks s @ [t], accepted := accepted s @ [t], queue_mutex := None\<rparr>))
      | E_notify t \<Rightarrow> map_option (to_caller k (E_returned t)) (notify_one j s)
      | _ \<Rightarrow> None)"

definition destroy_step :: "'a pool \<Rightarrow> 'a pool option" where
  "destroy_step s =
     (case dtor s of
        D_lock \<Rightarrow> map_option (\<lambda>s. s\<lparr>dtor := D_stop\<rparr>) (lock_queue Destructor s)
      | D_stop \<Rightarrow> Some (s\<lparr>stop := True, queue_mutex := None, dtor := D_notify\<rparr>)
      | D_notify \<Rightarrow> Some (notify_all s\<lparr>dtor := D_join 0\<rparr>)
      | D_join i \<Rightarrow>
          if length (workers s) \<le> i then Some (s\<lparr>dtor := D_done\<rparr>)
          else (case workers s ! i of W_exit \<Rightarrow> Some (s\<lparr>dtor := D_join (i + 1)\<rparr>) | _ \<Rightarrow> None)
      | D_done \<Rightarrow> None)"

inductive pool_step :: "'a pool \<Rightarrow> 'a pool \<Rightarrow> bool" where
  worker: "i < length (workers s) \<Longrightarrow> worker_step i s = Some s' \<Longrightarrow> pool_step s s'"
| caller: "k < length (callers s) \<Longrightarrow> enqueue_step k j s = Some s' \<Longrightarrow> pool_step s s'"
| destructor: "destroy_step s = Some s' \<Longrightarrow> pool_step s s'"

text \<open>A waiting worker may also wake up for no reason.\<close>

inductive pool_reach :: "nat \<Rightarrow> 'a list \<Rightarrow> 'a pool \<Rightarrow> bool" for threads ts where
  start: "pool_reach threads ts (ThreadPool threads ts)"
| step: "pool_reach threads ts s \<Longrightarrow> pool_step s s' \<Longrightarrow> pool_reach threads ts s'"
| spurious: "pool_reach threads ts s \<Longrightarrow> i < length (workers s) \<Longrightarrow> waits (workers s ! i) \<Longrightarrow> pool_reach threads ts (to_worker i W_lock s)"

section \<open>Invariant\<close>

fun inside :: "'a pool \<Rightarrow> agent \<Rightarrow> bool" where
  "inside s (Worker i) \<longleftrightarrow> i < length (workers s) \<and> (workers s ! i = W_test \<or> workers s ! i = W_take)"
| "inside s (Caller k) \<longleftrightarrow> k < length (callers s) \<and> (\<exists>t. callers s ! k = E_push t)"
| "inside s Destructor \<longleftrightarrow> dtor s = D_stop"

fun runs :: "'a worker_at \<Rightarrow> 'a multiset" where
  "runs (W_run t) = {#t#}" | "runs _ = {#}"

fun pushed :: "'a enqueue_at \<Rightarrow> 'a multiset" where
  "pushed (E_notify t) = {#t#}" | "pushed (E_returned t) = {#t#}" | "pushed _ = {#}"

text \<open>The queue and its histories.\<close>

definition queue_inv :: "'a pool \<Rightarrow> bool" where
  "queue_inv s \<longleftrightarrow> accepted s = taken s @ tasks s \<and> mset (taken s) = mset (executed s) + sum_list (map runs (workers s)) \<and>
     mset (accepted s) = sum_list (map pushed (callers s))"

text \<open>The mutex.\<close>

definition mutex_inv :: "'a pool \<Rightarrow> bool" where
  "mutex_inv s \<longleftrightarrow> (\<forall>a. queue_mutex s = Some a \<longleftrightarrow> inside s a)"

text \<open>The end: workers exit when the pool stops with an empty queue; no one waits once all have been notified.\<close>

definition stop_inv :: "'a pool \<Rightarrow> bool" where
  "stop_inv s \<longleftrightarrow> (stop s \<longleftrightarrow> dtor s \<noteq> D_lock \<and> dtor s \<noteq> D_stop) \<and>
     (W_exit \<in> set (workers s) \<longrightarrow> stop s \<and> tasks s = []) \<and> (W_take \<in> set (workers s) \<longrightarrow> stop s \<or> tasks s \<noteq> []) \<and>
     (\<forall>j. dtor s = D_join j \<or> dtor s = D_done \<longrightarrow> W_wait \<notin> set (workers s)) \<and>
     (\<forall>j. dtor s = D_join j \<longrightarrow> (\<forall>i < j. i < length (workers s) \<longrightarrow> workers s ! i = W_exit)) \<and>
     (dtor s = D_done \<longrightarrow> set (workers s) \<subseteq> {W_exit})"

text \<open>
  No notification is lost: while a worker sleeps, every task in the queue has a worker on its way to the queue or a call that is about to notify one.
\<close>

fun coming :: "'a worker_at \<Rightarrow> nat" where
  "coming W_lock = 1" | "coming W_test = 1" | "coming W_take = 1" | "coming _ = 0"

fun notifying :: "'a enqueue_at \<Rightarrow> nat" where
  "notifying (E_notify t) = 1" | "notifying _ = 0"

definition notified :: "'a pool \<Rightarrow> bool" where
  "notified s \<longleftrightarrow> (W_wait \<in> set (workers s) \<longrightarrow> length (tasks s) \<le> sum_list (map coming (workers s)) + sum_list (map notifying (callers s)))"

definition pool_inv :: "'a pool \<Rightarrow> bool" where
  "pool_inv s \<longleftrightarrow> mutex_inv s \<and> queue_inv s \<and> stop_inv s \<and> notified s"

section \<open>The invariant is kept\<close>

lemma inside_update [simp]:
  "inside (s\<lparr>tasks := x\<rparr>) a = inside s a" "inside (s\<lparr>queue_mutex := m\<rparr>) a = inside s a" "inside (s\<lparr>stop := st\<rparr>) a = inside s a"
  "inside (s\<lparr>accepted := x\<rparr>) a = inside s a" "inside (s\<lparr>taken := x\<rparr>) a = inside s a" "inside (s\<lparr>executed := x\<rparr>) a = inside s a"
  by (cases a; simp)+

lemma inside_worker: "i < length (workers s) \<Longrightarrow> inside (to_worker i w s) a = (if a = Worker i then w = W_test \<or> w = W_take else inside s a)"
  by (cases a) (auto simp: to_worker_def nth_list_update)

lemma inside_caller: "k < length (callers s) \<Longrightarrow> inside (to_caller k c s) a = (if a = Caller k then (\<exists>t. c = E_push t) else inside s a)"
  by (cases a) (auto simp: to_caller_def nth_list_update)

lemma inside_dtor: "inside (s\<lparr>dtor := d\<rparr>) a = (if a = Destructor then d = D_stop else inside s a)"
  by (cases a) simp_all

lemma mutex_change:
  assumes inv: "mutex_inv s" and "\<And>b. b \<noteq> a \<Longrightarrow> inside s' b = inside s b"
    and "queue_mutex s' = queue_mutex s \<and> inside s' a = inside s a \<or> queue_mutex s = None \<and> queue_mutex s' = Some a \<and> inside s' a \<or>
      inside s a \<and> queue_mutex s' = None \<and> \<not> inside s' a"
  shows "mutex_inv s'"
proof -
  have m: "queue_mutex s = Some b \<longleftrightarrow> inside s b" for b using inv by (simp add: mutex_inv_def)
  have "queue_mutex s' = Some b \<longleftrightarrow> inside s' b" for b
    using assms(3) m [of a] m [of b] assms(2) [of b] by (cases "b = a") auto
  then show ?thesis by (simp add: mutex_inv_def)
qed

lemma waits_iff: "waits w \<longleftrightarrow> w = W_wait"
  by (cases w) (simp_all add: waits_def)

text \<open>Worker fields of the state after an update, and the sums and sets over the threads.\<close>

lemma to_worker_fields [simp]:
  "workers (to_worker i w s) = (workers s)[i := w]" "tasks (to_worker i w s) = tasks s" "queue_mutex (to_worker i w s) = queue_mutex s"
  "stop (to_worker i w s) = stop s" "callers (to_worker i w s) = callers s" "dtor (to_worker i w s) = dtor s"
  "accepted (to_worker i w s) = accepted s" "taken (to_worker i w s) = taken s" "executed (to_worker i w s) = executed s"
  by (simp_all add: to_worker_def)

lemma to_caller_fields [simp]:
  "callers (to_caller i w s) = (callers s)[i := w]" "tasks (to_caller i w s) = tasks s" "queue_mutex (to_caller i w s) = queue_mutex s"
  "stop (to_caller i w s) = stop s" "workers (to_caller i w s) = workers s" "dtor (to_caller i w s) = dtor s"
  "accepted (to_caller i w s) = accepted s" "taken (to_caller i w s) = taken s" "executed (to_caller i w s) = executed s"
  by (simp_all add: to_caller_def)

lemma ThreadPool_inv: "pool_inv (ThreadPool threads ts)"
proof -
  have "\<not> inside (ThreadPool threads ts) a" for a by (cases a) (auto simp: ThreadPool_def)
  moreover have "sum_list (map runs (replicate threads W_lock)) = {#}" "sum_list (map pushed (map E_lock ts)) = {#}"
    by (induction threads) (simp_all, induction ts, simp_all)
  ultimately show ?thesis by (auto simp: pool_inv_def mutex_inv_def queue_inv_def stop_inv_def notified_def ThreadPool_def)
qed

lemma queue_invD:
  assumes "queue_inv s"
  shows "accepted s = taken s @ tasks s" "mset (taken s) = mset (executed s) + sum_list (map runs (workers s))"
    "sum_list (map pushed (callers s)) = mset (taken s) + mset (tasks s)"
proof -
  show a: "accepted s = taken s @ tasks s" and "mset (taken s) = mset (executed s) + sum_list (map runs (workers s))"
    using assms by (simp_all add: queue_inv_def)
  have "mset (accepted s) = sum_list (map pushed (callers s))" using assms unfolding queue_inv_def by blast
  with a show "sum_list (map pushed (callers s)) = mset (taken s) + mset (tasks s)" by simp
qed

text \<open>One thread at most is inside its critical section.\<close>

lemma one_inside: "mutex_inv s \<Longrightarrow> inside s a \<Longrightarrow> inside s b \<Longrightarrow> a = b"
  unfolding mutex_inv_def by (metis option.inject)

lemma set_but_nth: "i < length xs \<Longrightarrow> x \<in> set (but_nth i xs) \<Longrightarrow> \<exists>j < length xs. j \<noteq> i \<and> xs ! j = x"
proof -
  assume i: "i < length xs" and x: "x \<in> set (but_nth i xs)"
  then consider "x \<in> set (take i xs)" | "x \<in> set (drop (Suc i) xs)" by (auto simp: but_nth_def)
  then show ?thesis
  proof cases
    case 1
    then obtain j where "j < i" "xs ! j = x" by (auto simp: in_set_conv_nth)
    with i show ?thesis by (intro exI [of _ j]) simp
  next
    case 2
    then obtain j where "j < length xs - Suc i" "drop (Suc i) xs ! j = x" by (auto simp: in_set_conv_nth)
    with i show ?thesis by (intro exI [of _ "Suc i + j"]) simp
  qed
qed

lemma only_taker:
  assumes "mutex_inv s" and "i < length (workers s)" and "workers s ! i = W_take"
  shows "W_take \<notin> set (but_nth i (workers s))"
proof
  assume "W_take \<in> set (but_nth i (workers s))"
  from set_but_nth [OF assms(2) this] obtain j where "j < length (workers s)" "j \<noteq> i" "workers s ! j = W_take" by blast
  with one_inside [OF assms(1), of "Worker i" "Worker j"] assms(2,3) show False by simp
qed

lemma wake_inv:
  assumes inv: "pool_inv s" and i: "i < length (workers s)" "waits (workers s ! i)"
  shows "pool_inv (to_worker i W_lock s)"
proof -
  have w: "workers s ! i = W_wait" using i(2) by (simp add: waits_iff)
  note b = but_nth_update [OF i(1)]
  have "mutex_inv (to_worker i W_lock s)"
    by (rule mutex_change [of s "Worker i"]) (use inv i w in \<open>simp_all add: pool_inv_def inside_worker\<close>)
  moreover have "queue_inv (to_worker i W_lock s)" 
  proof -
    have q: "queue_inv s" using inv by (simp add: pool_inv_def)
    show ?thesis using queue_invD [OF q] w b(3,4) [where f = runs] by (simp add: queue_inv_def)
  qed
  moreover have "stop_inv (to_worker i W_lock s)"
    using inv w b(1,2) i unfolding pool_inv_def stop_inv_def by (auto simp: nth_list_update)
  moreover have "notified (to_worker i W_lock s)"
    using inv w b(1,2) b(3,4) [where f = coming] by (simp add: pool_inv_def notified_def)
  ultimately show ?thesis by (simp add: pool_inv_def)
qed

lemma worker_step_cases:
  assumes "worker_step i s = Some s'"
  obtains (lock) "workers s ! i = W_lock" "queue_mutex s = None" "s' = to_worker i W_test (s\<lparr>queue_mutex := Some (Worker i)\<rparr>)"
  | (ready) "workers s ! i = W_test" "stop s \<or> tasks s \<noteq> []" "s' = to_worker i W_take s"
  | (sleep) "workers s ! i = W_test" "\<not> stop s" "tasks s = []" "s' = to_worker i W_wait (s\<lparr>queue_mutex := None\<rparr>)"
  | (leave) "workers s ! i = W_take" "stop s" "tasks s = []" "s' = to_worker i W_exit (s\<lparr>queue_mutex := None\<rparr>)"
  | (pop) t ts where "workers s ! i = W_take" "tasks s = t # ts"
      "s' = to_worker i (W_run t) (s\<lparr>tasks := ts, taken := taken s @ [t], queue_mutex := None\<rparr>)"
  | (run) t where "workers s ! i = W_run t" "s' = to_worker i W_lock (s\<lparr>executed := executed s @ [t]\<rparr>)"
  using assms by (auto simp: worker_step_def lock_queue_def split: worker_at.splits if_splits list.splits)

lemma worker_step_mutex:
  assumes inv: "mutex_inv s" and i: "i < length (workers s)" and step: "worker_step i s = Some s'"
  shows "mutex_inv s'"
  using step
proof (cases rule: worker_step_cases)
  case lock
  show ?thesis by (rule mutex_change [OF inv, of "Worker i"]) (use lock i in \<open>simp_all add: inside_worker\<close>)
next
  case ready
  show ?thesis by (rule mutex_change [OF inv, of "Worker i"]) (use ready i in \<open>simp_all add: inside_worker\<close>)
next
  case sleep
  show ?thesis by (rule mutex_change [OF inv, of "Worker i"]) (use sleep i in \<open>simp_all add: inside_worker\<close>)
next
  case leave
  show ?thesis by (rule mutex_change [OF inv, of "Worker i"]) (use leave i in \<open>simp_all add: inside_worker\<close>)
next
  case pop
  show ?thesis by (rule mutex_change [OF inv, of "Worker i"]) (use pop i in \<open>simp_all add: inside_worker\<close>)
next
  case run
  show ?thesis by (rule mutex_change [OF inv, of "Worker i"]) (use run i in \<open>simp_all add: inside_worker\<close>)
qed

lemma worker_step_queue:
  assumes inv: "queue_inv s" and i: "i < length (workers s)" and step: "worker_step i s = Some s'"
  shows "queue_inv s'"
proof -
  note b = but_nth_update(3,4) [OF i, where f = runs]
  have q: "accepted s = taken s @ tasks s" "mset (taken s) = mset (executed s) + sum_list (map runs (workers s))"
    "sum_list (map pushed (callers s)) = mset (taken s) + mset (tasks s)" using queue_invD [OF inv] by simp_all
  show ?thesis using step by (cases rule: worker_step_cases) (use q(1,2) in \<open>simp_all add: queue_inv_def q(3) b ac_simps\<close>)
qed

lemma worker_step_stop:
  assumes inv: "stop_inv s" "mutex_inv s" and i: "i < length (workers s)" and step: "worker_step i s = Some s'"
  shows "stop_inv s'"
proof -
  note b = but_nth_update(1,2) [OF i]
  have up: "l < length (workers s) \<Longrightarrow> workers s ! l = W_exit \<Longrightarrow> workers s ! i \<noteq> W_exit \<Longrightarrow> (workers s)[i := v] ! l = W_exit" for l v
    by (cases "l = i") simp_all
  show ?thesis
    using step by (cases rule: worker_step_cases) (use inv(1) up i only_taker [OF inv(2) i] in \<open>auto simp: stop_inv_def b\<close>)
qed

lemma worker_step_notified:
  assumes inv: "notified s" and i: "i < length (workers s)" and step: "worker_step i s = Some s'"
  shows "notified s'"
proof -
  note b = but_nth_update(1,2) [OF i] but_nth_update(3,4) [OF i, where f = coming]
  show ?thesis using step by (cases rule: worker_step_cases) (use inv(1) in \<open>auto simp: notified_def b\<close>)
qed

lemma enqueue_step_cases:
  assumes "enqueue_step k j s = Some s'"
  obtains (lock) t where "callers s ! k = E_lock t" "queue_mutex s = None" "s' = to_caller k (E_push t) (s\<lparr>queue_mutex := Some (Caller k)\<rparr>)"
  | (throw) t where "callers s ! k = E_push t" "stop s" "s' = to_caller k (E_thrown t) (s\<lparr>queue_mutex := None\<rparr>)"
  | (push) t where "callers s ! k = E_push t" "\<not> stop s"
      "s' = to_caller k (E_notify t) (s\<lparr>tasks := tasks s @ [t], accepted := accepted s @ [t], queue_mutex := None\<rparr>)"
  | (no_one) t where "callers s ! k = E_notify t" "W_wait \<notin> set (workers s)" "s' = to_caller k (E_returned t) s"
  | (notify) t where "callers s ! k = E_notify t" "j < length (workers s)" "waits (workers s ! j)" "s' = to_caller k (E_returned t) (to_worker j W_lock s)"
  using assms by (auto simp: enqueue_step_def lock_queue_def notify_one_def list_ex_iff waits_iff split: enqueue_at.splits if_splits)

text \<open>A caller moves without the workers: what has to hold of the queue.\<close>

lemma caller_notified:
  assumes n: "notified s" and k: "k < length (callers s)" and w: "workers s' = workers s" and c: "callers s' = (callers s)[k := c]"
    and t: "length (tasks s') + notifying (callers s ! k) \<le> length (tasks s) + notifying c"
  shows "notified s'"
  using n t but_nth_update(3,4) [OF k, where f = notifying] by (auto simp: notified_def w c)

lemma stop_inv_same:
  "stop_inv s \<Longrightarrow> workers s' = workers s \<Longrightarrow> dtor s' = dtor s \<Longrightarrow> stop s' = stop s \<Longrightarrow> tasks s' = tasks s \<or> (\<not> stop s \<and> tasks s' \<noteq> []) \<Longrightarrow> stop_inv s'"
  unfolding stop_inv_def by auto

lemma queue_inv_same:
  "queue_inv s \<Longrightarrow> accepted s' = accepted s \<Longrightarrow> taken s' = taken s \<Longrightarrow> tasks s' = tasks s \<Longrightarrow> executed s' = executed s \<Longrightarrow> callers s' = callers s \<Longrightarrow>
   sum_list (map runs (workers s')) = sum_list (map runs (workers s)) \<Longrightarrow> queue_inv s'"
  unfolding queue_inv_def by metis

lemma stop_invD:
  assumes "stop_inv s"
  shows "dtor s = D_join j \<Longrightarrow> W_wait \<notin> set (workers s)" "dtor s = D_done \<Longrightarrow> set (workers s) \<subseteq> {W_exit}"
    "W_exit \<in> set (workers s) \<Longrightarrow> tasks s = []" "W_take \<in> set (workers s) \<Longrightarrow> stop s \<or> tasks s \<noteq> []"
  using assms unfolding stop_inv_def by blast+

lemma enqueue_step_inv:
  assumes inv: "pool_inv s" and k: "k < length (callers s)" and step: "enqueue_step k j s = Some s'"
  shows "pool_inv s'"
proof -
  note b = but_nth_update(3,4) [OF k, where f = pushed]
  have p: "mutex_inv s" "queue_inv s" "stop_inv s" "notified s" using inv by (simp_all add: pool_inv_def)
  note q = queue_invD [OF p(2)]
  have mset_accepted: "mset (accepted s) = mset (taken s) + mset (tasks s)" using q(1) by simp
  note m = mutex_change [OF p(1), of "Caller k"]
  from step show ?thesis
  proof (cases rule: enqueue_step_cases)
    case (lock t)
    have "mutex_inv s'" by (rule m) (use lock k in \<open>simp_all add: inside_caller\<close>)
    moreover have "notified s'" by (rule caller_notified [OF p(4) k, of _ "E_push t"]) (use lock in simp_all)
    moreover have "queue_inv s'" using q b lock by (simp add: queue_inv_def)
    ultimately show ?thesis using stop_inv_same [OF p(3), of s'] lock by (simp add: pool_inv_def)
  next
    case (throw t)
    have "mutex_inv s'" by (rule m) (use throw k in \<open>simp_all add: inside_caller\<close>)
    moreover have "notified s'" by (rule caller_notified [OF p(4) k, of _ "E_thrown t"]) (use throw in simp_all)
    moreover have "queue_inv s'" using q b throw by (simp add: queue_inv_def)
    ultimately show ?thesis using stop_inv_same [OF p(3), of s'] throw by (simp add: pool_inv_def)
  next
    case (push t)
    have "mutex_inv s'" by (rule m) (use push k in \<open>simp_all add: inside_caller\<close>)
    moreover have "notified s'" by (rule caller_notified [OF p(4) k, of _ "E_notify t"]) (use push in simp_all)
    moreover have "queue_inv s'" using q b push by (simp add: queue_inv_def)
    ultimately show ?thesis using stop_inv_same [OF p(3), of s'] push by (simp add: pool_inv_def)
  next
    case (no_one t)
    have "mutex_inv s'" by (rule m) (use no_one k in \<open>simp_all add: inside_caller\<close>)
    moreover have "notified s'" using no_one by (simp add: notified_def)
    moreover have "queue_inv s'" using q b no_one by (simp add: queue_inv_def)
    ultimately show ?thesis using stop_inv_same [OF p(3), of s'] no_one by (simp add: pool_inv_def)
  next
    case (notify t)
    let ?s = "to_worker j W_lock s"
    have w: "pool_inv ?s" using inv notify(2,3) by (rule wake_inv)
    then have p': "mutex_inv ?s" "queue_inv ?s" "stop_inv ?s" by (simp_all add: pool_inv_def)
    note q' = queue_invD [OF p'(2)]
    have "mutex_inv s'" by (rule mutex_change [OF p'(1), of "Caller k"]) (use notify k in \<open>simp_all add: inside_caller\<close>)
    moreover have "notified s'"
      using p(4) notify but_nth_update [OF notify(2)] but_nth_update(3,4) [OF notify(2), where f = coming] but_nth_update(3,4) [OF k, where f = notifying]
      by (simp add: notified_def waits_iff)
    moreover have "queue_inv s'" using q' b notify by (simp add: queue_inv_def)
    ultimately show ?thesis using stop_inv_same [OF p'(3), of s'] notify by (simp add: pool_inv_def)
  qed
qed

lemma destroy_step_cases:
  assumes "destroy_step s = Some s'"
  obtains (lock) "dtor s = D_lock" "queue_mutex s = None" "s' = s\<lparr>queue_mutex := Some Destructor, dtor := D_stop\<rparr>"
  | (halt) "dtor s = D_stop" "s' = s\<lparr>stop := True, queue_mutex := None, dtor := D_notify\<rparr>"
  | (notify) "dtor s = D_notify" "s' = notify_all s\<lparr>dtor := D_join 0\<rparr>"
  | (join) i where "dtor s = D_join i" "i < length (workers s)" "workers s ! i = W_exit" "s' = s\<lparr>dtor := D_join (i + 1)\<rparr>"
  | (finish) i where "dtor s = D_join i" "length (workers s) \<le> i" "s' = s\<lparr>dtor := D_done\<rparr>"
  using assms by (auto simp: destroy_step_def lock_queue_def split: dtor_at.splits if_splits worker_at.splits)

lemma notify_all_nth: "i < length (workers s) \<Longrightarrow> workers (notify_all s) ! i = (if waits (workers s ! i) then W_lock else workers s ! i)"
  by (simp add: notify_all_def)

lemma notify_all_fields [simp]:
  "tasks (notify_all s) = tasks s" "queue_mutex (notify_all s) = queue_mutex s" "stop (notify_all s) = stop s" "callers (notify_all s) = callers s"
  "dtor (notify_all s) = dtor s" "accepted (notify_all s) = accepted s" "taken (notify_all s) = taken s" "executed (notify_all s) = executed s"
  "length (workers (notify_all s)) = length (workers s)"
  by (simp_all add: notify_all_def)

lemma notify_all_inside: "inside (notify_all s) a = inside s a"
  by (cases a) (auto simp: notify_all_nth waits_iff split: if_splits)

lemma notify_all_runs: "sum_list (map runs (workers (notify_all s))) = sum_list (map runs (workers s))"
proof -
  have "runs (if waits w then W_lock else w) = runs w" for w :: "'a worker_at" by (simp add: waits_iff)
  then show ?thesis by (simp add: notify_all_def comp_def)
qed

lemma notify_all_sets:
  "W_wait \<notin> set (workers (notify_all s))" "w \<noteq> W_lock \<Longrightarrow> w \<in> set (workers (notify_all s)) \<Longrightarrow> w \<in> set (workers s)"
  by (auto simp: notify_all_def waits_iff)

lemma destroy_step_inv:
  assumes inv: "pool_inv s" and step: "destroy_step s = Some s'"
  shows "pool_inv s'"
proof -
  have p: "mutex_inv s" "queue_inv s" "stop_inv s" "notified s" using inv by (simp_all add: pool_inv_def)
  note m = mutex_change [OF p(1), of Destructor]
  from step show ?thesis
  proof (cases rule: destroy_step_cases)
    case lock
    have "mutex_inv s'" by (rule m) (use lock in \<open>simp_all add: inside_dtor\<close>)
    moreover have "stop_inv s'" using p(3) lock by (auto simp: stop_inv_def)
    moreover have "queue_inv s'" by (rule queue_inv_same [OF p(2)]) (use lock in simp_all)
    ultimately show ?thesis using p(4) lock by (simp add: pool_inv_def notified_def)
  next
    case halt
    have "mutex_inv s'" by (rule m) (use halt in \<open>simp_all add: inside_dtor\<close>)
    moreover have "stop_inv s'" using p(3) halt by (simp add: stop_inv_def)
    moreover have "queue_inv s'" by (rule queue_inv_same [OF p(2)]) (use halt in simp_all)
    ultimately show ?thesis using p(4) halt by (simp add: pool_inv_def notified_def)
  next
    case notify
    have "mutex_inv s'" by (rule m) (use notify in \<open>simp_all add: inside_dtor notify_all_inside\<close>)
    moreover have "stop_inv s'" using p(3) notify notify_all_sets(2) [of W_exit s] notify_all_sets(2) [of W_take s] notify_all_sets(1) [of s]
      by (auto simp: stop_inv_def)
    moreover have "notified s'" using notify notify_all_sets(1) [of s] by (simp add: notified_def)
    moreover have "queue_inv s'" by (rule queue_inv_same [OF p(2)]) (use notify in \<open>simp_all add: notify_all_runs\<close>)
    ultimately show ?thesis by (simp add: pool_inv_def)
  next
    case (join i)
    have "mutex_inv s'" by (rule m) (use join in \<open>simp_all add: inside_dtor\<close>)
    moreover have "stop_inv s'" using p(3) join by (auto simp: stop_inv_def less_Suc_eq)
    moreover have "queue_inv s'" by (rule queue_inv_same [OF p(2)]) (use join in simp_all)
    ultimately show ?thesis using p(4) join by (simp add: pool_inv_def notified_def)
  next
    case (finish i)
    have "mutex_inv s'" by (rule m) (use finish in \<open>simp_all add: inside_dtor\<close>)
    moreover have "stop_inv s'" using p(3) finish by (auto simp: stop_inv_def in_set_conv_nth)
    moreover have "queue_inv s'" by (rule queue_inv_same [OF p(2)]) (use finish in simp_all)
    ultimately show ?thesis using p(4) finish by (simp add: pool_inv_def notified_def)
  qed
qed

lemma pool_reach_inv: "pool_reach threads ts s \<Longrightarrow> pool_inv s \<and> length (workers s) = threads \<and> length (callers s) = length ts"
proof (induction rule: pool_reach.induct)
  case start
  show ?case by (rule conjI [OF ThreadPool_inv]) (simp add: ThreadPool_def)
next
  case (step s s')
  then have inv: "pool_inv s" by simp
  from step.hyps(2) show ?case
  proof cases
    case (worker i)
    moreover have "length (workers s') = length (workers s) \<and> callers s' = callers s"
      using worker(2) by (cases rule: worker_step_cases) simp_all
    ultimately show ?thesis
      using step.IH worker_step_mutex [OF _ worker(1,2)] worker_step_queue [OF _ worker(1,2)] worker_step_stop [OF _ _ worker(1,2)]
        worker_step_notified [OF _ worker(1,2)]
      by (auto simp: pool_inv_def)
  next
    case (caller k j)
    moreover have "length (callers s') = length (callers s) \<and> length (workers s') = length (workers s)"
      using caller(2) by (cases rule: enqueue_step_cases) simp_all
    ultimately show ?thesis using step.IH enqueue_step_inv [OF inv] by simp
  next
    case destructor
    moreover have "callers s' = callers s \<and> length (workers s') = length (workers s)"
      using destructor by (cases rule: destroy_step_cases) simp_all
    ultimately show ?thesis using step.IH destroy_step_inv [OF inv] by simp
  qed
next
  case (spurious s i)
  then show ?case using wake_inv [OF _ spurious.hyps(2,3)] by simp
qed

section \<open>Every run ends\<close>

text \<open>What is left to do, counted so that waking a worker pays for its way back to the queue.\<close>

fun worker_work :: "'a worker_at \<Rightarrow> nat" where
  "worker_work W_lock = 3" | "worker_work W_test = 2" | "worker_work W_wait = 0" | "worker_work W_take = 1" | "worker_work (W_run t) = 4"
| "worker_work W_exit = 0"

fun caller_work :: "'a enqueue_at \<Rightarrow> nat" where
  "caller_work (E_lock t) = 11" | "caller_work (E_push t) = 10" | "caller_work (E_notify t) = 4" | "caller_work _ = 0"

fun dtor_work :: "nat \<Rightarrow> dtor_at \<Rightarrow> nat" where
  "dtor_work n D_lock = 4 * n + 4" | "dtor_work n D_stop = 4 * n + 3" | "dtor_work n D_notify = 4 * n + 2"
| "dtor_work n (D_join i) = n + 1 - min i n" | "dtor_work n D_done = 0"

definition pool_work :: "'a pool \<Rightarrow> nat" where
  "pool_work s = sum_list (map worker_work (workers s)) + 5 * length (tasks s) + sum_list (map caller_work (callers s)) +
     dtor_work (length (workers s)) (dtor s)"

lemma woken_work: "sum_list (map worker_work (map (\<lambda>w. if waits w then W_lock else w) ws)) \<le> sum_list (map worker_work ws) + 3 * length ws"
  by (induction ws) (auto simp: waits_iff)

lemma pool_step_work:
  assumes "pool_step s s'"
  shows "pool_work s' < pool_work s"
  using assms
proof cases
  case (worker i)
  note b = but_nth_update(3,4) [OF worker(1), where f = worker_work]
  from worker(2) show ?thesis by (cases rule: worker_step_cases) (simp_all add: pool_work_def b)
next
  case (caller k j)
  note b = but_nth_update(3,4) [OF caller(1), where f = caller_work]
  from caller(2) show ?thesis
  proof (cases rule: enqueue_step_cases)
    case (notify t)
    note w = but_nth_update(3,4) [OF notify(2), where f = worker_work]
    have "workers s ! j = W_wait" using notify(3) by (simp add: waits_iff)
    then show ?thesis using notify(1,4) by (simp add: pool_work_def b w)
  qed (simp_all add: pool_work_def b)
next
  case destructor
  then show ?thesis
  proof (cases rule: destroy_step_cases)
    case notify
    then show ?thesis using woken_work [of "workers s"] by (simp add: pool_work_def notify_all_def)
  qed (simp_all add: pool_work_def)
qed

lemma pool_run_work: "(pool_step ^^ m) s s' \<Longrightarrow> pool_work s' + m \<le> pool_work s"
proof (induction m arbitrary: s')
  case (Suc m)
  then obtain s1 where "(pool_step ^^ m) s s1" "pool_step s1 s'" by auto
  with Suc.IH [of s1] pool_step_work [of s1 s'] show ?case by simp
qed simp

section \<open>Where a run ends\<close>

text \<open>The steps of workers and callers alone.  One of them that is inside its critical section can always move.\<close>

definition at_work :: "'a pool \<Rightarrow> 'a pool \<Rightarrow> bool" where
  "at_work s s' \<longleftrightarrow> (\<exists>i < length (workers s). worker_step i s = Some s') \<or> (\<exists>k < length (callers s). \<exists>j. enqueue_step k j s = Some s')"

lemma at_work_step: "at_work s s' \<Longrightarrow> pool_step s s'"
  by (auto simp: at_work_def intro: pool_step.worker pool_step.caller)

lemma inside_moves:
  assumes inv: "pool_inv s" and a: "inside s a" "a \<noteq> Destructor"
  shows "\<exists>s'. at_work s s'"
proof (cases a)
  case (Worker i)
  with a have i: "i < length (workers s)" and w: "workers s ! i = W_test \<or> workers s ! i = W_take" by simp_all
  have "workers s ! i = W_take \<Longrightarrow> W_take \<in> set (workers s)" using i by (metis nth_mem)
  then have "workers s ! i = W_take \<Longrightarrow> stop s \<or> tasks s \<noteq> []" using inv unfolding pool_inv_def stop_inv_def by blast
  with w have "worker_step i s \<noteq> None" by (auto simp: worker_step_def split: list.split)
  with i show ?thesis by (auto simp: at_work_def)
next
  case (Caller k)
  with a obtain t where k: "k < length (callers s)" "callers s ! k = E_push t" by auto
  then have "enqueue_step k 0 s \<noteq> None" by (simp add: enqueue_step_def)
  with k(1) show ?thesis by (auto simp: at_work_def)
qed (use a in simp)

lemma work_rest:
  assumes inv: "pool_inv s" and rest: "\<nexists>s'. at_work s s'" and d: "dtor s \<noteq> D_stop"
  shows "queue_mutex s = None" "i < length (workers s) \<Longrightarrow> workers s ! i = W_wait \<or> workers s ! i = W_exit"
    "k < length (callers s) \<Longrightarrow> \<exists>t. callers s ! k = E_returned t \<or> callers s ! k = E_thrown t"
proof -
  have no: "\<not> inside s a" for a using inside_moves [OF inv, of a] rest d by (cases "a = Destructor") auto
  show free: "queue_mutex s = None" using inv no by (cases "queue_mutex s") (simp_all add: pool_inv_def mutex_inv_def)
  show "workers s ! i = W_wait \<or> workers s ! i = W_exit" if i: "i < length (workers s)"
  proof -
    have "worker_step i s = None" using i rest by (cases "worker_step i s") (auto simp: at_work_def)
    then show ?thesis using no [of "Worker i"] i free by (cases "workers s ! i") (simp_all add: worker_step_def lock_queue_def)
  qed
  show "\<exists>t. callers s ! k = E_returned t \<or> callers s ! k = E_thrown t" if k: "k < length (callers s)"
  proof -
    have none: "enqueue_step k j s = None" for j using k rest by (cases "enqueue_step k j s") (auto simp: at_work_def)
    have "\<exists>j. notify_one j s \<noteq> None" by (auto simp: notify_one_def list_ex_length)
    then show ?thesis using none no [of "Caller k"] k free by (cases "callers s ! k") (auto simp: enqueue_step_def lock_queue_def)
  qed
qed

lemma at_rest:
  assumes inv: "pool_inv s" and rest: "\<nexists>s'. pool_step s s'"
  shows "i < length (workers s) \<Longrightarrow> workers s ! i = W_wait \<or> workers s ! i = W_exit"
    "k < length (callers s) \<Longrightarrow> \<exists>t. callers s ! k = E_returned t \<or> callers s ! k = E_thrown t"
    "dtor s = D_done \<or> (\<exists>j. dtor s = D_join j \<and> j < length (workers s) \<and> workers s ! j \<noteq> W_exit)"
proof -
  have n: "\<nexists>s'. at_work s s'" using rest at_work_step by blast
  have none: "destroy_step s = None" using pool_step.destructor rest by (cases "destroy_step s") blast+
  then have "dtor s \<noteq> D_stop" by (auto simp: destroy_step_def)
  note r = work_rest [OF inv n this]
  show "i < length (workers s) \<Longrightarrow> workers s ! i = W_wait \<or> workers s ! i = W_exit"
    "k < length (callers s) \<Longrightarrow> \<exists>t. callers s ! k = E_returned t \<or> callers s ! k = E_thrown t" by (fact r(2), fact r(3))
  show "dtor s = D_done \<or> (\<exists>j. dtor s = D_join j \<and> j < length (workers s) \<and> workers s ! j \<noteq> W_exit)"
    using none r(1) by (cases "dtor s") (auto simp: destroy_step_def lock_queue_def split: if_splits worker_at.splits)
qed

text \<open>Before the destructor starts, the others only come to rest with the queue empty.\<close>

lemma drained_at_rest:
  assumes inv: "pool_inv s" and rest: "\<nexists>s'. at_work s s'" and d: "dtor s = D_lock" and n: "workers s \<noteq> []"
  shows "tasks s = []" "mset (executed s) = sum_list (map pushed (callers s))"
proof -
  have st: "stop_inv s" "notified s" "queue_inv s" using inv by (simp_all add: pool_inv_def)
  have dd: "dtor s \<noteq> D_stop" using d by simp
  note r = work_rest [OF inv rest dd]
  have "W_exit \<notin> set (workers s)" using st(1) d by (auto simp: stop_inv_def)
  then have w: "\<forall>x \<in> set (workers s). x = W_wait" using r(2) by (metis in_set_conv_nth)
  then have c0: "sum_list (map coming (workers s)) = 0" by fastforce
  have "notifying c = 0" if "c \<in> set (callers s)" for c using r(3) that by (metis in_set_conv_nth notifying.simps(4,5))
  then have "sum_list (map notifying (callers s)) = 0" by simp
  moreover have "W_wait \<in> set (workers s)" using n w by (cases "workers s") auto
  ultimately show t: "tasks s = []" using st(2) c0 unfolding notified_def by (metis add_0 le_zero_eq length_0_conv)
  have "\<forall>x \<in> set ws. x = W_wait \<Longrightarrow> sum_list (map runs ws) = {#}" for ws :: "'a worker_at list" by (induction ws) auto
  then have "sum_list (map runs (workers s)) = {#}" using w by blast
  with queue_invD [OF st(3)] t show "mset (executed s) = sum_list (map pushed (callers s))" by simp
qed

lemma all_exit_drained:
  assumes inv: "pool_inv s" and w: "workers s \<noteq> []" "set (workers s) \<subseteq> {W_exit}"
  shows "tasks s = []" "mset (executed s) = mset (accepted s)" "taken s = accepted s"
proof -
  have "W_exit \<in> set (workers s)" using w by (cases "workers s") auto
  then show t: "tasks s = []" using inv stop_invD(3) [of s] by (simp add: pool_inv_def)
  have q: "queue_inv s" using inv by (simp add: pool_inv_def)
  have "set ws \<subseteq> {W_exit} \<Longrightarrow> sum_list (map runs ws) = {#}" for ws :: "'a worker_at list" by (induction ws) auto
  then have "sum_list (map runs (workers s)) = {#}" using w(2) by blast
  with queue_invD [OF q] t show "mset (executed s) = mset (accepted s)" "taken s = accepted s" by simp_all
qed

lemma shut_down_at_rest:
  assumes inv: "pool_inv s" and rest: "\<nexists>s'. pool_step s s'" and ne: "workers s \<noteq> []"
  shows "dtor s = D_done \<and> set (workers s) \<subseteq> {W_exit} \<and> (\<forall>c \<in> set (callers s). \<exists>t. c = E_returned t \<or> c = E_thrown t) \<and>
    mset (executed s) = sum_list (map pushed (callers s))"
proof -
  have si: "stop_inv s" "queue_inv s" using inv by (simp_all add: pool_inv_def)
  note r = at_rest [OF inv rest]
  have callers: "\<forall>c \<in> set (callers s). \<exists>t. c = E_returned t \<or> c = E_thrown t" using r(2) by (metis in_set_conv_nth)
  have dd: "dtor s = D_done"
  proof (rule ccontr)
    assume "dtor s \<noteq> D_done"
    with r(3) obtain j where j: "dtor s = D_join j" "j < length (workers s)" "workers s ! j \<noteq> W_exit" by blast
    then have "workers s ! j = W_wait" using r(1) by blast
    then have "W_wait \<in> set (workers s)" using j(2) by (metis nth_mem)
    with stop_invD(1) [OF si(1) j(1)] show False by simp
  qed
  have w: "set (workers s) \<subseteq> {W_exit}" by (rule stop_invD(2) [OF si(1) dd])
  from all_exit_drained(2) [OF inv ne w] have "mset (executed s) = sum_list (map pushed (callers s))" using si(2) unfolding queue_inv_def by metis
  with callers dd w show ?thesis by blast
qed

section \<open>Properties\<close>

text \<open>
  C12. The pool runs tasks in order and loses none: in every state that workers, callers and destructor can reach, with spurious wake-ups, tasks leave the
  queue in the order in which \<open>enqueue\<close> put them there, each taken one is run once, and when the destructor of a pool with workers has returned,
  every accepted task has been run.
\<close>

theorem pool_runs_tasks_in_order:
  assumes "pool_reach threads ts s"
  shows "accepted s = taken s @ tasks s \<and> mset (executed s) + sum_list (map runs (workers s)) = mset (taken s) \<and>
    (dtor s = D_done \<longrightarrow> 0 < threads \<longrightarrow> tasks s = [] \<and> mset (executed s) = mset (accepted s))"
proof -
  have inv: "pool_inv s" "length (workers s) = threads" using pool_reach_inv [OF assms] by simp_all
  then have q: "queue_inv s" "stop_inv s" by (simp_all add: pool_inv_def)
  have "tasks s = [] \<and> mset (executed s) = mset (accepted s)" if "dtor s = D_done" "0 < threads"
  proof -
    have "workers s \<noteq> []" "set (workers s) \<subseteq> {W_exit}" using inv(2) that stop_invD(2) [OF q(2)] by auto
    from all_exit_drained [OF inv(1) this] show ?thesis by simp
  qed
  then show ?thesis using queue_invD(1) [OF q(1)] queue_invD(2) [OF q(1), symmetric] by blast
qed

text \<open>
  C11. The pool runs what it accepts and shuts down.  No wake-up is lost: in every state that a pool can reach, also with spurious wake-ups, while a worker
  sleeps there are at least as many workers on their way to the queue and calls about to notify one as there are tasks; so as long as the destructor has not
  started, workers and callers only come to rest when every call has ended, the queue is empty and the accepted tasks have been run.  From there on every run without
  spurious wake-ups has a bounded number of steps, and it only ends with the destructor returned, all workers joined, every call of \<open>enqueue\<close> returned or
  thrown, and exactly the tasks of the calls that returned run, each once.
\<close>

theorem pool_shuts_down:
  assumes "pool_reach threads ts s" and "0 < threads"
  shows "(W_wait \<in> set (workers s) \<longrightarrow> length (tasks s) \<le> sum_list (map coming (workers s)) + sum_list (map notifying (callers s))) \<and>
    (dtor s = D_lock \<and> (\<nexists>s'. at_work s s') \<longrightarrow> tasks s = [] \<and> (\<forall>c \<in> set (callers s). \<exists>t. c = E_returned t \<or> c = E_thrown t) \<and>
       mset (executed s) = sum_list (map pushed (callers s))) \<and>
    (\<forall>m s'. (pool_step ^^ m) s s' \<longrightarrow> m \<le> pool_work s) \<and>
    ((\<nexists>s'. pool_step s s') \<longrightarrow> dtor s = D_done \<and> set (workers s) \<subseteq> {W_exit} \<and> (\<forall>c \<in> set (callers s). \<exists>t. c = E_returned t \<or> c = E_thrown t) \<and>
       mset (executed s) = sum_list (map pushed (callers s)))"
proof -
  have inv: "pool_inv s" "length (workers s) = threads" using pool_reach_inv [OF assms(1)] by simp_all
  then have ne: "workers s \<noteq> []" and n: "notified s" using assms(2) by (auto simp: pool_inv_def)
  have before: "tasks s = [] \<and> (\<forall>c \<in> set (callers s). \<exists>t. c = E_returned t \<or> c = E_thrown t) \<and> mset (executed s) = sum_list (map pushed (callers s))"
    if d: "dtor s = D_lock" "\<nexists>s'. at_work s s'"
  proof -
    have "dtor s \<noteq> D_stop" using d(1) by simp
    from work_rest(3) [OF inv(1) d(2) this] drained_at_rest [OF inv(1) d(2,1) ne] show ?thesis by (metis in_set_conv_nth)
  qed
  have end_state: "dtor s = D_done \<and> set (workers s) \<subseteq> {W_exit} \<and> (\<forall>c \<in> set (callers s). \<exists>t. c = E_returned t \<or> c = E_thrown t) \<and>
      mset (executed s) = sum_list (map pushed (callers s))" if "\<nexists>s'. pool_step s s'"
    by (rule shut_down_at_rest [OF inv(1) that ne])
  have "m \<le> pool_work s" if "(pool_step ^^ m) s s'" for m s' using pool_run_work [OF that] by simp
  with n before end_state show ?thesis unfolding notified_def by blast
qed

text \<open>A run as a list of moves: one worker that falls asleep, is given a task, runs it and leaves.\<close>

datatype move = Move_worker nat | Move_caller nat nat | Move_destructor

fun moves :: "move list \<Rightarrow> 'a pool \<Rightarrow> 'a pool option" where
  "moves [] s = Some s"
| "moves (m # ms) s =
     (case (case m of
              Move_worker i \<Rightarrow> if i < length (workers s) then worker_step i s else None
            | Move_caller k j \<Rightarrow> if k < length (callers s) then enqueue_step k j s else None
            | Move_destructor \<Rightarrow> destroy_step s) of
        None \<Rightarrow> None
      | Some s \<Rightarrow> moves ms s)"

lemma moves_reach: "pool_reach threads ts s \<Longrightarrow> moves ms s = Some s' \<Longrightarrow> pool_reach threads ts s'"
proof (induction ms arbitrary: s)
  case (Cons m ms)
  from Cons.prems(2) obtain s1 where "pool_step s s1" "moves ms s1 = Some s'"
    by (auto split: move.splits option.splits if_splits intro: pool_step.intros)
  with Cons show ?case by (blast intro: pool_reach.step)
qed simp

definition sample_run :: "move list" where
  "sample_run = [Move_worker 0, Move_worker 0, Move_caller 0 0, Move_caller 0 0, Move_caller 0 0, Move_worker 0, Move_worker 0, Move_worker 0,
     Move_destructor, Move_destructor, Move_destructor, Move_worker 0, Move_worker 0, Move_worker 0, Move_worker 0, Move_destructor, Move_destructor]"

definition sample_end :: "nat pool" where
  "sample_end = the (moves sample_run (ThreadPool 1 [7]))"

theorem pool_runs_tasks_in_order_witness: "dtor sample_end = D_done \<and> accepted sample_end = [7] \<and> mset (executed sample_end) = {#7#}"
proof -
  have "moves sample_run (ThreadPool 1 [7]) = Some sample_end" unfolding sample_end_def by code_simp
  from moves_reach [OF pool_reach.start this] have r: "pool_reach 1 [7] sample_end" .
  have "dtor sample_end = D_done" "accepted sample_end = [7]" by code_simp+
  with pool_runs_tasks_in_order [OF r] show ?thesis by simp
qed

theorem pool_shuts_down_witness: "\<not> (\<exists>s'. (pool_step ^^ 41) (ThreadPool 2 [7, 8 :: nat]) s')"
proof -
  have "pool_work (ThreadPool 2 [7, 8 :: nat]) = 40" by code_simp
  with pool_shuts_down [OF pool_reach.start, of 2 "[7, 8]"] show ?thesis by fastforce
qed

text \<open>
  A pool without workers stops without running what it accepted.
\<close>

lemma pool_without_workers:
  "\<exists>s. pool_reach 0 [7 :: nat] s \<and> dtor s = D_done \<and> tasks s = [7] \<and> callers s = [E_returned 7]"
proof -
  let ?ms = "[Move_caller 0 0, Move_caller 0 0, Move_caller 0 0, Move_destructor, Move_destructor, Move_destructor, Move_destructor]"
  let ?s = "the (moves ?ms (ThreadPool 0 [7 :: nat]))"
  have "moves ?ms (ThreadPool 0 [7]) = Some ?s" "dtor ?s = D_done" "tasks ?s = [7]" "callers ?s = [E_returned 7]" by code_simp+
  with moves_reach [OF pool_reach.start this(1)] show ?thesis by blast
qed

end
