(* ===== verification/Philosophers.thy ===== *)
theory Philosophers
  imports Prelude
begin

text \<open>
  The dining philosophers of \<^verbatim>\<open>main.cpp\<close>: six threads over six mutexes, all but the last of which lock the left mutex first and the right one then.
  A thread is the philosopher's number with a control point; each call of the system is one step, and the threads' steps interleave.
\<close>

section \<open>The code\<close>

definition NUM :: nat where "NUM = 6"

text \<open>A mutex of the system: its owner and how often the owner has locked it.\<close>

record mutex =
  mowner :: "nat option"
  mcount :: nat

definition CreateMutexA :: mutex where
  "CreateMutexA = \<lparr>mowner = None, mcount = 0\<rparr>"

text \<open>\<open>WaitForSingleObject\<close> without a time limit: \<open>None\<close> while another thread owns the mutex.\<close>

definition WaitForSingleObject :: "nat \<Rightarrow> mutex \<Rightarrow> mutex option" where
  "WaitForSingleObject t m =
     (if mowner m = None \<or> mowner m = Some t then Some \<lparr>mowner = Some t, mcount = mcount m + 1\<rparr> else None)"

text \<open>\<open>ReleaseMutex\<close> fails, without effect, for a thread that is not the owner; the program ignores that.\<close>

definition ReleaseMutex :: "nat \<Rightarrow> mutex \<Rightarrow> mutex" where
  "ReleaseMutex t m =
     (if mowner m \<noteq> Some t then m else if mcount m = 1 then CreateMutexA else m\<lparr>mcount := mcount m - 1\<rparr>)"

text \<open>The control points of \<open>ThreadFun\<close>, the same in both branches.\<close>

datatype phil_at = Wait1 | Wait2 | Dine | Release1 | Release2

record table_state =
  Mutext :: "mutex list"
  current :: "phil_at list"

text \<open>The mutexes a thread uses, in its order.\<close>

definition fork1 :: "nat \<Rightarrow> nat" where
  "fork1 i = (if i < NUM - 1 then i else (i + 1) mod NUM)"

definition fork2 :: "nat \<Rightarrow> nat" where
  "fork2 i = (if i < NUM - 1 then (i + 1) mod NUM else i)"

definition go :: "nat \<Rightarrow> phil_at \<Rightarrow> table_state \<Rightarrow> table_state" where
  "go i p s = s\<lparr>current := (current s)[i := p]\<rparr>"

definition lock_fork :: "nat \<Rightarrow> nat \<Rightarrow> table_state \<Rightarrow> table_state option" where
  "lock_fork i f s = map_option (\<lambda>m. s\<lparr>Mutext := (Mutext s)[f := m]\<rparr>) (WaitForSingleObject i (Mutext s ! f))"

definition unlock_fork :: "nat \<Rightarrow> nat \<Rightarrow> table_state \<Rightarrow> table_state" where
  "unlock_fork i f s = s\<lparr>Mutext := (Mutext s)[f := ReleaseMutex i (Mutext s ! f)]\<rparr>"

text \<open>One step of the thread of philosopher \<open>i\<close>; \<open>None\<close> while it is blocked.\<close>

definition ThreadFun :: "nat \<Rightarrow> table_state \<Rightarrow> table_state option" where
  "ThreadFun i s =
     (case current s ! i of
        Wait1 \<Rightarrow> map_option (go i Wait2) (lock_fork i (fork1 i) s)
      | Wait2 \<Rightarrow> map_option (go i Dine) (lock_fork i (fork2 i) s)
      | Dine \<Rightarrow> Some (go i Release1 s)
      | Release1 \<Rightarrow> Some (go i Release2 (unlock_fork i (fork1 i) s))
      | Release2 \<Rightarrow> Some (go i Wait1 (unlock_fork i (fork2 i) s)))"

text \<open>\<open>main\<close> creates the mutexes and the threads and then waits for threads that never end.\<close>

definition dinner :: table_state where
  "dinner = \<lparr>Mutext = replicate NUM CreateMutexA, current = replicate NUM Wait1\<rparr>"

inductive dine :: "table_state \<Rightarrow> table_state \<Rightarrow> bool" where
  "i < NUM \<Longrightarrow> ThreadFun i s = Some s' \<Longrightarrow> dine s s'"

section \<open>Who holds what\<close>

fun held :: "nat \<Rightarrow> phil_at \<Rightarrow> nat set" where
  "held i Wait1 = {}"
| "held i Wait2 = {fork1 i}"
| "held i Dine = {fork1 i, fork2 i}"
| "held i Release1 = {fork1 i, fork2 i}"
| "held i Release2 = {fork2 i}"

definition locked_by :: "nat \<Rightarrow> mutex" where
  "locked_by i = \<lparr>mowner = Some i, mcount = 1\<rparr>"

definition table_inv :: "table_state \<Rightarrow> bool" where
  "table_inv s \<longleftrightarrow> length (Mutext s) = NUM \<and> length (current s) = NUM \<and>
     (\<forall>f < NUM. (Mutext s ! f = CreateMutexA \<or> (\<exists>i < NUM. Mutext s ! f = locked_by i)) \<and>
        (\<forall>i < NUM. Mutext s ! f = locked_by i \<longleftrightarrow> f \<in> held i (current s ! i)))"

text \<open>The order of a philosopher's forks is that of their numbers: this is why nobody waits in a circle.\<close>

lemma forks: "i < NUM \<Longrightarrow> fork1 i < fork2 i \<and> fork2 i < NUM"
proof -
  assume "i < NUM"
  then consider "i < 5" | "i = 5" by (fastforce simp: NUM_def)
  then show ?thesis by cases (simp_all add: fork1_def fork2_def NUM_def)
qed

lemma mutex_ops:
  "WaitForSingleObject i CreateMutexA = Some (locked_by i)" "ReleaseMutex i (locked_by i) = CreateMutexA"
  "WaitForSingleObject i (locked_by j) = (if i = j then Some \<lparr>mowner = Some i, mcount = 2\<rparr> else None)"
  "locked_by i \<noteq> CreateMutexA" "CreateMutexA \<noteq> locked_by i" "locked_by i = locked_by j \<longleftrightarrow> i = j"
  by (auto simp: WaitForSingleObject_def ReleaseMutex_def CreateMutexA_def locked_by_def)

lemma dinner_inv: "table_inv dinner"
  by (auto simp: table_inv_def dinner_def mutex_ops)

text \<open>A thread moves and changes one mutex.\<close>

lemma table_inv_update:
  assumes inv: "table_inv s" and i: "i < NUM" "f < NUM"
    and m: "m = CreateMutexA \<and> held i p = held i (current s ! i) - {f} \<and> f \<in> held i (current s ! i) \<or>
            m = locked_by i \<and> held i p = insert f (held i (current s ! i)) \<and> Mutext s ! f = CreateMutexA"
  shows "table_inv (go i p (s\<lparr>Mutext := (Mutext s)[f := m]\<rparr>))"
proof -
  have l: "length (Mutext s) = NUM" "length (current s) = NUM" using inv by (simp_all add: table_inv_def)
  have free: "Mutext s ! g = CreateMutexA \<or> (\<exists>j < NUM. Mutext s ! g = locked_by j)" if "g < NUM" for g
    using inv that by (simp add: table_inv_def)
  have own: "Mutext s ! g = locked_by j \<longleftrightarrow> g \<in> held j (current s ! j)" if "g < NUM" "j < NUM" for g j
    using inv that by (simp add: table_inv_def)
  have only: "f \<notin> held j (current s ! j)" if "j < NUM" "j \<noteq> i" for j
  proof -
    have "Mutext s ! f = locked_by i \<or> Mutext s ! f = CreateMutexA" using m own [OF i(2,1)] by blast
    then have "Mutext s ! f \<noteq> locked_by j" using that(2) by (metis mutex_ops(5,6))
    then show ?thesis using own [OF i(2) that(1)] by simp
  qed
  have mine: "m = locked_by i \<longleftrightarrow> f \<in> held i p" using m by (elim disjE conjE) (simp_all only: mutex_ops(5) insert_iff Diff_iff, simp_all)
  have other: "m \<noteq> locked_by j" if "j \<noteq> i" for j using m that by (elim disjE conjE) (simp_all only: mutex_ops, simp_all)
  have "(Mutext s)[f := m] ! g = CreateMutexA \<or> (\<exists>j < NUM. (Mutext s)[f := m] ! g = locked_by j)" if "g < NUM" for g
  proof (cases "g = f")
    case True
    then have "(Mutext s)[f := m] ! g = m" using i(2) l(1) by simp
    then show ?thesis using m i(1) by blast
  qed (use free [OF that] in simp)
  moreover have "(Mutext s)[f := m] ! g = locked_by j \<longleftrightarrow> g \<in> held j ((current s)[i := p] ! j)" if "g < NUM" "j < NUM" for g j
  proof (cases "g = f")
    case True
    have "(Mutext s)[f := m] ! g = m" using True i(2) l(1) by simp
    then show ?thesis using mine other [of j] only [OF that(2)] True i(1) l(2) by (cases "j = i") simp_all
  next
    case False
    then have "(Mutext s)[f := m] ! g = Mutext s ! g" by simp
    moreover have "g \<in> held i p \<longleftrightarrow> g \<in> held i (current s ! i)" using m False by blast
    then have "g \<in> held j ((current s)[i := p] ! j) \<longleftrightarrow> g \<in> held j (current s ! j)" using i(1) l(2) by (cases "j = i") simp_all
    ultimately show ?thesis using own [OF that] by simp
  qed
  ultimately show ?thesis using l by (simp add: table_inv_def go_def)
qed

lemma table_inv_stay:
  assumes "table_inv s" and "i < NUM" and "held i p = held i (current s ! i)"
  shows "table_inv (go i p s)"
  using assms by (auto simp: table_inv_def go_def nth_list_update)

lemma lock_fork_free:
  assumes inv: "table_inv s" and i: "i < NUM" "f < NUM" "f \<notin> held i (current s ! i)"
  shows "lock_fork i f s = (if Mutext s ! f = CreateMutexA then Some (s\<lparr>Mutext := (Mutext s)[f := locked_by i]\<rparr>) else None)"
proof -
  have "Mutext s ! f \<noteq> locked_by i" using inv i by (simp add: table_inv_def)
  moreover have "Mutext s ! f = CreateMutexA \<or> (\<exists>j < NUM. Mutext s ! f = locked_by j)" using inv i by (simp add: table_inv_def)
  ultimately show ?thesis by (auto simp: lock_fork_def mutex_ops)
qed

lemma unlock_fork_held:
  assumes "table_inv s" and "i < NUM" "f < NUM" and "f \<in> held i (current s ! i)"
  shows "unlock_fork i f s = s\<lparr>Mutext := (Mutext s)[f := CreateMutexA]\<rparr>"
proof -
  have "Mutext s ! f = locked_by i" using assms by (simp add: table_inv_def)
  then show ?thesis by (simp add: unlock_fork_def mutex_ops)
qed

text \<open>The fork a philosopher waits for.\<close>

definition wants :: "nat \<Rightarrow> phil_at \<Rightarrow> nat option" where
  "wants i p = (case p of Wait1 \<Rightarrow> Some (fork1 i) | Wait2 \<Rightarrow> Some (fork2 i) | _ \<Rightarrow> None)"

fun next_at :: "phil_at \<Rightarrow> phil_at" where
  "next_at Wait1 = Wait2" | "next_at Wait2 = Dine" | "next_at Dine = Release1" | "next_at Release1 = Release2" | "next_at Release2 = Wait1"

lemma ThreadFun_inv:
  assumes inv: "table_inv s" and i: "i < NUM"
  shows "ThreadFun i s = None \<longleftrightarrow> (\<exists>f. wants i (current s ! i) = Some f \<and> Mutext s ! f \<noteq> CreateMutexA)"
    and "ThreadFun i s = Some s' \<Longrightarrow> table_inv s' \<and> current s' = (current s)[i := next_at (current s ! i)]"
proof -
  note f = forks [OF i]
  have f1: "fork1 i < NUM" "fork1 i \<noteq> fork2 i" using f by simp_all
  note lock1 = lock_fork_free [OF inv i f1(1)] and lock2 = lock_fork_free [OF inv i conjunct2 [OF f]]
  note un1 = unlock_fork_held [OF inv i f1(1)] and un2 = unlock_fork_held [OF inv i conjunct2 [OF f]]
  show "ThreadFun i s = None \<longleftrightarrow> (\<exists>f. wants i (current s ! i) = Some f \<and> Mutext s ! f \<noteq> CreateMutexA)"
    using f1 lock1 lock2 by (cases "current s ! i") (simp_all add: ThreadFun_def wants_def)
  have c: "current (go i p (s\<lparr>Mutext := x\<rparr>)) = (current s)[i := p]" "current (go i p s) = (current s)[i := p]" for p x by (simp_all add: go_def)
  note upd1 = table_inv_update [OF inv i f1(1)] and upd2 = table_inv_update [OF inv i conjunct2 [OF f]] and stay = table_inv_stay [OF inv i]
  assume s': "ThreadFun i s = Some s'"
  show "table_inv s' \<and> current s' = (current s)[i := next_at (current s ! i)]"
  proof (cases "current s ! i")
    case Wait1
    then show ?thesis using s' lock1 upd1 [of "locked_by i" Wait2] c by (auto simp: ThreadFun_def split: if_splits)
  next
    case Wait2
    then show ?thesis using s' lock2 f1 upd2 [of "locked_by i" Dine] c by (auto simp: ThreadFun_def insert_commute split: if_splits)
  next
    case Dine
    then show ?thesis using s' stay [of Release1] c by (auto simp: ThreadFun_def)
  next
    case Release1
    then show ?thesis using s' un1 f1 upd1 [of CreateMutexA Release2] c by (auto simp: ThreadFun_def)
  next
    case Release2
    then show ?thesis using s' un2 upd2 [of CreateMutexA Wait1] c by (auto simp: ThreadFun_def)
  qed
qed

lemma dine_inv: "dine\<^sup>*\<^sup>* dinner s \<Longrightarrow> table_inv s"
proof (induction rule: rtranclp_induct)
  case (step s s')
  then show ?case using ThreadFun_inv(2) by (auto elim: dine.cases)
qed (rule dinner_inv)

section \<open>Progress\<close>

text \<open>
  Among philosophers who hold a fork or wait for their second one, the one who waits for the highest fork does not wait: its holder would wait for a
  higher one.
\<close>

lemma someone_moves:
  assumes inv: "table_inv s" and "i < NUM" "current s ! i \<noteq> Wait1"
  shows "\<exists>i < NUM. current s ! i \<noteq> Wait1 \<and> ThreadFun i s \<noteq> None"
proof (rule ccontr)
  assume stuck: "\<not> ?thesis"
  let ?B = "{i. i < NUM \<and> current s ! i \<noteq> Wait1}"
  have fin: "finite ?B" "?B \<noteq> {}" using assms(2,3) by auto
  have blocked: "current s ! j = Wait2 \<and> Mutext s ! fork2 j \<noteq> CreateMutexA" if "j \<in> ?B" for j
    using stuck ThreadFun_inv(1) [OF inv] that by (cases "current s ! j") (auto simp: wants_def)
  obtain j where j: "j \<in> ?B" "fork2 j = Max (fork2 ` ?B)" using Max_in [of "fork2 ` ?B"] fin by fastforce
  have f: "fork2 j < NUM" using forks j(1) by simp
  with blocked [OF j(1)] inv obtain k where k: "k < NUM" "Mutext s ! fork2 j = locked_by k" unfolding table_inv_def by blast
  then have h: "fork2 j \<in> held k (current s ! k)" using inv f by (simp add: table_inv_def)
  then have kB: "k \<in> ?B" using k(1) by (cases "current s ! k") simp_all
  with blocked [OF kB] h forks [OF k(1)] have "fork2 j < fork2 k" by simp
  moreover have "fork2 k \<le> fork2 j" using Max_ge [of "fork2 ` ?B" "fork2 k"] fin(1) kB j(2) by simp
  ultimately show False by simp
qed

fun left_to_do :: "phil_at \<Rightarrow> nat" where
  "left_to_do Wait1 = 0" | "left_to_do Wait2 = 4" | "left_to_do Dine = 3" | "left_to_do Release1 = 2" | "left_to_do Release2 = 1"

lemma calm_down:
  assumes "table_inv s"
  shows "\<exists>s'. dine\<^sup>*\<^sup>* s s' \<and> table_inv s' \<and> (\<forall>i < NUM. current s' ! i = Wait1)"
  using assms
proof (induction "sum_list (map left_to_do (current s))" arbitrary: s rule: less_induct)
  case less
  show ?case
  proof (cases "\<forall>i < NUM. current s ! i = Wait1")
    case False
    with someone_moves [OF less.prems] obtain i s1 where i: "i < NUM" "current s ! i \<noteq> Wait1" "ThreadFun i s = Some s1" by blast
    have s1: "table_inv s1" "current s1 = (current s)[i := next_at (current s ! i)]" using ThreadFun_inv(2) [OF less.prems i(1,3)] by simp_all
    have l: "i < length (current s)" using less.prems i(1) by (simp add: table_inv_def)
    note sums = but_nth_update(3,4) [OF l, where f = left_to_do]
    have "left_to_do (next_at (current s ! i)) < left_to_do (current s ! i)" using i(2) by (cases "current s ! i") simp_all
    then have "sum_list (map left_to_do (current s1)) < sum_list (map left_to_do (current s))"
      by (simp add: s1(2) sums)
    from less.hyps [OF this s1(1)] obtain s' where "dine\<^sup>*\<^sup>* s1 s'" "table_inv s'" "\<forall>i < NUM. current s' ! i = Wait1" by blast
    moreover have "dine s s1" using i(1,3) by (rule dine.intros)
    ultimately show ?thesis by (blast intro: converse_rtranclp_into_rtranclp)
  qed (use less.prems in blast)
qed

lemma all_free:
  assumes inv: "table_inv s" and w: "\<forall>i < NUM. current s ! i = Wait1" and f: "f < NUM"
  shows "Mutext s ! f = CreateMutexA"
proof (rule ccontr)
  assume "Mutext s ! f \<noteq> CreateMutexA"
  with inv f obtain i where i: "i < NUM" "Mutext s ! f = locked_by i" unfolding table_inv_def by blast
  then have "f \<in> held i (current s ! i)" using inv f by (simp add: table_inv_def)
  with w i(1) show False by simp
qed

section \<open>Properties\<close>

text \<open>
  C40. Forks are not shared: in every state the six threads can reach, a philosopher who dines owns both forks, and two neighbours never dine at the same time.
\<close>

theorem neighbours_never_dine_together:
  assumes "dine\<^sup>*\<^sup>* dinner s" and "i < NUM" and "current s ! i = Dine"
  shows "Mutext s ! i = locked_by i \<and> Mutext s ! ((i + 1) mod NUM) = locked_by i \<and> current s ! ((i + 1) mod NUM) \<noteq> Dine"
proof -
  have inv: "table_inv s" using assms(1) by (rule dine_inv)
  have n: "(i + 1) mod NUM < NUM" by (simp add: NUM_def)
  have own: "f < NUM \<Longrightarrow> j < NUM \<Longrightarrow> Mutext s ! f = locked_by j \<longleftrightarrow> f \<in> held j (current s ! j)" for f j using inv by (simp add: table_inv_def)
  have both: "j < NUM \<Longrightarrow> held j Dine = {j, (j + 1) mod NUM}" for j by (auto simp: fork1_def fork2_def)
  have mine: "Mutext s ! i = locked_by i" "Mutext s ! ((i + 1) mod NUM) = locked_by i"
    using own [OF assms(2,2)] own [OF n assms(2)] both [OF assms(2)] unfolding assms(3) held.simps(3) by blast+
  have "(i + 1) mod NUM \<noteq> i" using assms(2) by (auto simp: NUM_def mod_Suc)
  then have "current s ! ((i + 1) mod NUM) \<noteq> Dine"
    using own [OF n n] mine(2) both [OF n] by (auto simp: mutex_ops)
  with mine show ?thesis by simp
qed

text \<open>
  C22. There is no deadlock, and nobody is shut out for good: in every state the threads can reach some thread can move, and from there
  each philosopher can still come to dine.
\<close>

theorem everyone_can_dine:
  assumes "dine\<^sup>*\<^sup>* dinner s" and "i < NUM"
  shows "(\<exists>s'. dine s s') \<and> (\<exists>s'. dine\<^sup>*\<^sup>* s s' \<and> current s' ! i = Dine)"
proof -
  have inv: "table_inv s" using assms(1) by (rule dine_inv)
  obtain s1 where s1: "dine\<^sup>*\<^sup>* s s1" "table_inv s1" "\<forall>j < NUM. current s1 ! j = Wait1" using calm_down [OF inv] by blast
  note f = forks [OF assms(2)] and free = all_free [OF s1(2,3)]
  have w1: "wants i (current s1 ! i) = Some (fork1 i)" using s1(3) assms(2) by (simp add: wants_def)
  then obtain s2 where s2: "ThreadFun i s1 = Some s2" using ThreadFun_inv(1) [OF s1(2) assms(2)] free f by fastforce
  have i2: "table_inv s2" "current s2 = (current s1)[i := Wait2]" using ThreadFun_inv(2) [OF s1(2) assms(2) s2] s1(3) assms(2) by simp_all
  have l: "i < length (current s1)" using s1(2) assms(2) by (simp add: table_inv_def)
  have m2: "Mutext s2 = (Mutext s1)[fork1 i := locked_by i]"
    using s2 s1(3) assms(2) free f by (auto simp: ThreadFun_def lock_fork_def mutex_ops go_def)
  have w2: "wants i (current s2 ! i) = Some (fork2 i)" using i2(2) l by (simp add: wants_def)
  have "Mutext s2 ! fork2 i = CreateMutexA" using m2 free f by simp
  with w2 obtain s3 where s3: "ThreadFun i s2 = Some s3" using ThreadFun_inv(1) [OF i2(1) assms(2)] by fastforce
  have "current s3 ! i = Dine" using ThreadFun_inv(2) [OF i2(1) assms(2) s3] i2(2) l by simp
  moreover have run: "dine\<^sup>*\<^sup>* s s3" "dine\<^sup>*\<^sup>* s s2" "dine s1 s2"
    using s1(1) dine.intros [OF assms(2) s2] dine.intros [OF assms(2) s3] by simp_all
  moreover have "\<exists>s'. dine s s'" using s1(1) run(3) by (cases rule: converse_rtranclpE) blast+
  ultimately show ?thesis by blast
qed

text \<open>Philosopher 2 alone takes both forks.\<close>

definition third_dines :: table_state where
  "third_dines = the (ThreadFun 2 (the (ThreadFun 2 dinner)))"

lemma third_dines_reached: "dine\<^sup>*\<^sup>* dinner third_dines" "current third_dines ! 2 = Dine"
proof -
  have 1: "ThreadFun 2 dinner = Some (the (ThreadFun 2 dinner))" by code_simp
  have 2: "ThreadFun 2 (the (ThreadFun 2 dinner)) = Some third_dines" unfolding third_dines_def by code_simp
  have "(2 :: nat) < NUM" by (simp add: NUM_def)
  from dine.intros [OF this 1] dine.intros [OF this 2] show "dine\<^sup>*\<^sup>* dinner third_dines" by simp
  show "current third_dines ! 2 = Dine" by code_simp
qed

theorem neighbours_never_dine_together_witness:
  "current third_dines ! 2 = Dine \<and> Mutext third_dines ! 3 = locked_by 2 \<and> current third_dines ! 3 \<noteq> Dine"
  using neighbours_never_dine_together [OF third_dines_reached(1), of 2] third_dines_reached(2) by (simp add: NUM_def)

theorem everyone_can_dine_witness: "\<exists>s'. dine\<^sup>*\<^sup>* third_dines s' \<and> current s' ! 3 = Dine"
  using everyone_can_dine [OF third_dines_reached(1), of 3] by (simp add: NUM_def)

end
