(* ===== verification/Spec2Isabelle.thy ===== *)
theory Spec2Isabelle
  imports Leb128 Hash_Funcs Lru_Table Banker_Correct Line_Reader Logging Server_Run Test_Program Worker_Pool Philosophers
begin

text \<open>
  The repository is a collection of C and C++ examples.  This development verifies the ones with logic of their own: the hash tables and the LEB128 codec of
  \<^verbatim>\<open>c-hacks\<close>, the event-driven HTTP server of \<^verbatim>\<open>httptest-geektime\<close>, the banker's algorithm and the dining philosophers among the examples on
  operating systems, and the thread pool of \<^verbatim>\<open>ThreadPool/ThreadPool.h\<close>.  The theories translate the code function by function.  Properties have
  numbers, C1 to C40, in the theory of their component.

  \<^bold>\<open>Conventions.\<close>  \<^verbatim>\<open>Prelude\<close> has the result type \<open>c_res\<close>: a function that may fail yields \<open>Inl\<close> of a way to fail (an index out of bounds, a null
  pointer, an overflow of \<open>int\<close>, a failed \<open>assert\<close>, a wrong cast, a call that does not return, and so on) or \<open>Inr\<close> of its result.  \<open>c_bind\<close> sequences
  such computations, so undefined behaviour of C ends a run as a value the theorems can speak of.  The exception are accesses just past a block that real runs of the
  server survive, in the parser (terminators written one byte too far) and in \<^verbatim>\<open>onRequest\<close> (comparisons that go on behind a path without terminator): they go on
  with what lies there, which is a parameter, and are counted in the field \<open>stray\<close>, so that the theorems show them.  A \<open>struct\<close> is a record, an \<open>enum\<close> a datatype,
  \<open>uint64_t\<close>, \<open>size_t\<close> and bytes are words; \<open>int\<close> is \<open>int\<close> with checked operations (\<open>c_int\<close>) where the code adds or subtracts.  A block of memory with one
  owner is a list; objects that are shared live in a map from addresses.  \<^verbatim>\<open>C_String\<close> has zero-terminated strings and the string library the code calls.

  \<^bold>\<open>c-hacks.\<close>
  \<^item> \<^verbatim>\<open>Leb128\<close> is \<^verbatim>\<open>src/leb128.c\<close>: the encoders and decoders over bounded buffers.  The format of its comment is the specification: encoding writes exactly it,
    decoding inverts it, signed and unsigned.
  \<^item> \<^verbatim>\<open>Hash_Funcs\<close> is \<^verbatim>\<open>include/c-hacks/hashtbl-funcs.h\<close>; the locale \<open>key_fns\<close> says that equal keys have equal hashes, interpreted for each stock pair.
  \<^item> \<^verbatim>\<open>Hashtbl\<close> is \<^verbatim>\<open>src/hashtbl.c\<close>, \<^verbatim>\<open>Hashtbl_Correct\<close> its invariant, the map it stands for, and each operation on each branch: insertion under a new and an
    old key, failing allocation, automatic resizing, iteration, clearing.
  \<^item> \<^verbatim>\<open>Linked_Hashtbl\<close> is \<^verbatim>\<open>src/linked-hashtbl.c\<close> over a heap of entries that are linked twice, in their chain and in the list of all entries;
    \<^verbatim>\<open>Linked_Hashtbl_Correct\<close> gives the views of that heap, \<^verbatim>\<open>Lru_Table\<close> the list of entries by recency it implements, with eviction, enumeration and release.
  \<^item> \<^verbatim>\<open>Dictionary\<close> is the contract both tables share: the locales \<open>dictionary\<close> (insertion may fail), \<open>total_dictionary\<close> and \<open>reliable_dictionary\<close> are interpreted on
    both, which makes them refine the same map and gives the same results on any sequence of operations.

  \<^bold>\<open>The HTTP server, from the bottom.\<close>
  \<^item> \<^verbatim>\<open>Buffer\<close> (\<^verbatim>\<open>buffer.c\<close>): a block with a read and a write index as a string of bytes; the locale \<open>byte_sink\<close> is what appending promises, interpreted for blocks
    and for strings and used by the response encoder.  \<^verbatim>\<open>Http_Request\<close>, \<^verbatim>\<open>Http_Response\<close> and \<^verbatim>\<open>Http_Parser\<close> (\<^verbatim>\<open>http_request.c\<close>, \<^verbatim>\<open>http_response.c\<close>, the parser in
    \<^verbatim>\<open>http_server.c\<close>): parsing inverts the text of a request, encoding yields the text of a response.
  \<^item> \<^verbatim>\<open>Channel\<close> (\<^verbatim>\<open>channel.c\<close>, \<^verbatim>\<open>channel_map.c\<close>) and \<^verbatim>\<open>Dispatcher\<close> (\<^verbatim>\<open>poll_dispatcher.c\<close>, \<^verbatim>\<open>epoll_dispatcher.c\<close>): the locale \<open>dispatcher\<close> says that a dispatcher keeps a registry
    from descriptors to the events waited for, interpreted on \<open>poll\<close> and, for a kernel with the documented \<open>epoll_ctl\<close>, on \<open>epoll\<close>.
  \<^item> \<^verbatim>\<open>Event_Loop\<close> (\<^verbatim>\<open>event_loop.c\<close>, \<^verbatim>\<open>utils.c\<close>): operations that threads submit under the mutex go to a pending list; whatever the interleaving, the owner applies them
    one after the other, as on an abstract registry.  Proved once over the locale, and stated for both dispatchers.
  \<^item> \<^verbatim>\<open>Sockets\<close> has the operating system as a record of functions on a state of its own, and the functions that prepare sockets (\<^verbatim>\<open>tcp_server.c\<close>, \<^verbatim>\<open>acceptor.c\<close>,
    \<^verbatim>\<open>tcp_client.c\<close>, \<^verbatim>\<open>sock_ntop.c\<close>).  \<^verbatim>\<open>Net_State\<close> has the objects of the network layer and the memory they share.  \<^verbatim>\<open>Thread_Pool\<close>, \<^verbatim>\<open>Tcp_Connection\<close>, \<^verbatim>\<open>Tcp_Server\<close> and
    \<^verbatim>\<open>Http_Server\<close> are the files of these names: the handshake that starts a thread is a step relation of both threads; connections are created, read, written
    and closed through callbacks whose type \<open>conn_callback\<close> lists the functions the program passes.
  \<^item> \<^verbatim>\<open>Http_Exchange\<close> composes all of it: from the bytes of a request on a socket to the bytes of the response.  Fresh memory is arbitrary there: \<open>page_for\<close> says which page
    the comparisons choose, \<open>route\<close> the page of the url, which it is where the bytes that miss as terminators hold a zero (\<open>zero_terminated\<close>).  \<^verbatim>\<open>Net_Typing\<close> is a typing of the memory that every step of the
    program keeps, so that \<^verbatim>\<open>void *\<close> data is cast back to what it was.  \<^verbatim>\<open>Demo_Server\<close> and \<^verbatim>\<open>Test_Program\<close> are the main programs of \<^verbatim>\<open>src\<close>.
  \<^item> \<^verbatim>\<open>Server_Run\<close> lets the loops of the main program run: a round of \<open>event_loop_run\<close> over \<open>poll\<close> with all callbacks, by whichever thread owns the loop.  From the start of the
    program on, an invariant of the whole memory (\<open>serving\<close>) is kept by the three rounds a client takes, across two threads, and every client is sent its response.
  \<^item> \<^verbatim>\<open>Line_Reader\<close> (\<^verbatim>\<open>read.c\<close>) and \<^verbatim>\<open>Logging\<close> (\<^verbatim>\<open>log.c\<close>) stand beside the server: readers of lines and messages, and how log lines are cut.

  \<^bold>\<open>The other examples.\<close>
  \<^item> \<^verbatim>\<open>Banker\<close> is \<^verbatim>\<open>banker.c\<close> over a record of its global variables, its input the text \<open>scanf\<close> has not read yet.  \<^verbatim>\<open>Banker_Correct\<close>: resources are conserved, a request is
    granted into a safe state or undone, a positive safety check leaves a safe sequence, and exactly which states
    it finds safe, not all that are.
  \<^item> \<^verbatim>\<open>Worker_Pool\<close> is \<^verbatim>\<open>ThreadPool.h\<close> and \<^verbatim>\<open>Philosophers\<close> the dining philosophers, both as threads with control points whose steps interleave, with invariants by
    induction on reachable states and a measure for the runs that must end.  Wake-ups without a notification are steps apart, so that progress is proved without them.

  \<^bold>\<open>What is assumed.\<close>  Code outside the repository is a parameter: \<open>malloc\<close> and \<open>realloc\<close> may fail, and fresh memory has any content; \<open>readv\<close>, \<open>read\<close>, \<open>recv\<close>, \<open>write\<close>, \<open>poll\<close>, \<open>epoll_ctl\<close>,
  \<open>epoll_wait\<close> and the other calls of the record \<open>sys\<close> answer as they like; the sign of \<open>strncmp\<close> follows the first difference; hash, equality, release and evictor callbacks act
  on an environment of their own.  Where a property needs documented behaviour of one of these, a hypothesis says so (\<open>realloc_total\<close>, \<open>readv_ok\<close>, \<open>diff_ok\<close>, \<open>epoll_ctl_ok\<close>,
  \<open>poll_plat\<close>, \<open>ample\<close>: memory suffices, \<open>can_listen\<close>, \<open>client_ok\<close>), or the call is given (\<open>poll_reports\<close>: \<open>poll\<close> when one descriptor is ready), and its witness instantiates it.  Processors are taken to be little endian with sequentially consistent memory, and the system calls
  of one step to be atomic.

  \<^bold>\<open>Loops.\<close>  Loops that may run forever are partial functions, where not returning is \<open>None\<close>: the parser, which spins on an incomplete line, \<open>readn\<close> and \<open>readline\<close>, the
  rounding of a table size, and the event loop, which never returns.  The other loops recurse on the data or have a termination proof.  Walks along pointers in
  \<^verbatim>\<open>Linked_Hashtbl\<close> and along the pending list of \<^verbatim>\<open>Event_Loop\<close> are bounded by the number of cells there are, which the invariants show to suffice.  The menu of
  \<^verbatim>\<open>Banker\<close> takes a number of rounds; its invariant holds after any sequence of valid requests, checks and printing.

  \<^bold>\<open>Not modelled.\<close>  Output is left out except where it is what a function is for.  \<^verbatim>\<open>c-hacks/src/btree.c\<close> is empty.  The rest of the repository is third-party code
  (\<^verbatim>\<open>spdlog\<close>, \<^verbatim>\<open>SimpleIni.h\<close>, the npcap SDK and its headers, \<^verbatim>\<open>CUnitTest.h\<close>), generated code (\<^verbatim>\<open>protobuftest\<close>), tests, build files, and programs that only call libraries that are not
  here (\<^verbatim>\<open>boost\<close>, \<^verbatim>\<open>opencv-test\<close>, \<^verbatim>\<open>coord-convert\<close>, \<^verbatim>\<open>wireshark/npcap-test/src/readfile.c\<close>).  Releasing objects is modelled where it decides what callbacks see; leaks are noted as
  findings.
\<close>

end
